(* ===== verification/C_Prelude.thy ===== *)
theory C_Prelude
  imports Main "HOL-Library.Word"
begin

text \<open>
  What every component of the development shares: the ways a C computation can go wrong as
  values of an error type, the sequencing of fallible steps, C strings and the character
  classes of \<^verbatim>\<open>ctype.h\<close> in the C locale, the unsigned integer types, and the decimal
  conversions of \<^verbatim>\<open>printf\<close>.

  A C string is the list of its bytes before the terminating zero.  A \<^verbatim>\<open>char *\<close> that walks over
  a string is the suffix it points at, or an index where the code moves it by more than one
  byte at a time.
\<close>

unbundle bit_operations_syntax

named_theorems c_simps \<open>unfolding rules for the C-level helpers\<close>
named_theorems res_elims \<open>inversion rules for sequenced results\<close>

type_synonym u8 = "8 word"
type_synonym u32 = "32 word"
type_synonym u64 = "64 word"

section \<open>Errors and sequencing\<close>

text \<open>
  \<^item> \<open>NullDeref\<close>: a null pointer is dereferenced or used in pointer arithmetic;
  \<^item> \<open>OutOfBounds\<close>: an access past the end of an array or past the terminator of a string;
  \<^item> \<open>UseAfterFree\<close>: an access to an object that has been freed;
  \<^item> \<open>Fatal\<close>: the process is terminated by \<^verbatim>\<open>fatal()\<close>;
  \<^item> \<open>BadCast\<close>: a floating point value is converted to an integer type it does not fit;
  \<^item> \<open>DivByZero\<close>: an integer division or remainder by zero;
  \<^item> \<open>Overflow\<close>: a sum of signed integers does not fit their type;
  \<^item> \<open>Deadlock\<close>: a lock is requested that the same thread already holds;
  \<^item> \<open>Opaque\<close>: bytes are requested of an object whose contents the model does not hold;
  \<^item> \<open>Unfinished\<close>: a loop has not ended within the number of rounds it was given.
\<close>

datatype c_error =
    NullDeref
  | OutOfBounds
  | UseAfterFree
  | Fatal
  | BadCast
  | DivByZero
  | Overflow
  | Deadlock
  | Opaque
  | Unfinished

type_synonym 'a res = "c_error + 'a"

fun rbind :: "'a res \<Rightarrow> ('a \<Rightarrow> 'b res) \<Rightarrow> 'b res" where
  "rbind (Inl e) f = Inl e"
| "rbind (Inr x) f = f x"

lemma rbind_Inr_iff [simp]: "rbind m f = Inr y \<longleftrightarrow> (\<exists>x. m = Inr x \<and> f x = Inr y)"
  by (cases m) auto

lemma rbind_InrE [res_elims, elim!]:
  assumes "rbind m f = Inr y"
  obtains x where "m = Inr x" "f x = Inr y"
  using assms by auto

lemma rbind_assoc: "rbind (rbind m f) g = rbind m (\<lambda>x. rbind (f x) g)"
  by (cases m) auto

lemma rbind_cong [fundef_cong]:
  assumes "m = m'" and "\<And>x. m' = Inr x \<Longrightarrow> f x = f' x"
  shows "rbind m f = rbind m' f'"
  using assms by (cases m') auto

text \<open>Run a fallible step for every element of a list, in order, stopping at the first error.\<close>

fun rfold :: "('a \<Rightarrow> 's \<Rightarrow> 's res) \<Rightarrow> 'a list \<Rightarrow> 's \<Rightarrow> 's res" where
  "rfold f [] s = Inr s"
| "rfold f (x # xs) s = rbind (f x s) (rfold f xs)"

lemma rfold_append: "rfold f (xs @ ys) s = rbind (rfold f xs s) (rfold f ys)"
  by (induction xs arbitrary: s) (auto simp: rbind_assoc intro!: rbind_cong)

lemma rfold_invariant:
  assumes "P s" and "\<And>x s s'. x \<in> set xs \<Longrightarrow> P s \<Longrightarrow> f x s = Inr s' \<Longrightarrow> P s'"
    and "rfold f xs s = Inr s'"
  shows "P s'"
  using assms
proof (induction xs arbitrary: s)
  case Nil
  then show ?case by simp
next
  case (Cons x xs)
  from Cons.prems(3) obtain t where t: "f x s = Inr t" "rfold f xs t = Inr s'"
    by auto
  have "P t" using Cons.prems(1,2) t(1) by (meson list.set_intros(1))
  then show ?case using Cons.IH Cons.prems(2) t(2) by (meson list.set_intros(2))
qed

section \<open>Characters and strings\<close>

abbreviation (input) NUL :: char where "NUL \<equiv> CHR 0x00"
abbreviation (input) SQUOTE :: char where "SQUOTE \<equiv> CHR 0x27"
abbreviation (input) DQUOTE :: char where "DQUOTE \<equiv> CHR 0x22"
abbreviation (input) BACKSLASH :: char where "BACKSLASH \<equiv> CHR 0x5C"
abbreviation (input) NEWLINE :: char where "NEWLINE \<equiv> CHR 0x0A"
abbreviation (input) SPACE :: char where "SPACE \<equiv> CHR 0x20"

definition code :: "char \<Rightarrow> nat" where
  "code c = of_char c"

lemma code_less [simp]: "code c < 256"
  unfolding code_def by (rule nat_of_char_less_256)

definition isspace :: "char \<Rightarrow> bool" where
  "isspace c \<longleftrightarrow> c = SPACE \<or> (9 \<le> code c \<and> code c \<le> 13)"

definition isdigit :: "char \<Rightarrow> bool" where
  "isdigit c \<longleftrightarrow> 48 \<le> code c \<and> code c \<le> 57"

definition iscntrl :: "char \<Rightarrow> bool" where
  "iscntrl c \<longleftrightarrow> code c < 32 \<or> code c = 127"

text \<open>The value of a \<^verbatim>\<open>char\<close> as an \<^verbatim>\<open>int\<close>, on a target whose plain \<^verbatim>\<open>char\<close> is signed.\<close>

definition schar :: "char \<Rightarrow> int" where
  "schar c = (if code c < 128 then int (code c) else int (code c) - 256)"

text \<open>A string as C sees it: no zero byte before its terminator.\<close>

definition cstring :: "string \<Rightarrow> bool" where
  "cstring s \<longleftrightarrow> NUL \<notin> set s"

text \<open>The byte a pointer to the suffix \<open>s\<close> reads; the terminator at the end.\<close>

fun peek :: "string \<Rightarrow> char" where
  "peek [] = NUL"
| "peek (c # s) = c"

text \<open>\<^verbatim>\<open>strchr\<close> on the suffix a pointer points at; \<open>None\<close> is the null pointer.\<close>

fun strchr :: "string \<Rightarrow> char \<Rightarrow> string option" where
  "strchr [] c = None"
| "strchr (x # s) c = (if x = c then Some (x # s) else strchr s c)"

lemma strchr_None_iff: "strchr s c = None \<longleftrightarrow> c \<notin> set s"
  by (induction s) auto

lemma strchr_append: "c \<notin> set xs \<Longrightarrow> strchr (xs @ c # ys) c = Some (c # ys)"
  by (induction xs) auto

lemma strchr_skip: "c \<notin> set xs \<Longrightarrow> strchr (xs @ ys) c = strchr ys c"
  by (induction xs) auto

lemma isspace_not_isdigit: "isspace c \<Longrightarrow> \<not> isdigit c"
  by (auto simp: isspace_def isdigit_def code_def)

section \<open>Decimal numbers\<close>

definition digit_char :: "nat \<Rightarrow> char" where
  "digit_char d = char_of (48 + d)"

definition digit_val :: "char \<Rightarrow> nat" where
  "digit_val c = code c - 48"

lemma code_digit_char: "d < 10 \<Longrightarrow> code (digit_char d) = 48 + d"
  by (simp add: code_def digit_char_def)

lemma isdigit_digit_char [simp]: "d < 10 \<Longrightarrow> isdigit (digit_char d)"
  by (simp add: isdigit_def code_digit_char)

lemma digit_val_digit_char [simp]: "d < 10 \<Longrightarrow> digit_val (digit_char d) = d"
  by (simp add: digit_val_def code_digit_char)

text \<open>\<^verbatim>\<open>%u\<close>, \<^verbatim>\<open>%lu\<close> and \<^verbatim>\<open>PRIu64\<close>: the shortest decimal numeral.\<close>

fun show_nat :: "nat \<Rightarrow> string" where
  "show_nat n = (if n < 10 then [digit_char n] else show_nat (n div 10) @ [digit_char (n mod 10)])"

declare show_nat.simps [simp del]

text \<open>\<^verbatim>\<open>%d\<close> and \<^verbatim>\<open>PRId64\<close>.\<close>

definition show_int :: "int \<Rightarrow> string" where
  "show_int i = (if i < 0 then CHR ''-'' # show_nat (nat (- i)) else show_nat (nat i))"

text \<open>The number a string of decimal digits denotes.\<close>

definition dec_value :: "string \<Rightarrow> nat" where
  "dec_value ds = foldl (\<lambda>n c. n * 10 + digit_val c) 0 ds"

lemma dec_value_foldl: "foldl (\<lambda>n c. n * 10 + digit_val c) n ds = n * 10 ^ length ds + dec_value ds"
proof (induction ds arbitrary: n)
  case Nil
  then show ?case by (simp add: dec_value_def)
next
  case (Cons c ds)
  have *: "foldl (\<lambda>n c. n * 10 + digit_val c) 0 (c # ds) = digit_val c * 10 ^ length ds + dec_value ds"
    using Cons.IH [of "digit_val c"] by simp
  show ?case
    using Cons.IH [of "n * 10 + digit_val c"] * by (simp add: dec_value_def algebra_simps)
qed

lemma dec_value_Nil [simp]: "dec_value [] = 0"
  by (simp add: dec_value_def)

lemma dec_value_Cons: "dec_value (c # ds) = digit_val c * 10 ^ length ds + dec_value ds"
  using dec_value_foldl [of "digit_val c" ds] by (simp add: dec_value_def)

lemma dec_value_snoc: "dec_value (ds @ [c]) = dec_value ds * 10 + digit_val c"
  by (simp add: dec_value_def)

lemma digit_val_le: "isdigit c \<Longrightarrow> digit_val c \<le> 9"
  unfolding isdigit_def digit_val_def by linarith

lemma dec_value_less: "\<forall>c \<in> set ds. isdigit c \<Longrightarrow> dec_value ds < 10 ^ length ds"
proof (induction ds)
  case Nil
  then show ?case by simp
next
  case (Cons c ds)
  then have "dec_value ds < 10 ^ length ds" and "digit_val c * 10 ^ length ds \<le> 9 * 10 ^ length ds"
    using digit_val_le [of c] mult_le_mono1 by auto
  then have "digit_val c * 10 ^ length ds + dec_value ds < 9 * 10 ^ length ds + 10 ^ length ds"
    by (rule add_le_less_mono [rotated])
  then show ?case by (simp add: dec_value_Cons)
qed

lemma show_nat_digits: "\<forall>c \<in> set (show_nat n). isdigit c"
proof (induction n rule: show_nat.induct)
  case (1 n)
  show ?case
    by (subst show_nat.simps) (use 1 in auto)
qed

lemma show_nat_not_Nil [simp]: "show_nat n \<noteq> []"
  by (subst show_nat.simps) simp

lemma dec_value_show_nat [simp]: "dec_value (show_nat n) = n"
proof (induction n rule: show_nat.induct)
  case (1 n)
  show ?case
  proof (cases "n < 10")
    case True
    then show ?thesis by (simp add: show_nat.simps [of n] dec_value_Cons)
  next
    case False
    with 1 show ?thesis by (simp add: show_nat.simps [of n] dec_value_snoc)
  qed
qed

lemma show_nat_inject [simp]: "show_nat m = show_nat n \<longleftrightarrow> m = n"
  by (metis dec_value_show_nat)

lemma takeWhile_isdigit_show_nat:
  "(s = [] \<or> \<not> isdigit (hd s)) \<Longrightarrow> takeWhile isdigit (show_nat n @ s) = show_nat n"
  using show_nat_digits [of n] by (cases s) (simp_all add: takeWhile_append2)

lemma dropWhile_isspace_show_nat: "dropWhile isspace (show_nat n @ s) = show_nat n @ s"
proof -
  obtain c cs where c: "show_nat n = c # cs" by (cases "show_nat n") auto
  then have "isdigit c" using show_nat_digits [of n] by simp
  then show ?thesis using c isspace_not_isdigit by auto
qed

end
