(* ===== verification/Number_Codec.thy ===== *)
theory Number_Codec
  imports C_Prelude
begin

text \<open>
  The integer encodings of \<^verbatim>\<open>libnetdata/buffer\<close>: the digit tables that
  \<^verbatim>\<open>initialize_ascii_maps\<close> fills, the printers that write a number least significant digit
  first and then reverse it in place, and the loop shared by the readers of
  \<^verbatim>\<open>libnetdata/inlined.h\<close>.  The locale \<open>digit_codec\<close> states what a digit alphabet and its
  inverse table owe each other; both alphabets of the code are instances of it, and the round
  trips of the readers rest on it.
\<close>

section \<open>The digit tables\<close>

definition hex_digits :: string where
  "hex_digits = ''0123456789ABCDEF''"

definition base64_digits :: string where
  "base64_digits = ''ABCDEFGHIJKLMNOPQRSTUVWXYZabcdefghijklmnopqrstuvwxyz0123456789+/''"

definition toupper :: "char \<Rightarrow> char" where
  "toupper c = (if 97 \<le> code c \<and> code c \<le> 122 then char_of (code c - 32) else c)"

definition tolower :: "char \<Rightarrow> char" where
  "tolower c = (if 65 \<le> code c \<and> code c \<le> 90 then char_of (code c + 32) else c)"

text \<open>The two loops of \<^verbatim>\<open>initialize_ascii_maps\<close>; 255 marks a byte that is no digit.\<close>

definition hex_value_from_ascii :: "char \<Rightarrow> nat" where
  "hex_value_from_ascii =
     foldl (\<lambda>m i. (m (toupper (hex_digits ! i) := i)) (tolower (hex_digits ! i) := i))
       (\<lambda>_. 255) [0 ..< 16]"

definition base64_value_from_ascii :: "char \<Rightarrow> nat" where
  "base64_value_from_ascii = foldl (\<lambda>m i. m (base64_digits ! i := i)) (\<lambda>_. 255) [0 ..< 64]"

section \<open>Printing\<close>

text \<open>
  \<^verbatim>\<open>char_array_reverse\<close>: two pointers that move towards each other and swap what they point
  at; both ends are inclusive.
\<close>

function char_array_reverse :: "string \<Rightarrow> nat \<Rightarrow> nat \<Rightarrow> string" where
  "char_array_reverse xs b e =
     (if b < e then char_array_reverse (xs[e := xs ! b, b := xs ! e]) (b + 1) (e - 1) else xs)"
  by pat_completeness auto
termination
  by (relation "measure (\<lambda>(xs, b, e). e - b)") auto

declare char_array_reverse.simps [simp del]

text \<open>
  The do-while loops of \<^verbatim>\<open>print_uint64_reversed\<close>, \<^verbatim>\<open>print_uint64_hex_reversed\<close> and
  \<^verbatim>\<open>print_uint64_base64_reversed\<close>: at least one digit, the least significant first.
\<close>

function print_uint64_reversed :: "u64 \<Rightarrow> string" where
  "print_uint64_reversed v =
     digit_char (unat (v mod 10)) # (if v div 10 \<noteq> 0 then print_uint64_reversed (v div 10) else [])"
  by pat_completeness auto
termination
proof (relation "measure unat")
  fix v :: u64
  assume "v div 10 \<noteq> 0"
  then have "0 < unat v" by (auto simp: unat_gt_0)
  then show "(v div 10, v) \<in> measure unat" by (simp add: unat_div)
qed simp

declare print_uint64_reversed.simps [simp del]

lemma unat_drop_bit_less: "0 < k \<Longrightarrow> drop_bit k v \<noteq> 0 \<Longrightarrow> unat (drop_bit k v) < unat (v :: u64)"
proof -
  assume k: "0 < k" and "drop_bit k v \<noteq> 0"
  then have "v \<noteq> 0" by auto
  then have v: "0 < unat v" by (simp add: unat_gt_0)
  have "unat (drop_bit k v) = unat v div 2 ^ k"
    by (simp only: unat_drop_bit_eq) (simp add: drop_bit_eq_div)
  also have "\<dots> < unat v" using k v by (intro div_less_dividend) (simp_all add: one_less_power del: One_nat_def)
  finally show ?thesis .
qed

function radix_reversed :: "nat \<Rightarrow> string \<Rightarrow> u64 \<Rightarrow> string" where
  "radix_reversed k digits v =
     digits ! unat (v AND mask k)
     # (if 0 < k \<and> drop_bit k v \<noteq> 0 then radix_reversed k digits (drop_bit k v) else [])"
  by pat_completeness auto
termination
  by (relation "measure (\<lambda>(k, digits, v). unat v)") (auto intro: unat_drop_bit_less)

declare radix_reversed.simps [simp del]

definition print_uint64_hex_reversed :: "u64 \<Rightarrow> string" where
  "print_uint64_hex_reversed v = radix_reversed 4 hex_digits v"

definition print_uint64_base64_reversed :: "u64 \<Rightarrow> string" where
  "print_uint64_base64_reversed v = radix_reversed 6 base64_digits v"

text \<open>\<^verbatim>\<open>print_uint64_hex_reversed_full\<close>: always sixteen digits.\<close>

fun print_hex_full_loop :: "nat \<Rightarrow> u64 \<Rightarrow> string" where
  "print_hex_full_loop 0 v = []"
| "print_hex_full_loop (Suc c) v = hex_digits ! unat (v AND 15) # print_hex_full_loop c (drop_bit 4 v)"

definition print_uint64_hex_reversed_full :: "u64 \<Rightarrow> string" where
  "print_uint64_hex_reversed_full v = print_hex_full_loop 16 v"

text \<open>
  The printers write the reversed digits at the end of a buffer and reverse them there.  The
  text of a buffer is a string; a printer returns it with its number appended.  A signed number
  is given by its bits, and its negation wraps.
\<close>

definition append_reversed :: "string \<Rightarrow> string \<Rightarrow> string" where
  "append_reversed wb ds = char_array_reverse (wb @ ds) (length wb) (length wb + length ds - 1)"

definition print_uint64 :: "string \<Rightarrow> u64 \<Rightarrow> string" where
  "print_uint64 wb v = append_reversed wb (print_uint64_reversed v)"

definition print_int64 :: "string \<Rightarrow> u64 \<Rightarrow> string" where
  "print_int64 wb v = (if v <s 0 then print_uint64 (wb @ ''-'') (- v) else print_uint64 wb v)"

definition buffer_print_uint64 :: "string \<Rightarrow> u64 \<Rightarrow> string" where
  "buffer_print_uint64 wb v = print_uint64 wb v"

definition buffer_print_int64 :: "string \<Rightarrow> u64 \<Rightarrow> string" where
  "buffer_print_int64 wb v = print_int64 wb v"

definition print_uint64_hex :: "string \<Rightarrow> u64 \<Rightarrow> string" where
  "print_uint64_hex wb v = append_reversed (wb @ ''0x'') (print_uint64_hex_reversed v)"

definition print_uint64_hex_full :: "string \<Rightarrow> u64 \<Rightarrow> string" where
  "print_uint64_hex_full wb v = append_reversed (wb @ ''0x'') (print_uint64_hex_reversed_full v)"

definition buffer_print_uint64_hex :: "string \<Rightarrow> u64 \<Rightarrow> string" where
  "buffer_print_uint64_hex wb v = print_uint64_hex wb v"

definition buffer_print_uint64_base64 :: "string \<Rightarrow> u64 \<Rightarrow> string" where
  "buffer_print_uint64_base64 wb v = append_reversed (wb @ ''#'') (print_uint64_base64_reversed v)"

definition buffer_print_int64_hex :: "string \<Rightarrow> u64 \<Rightarrow> string" where
  "buffer_print_int64_hex wb v =
     (if v <s 0 then buffer_print_uint64_hex (wb @ ''-'') (- v) else buffer_print_uint64_hex wb v)"

definition buffer_print_int64_base64 :: "string \<Rightarrow> u64 \<Rightarrow> string" where
  "buffer_print_int64_base64 wb v =
     (if v <s 0 then buffer_print_uint64_base64 (wb @ ''-'') (- v) else buffer_print_uint64_base64 wb v)"

datatype number_encoding =
    NUMBER_ENCODING_DECIMAL
  | NUMBER_ENCODING_HEX
  | NUMBER_ENCODING_BASE64

definition buffer_print_int64_encoded :: "string \<Rightarrow> number_encoding \<Rightarrow> u64 \<Rightarrow> string" where
  "buffer_print_int64_encoded wb encoding v =
     (if encoding = NUMBER_ENCODING_BASE64 then buffer_print_int64_base64 wb v
      else if encoding = NUMBER_ENCODING_HEX then buffer_print_int64_hex wb v
      else buffer_print_int64 wb v)"

definition buffer_print_uint64_encoded :: "string \<Rightarrow> number_encoding \<Rightarrow> u64 \<Rightarrow> string" where
  "buffer_print_uint64_encoded wb encoding v =
     (if encoding = NUMBER_ENCODING_BASE64 then buffer_print_uint64_base64 wb v
      else if encoding = NUMBER_ENCODING_HEX then buffer_print_uint64_hex wb v
      else buffer_print_uint64 wb v)"

section \<open>Reading\<close>

text \<open>
  The loop of the readers in \<^verbatim>\<open>inlined.h\<close>: shift the accumulator by the digit's width and
  put the digit in, until a byte is no digit.  The terminator is no digit.
\<close>

fun radix_loop :: "nat \<Rightarrow> (char \<Rightarrow> nat) \<Rightarrow> 'w::len word \<Rightarrow> string \<Rightarrow> 'w word \<times> string" where
  "radix_loop k value_of n [] = (n, [])"
| "radix_loop k value_of n (c # s) =
     (if value_of c \<noteq> 255 then radix_loop k value_of (push_bit k n OR of_nat (value_of c)) s
      else (n, c # s))"

section \<open>The in-place reversal\<close>

lemma length_char_array_reverse [simp]: "length (char_array_reverse xs b e) = length xs"
  by (induction xs b e rule: char_array_reverse.induct) (simp add: char_array_reverse.simps)

lemma char_array_reverse_nth:
  assumes "e < length xs" and "i < length xs"
  shows "char_array_reverse xs b e ! i = (if b \<le> i \<and> i \<le> e then xs ! (b + e - i) else xs ! i)"
  using assms
proof (induction xs b e arbitrary: i rule: char_array_reverse.induct)
  case (1 xs b e)
  show ?case
  proof (cases "b < e")
    case True
    have "char_array_reverse xs b e ! i =
        char_array_reverse (xs[e := xs ! b, b := xs ! e]) (b + 1) (e - 1) ! i"
      using True by (simp add: char_array_reverse.simps [of xs b e])
    also have "\<dots> = (if b + 1 \<le> i \<and> i \<le> e - 1
        then xs[e := xs ! b, b := xs ! e] ! (b + 1 + (e - 1) - i)
        else xs[e := xs ! b, b := xs ! e] ! i)"
      using 1 True by simp
    also have "\<dots> = (if b \<le> i \<and> i \<le> e then xs ! (b + e - i) else xs ! i)"
      using True 1(2,3) by (auto simp: nth_list_update)
    finally show ?thesis .
  next
    case False
    then have "b \<le> i \<and> i \<le> e \<Longrightarrow> b + e - i = i" by linarith
    then show ?thesis using False by (auto simp: char_array_reverse.simps [of xs b e])
  qed
qed

lemma append_reversed_eq: "append_reversed wb ds = wb @ rev ds"
proof (cases "ds = []")
  case True
  have "\<not> length wb < length wb - 1" by linarith
  then show ?thesis
    using True by (simp add: append_reversed_def char_array_reverse.simps [of wb])
next
  case False
  then have len: "length wb + length ds - 1 < length (wb @ ds)" by (cases ds) auto
  show ?thesis
  proof (rule nth_equalityI)
    show "length (append_reversed wb ds) = length (wb @ rev ds)"
      by (simp add: append_reversed_def)
    fix i
    assume "i < length (append_reversed wb ds)"
    then have i: "i < length (wb @ ds)" by (simp add: append_reversed_def)
    have "append_reversed wb ds ! i =
        (if length wb \<le> i \<and> i \<le> length wb + length ds - 1
         then (wb @ ds) ! (length wb + (length wb + length ds - 1) - i) else (wb @ ds) ! i)"
      unfolding append_reversed_def by (rule char_array_reverse_nth [OF len i])
    also have "\<dots> = (wb @ rev ds) ! i"
    proof (cases "length wb \<le> i")
      case True
      then obtain j where j: "i = length wb + j" "j < length ds"
        using i by (metis add_less_cancel_left le_Suc_ex length_append)
      then have cond: "length wb \<le> i \<and> i \<le> length wb + length ds - 1"
        and pos: "length wb + (length wb + length ds - 1) - i = length wb + (length ds - Suc j)"
        by simp_all
      show ?thesis
        unfolding if_P [OF cond] pos unfolding j(1) nth_append_length_plus using j(2) by (simp add: rev_nth)
    next
      case False
      then show ?thesis by (simp add: nth_append)
    qed
    finally show "append_reversed wb ds ! i = (wb @ rev ds) ! i" .
  qed
qed

section \<open>The contract of a digit alphabet\<close>

locale digit_codec =
  fixes bits :: nat
    and digits :: string
    and value_of :: "char \<Rightarrow> nat"
  assumes bits_pos: "0 < bits"
    and bits_small: "bits < 8"
    and value_digit: "i < 2 ^ bits \<Longrightarrow> value_of (digits ! i) = i"
    and digit_not_space: "i < 2 ^ bits \<Longrightarrow> \<not> isspace (digits ! i)"
begin

lemma digit_less: "unat (v AND mask bits :: u64) < 2 ^ bits"
proof -
  have "unat (v AND mask bits :: u64) = take_bit bits (unat v)"
    by (simp add: unsigned_take_bit_eq flip: take_bit_eq_mask)
  then show ?thesis by simp
qed

lemma radix_reversed_not_space: "c \<in> set (radix_reversed bits digits v) \<Longrightarrow> \<not> isspace c"
proof (induction "unat v" arbitrary: v rule: less_induct)
  case less
  have d: "\<not> isspace (digits ! unat (v AND mask bits))"
    using digit_less by (rule digit_not_space)
  show ?case
  proof (cases "drop_bit bits v = 0")
    case True
    then show ?thesis using less.prems d by (simp add: radix_reversed.simps [of bits digits v])
  next
    case False
    then have "unat (drop_bit bits v) < unat v" using bits_pos by (intro unat_drop_bit_less)
    then show ?thesis
      using less d False bits_pos by (auto simp: radix_reversed.simps [of bits digits v])
  qed
qed

lemma value_printed_digit: "value_of (digits ! unat (v AND mask bits :: u64)) = unat (v AND mask bits)"
  using digit_less by (rule value_digit)

lemma value_printed_not_255: "value_of (digits ! unat (v AND mask bits :: u64)) \<noteq> 255"
proof -
  have "(2 :: nat) ^ bits \<le> 2 ^ 7" using bits_small by (intro power_increasing) auto
  then show ?thesis using digit_less [of v] by (simp add: value_printed_digit)
qed

lemma shift_in_digit: "push_bit bits (drop_bit bits v) OR (v AND mask bits) = (v :: u64)"
  by (rule bit_eqI) (auto simp: bit_simps)

lemma radix_loop_snoc:
  assumes "radix_loop bits value_of n s = (m, [])" and "value_of c \<noteq> 255"
  shows "radix_loop bits value_of n (s @ c # t) =
    radix_loop bits value_of (push_bit bits m OR of_nat (value_of c)) t"
  using assms(1)
proof (induction s arbitrary: n)
  case Nil
  then show ?case using assms(2) by simp
next
  case (Cons x s)
  then show ?case by (auto split: if_splits)
qed

lemma dropWhile_printed:
  "dropWhile isspace (rev (radix_reversed bits digits v) @ t) = rev (radix_reversed bits digits v) @ t"
proof -
  have "rev (radix_reversed bits digits v) \<noteq> []" by (simp add: radix_reversed.simps [of bits digits v])
  then obtain c cs where c: "rev (radix_reversed bits digits v) = c # cs"
    by (cases "rev (radix_reversed bits digits v)") blast+
  then have "c \<in> set (radix_reversed bits digits v)" by (metis list.set_intros(1) set_rev)
  then have "\<not> isspace c" by (rule radix_reversed_not_space)
  then show ?thesis by (simp add: c)
qed

text \<open>Reading what was printed gives the number back, whatever follows that is no digit.\<close>

lemma read_printed_digits:
  "radix_loop bits value_of 0 (rev (radix_reversed bits digits v) @ t) =
   radix_loop bits value_of (v :: u64) t"
proof (induction "unat v" arbitrary: v t rule: less_induct)
  case less
  define c where "c = digits ! unat (v AND mask bits)"
  have c: "value_of c = unat (v AND mask bits)" "value_of c \<noteq> 255"
    unfolding c_def by (rule value_printed_digit, rule value_printed_not_255)
  show ?case
  proof (cases "drop_bit bits v = 0")
    case True
    have "v AND mask bits = v" using shift_in_digit [of v] True by simp
    then show ?thesis
      using True c unfolding radix_reversed.simps [of bits digits v] c_def [symmetric] by simp
  next
    case False
    then have dec: "unat (drop_bit bits v) < unat v"
      using bits_pos by (intro unat_drop_bit_less)
    have "rev (radix_reversed bits digits v) @ t =
        rev (radix_reversed bits digits (drop_bit bits v)) @ c # t"
      using False bits_pos by (simp add: radix_reversed.simps [of bits digits v] c_def)
    then have "radix_loop bits value_of 0 (rev (radix_reversed bits digits v) @ t) =
        radix_loop bits value_of (drop_bit bits v) (c # t)"
      by (simp only: less [OF dec])
    then show ?thesis using c shift_in_digit [of v] by simp
  qed
qed

end

section \<open>The two alphabets\<close>

lemma hex_value_digit: "i < 16 \<Longrightarrow> hex_value_from_ascii (hex_digits ! i) = i"
proof -
  have "\<forall>i \<in> set [0 ..< 16]. hex_value_from_ascii (hex_digits ! i) = i" by code_simp
  then show "i < 16 \<Longrightarrow> hex_value_from_ascii (hex_digits ! i) = i" by simp
qed

lemma foldl_upd_index:
  assumes "distinct ds" and "n \<le> length ds" and "i < n"
  shows "foldl (\<lambda>m i. m (ds ! i := i)) f [0 ..< n] (ds ! i) = i"
  using assms(2,3)
proof (induction n)
  case 0
  then show ?case by simp
next
  case (Suc n)
  show ?case
  proof (cases "i = n")
    case True
    then show ?thesis by simp
  next
    case False
    with Suc.prems assms(1) have "ds ! i \<noteq> ds ! n"
      by (simp add: nth_eq_iff_index_eq)
    then show ?thesis using Suc False by simp
  qed
qed

lemma distinct_base64_digits: "distinct base64_digits"
  by (simp add: base64_digits_def)

lemma length_base64_digits: "length base64_digits = 64"
  by (simp add: base64_digits_def)

lemma base64_value_digit: "i < 64 \<Longrightarrow> base64_value_from_ascii (base64_digits ! i) = i"
  unfolding base64_value_from_ascii_def
  by (rule foldl_upd_index [OF distinct_base64_digits]) (simp_all add: length_base64_digits)

lemma hex_digit_not_space: "i < 16 \<Longrightarrow> \<not> isspace (hex_digits ! i)"
proof -
  have "\<forall>c \<in> set hex_digits. \<not> isspace c" by (simp add: hex_digits_def isspace_def code_def)
  moreover have "length hex_digits = 16" by (simp add: hex_digits_def)
  ultimately show "i < 16 \<Longrightarrow> \<not> isspace (hex_digits ! i)" by simp
qed

lemma base64_digit_not_space: "i < 64 \<Longrightarrow> \<not> isspace (base64_digits ! i)"
proof -
  have "\<forall>c \<in> set base64_digits. \<not> isspace c" by (simp add: base64_digits_def isspace_def code_def)
  then show "i < 64 \<Longrightarrow> \<not> isspace (base64_digits ! i)" by (simp add: length_base64_digits)
qed

interpretation hex: digit_codec 4 hex_digits hex_value_from_ascii
  by unfold_locales (simp_all add: hex_value_digit hex_digit_not_space)

interpretation b64: digit_codec 6 base64_digits base64_value_from_ascii
  by unfold_locales (simp_all add: base64_value_digit base64_digit_not_space)

section \<open>The decimal printers\<close>

lemma print_uint64_reversed_eq: "print_uint64_reversed v = rev (show_nat (unat v))"
proof (induction v rule: print_uint64_reversed.induct)
  case (1 v)
  have m: "unat (v mod 10) = unat v mod 10" and d: "unat (v div 10) = unat v div 10"
    by (simp_all add: unat_mod unat_div)
  have z: "v div 10 = 0 \<longleftrightarrow> unat v < 10"
    using d by (metis div_eq_0_iff unat_eq_zero zero_neq_numeral)
  show ?case
  proof (cases "v div 10 = 0")
    case True
    then show ?thesis
      using z m by (simp add: print_uint64_reversed.simps [of v] show_nat.simps [of "unat v"])
  next
    case False
    then show ?thesis
      using z m d 1 by (simp add: print_uint64_reversed.simps [of v] show_nat.simps [of "unat v"])
  qed
qed

lemma print_uint64_eq: "print_uint64 wb v = wb @ show_nat (unat v)"
  by (simp add: print_uint64_def append_reversed_eq print_uint64_reversed_eq)

lemma unat_of_int_range:
  assumes "0 \<le> k" and "k < 2 ^ 64"
  shows "unat (of_int k :: u64) = nat k"
proof -
  have "uint (of_int k :: u64) = k mod 2 ^ 64"
    by (simp only: unsigned_of_int take_bit_eq_mod) simp
  then have "uint (of_int k :: u64) = k" using assms by (simp add: mod_pos_pos_trivial)
  then show ?thesis by (simp flip: nat_uint_eq)
qed

lemma unat_uminus_neg: "sint (v :: u64) < 0 \<Longrightarrow> unat (- v) = nat (- sint v)"
  using unat_of_int_range [of "- sint v"] sint_greater_eq [of v] by simp

lemma unat_nonneg: "0 \<le> sint (v :: u64) \<Longrightarrow> unat v = nat (sint v)"
  using unat_of_int_range [of "sint v"] sint_less [of v] by simp

lemma print_int64_eq: "print_int64 wb v = wb @ show_int (sint v)"
  by (simp add: print_int64_def print_uint64_eq show_int_def word_sless_alt unat_uminus_neg unat_nonneg)

end
