(* ===== verification/Inlined_Hash.thy ===== *)
theory Inlined_Hash
  imports Number_Codec
begin

text \<open>
  The hash functions of \<^verbatim>\<open>libnetdata/inlined.h\<close>.  The string hashes fold over the bytes of a
  C string at the width of the code; the two integer mixers are shown to be permutations,
  through the inverses of their steps.
\<close>

section \<open>String hashes\<close>

definition byte :: "char \<Rightarrow> 'w::len word" where
  "byte c = of_nat (code c)"

definition djb2_hash32 :: "string \<Rightarrow> u32" where
  "djb2_hash32 name = foldl (\<lambda>hash c. (push_bit 5 hash + hash) + byte c) 5381 name"

definition pluginsd_parser_hash32 :: "string \<Rightarrow> u32" where
  "pluginsd_parser_hash32 name = foldl (\<lambda>hash c. push_bit 5 hash + (byte c - byte SPACE)) 0 name"

definition larson_hash32 :: "string \<Rightarrow> u32" where
  "larson_hash32 name = foldl (\<lambda>hash c. hash * 101 + byte c) 0 name"

definition fnv1_hash32 :: "string \<Rightarrow> u32" where
  "fnv1_hash32 name = foldl (\<lambda>hash c. (hash * 0x01000193) XOR byte c) 0x811c9dc5 name"

definition fnv1a_hash32 :: "string \<Rightarrow> u32" where
  "fnv1a_hash32 name = foldl (\<lambda>hash c. (hash XOR byte c) * 0x01000193) 0x811c9dc5 name"

definition fnv1a_uhash32 :: "string \<Rightarrow> u32" where
  "fnv1a_uhash32 name =
     foldl (\<lambda>hash ch.
         let c = byte ch;
             c = (if byte (CHR ''A'') \<le> c \<and> c \<le> byte (CHR ''Z'')
                  then c + (byte (CHR ''a'') - byte (CHR ''A'')) else c)
         in (hash XOR c) * 0x01000193)
       0x811c9dc5 name"

definition fnv1a_hash_bin64 :: "u8 list \<Rightarrow> u64" where
  "fnv1a_hash_bin64 bytes =
     foldl (\<lambda>hash b. (hash XOR ucast b) * 1099511628211) 14695981039346656037 bytes"

section \<open>Integer mixers\<close>

definition xorshift :: "nat \<Rightarrow> 'w::len word \<Rightarrow> 'w word" where
  "xorshift n k = k XOR drop_bit n k"

definition murmur32 :: "u32 \<Rightarrow> u32" where
  "murmur32 k =
     (let k = xorshift 16 k; k = k * 0x85ebca6b; k = xorshift 13 k; k = k * 0xc2b2ae35
      in xorshift 16 k)"

definition murmur64 :: "u64 \<Rightarrow> u64" where
  "murmur64 k =
     (let k = xorshift 33 k; k = k * 0xff51afd7ed558ccd; k = xorshift 33 k;
          k = k * 0xc4ceb9fe1a85ec53
      in xorshift 33 k)"

section \<open>Properties\<close>

text \<open>
  A step \<^verbatim>\<open>k ^= k >> n\<close> loses nothing: the top \<open>n\<close> bits are unchanged, and each lower bit is
  recovered from a higher one.
\<close>

lemma inj_xorshift:
  assumes "0 < n"
  shows "inj (xorshift n :: 'w::len word \<Rightarrow> 'w word)"
proof (rule injI)
  fix x y :: "'w word"
  assume eq: "xorshift n x = xorshift n y"
  have step: "bit x i = bit y i" if "bit x (i + n) = bit y (i + n)" for i
  proof -
    have "bit (xorshift n x) i = bit (xorshift n y) i" using eq by simp
    then show ?thesis using that by (auto simp: xorshift_def bit_simps add.commute)
  qed
  have "bit x i = bit y i" for i
  proof (induction "LENGTH('w) - i" arbitrary: i rule: less_induct)
    case less
    show ?case
    proof (cases "i < LENGTH('w)")
      case True
      with assms have "bit x (i + n) = bit y (i + n)" by (intro less) simp
      then show ?thesis by (rule step)
    next
      case False
      then show ?thesis using bit_imp_le_length by (metis linorder_not_less)
    qed
  qed
  then show "x = y" by (simp add: bit_eq_iff)
qed

lemma inj_mult_unit:
  fixes a b :: "'w::len word"
  assumes "a * b = 1"
  shows "inj (\<lambda>k. k * a)"
  by (rule inj_on_inverseI [where g = "\<lambda>k. k * b"]) (simp add: assms mult.assoc)

lemmas inj_murmur32_steps =
  inj_xorshift [of 16, where 'w = 32] inj_xorshift [of 13, where 'w = 32]
  inj_mult_unit [of "0x85ebca6b :: u32" "0xa5cb9243"]
  inj_mult_unit [of "0xc2b2ae35 :: u32" "0x7ed1b41d"]

lemmas inj_murmur64_steps =
  inj_xorshift [of 33, where 'w = 64]
  inj_mult_unit [of "0xff51afd7ed558ccd :: u64" "0x4f74430c22a54005"]
  inj_mult_unit [of "0xc4ceb9fe1a85ec53 :: u64" "0x9cb4b2f8129337db"]

lemma bij_finite_inj: "inj f \<Longrightarrow> bij (f :: 'w::len word \<Rightarrow> 'w word)"
  by (simp add: bij_def finite_UNIV_inj_surj)

text \<open>The two integer mixers are permutations: no two keys collide.\<close>

theorem murmur_bij: "bij murmur32 \<and> bij murmur64"
proof
  have m32: "murmur32 = xorshift 16 \<circ> (\<lambda>k. k * 0xc2b2ae35) \<circ> xorshift 13 \<circ> (\<lambda>k. k * 0x85ebca6b) \<circ> xorshift 16"
    by (rule ext) (simp add: murmur32_def Let_def)
  show "bij murmur32"
    unfolding m32 by (intro bij_finite_inj inj_compose inj_murmur32_steps) simp_all
  have m64: "murmur64 = xorshift 33 \<circ> (\<lambda>k. k * 0xc4ceb9fe1a85ec53) \<circ> xorshift 33
      \<circ> (\<lambda>k. k * 0xff51afd7ed558ccd) \<circ> xorshift 33"
    by (rule ext) (simp add: murmur64_def Let_def)
  show "bij murmur64"
    unfolding m64 by (intro bij_finite_inj inj_compose inj_murmur64_steps) simp_all
qed

lemma byte_le_iff: "(byte c :: u32) \<le> byte d \<longleftrightarrow> code c \<le> code d"
proof -
  have "code c < 2 ^ 32" "code d < 2 ^ 32" by (rule less_trans [OF code_less], simp)+
  then show ?thesis by (simp add: byte_def word_le_nat_alt unat_of_nat take_bit_nat_eq_self)
qed

lemma fold_case_byte:
  "(if byte (CHR ''A'') \<le> (byte c :: u32) \<and> byte c \<le> (byte (CHR ''Z'') :: u32)
    then byte c + (byte (CHR ''a'') - byte (CHR ''A'')) else byte c) = (byte (tolower c) :: u32)"
proof -
  have codes: "code (CHR ''A'') = 65" "code (CHR ''Z'') = 90" "code (CHR ''a'') = 97"
    by (simp_all add: code_def)
  have "(byte (tolower c) :: u32) = byte c + 32" if "code c \<le> 90" "65 \<le> code c"
  proof -
    have "code (tolower c) = code c + 32" using that by (simp add: tolower_def code_def)
    then show ?thesis by (simp add: byte_def)
  qed
  then show ?thesis
    by (auto simp: byte_le_iff codes tolower_def) (simp_all add: byte_def codes)
qed

text \<open>The case-insensitive hash is the plain one of the lower-cased name.\<close>

theorem fnv1a_uhash32_tolower: "fnv1a_uhash32 name = fnv1a_hash32 (map tolower name)"
proof -
  have "foldl (\<lambda>hash c. (hash XOR byte c) * 0x01000193) h (map tolower name) =
      foldl (\<lambda>hash c. (hash XOR byte (tolower c)) * 0x01000193) h name" for h :: u32
    by (simp add: foldl_map)
  then show ?thesis
    unfolding fnv1a_uhash32_def fnv1a_hash32_def Let_def fold_case_byte by simp
qed

end
