(* ===== verification/Netdata_Double.thy ===== *)
theory Netdata_Double
  imports C_Prelude Complex_Main "HOL-Library.Log_Nat"
begin

text \<open>
  The type \<^verbatim>\<open>NETDATA_DOUBLE\<close> of \<^verbatim>\<open>libnetdata/storage_number/storage_number.h\<close> in the build
  that does not set \<^verbatim>\<open>NETDATA_WITH_LONG_DOUBLE\<close>: a C \<^verbatim>\<open>double\<close>, here the IEEE 754 binary64
  format with rounding to nearest, ties to even.  A finite double is the rational number it
  denotes; the sign of a zero is not kept, because no operation of the modelled code can
  observe it.  \<^verbatim>\<open>powndd(10.0, n)\<close> is taken correctly rounded; it is exact for
  \<open>0 \<le> n \<le> 22\<close>.

  The lemmas bound the relative error of one rounding and show which values are exact.
\<close>

datatype ndd =
    NaN
  | Inf bool  \<comment> \<open>\<open>True\<close> for minus infinity\<close>
  | Fin rat

section \<open>Rounding\<close>

text \<open>The binary exponent of a positive rational.\<close>

definition ilog2 :: "rat \<Rightarrow> int" where
  "ilog2 q =
     (case quotient_of q of (a, b) \<Rightarrow>
        let k = int (floorlog 2 (nat a)) - int (floorlog 2 (nat b))
        in if 2 powi k \<le> q then k else k - 1)"

definition round_even :: "rat \<Rightarrow> int" where
  "round_even q =
     (let f = \<lfloor>q\<rfloor>; r = q - of_int f
      in if r < 1 / 2 then f
         else if 1 / 2 < r then f + 1
         else if even f then f
         else f + 1)"

text \<open>The double nearest to a rational, with subnormals but without the overflow test.\<close>

definition fp_round :: "rat \<Rightarrow> rat" where
  "fp_round q =
     (if q = 0 then 0
      else let e = max (ilog2 \<bar>q\<bar> - 52) (- 1074)
           in of_int (round_even (q / 2 powi e)) * 2 powi e)"

definition ndd_of_rat :: "rat \<Rightarrow> ndd" where
  "ndd_of_rat q = (let r = fp_round q in if 2 ^ 1024 \<le> \<bar>r\<bar> then Inf (r < 0) else Fin r)"

section \<open>Arithmetic\<close>

definition ndd_of_nat :: "nat \<Rightarrow> ndd" where
  "ndd_of_nat n = ndd_of_rat (of_nat n)"

fun ndd_neg :: "ndd \<Rightarrow> ndd" where
  "ndd_neg NaN = NaN"
| "ndd_neg (Inf b) = Inf (\<not> b)"
| "ndd_neg (Fin q) = Fin (- q)"

fun ndd_add :: "ndd \<Rightarrow> ndd \<Rightarrow> ndd" where
  "ndd_add (Fin x) (Fin y) = ndd_of_rat (x + y)"
| "ndd_add (Inf b) (Fin y) = Inf b"
| "ndd_add (Fin x) (Inf b) = Inf b"
| "ndd_add (Inf b) (Inf c) = (if b = c then Inf b else NaN)"
| "ndd_add _ _ = NaN"

fun ndd_mult :: "ndd \<Rightarrow> ndd \<Rightarrow> ndd" where
  "ndd_mult (Fin x) (Fin y) = ndd_of_rat (x * y)"
| "ndd_mult (Inf b) (Fin y) = (if y = 0 then NaN else Inf (b \<noteq> (y < 0)))"
| "ndd_mult (Fin x) (Inf b) = (if x = 0 then NaN else Inf ((x < 0) \<noteq> b))"
| "ndd_mult (Inf b) (Inf c) = Inf (b \<noteq> c)"
| "ndd_mult _ _ = NaN"

text \<open>Division; the modelled code never divides by zero, so the sign of a zero divisor is moot.\<close>

fun ndd_div :: "ndd \<Rightarrow> ndd \<Rightarrow> ndd" where
  "ndd_div (Fin x) (Fin y) =
     (if y = 0 then (if x = 0 then NaN else Inf (x < 0)) else ndd_of_rat (x / y))"
| "ndd_div (Inf b) (Fin y) = Inf (b \<noteq> (y < 0))"
| "ndd_div (Fin x) (Inf b) = Fin 0"
| "ndd_div _ _ = NaN"

text \<open>\<^verbatim>\<open>powndd(10.0, e)\<close> at an integral exponent, and at the infinite exponents.\<close>

definition ndd_pow10 :: "int \<Rightarrow> ndd" where
  "ndd_pow10 e = ndd_of_rat (10 powi e)"

fun ndd_powndd10 :: "ndd \<Rightarrow> ndd" where
  "ndd_powndd10 NaN = NaN"
| "ndd_powndd10 (Inf b) = (if b then Fin 0 else Inf False)"
| "ndd_powndd10 (Fin q) = ndd_pow10 \<lfloor>q\<rfloor>"

text \<open>
  The conversion of a floating point value to \<^verbatim>\<open>int64_t\<close>: truncation towards zero, undefined
  when the truncated value does not fit.
\<close>

definition rat_trunc :: "rat \<Rightarrow> int" where
  "rat_trunc q = (if q < 0 then \<lceil>q\<rceil> else \<lfloor>q\<rfloor>)"

fun ndd_to_int64 :: "ndd \<Rightarrow> int res" where
  "ndd_to_int64 (Fin q) =
     (if - (2 ^ 63) \<le> rat_trunc q \<and> rat_trunc q < 2 ^ 63 then Inr (rat_trunc q) else Inl BadCast)"
| "ndd_to_int64 _ = Inl BadCast"

section \<open>Exactness and error bounds\<close>

lemma round_even_of_int [simp]: "round_even (of_int n) = n"
  by (simp add: round_even_def)

lemma round_even_error: "\<bar>of_int (round_even q) - q\<bar> \<le> 1 / 2"
proof -
  have "of_int \<lfloor>q\<rfloor> \<le> q" "q < of_int \<lfloor>q\<rfloor> + 1" by linarith+
  then show ?thesis by (auto simp: round_even_def Let_def abs_le_iff)
qed

lemma power_int_2_pos [simp]: "0 < (2 :: rat) powi k"
  by simp

lemma powi_minus_nat: "(2 :: rat) powi (int m - int n) = 2 ^ m / 2 ^ n"
  by (simp add: power_int_diff)

lemma ilog2_bounds:
  assumes "0 < q"
  shows "2 powi ilog2 q \<le> q" and "q < 2 powi (ilog2 q + 1)"
proof -
  obtain a b where ab: "quotient_of q = (a, b)" by (cases "quotient_of q")
  then have b: "0 < b" by (rule quotient_of_denom_pos)
  have q: "q = of_int a / of_int b" using ab by (rule quotient_of_div)
  with assms b have a: "0 < a" by (simp add: zero_less_divide_iff)
  define la lb where "la = floorlog 2 (nat a)" and "lb = floorlog 2 (nat b)"
  have "2 ^ (la - 1) \<le> nat a \<and> nat a < 2 ^ la"
    unfolding la_def using a by (intro floorlog_bounds) auto
  then have A: "2 ^ (la - 1) \<le> nat a" "nat a < 2 ^ la" by auto
  have "2 ^ (lb - 1) \<le> nat b \<and> nat b < 2 ^ lb"
    unfolding lb_def using b by (intro floorlog_bounds) auto
  then have B: "2 ^ (lb - 1) \<le> nat b" "nat b < 2 ^ lb" by auto
  have lpos: "0 < la" "0 < lb"
    using a b by (simp_all add: la_def lb_def floorlog_def)
  have Ar: "(2 :: rat) ^ la \<le> 2 * of_int a" "of_int a < (2 :: rat) ^ la"
  proof -
    have "2 ^ la \<le> 2 * nat a" using A(1) lpos(1) by (cases la) auto
    then have "int (2 ^ la) \<le> int (2 * nat a)" by (simp only: of_nat_le_iff)
    then have "2 ^ la \<le> 2 * a" using a by simp
    then have "(of_int (2 ^ la) :: rat) \<le> of_int (2 * a)" by (simp only: of_int_le_iff)
    then show "(2 :: rat) ^ la \<le> 2 * of_int a" by simp
    have "int (nat a) < int (2 ^ la)" using A(2) by (simp only: of_nat_less_iff)
    then have "a < 2 ^ la" using a by simp
    then have "(of_int a :: rat) < of_int (2 ^ la)" by (simp only: of_int_less_iff)
    then show "of_int a < (2 :: rat) ^ la" by simp
  qed
  have Br: "(2 :: rat) ^ lb \<le> 2 * of_int b" "of_int b < (2 :: rat) ^ lb"
  proof -
    have "2 ^ lb \<le> 2 * nat b" using B(1) lpos(2) by (cases lb) auto
    then have "int (2 ^ lb) \<le> int (2 * nat b)" by (simp only: of_nat_le_iff)
    then have "2 ^ lb \<le> 2 * b" using b by simp
    then have "(of_int (2 ^ lb) :: rat) \<le> of_int (2 * b)" by (simp only: of_int_le_iff)
    then show "(2 :: rat) ^ lb \<le> 2 * of_int b" by simp
    have "int (nat b) < int (2 ^ lb)" using B(2) by (simp only: of_nat_less_iff)
    then have "b < 2 ^ lb" using b by simp
    then have "(of_int b :: rat) < of_int (2 ^ lb)" by (simp only: of_int_less_iff)
    then show "of_int b < (2 :: rat) ^ lb" by simp
  qed
  define k where "k = int la - int lb"
  have k: "(2 :: rat) powi k = 2 ^ la / 2 ^ lb" by (simp add: k_def powi_minus_nat)
  have b': "(0 :: rat) < of_int b" using b by simp
  have k1: "(2 :: rat) powi (k - 1) = 2 powi k / 2" by (simp add: power_int_diff)
  have k2: "(2 :: rat) powi (k + 1) = 2 powi k * 2" by (simp add: power_int_add)
  have lo: "2 powi (k - 1) \<le> q"
  proof -
    have "(2 :: rat) ^ la / 2 ^ lb / 2 \<le> of_int a / 2 ^ lb"
      using Ar(1) by (simp add: field_simps)
    also have "\<dots> \<le> q"
      unfolding q using Br(2) a b' by (intro divide_left_mono) (auto simp: mult_pos_pos)
    finally show ?thesis by (simp add: k1 k)
  qed
  have hi: "q < 2 powi (k + 1)"
  proof -
    have "q < 2 ^ la / of_int b"
      unfolding q using Ar(2) b' by (simp add: divide_strict_right_mono)
    also have "\<dots> \<le> 2 ^ la / (2 ^ lb / 2)"
      using Br(1) b' by (intro divide_left_mono) (auto simp: mult_pos_pos)
    also have "(2 :: rat) ^ la / (2 ^ lb / 2) = 2 powi (k + 1)"
      unfolding k2 k by simp
    finally show ?thesis .
  qed
  have il: "ilog2 q = (if 2 powi k \<le> q then k else k - 1)"
    by (simp add: ilog2_def ab Let_def la_def lb_def k_def)
  show "2 powi ilog2 q \<le> q" using il lo by auto
  show "q < 2 powi (ilog2 q + 1)" using il hi by (auto simp: not_le)
qed

lemma ilog2_less:
  assumes "0 < q" and "q < 2 powi k"
  shows "ilog2 q < k"
proof (rule ccontr)
  assume "\<not> ilog2 q < k"
  then have "(2 :: rat) powi k \<le> 2 powi ilog2 q"
    by (intro power_int_increasing) auto
  also have "\<dots> \<le> q" using assms(1) by (rule ilog2_bounds)
  finally show False using assms(2) by simp
qed

lemma ilog2_ge:
  assumes "0 < q" and "2 powi k \<le> q"
  shows "k \<le> ilog2 q"
proof (rule ccontr)
  assume "\<not> k \<le> ilog2 q"
  then have "(2 :: rat) powi (ilog2 q + 1) \<le> 2 powi k"
    by (intro power_int_increasing) auto
  then show False using ilog2_bounds(2) [OF assms(1)] assms(2) by simp
qed

text \<open>Integers below \<open>2\<^sup>5\<^sup>3\<close> are doubles.\<close>

lemma fp_round_of_int [simp]:
  assumes "\<bar>n\<bar> < 2 ^ 53"
  shows "fp_round (of_int n) = of_int n"
proof (cases "n = 0")
  case True
  then show ?thesis by (simp add: fp_round_def)
next
  case False
  define e where "e = max (ilog2 \<bar>of_int n\<bar> - 52) (- 1074)"
  have "(of_int \<bar>n\<bar> :: rat) < of_int (2 ^ 53)" using assms by (simp only: of_int_less_iff)
  then have "\<bar>of_int n :: rat\<bar> < 2 powi 53" by simp
  then have "ilog2 \<bar>of_int n\<bar> < 53" using False by (intro ilog2_less) auto
  then have e: "e \<le> 0" by (simp add: e_def)
  have "of_int n / (2 :: rat) powi e = of_int n * 2 powi (- e)"
    by (simp add: power_int_minus divide_inverse)
  also have "\<dots> = of_int (n * 2 ^ nat (- e))"
    using e by (simp add: power_int_def)
  finally have "round_even (of_int n / 2 powi e) = n * 2 ^ nat (- e)"
    by (simp only: round_even_of_int)
  then have "fp_round (of_int n) = of_int n * (2 ^ nat (- e) * 2 powi e)"
    using False by (simp add: fp_round_def e_def Let_def)
  also have "(2 :: rat) ^ nat (- e) * 2 powi e = 1"
    using e by (cases "e = 0") (simp_all add: power_int_def power_mult_distrib [symmetric])
  finally show ?thesis by simp
qed

lemma fp_round_of_nat [simp]: "n < 2 ^ 53 \<Longrightarrow> fp_round (of_nat n) = of_nat n"
  using fp_round_of_int [of "int n"] by simp

text \<open>One rounding changes a number in the normal range by at most one part in \<open>2\<^sup>5\<^sup>3\<close>.\<close>

lemma fp_round_error:
  assumes "2 powi (- 1022) \<le> \<bar>q\<bar>"
  shows "\<bar>fp_round q - q\<bar> \<le> \<bar>q\<bar> / 2 ^ 53"
proof -
  have q: "0 < \<bar>q\<bar>" using assms power_int_2_pos [of "- 1022"] by linarith
  define l where "l = ilog2 \<bar>q\<bar>"
  have "- 1022 \<le> l" unfolding l_def using q assms by (rule ilog2_ge)
  then have e: "max (l - 52) (- 1074) = l - 52" by simp
  define p :: rat where "p = 2 powi (l - 52)"
  have p: "0 < p" by (simp add: p_def)
  have fr: "fp_round q = of_int (round_even (q / p)) * p"
    using q e by (simp add: fp_round_def l_def [symmetric] p_def Let_def)
  have "\<bar>fp_round q - q\<bar> = \<bar>of_int (round_even (q / p)) - q / p\<bar> * p"
    using p by (simp add: fr abs_mult_pos field_simps flip: abs_mult)
  also have "\<dots> \<le> 1 / 2 * p"
    using round_even_error [of "q / p"] p by (intro mult_right_mono) auto
  also have "\<dots> = 2 powi l / 2 ^ 53"
    by (simp add: p_def power_int_diff)
  also have "\<dots> \<le> \<bar>q\<bar> / 2 ^ 53"
    using ilog2_bounds(1) [OF q] by (simp add: l_def divide_right_mono)
  finally show ?thesis .
qed

lemma ndd_of_rat_int:
  assumes "\<bar>n\<bar> < 2 ^ 53"
  shows "ndd_of_rat (of_int n) = Fin (of_int n)"
proof -
  have "(of_int \<bar>n\<bar> :: rat) < of_int (2 ^ 53)" using assms by (simp only: of_int_less_iff)
  then have "\<bar>of_int n :: rat\<bar> < 2 ^ 53" by simp
  also have "(2 :: rat) ^ 53 \<le> 2 ^ 1024" by (rule power_increasing) auto
  finally have "\<not> 2 ^ 1024 \<le> \<bar>of_int n :: rat\<bar>" by (simp only: not_le)
  then show ?thesis
    unfolding ndd_of_rat_def Let_def fp_round_of_int [OF assms] by (simp only: if_False)
qed

lemma ndd_of_nat_small: "n < 2 ^ 53 \<Longrightarrow> ndd_of_nat n = Fin (of_nat n)"
  using ndd_of_rat_int [of "int n"] by (simp add: ndd_of_nat_def)

text \<open>A dyadic rational with a significand of at most 53 bits is a double.\<close>

lemma fp_round_representable:
  assumes "\<bar>n\<bar> < 2 ^ 53" and "- 1074 \<le> e"
  shows "fp_round (of_int n * 2 powi e) = of_int n * 2 powi e"
proof (cases "n = 0")
  case True
  then show ?thesis by (simp add: fp_round_def)
next
  case False
  define q :: rat where "q = of_int n * 2 powi e"
  have q0: "q \<noteq> 0" using False by (simp add: q_def)
  have "(of_int \<bar>n\<bar> :: rat) < of_int (2 ^ 53)" using assms(1) by (simp only: of_int_less_iff)
  then have "\<bar>of_int n :: rat\<bar> < 2 powi 53" by simp
  then have "\<bar>q\<bar> < 2 powi 53 * 2 powi e" by (simp add: q_def abs_mult)
  also have "\<dots> = (2 :: rat) powi (53 + e)" by (simp add: power_int_add)
  finally have "ilog2 \<bar>q\<bar> < 53 + e" using False by (intro ilog2_less) (auto simp: q_def)
  then have d: "max (ilog2 \<bar>q\<bar> - 52) (- 1074) \<le> e" using assms(2) by simp
  define d where "d = max (ilog2 \<bar>q\<bar> - 52) (- 1074)"
  have p: "(2 :: rat) powi e = 2 ^ nat (e - d) * 2 powi d"
    using d by (simp add: d_def [symmetric] flip: power_int_of_nat power_int_add)
  have "q / 2 powi d = of_int (n * 2 ^ nat (e - d))" by (simp add: q_def p)
  then have "round_even (q / 2 powi d) = n * 2 ^ nat (e - d)" by (simp only: round_even_of_int)
  then have "fp_round q = of_int n * 2 ^ nat (e - d) * 2 powi d"
    using q0 by (simp add: fp_round_def d_def [symmetric] Let_def)
  then show ?thesis by (simp add: q_def p)
qed

lemma round_even_le: "\<bar>q\<bar> \<le> of_int n \<Longrightarrow> \<bar>round_even q\<bar> \<le> n"
proof -
  assume q: "\<bar>q\<bar> \<le> of_int n"
  have "\<bar>of_int (round_even q)\<bar> \<le> \<bar>q\<bar> + 1 / 2" using round_even_error [of q] by linarith
  then have "of_int \<bar>round_even q\<bar> < (of_int (n + 1) :: rat)" using q by simp
  then show ?thesis by (simp only: of_int_less_iff)
qed

lemma fp_round_form:
  assumes "q \<noteq> 0"
  obtains n e where "fp_round q = of_int n * 2 powi e" and "e = max (ilog2 \<bar>q\<bar> - 52) (- 1074)"
    and "\<bar>n\<bar> \<le> 2 ^ 53"
proof -
  define e where "e = max (ilog2 \<bar>q\<bar> - 52) (- 1074)"
  define n where "n = round_even (q / 2 powi e)"
  have r: "fp_round q = of_int n * 2 powi e"
    using assms by (simp add: fp_round_def e_def n_def Let_def)
  have "\<bar>q\<bar> < 2 powi (ilog2 \<bar>q\<bar> + 1)" using assms by (intro ilog2_bounds) simp
  also have "\<dots> \<le> (2 :: rat) powi (53 + e)" by (intro power_int_increasing) (auto simp: e_def)
  also have "\<dots> = 2 ^ 53 * 2 powi e" by (simp add: power_int_add)
  finally have "\<bar>q / 2 powi e\<bar> \<le> of_int (2 ^ 53)" by (simp add: abs_divide divide_le_eq)
  then have "\<bar>n\<bar> \<le> 2 ^ 53" unfolding n_def by (rule round_even_le)
  then show thesis using r e_def by (intro that)
qed

lemma fp_round_idem [simp]: "fp_round (fp_round q) = fp_round q"
proof (cases "q = 0")
  case True
  then show ?thesis by (simp add: fp_round_def)
next
  case False
  then obtain n e where r: "fp_round q = of_int n * 2 powi e" and e_def: "e = max (ilog2 \<bar>q\<bar> - 52) (- 1074)"
    and n: "\<bar>n\<bar> \<le> 2 ^ 53" by (rule fp_round_form)
  show ?thesis
  proof (cases "\<bar>n\<bar> = 2 ^ 53")
    case True
    define m where "m = sgn n * 2 ^ 52"
    have m: "n = m * 2" using True mult_sgn_abs [of n] by (simp add: m_def)
    have "fp_round q = of_int m * 2 powi (e + 1)"
      unfolding r m by (simp add: power_int_add)
    moreover have "\<bar>m\<bar> < 2 ^ 53" by (auto simp: m_def abs_mult sgn_if)
    then have "fp_round (of_int m * 2 powi (e + 1)) = of_int m * 2 powi (e + 1)"
      by (intro fp_round_representable) (auto simp: e_def)
    ultimately show ?thesis by simp
  next
    case False
    then show ?thesis unfolding r using n by (intro fp_round_representable) (auto simp: e_def)
  qed
qed

lemma fp_round_le:
  assumes "\<bar>q\<bar> \<le> 2 ^ 1000"
  shows "\<bar>fp_round q\<bar> \<le> 2 ^ 1001"
proof (cases "q = 0")
  case True
  then show ?thesis by (simp add: fp_round_def)
next
  case False
  then obtain n e where r: "fp_round q = of_int n * 2 powi e" and e: "e = max (ilog2 \<bar>q\<bar> - 52) (- 1074)"
    and n: "\<bar>n\<bar> \<le> 2 ^ 53" by (rule fp_round_form)
  have "(2 :: rat) ^ 1000 < 2 ^ 1001" by (rule power_strict_increasing) auto
  then have "\<bar>q\<bar> < 2 powi int 1001" using assms unfolding power_int_of_nat by (rule le_less_trans [rotated])
  then have "ilog2 \<bar>q\<bar> < int 1001" using False by (intro ilog2_less) auto
  then have "53 + e \<le> int 1001" by (simp add: e)
  then have "(2 :: rat) powi (53 + e) \<le> 2 powi int 1001" by (intro power_int_increasing) auto
  moreover have "(2 :: rat) powi (53 + e) = 2 ^ 53 * 2 powi e" by (simp add: power_int_add)
  ultimately have hi: "(2 :: rat) ^ 53 * 2 powi e \<le> 2 ^ 1001" by (simp only: power_int_of_nat)
  have "\<bar>of_int n :: rat\<bar> \<le> of_int (2 ^ 53)" using n by (simp only: of_int_le_iff flip: of_int_abs)
  then have "\<bar>of_int n :: rat\<bar> * 2 powi e \<le> 2 ^ 53 * 2 powi e" by (intro mult_right_mono) simp_all
  then show ?thesis unfolding r abs_mult using hi by (simp only: abs_of_pos power_int_2_pos order_trans)
qed

lemma ndd_of_rat_finite:
  assumes "\<bar>q\<bar> \<le> 2 ^ 1000"
  shows "ndd_of_rat q = Fin (fp_round q)"
proof -
  have "(2 :: rat) ^ 1001 < 2 ^ 1024" by (rule power_strict_increasing) auto
  then have "\<not> 2 ^ 1024 \<le> \<bar>fp_round q\<bar>" using fp_round_le [OF assms] by (meson le_less_trans not_le)
  then show ?thesis unfolding ndd_of_rat_def Let_def by (simp only: if_False)
qed

text \<open>The finite values a computation produces, and that a factor of one changes nothing.\<close>

definition is_double :: "ndd \<Rightarrow> bool" where
  "is_double x = (case x of Fin q \<Rightarrow> fp_round q = q \<and> \<bar>q\<bar> < 2 ^ 1024 | _ \<Rightarrow> True)"

lemma ndd_of_rat_is_double: "is_double (ndd_of_rat q)"
proof (cases "2 ^ 1024 \<le> \<bar>fp_round q\<bar>")
  case True
  then show ?thesis unfolding ndd_of_rat_def Let_def is_double_def by (simp only: if_True ndd.case)
next
  case False
  then have "\<bar>fp_round q\<bar> < 2 ^ 1024" by (simp only: not_le)
  with False show ?thesis
    unfolding ndd_of_rat_def Let_def is_double_def
    by (simp only: if_False ndd.case fp_round_idem simp_thms)
qed

lemma ndd_of_rat_double:
  assumes "is_double (Fin q)"
  shows "ndd_of_rat q = Fin q"
proof -
  have "fp_round q = q" and "\<not> 2 ^ 1024 \<le> \<bar>q\<bar>"
    using assms unfolding is_double_def by (simp_all only: ndd.case not_le)
  then show ?thesis unfolding ndd_of_rat_def Let_def by (simp only: if_False)
qed

lemma ndd_mult_one:
  assumes "is_double x"
  shows "ndd_mult (Fin 1) x = x" and "ndd_mult x (Fin 1) = x"
  using assms by (cases x; simp add: ndd_of_rat_double)+

lemma round_even_minus: "round_even (- q) = - round_even q"
proof (cases "q = of_int \<lfloor>q\<rfloor>")
  case True
  then show ?thesis by (metis of_int_minus round_even_of_int)
next
  case False
  then have "\<lfloor>- q\<rfloor> = - \<lfloor>q\<rfloor> - 1" by (metis ceiling_altdef floor_minus minus_add_distrib uminus_add_conv_diff add.commute)
  then show ?thesis by (auto simp: round_even_def Let_def)
qed

lemma fp_round_minus: "fp_round (- q) = - fp_round q"
  by (simp add: fp_round_def Let_def round_even_minus flip: minus_divide_left)

lemma ndd_mult_minus_one: "is_double (Fin q) \<Longrightarrow> ndd_mult (Fin (- 1)) (Fin q) = Fin (- q)"
  using ndd_of_rat_double [of "- q"] by (simp add: is_double_def fp_round_minus)

lemma is_double_int: "\<bar>n\<bar> < 2 ^ 53 \<Longrightarrow> is_double (Fin (of_int n))"
  using ndd_of_rat_is_double [of "of_int n"] by (simp only: ndd_of_rat_int)

lemma ndd_pow10_exact:
  assumes "n \<le> 15"
  shows "ndd_pow10 (int n) = Fin (10 ^ n)"
proof -
  have "(10 :: int) ^ n \<le> 10 ^ 15" using assms by (intro power_increasing) auto
  then have "\<bar>(10 :: int) ^ n\<bar> < 2 ^ 53" by simp
  then show ?thesis using ndd_of_rat_int [of "10 ^ n"] by (simp add: ndd_pow10_def)
qed

text \<open>
  The two roundings of \<^verbatim>\<open>integral + fractional / 10^k\<close>: the value is exact when there is no
  fraction, and otherwise off by at most three parts in \<open>2\<^sup>5\<^sup>3\<close>.
\<close>

lemma ten_pow_ge_min_normal: "n \<le> 15 \<Longrightarrow> (2 :: rat) powi (- 1022) \<le> 1 / 10 ^ n"
proof -
  assume "n \<le> 15"
  then have "(1 :: rat) / 10 ^ 15 \<le> 1 / 10 ^ n" by (intro divide_left_mono power_increasing) auto
  moreover have "(2 :: rat) powi (- 1022) \<le> 2 powi (- 50)" by (intro power_int_increasing) auto
  moreover have "(2 :: rat) powi (- 50) \<le> 1 / 10 ^ 15" by (simp add: power_int_def power_divide)
  ultimately show ?thesis by linarith
qed

definition decimal_sum :: "nat \<Rightarrow> nat \<Rightarrow> nat \<Rightarrow> rat" where
  "decimal_sum i f k = fp_round (of_nat i + fp_round (of_nat f / 10 ^ k))"

lemma decimal_sum_error:
  assumes "i < 10 ^ 15" and "f < 10 ^ k" and "k \<le> 15"
  shows "\<bar>decimal_sum i f k - (of_nat i + of_nat f / 10 ^ k)\<bar> \<le> 3 * (of_nat i + of_nat f / 10 ^ k) / 2 ^ 53"
proof -
  define g :: rat where "g = of_nat f / 10 ^ k"
  have err: "\<bar>fp_round x - x\<bar> \<le> x / 2 ^ 53" if "x = 0 \<or> 1 / 10 ^ 15 \<le> x" for x
  proof (cases "x = 0")
    case True
    then show ?thesis by (simp add: fp_round_def)
  next
    case False
    then have x: "1 / 10 ^ 15 \<le> x" using that by simp
    then have "2 powi (- 1022) \<le> \<bar>x\<bar>" using ten_pow_ge_min_normal [of 15] by linarith
    then have "\<bar>fp_round x - x\<bar> \<le> \<bar>x\<bar> / 2 ^ 53" by (rule fp_round_error)
    then show ?thesis using x by (simp add: abs_of_nonneg)
  qed
  have g0: "0 \<le> g" by (simp add: g_def)
  have g: "g = 0 \<or> 1 / 10 ^ k \<le> g" by (cases "f = 0") (auto simp: g_def divide_right_mono)
  have k: "(1 :: rat) / 10 ^ 15 \<le> 1 / 10 ^ k" using assms(3) by (intro divide_left_mono power_increasing) auto
  have e1: "\<bar>fp_round g - g\<bar> \<le> g / 2 ^ 53" using g k order_trans by (intro err) blast
  define h where "h = fp_round g"
  have h: "\<bar>h - g\<bar> \<le> g / 2 ^ 53" using e1 by (simp add: h_def)
  show ?thesis
  proof (cases "i = 0")
    case True
    then have "decimal_sum i f k = h" by (simp add: decimal_sum_def h_def g_def)
    then show ?thesis using True h g0 unfolding g_def [symmetric] by simp
  next
    case False
    then have i: "1 \<le> (of_nat i :: rat)" by simp
    have "g / 2 ^ 53 \<le> g" using g0 by simp
    then have "0 \<le> h" and "h \<le> 2 * g" using h by linarith+
    then have "(1 :: rat) / 10 ^ 15 \<le> of_nat i + h" using i by (simp add: divide_le_eq)
    then have "\<bar>fp_round (of_nat i + h) - (of_nat i + h)\<bar> \<le> (of_nat i + h) / 2 ^ 53" by (intro err) blast
    then have "\<bar>fp_round (of_nat i + h) - (of_nat i + g)\<bar> \<le> (of_nat i + h) / 2 ^ 53 + g / 2 ^ 53"
      using h by linarith
    also have "\<dots> = (of_nat i + h + g) / 2 ^ 53" by (simp add: add_divide_distrib)
    also have "\<dots> \<le> 3 * (of_nat i + g) / 2 ^ 53"
      using \<open>h \<le> 2 * g\<close> i by (intro divide_right_mono) simp_all
    finally show ?thesis by (simp add: decimal_sum_def g_def h_def)
  qed
qed

lemma is_double_fp_round: "\<bar>q\<bar> \<le> 2 ^ 1000 \<Longrightarrow> is_double (Fin (fp_round q))"
  using ndd_of_rat_is_double [of q] by (simp only: ndd_of_rat_finite)

lemma small_le_huge: "\<bar>q\<bar> \<le> 10 ^ 16 \<Longrightarrow> \<bar>q\<bar> \<le> (2 :: rat) ^ 1000"
proof -
  assume "\<bar>q\<bar> \<le> 10 ^ 16"
  also have "(10 :: rat) ^ 16 \<le> 2 ^ 54" by simp
  also have "(2 :: rat) ^ 54 \<le> 2 ^ 1000" by (rule power_increasing) auto
  finally show ?thesis .
qed

text \<open>What the code computes from the digits of a decimal fraction.\<close>

lemma decimal_sum_code:
  assumes i: "i < 10 ^ 15" and f: "f < 10 ^ k" and k: "k \<le> 15"
  shows "ndd_add (Fin (of_nat i)) (ndd_mult (ndd_div (Fin (of_nat f)) (ndd_pow10 (int k))) (Fin 1)) =
      Fin (decimal_sum i f k)"
    and "is_double (Fin (decimal_sum i f k))"
proof -
  define g :: rat where "g = of_nat f / 10 ^ k"
  have "(of_nat f :: rat) < of_nat (10 ^ k)" using f by (simp only: of_nat_less_iff)
  then have g: "0 \<le> g" "g < 1" by (simp_all add: g_def)
  have "\<bar>fp_round g - g\<bar> \<le> 3 * g / 2 ^ 53"
    using decimal_sum_error [of 0 f k] f k by (simp add: decimal_sum_def g_def)
  moreover have "3 * g / 2 ^ 53 \<le> 1" using g by simp
  ultimately have "\<bar>fp_round g\<bar> \<le> 2" using g by linarith
  moreover have "(of_nat i :: rat) < of_nat (10 ^ 15)" using i by (simp only: of_nat_less_iff)
  ultimately have s: "\<bar>of_nat i + fp_round g\<bar> \<le> 2 ^ 1000" by (intro small_le_huge) (simp add: abs_le_iff)
  have "ndd_of_rat g = Fin (fp_round g)" using g by (intro ndd_of_rat_finite small_le_huge) simp
  then have "ndd_div (Fin (of_nat f)) (ndd_pow10 (int k)) = Fin (fp_round g)"
    by (simp add: ndd_pow10_exact [OF k] g_def)
  moreover have "is_double (Fin (fp_round g))"
    using g by (intro is_double_fp_round small_le_huge) simp
  ultimately show "ndd_add (Fin (of_nat i)) (ndd_mult (ndd_div (Fin (of_nat f)) (ndd_pow10 (int k))) (Fin 1)) =
      Fin (decimal_sum i f k)"
    by (simp only: ndd_mult_one ndd_add.simps ndd_of_rat_finite [OF s]) (simp add: decimal_sum_def g_def)
  show "is_double (Fin (decimal_sum i f k))"
    using is_double_fp_round [OF s] by (simp add: decimal_sum_def g_def)
qed

lemma decimal_sum_int: "i < 10 ^ 15 \<Longrightarrow> decimal_sum i 0 k = of_nat i"
  using fp_round_of_nat [of i] by (simp add: decimal_sum_def fp_round_def [of 0])

text \<open>Computing a rounding: the exponent from the binade, the significand from the distance.\<close>

lemma fp_round_eqI:
  assumes "2 powi l \<le> q" and "q < 2 powi (l + 1)" and "- 1022 \<le> l"
    and "\<bar>q / 2 powi (l - 52) - of_int n\<bar> < 1 / 2"
  shows "fp_round q = of_int n * 2 powi (l - 52)"
proof -
  have q: "0 < q" using assms(1) power_int_2_pos [of l] by linarith
  have "ilog2 q = l" using ilog2_less [OF q assms(2)] ilog2_ge [OF q assms(1)] by linarith
  then have e: "max (ilog2 \<bar>q\<bar> - 52) (- 1074) = l - 52" using q assms(3) by simp
  have "\<bar>of_int (round_even (q / 2 powi (l - 52))) - of_int n :: rat\<bar> < 1"
    using round_even_error [of "q / 2 powi (l - 52)"] assms(4) by linarith
  then have "of_int \<bar>round_even (q / 2 powi (l - 52)) - n\<bar> < (of_int 1 :: rat)" by simp
  then have "round_even (q / 2 powi (l - 52)) = n" by (simp only: of_int_less_iff)
  then show ?thesis using q e by (simp add: fp_round_def Let_def)
qed

end
