(* ===== verification/Storage_Number.thy ===== *)
theory Storage_Number
  imports Netdata_Double
begin

text \<open>
  The numbers of \<^verbatim>\<open>libnetdata/storage_number\<close>, in which the daemon keeps the values it collects: a sign, a
  decimal exponent, two flags and 24 bits of the value, packed into 32 bits.  Doubles are those of
  \<^verbatim>\<open>Netdata_Double\<close>; each division and multiplication of the code rounds.

  The lemmas show where the fields of a packed number are, and how far the number that is unpacked can
  be from the one that was packed.
\<close>

section \<open>Flags\<close>

type_synonym storage_number = u32

definition SN_FLAG_NOT_ANOMALOUS :: storage_number where "SN_FLAG_NOT_ANOMALOUS = push_bit 24 1"
definition SN_FLAG_RESET :: storage_number where "SN_FLAG_RESET = push_bit 25 1"
definition SN_FLAG_NOT_EXISTS_MUL100 :: storage_number where "SN_FLAG_NOT_EXISTS_MUL100 = push_bit 26 1"
definition SN_FLAG_MULTIPLY :: storage_number where "SN_FLAG_MULTIPLY = push_bit 30 1"
definition SN_FLAG_NEGATIVE :: storage_number where "SN_FLAG_NEGATIVE = push_bit 31 1"

definition SN_USER_FLAGS :: storage_number where
  "SN_USER_FLAGS = SN_FLAG_NOT_ANOMALOUS OR SN_FLAG_RESET"

definition SN_EMPTY_SLOT :: storage_number where
  "SN_EMPTY_SLOT = SN_FLAG_NOT_EXISTS_MUL100"

definition does_storage_number_exist :: "storage_number \<Rightarrow> bool" where
  "does_storage_number_exist value \<longleftrightarrow> value \<noteq> SN_EMPTY_SLOT"

definition did_storage_number_reset :: "storage_number \<Rightarrow> bool" where
  "did_storage_number_reset value \<longleftrightarrow> value AND SN_FLAG_RESET \<noteq> 0"

definition is_storage_number_anomalous :: "storage_number \<Rightarrow> bool" where
  "is_storage_number_anomalous value \<longleftrightarrow> does_storage_number_exist value \<and> value AND SN_FLAG_NOT_ANOMALOUS = 0"

section \<open>Packing\<close>

fun ndd_less :: "ndd \<Rightarrow> ndd \<Rightarrow> bool" where
  "ndd_less (Fin x) (Fin y) = (x < y)"
| "ndd_less (Inf b) (Fin y) = b"
| "ndd_less (Fin x) (Inf b) = (\<not> b)"
| "ndd_less (Inf b) (Inf c) = (b \<and> \<not> c)"
| "ndd_less _ _ = False"

text \<open>\<^verbatim>\<open>lrint\<close> to a \<^verbatim>\<open>long\<close> of 64 bits, with rounding to even.\<close>

fun lrint :: "ndd \<Rightarrow> int res" where
  "lrint (Fin q) = (if - (2 ^ 63) \<le> round_even q \<and> round_even q < 2 ^ 63 then Inr (round_even q) else Inl BadCast)"
| "lrint _ = Inl BadCast"

abbreviation (input) SN_MAX :: rat where "SN_MAX \<equiv> 16777215"

text \<open>The two loops; they count up to seven.\<close>

function sn_shrink :: "ndd \<Rightarrow> nat \<Rightarrow> ndd \<Rightarrow> nat \<times> ndd" where
  "sn_shrink factor m n = (if m < 7 \<and> ndd_less (Fin SN_MAX) n then sn_shrink factor (m + 1) (ndd_div n factor) else (m, n))"
  by pat_completeness auto
termination
  by (relation "measure (\<lambda>(_, m, _). 7 - m)") auto

function sn_grow :: "nat \<Rightarrow> ndd \<Rightarrow> nat \<times> ndd" where
  "sn_grow m n = (if m < 7 \<and> ndd_less n (Fin 1677726) then sn_grow (m + 1) (ndd_mult n (Fin 10)) else (m, n))"
  by pat_completeness auto
termination
  by (relation "measure (\<lambda>(m, _). 7 - m)") auto

declare sn_shrink.simps [simp del] sn_grow.simps [simp del]

definition sn_add_value :: "storage_number \<Rightarrow> ndd \<Rightarrow> storage_number res" where
  "sn_add_value r n = rbind (lrint n) (\<lambda>k. Inr (r + of_int k))"

text \<open>The exponent and the value of a positive number.\<close>

definition sn_pack_positive :: "storage_number \<Rightarrow> ndd \<Rightarrow> storage_number res" where
  "sn_pack_positive r n =
     (let large = ndd_less (Fin SN_MAX) (ndd_div n (Fin 10000000));
        factor = (if large then Fin 100 else Fin 10);
        r = (if large then r OR SN_FLAG_NOT_EXISTS_MUL100 else r)
      in case sn_shrink factor 0 n of (m, n) \<Rightarrow>
        if m \<noteq> 0 then
          let r = r + (SN_FLAG_MULTIPLY + push_bit 27 (of_nat m))
          in if ndd_less (Fin SN_MAX) n then Inr (r + 0x00ffffff) else sn_add_value r n
        else
          case sn_grow m n of (m, n) \<Rightarrow>
            let (m, n) = (if ndd_less (Fin SN_MAX) n then (m - 1, ndd_div n (Fin 10)) else (m, n))
            in sn_add_value (r + push_bit 27 (of_nat m)) n)"

definition pack_storage_number :: "ndd \<Rightarrow> storage_number \<Rightarrow> storage_number res" where
  "pack_storage_number val flags =
     (case val of
        Fin q \<Rightarrow>
          let r = flags AND SN_USER_FLAGS
          in if q = 0 \<or> \<bar>q\<bar> < 2 powi (- 1022) then Inr r
             else if q < 0 then sn_pack_positive (r + SN_FLAG_NEGATIVE) (ndd_neg val)
             else sn_pack_positive r val
      | _ \<Rightarrow> Inr SN_EMPTY_SLOT)"

section \<open>Unpacking\<close>

definition unpack_storage_number_lut10x :: "ndd list" where
  "unpack_storage_number_lut10x =
     map (\<lambda>i. ndd_div (Fin 1) (ndd_pow10 (int i))) [0..<8] @ map (\<lambda>i. ndd_pow10 (int i)) [0..<8] @
     map (\<lambda>i. ndd_div (Fin 1) (ndd_of_rat (100 ^ i))) [0..<8] @ map (\<lambda>i. ndd_of_rat (100 ^ i)) [0..<8]"

definition unpack_storage_number :: "storage_number \<Rightarrow> ndd" where
  "unpack_storage_number val =
     (if val = SN_EMPTY_SLOT then NaN
      else
        let sgn = (if val AND SN_FLAG_NEGATIVE \<noteq> 0 then - 1 else 1);
          ex = (if val AND SN_FLAG_MULTIPLY \<noteq> 0 then 1 else 0);
          factor = (if val AND SN_FLAG_NOT_EXISTS_MUL100 \<noteq> 0 then 1 else 0);
          mul = unat (drop_bit 27 (val AND (push_bit 29 1 OR push_bit 28 1 OR push_bit 27 1)));
          val = val XOR (val AND 0xFF000000);
          n = ndd_of_nat (unat val)
        in ndd_mult (ndd_mult (Fin sgn) (unpack_storage_number_lut10x ! (factor * 16 + ex * 8 + mul))) n)"

section \<open>The fields of a packed number\<close>

definition sn_word :: "bool \<Rightarrow> bool \<Rightarrow> nat \<Rightarrow> bool \<Rightarrow> nat \<Rightarrow> nat \<Rightarrow> storage_number" where
  "sn_word neg mult m large u k =
     of_nat ((of_bool neg * 128 + of_bool mult * 64 + m * 8 + of_bool large * 4 + u) * 2 ^ 24 + k)"

lemma sn_div:
  fixes c k :: nat
  assumes "k < 2 ^ 24" and "24 \<le> n"
  shows "(c * 2 ^ 24 + k) div 2 ^ n = c div 2 ^ (n - 24)"
proof -
  have "(2 :: nat) ^ n = 2 ^ 24 * 2 ^ (n - 24)" using assms(2) by (metis le_add_diff_inverse power_add)
  then have "(c * 2 ^ 24 + k) div 2 ^ n = (c * 2 ^ 24 + k) div 2 ^ 24 div 2 ^ (n - 24)" by (simp only: div_mult2_eq)
  also have "(c * 2 ^ 24 + k) div 2 ^ 24 = c" using assms(1) by simp
  finally show ?thesis .
qed

lemma sn_bit:
  assumes "c < 256" and "k < 2 ^ 24" and "24 \<le> n" "n < 32"
  shows "bit (of_nat (c * 2 ^ 24 + k) :: u32) n \<longleftrightarrow> odd (c div 2 ^ (n - 24))"
  using assms(4) unfolding bit_of_nat_iff bit_iff_odd [of "c * 2 ^ 24 + k"] sn_div [OF assms(2,3)] by simp

lemma sn_flag_bits:
  "v AND SN_FLAG_NEGATIVE \<noteq> 0 \<longleftrightarrow> bit v 31" "v AND SN_FLAG_MULTIPLY \<noteq> 0 \<longleftrightarrow> bit v 30" "v AND SN_FLAG_NOT_EXISTS_MUL100 \<noteq> 0 \<longleftrightarrow> bit v 26"
  "v AND SN_FLAG_RESET \<noteq> 0 \<longleftrightarrow> bit v 25" "v AND SN_FLAG_NOT_ANOMALOUS \<noteq> 0 \<longleftrightarrow> bit v 24"
  unfolding SN_FLAG_NEGATIVE_def SN_FLAG_MULTIPLY_def SN_FLAG_NOT_EXISTS_MUL100_def SN_FLAG_RESET_def SN_FLAG_NOT_ANOMALOUS_def
  by (simp_all only: bit_iff_and_push_bit_not_eq_0)

lemma sn_mul_field: "drop_bit 27 (v AND (push_bit 29 1 OR push_bit 28 1 OR push_bit 27 1)) = take_bit 3 (drop_bit 27 (v :: u32))"
proof -
  have m: "push_bit 29 1 OR push_bit 28 1 OR push_bit 27 1 = (push_bit 27 (mask 3) :: u32)" by (simp add: mask_eq_exp_minus_1 push_bit_eq_mult)
  show ?thesis unfolding m by (rule bit_eqI) (auto simp: bit_simps simp del: push_bit_mask_eq mask_numeral)
qed

lemma sn_value_field: "v XOR (v AND 0xFF000000) = take_bit 24 (v :: u32)"
proof -
  have m: "0xFF000000 = (NOT (mask 24) :: u32)" by (simp add: mask_eq_exp_minus_1)
  show ?thesis unfolding m by (rule bit_eqI) (auto simp: bit_simps)
qed

definition sn_code :: "bool \<Rightarrow> bool \<Rightarrow> nat \<Rightarrow> bool \<Rightarrow> nat \<Rightarrow> nat" where
  "sn_code neg mult m large u = of_bool neg * 128 + of_bool mult * 64 + m * 8 + of_bool large * 4 + u"

lemma sn_code_fields:
  assumes "m < 8" and "u < 4"
  shows "sn_code neg mult m large u < 256" "odd (sn_code neg mult m large u div 128) \<longleftrightarrow> neg" "odd (sn_code neg mult m large u div 64) \<longleftrightarrow> mult"
    "odd (sn_code neg mult m large u div 4) \<longleftrightarrow> large" "sn_code neg mult m large u div 8 mod 8 = m" "sn_code neg mult m large u mod 4 = u"
proof -
  define a b f where abf: "a = (of_bool neg :: nat)" "b = (of_bool mult :: nat)" "f = (of_bool large :: nat)"
  have le: "a \<le> 1" "b \<le> 1" "f \<le> 1" and o: "odd a \<longleftrightarrow> neg" "odd b \<longleftrightarrow> mult" "odd f \<longleftrightarrow> large" by (auto simp: abf)
  have c: "sn_code neg mult m large u = a * 128 + b * 64 + m * 8 + f * 4 + u" by (simp add: sn_code_def abf)
  have d: "(a * 128 + b * 64 + m * 8 + f * 4 + u) div 128 = a" "(a * 128 + b * 64 + m * 8 + f * 4 + u) div 64 = 2 * a + b"
    "(a * 128 + b * 64 + m * 8 + f * 4 + u) div 4 = 32 * a + 16 * b + 2 * m + f" "(a * 128 + b * 64 + m * 8 + f * 4 + u) div 8 = 16 * a + 8 * b + m"
    using assms le by linarith+
  have "(8 * x + m) mod 8 = m" for x using assms(1) by simp
  from this [of "2 * a + b"] show "sn_code neg mult m large u div 8 mod 8 = m" unfolding c d by (simp add: algebra_simps)
  show "odd (sn_code neg mult m large u div 128) \<longleftrightarrow> neg" "odd (sn_code neg mult m large u div 64) \<longleftrightarrow> mult"
    "odd (sn_code neg mult m large u div 4) \<longleftrightarrow> large" unfolding c d using o by simp_all
  show "sn_code neg mult m large u < 256" unfolding c using assms le by linarith
  have "(4 * x + u) mod 4 = u" for x using assms(2) by simp
  from this [of "a * 32 + b * 16 + m * 2 + f"] show "sn_code neg mult m large u mod 4 = u" unfolding c by (simp add: algebra_simps)
qed

lemma sn_word_code: "sn_word neg mult m large u k = of_nat (sn_code neg mult m large u * 2 ^ 24 + k)"
  by (simp only: sn_word_def sn_code_def)

lemma unpack_sn_word:
  assumes "m < 8" and "u < 4" and "k < 2 ^ 24" and "sn_word neg mult m large u k \<noteq> SN_EMPTY_SLOT"
  shows "unpack_storage_number (sn_word neg mult m large u k) =
    ndd_mult (ndd_mult (Fin (if neg then - 1 else 1)) (unpack_storage_number_lut10x ! (of_bool large * 16 + of_bool mult * 8 + m))) (Fin (of_nat k))"
proof -
  define c where "c = sn_code neg mult m large u"
  define v where "v = sn_word neg mult m large u k"
  note f = sn_code_fields [OF assms(1,2), of neg mult large, folded c_def]
  have v: "v = of_nat (c * 2 ^ 24 + k)" by (simp only: v_def c_def sn_word_code)
  have "c * 2 ^ 24 + k < 2 ^ 32" using f(1) assms(3) by simp
  then have N: "unat v = c * 2 ^ 24 + k" unfolding v unat_of_nat by simp
  have "bit v n \<longleftrightarrow> odd (c div 2 ^ (n - 24))" if "24 \<le> n" "n < 32" for n unfolding v by (rule sn_bit [OF f(1) assms(3) that])
  from this [of 31] this [of 30] this [of 26] f(2-4) have bits: "bit v 31 = neg" "bit v 30 = mult" "bit v 26 = large" by simp_all
  have "unat (take_bit 3 (drop_bit 27 v)) = take_bit 3 (drop_bit 27 (c * 2 ^ 24 + k))" by (simp only: unsigned_take_bit_eq unat_drop_bit_eq N)
  also have "\<dots> = (c * 2 ^ 24 + k) div 2 ^ 27 mod 2 ^ 3" by (simp only: take_bit_eq_mod drop_bit_eq_div)
  also have "\<dots> = m" using f(5) sn_div [OF assms(3), of 27 c] by simp
  finally have mul: "unat (take_bit 3 (drop_bit 27 v)) = m" .
  have "unat (take_bit 24 v) = take_bit 24 (c * 2 ^ 24 + k)" by (simp only: unsigned_take_bit_eq N)
  also have "\<dots> = (c * 2 ^ 24 + k) mod 2 ^ 24" by (simp only: take_bit_eq_mod)
  finally have low: "unat (take_bit 24 v) = k" using assms(3) by simp
  have "k < 2 ^ 53" using assms(3) by simp
  then have n: "ndd_of_nat k = Fin (of_nat k)" by (rule ndd_of_nat_small)
  show ?thesis unfolding unpack_storage_number_def v_def [symmetric] sn_flag_bits sn_mul_field sn_value_field bits mul low n Let_def
    using assms(4) by (simp add: v_def of_bool_def)
qed

lemma sn_word_exists:
  assumes "m < 8" and "u < 4" and "k < 2 ^ 24" and "large \<longrightarrow> mult"
  shows "sn_word neg mult m large u k \<noteq> SN_EMPTY_SLOT"
proof
  assume e: "sn_word neg mult m large u k = SN_EMPTY_SLOT"
  note f = sn_code_fields [OF assms(1,2), of neg mult large]
  have b: "bit (SN_EMPTY_SLOT :: u32) n \<longleftrightarrow> odd (sn_code neg mult m large u div 2 ^ (n - 24))" if "24 \<le> n" "n < 32" for n
    unfolding e [symmetric] sn_word_code by (rule sn_bit [OF f(1) assms(3) that])
  have "bit (SN_EMPTY_SLOT :: u32) n \<longleftrightarrow> n = 26" if "n < 32" for n
    using that by (auto simp: SN_EMPTY_SLOT_def SN_FLAG_NOT_EXISTS_MUL100_def bit_simps simp del: push_bit_of_1)
  then show False using b [of 30] b [of 26] f(3,4) assms(4) by simp
qed

section \<open>Rounding in the loops\<close>

text \<open>A number that has been rounded a few times on its way.\<close>

definition near :: "nat \<Rightarrow> rat \<Rightarrow> rat \<Rightarrow> bool" where
  "near j a v \<longleftrightarrow> \<bar>a - v\<bar> \<le> of_nat (2 * j) * v / 2 ^ 53"

lemma near_step:
  assumes "near j a v" and "\<bar>a' - a\<bar> \<le> a / 2 ^ 53" and "0 < v" and "j \<le> 20"
  shows "near (j + 1) a' v"
proof -
  have "(of_nat (2 * j) :: rat) \<le> of_nat 40" using assms(4) by (intro of_nat_mono) simp
  then have "of_nat (2 * j) * v / 2 ^ 53 \<le> of_nat 40 * v / 2 ^ 53" using assms(3) by (intro divide_right_mono mult_right_mono) simp_all
  moreover have "of_nat 40 * v / 2 ^ 53 \<le> v" using assms(3) by simp
  ultimately have "a \<le> 2 * v" using assms(1) unfolding near_def by linarith
  then have "a / 2 ^ 53 \<le> 2 * v / 2 ^ 53" by (intro divide_right_mono) simp_all
  moreover have "of_nat (2 * (j + 1)) * v / 2 ^ 53 = of_nat (2 * j) * v / 2 ^ 53 + 2 * v / 2 ^ 53" by (simp add: algebra_simps add_divide_distrib)
  ultimately show ?thesis using assms(1,2) unfolding near_def by linarith
qed

lemma fp_near:
  assumes "2 powi (- 1022) \<le> q"
  shows "\<bar>fp_round q - q\<bar> \<le> q / 2 ^ 53" "0 < fp_round q"
proof -
  have q: "0 < q" using assms power_int_2_pos [of "- 1022"] by linarith
  show e: "\<bar>fp_round q - q\<bar> \<le> q / 2 ^ 53" using fp_round_error [of q] assms q by simp
  have "q / 2 ^ 53 < q" using q by simp
  then show "0 < fp_round q" using e by linarith
qed

lemma normal_range: "1 \<le> q \<Longrightarrow> 2 powi (- 1022) \<le> (q :: rat)"
  using ten_pow_ge_min_normal [of 0] by simp

lemma huge_range: "\<bar>q\<bar> \<le> 10 ^ 40 \<Longrightarrow> \<bar>q\<bar> \<le> (2 :: rat) ^ 1000"
proof -
  assume "\<bar>q\<bar> \<le> 10 ^ 40"
  also have "(10 :: rat) ^ 40 \<le> 2 ^ 150" by simp
  also have "(2 :: rat) ^ 150 \<le> 2 ^ 1000" by (rule power_increasing) auto
  finally show ?thesis .
qed

lemma part_le: "0 \<le> q \<Longrightarrow> q / 2 ^ 53 \<le> (q :: rat)"
  by simp

lemma sn_shrink_ok:
  assumes "near m (x * f ^ m) v" and "0 < v" "0 < x" "x \<le> 10 ^ 40" and "10 \<le> f" "f \<le> 100" and "m \<le> 7"
  shows "\<exists>m' y. sn_shrink (Fin f) m (Fin x) = (m', Fin y) \<and> near m' (y * f ^ m') v \<and> m' \<le> 7 \<and> (m' = 7 \<or> y \<le> SN_MAX) \<and> 0 < y \<and>
    (m' = m \<and> y = x \<or> m < m' \<and> SN_MAX / f * (1 - 1 / 2 ^ 53) \<le> y)"
  using assms
proof (induction "Fin f" m "Fin x" arbitrary: x rule: sn_shrink.induct)
  case (1 m x)
  show ?case
  proof (cases "m < 7 \<and> SN_MAX < x")
    case False
    then show ?thesis using 1(2-) by (auto simp: sn_shrink.simps [of _ m])
  next
    case True
    define y where "y = fp_round (x / f)"
    have f: "0 < f" using 1(6) by simp
    have lo: "SN_MAX / f \<le> x / f" using True f by (intro divide_right_mono) simp_all
    have "SN_MAX / 100 \<le> SN_MAX / f" using 1(7) f by (intro divide_left_mono) simp_all
    then have big: "167772 \<le> x / f" using lo by linarith
    then have "2 powi (- 1022) \<le> x / f" by (intro normal_range) linarith
    note y = fp_near [OF this, folded y_def]
    have "x / f \<le> x / 1" using 1(4,6) by (intro divide_left_mono) simp_all
    then have xf: "\<bar>x / f\<bar> \<le> 10 ^ 40" using 1(4,5) f by simp
    then have d: "ndd_div (Fin x) (Fin f) = Fin y" using ndd_of_rat_finite [OF huge_range] f by (simp add: y_def)
    have "y * f ^ (m + 1) - x * f ^ m = (y - x / f) * f ^ (m + 1)" using f by (simp add: field_simps)
    then have "\<bar>y * f ^ (m + 1) - x * f ^ m\<bar> = \<bar>y - x / f\<bar> * f ^ (m + 1)" using f by (simp add: abs_mult)
    also have "\<dots> \<le> x / f / 2 ^ 53 * f ^ (m + 1)" using y(1) f by (intro mult_right_mono) simp_all
    also have "\<dots> = x * f ^ m / 2 ^ 53" using f by simp
    finally have "near (m + 1) (y * f ^ (m + 1)) v" using near_step [OF 1(2)] 1(3,8) by simp
    then have nr: "near (m + 1) (y * f ^ (m + 1)) v" .
    have "x / f \<le> x / 10" using 1(4,6) by (intro divide_left_mono) simp_all
    moreover have "x / f / 2 ^ 53 \<le> x / f" by (rule part_le) (use 1(4) f in simp)
    ultimately have le: "y \<le> x" using y(1) 1(4) by linarith
    then have "y \<le> 10 ^ 40" using 1(5) by linarith
    with nr obtain m' z where
      r: "sn_shrink (Fin f) (m + 1) (Fin y) = (m', Fin z)" "near m' (z * f ^ m') v" "m' \<le> 7" "m' = 7 \<or> z \<le> SN_MAX" "0 < z"
        "m' = m + 1 \<and> z = y \<or> m + 1 < m' \<and> SN_MAX / f * (1 - 1 / 2 ^ 53) \<le> z"
      using 1(1) [OF _ d] True 1(3,6,7) y(2) by auto
    have "SN_MAX / f * (1 - 1 / 2 ^ 53) \<le> x / f * (1 - 1 / 2 ^ 53)" using lo by (intro mult_right_mono) simp_all
    moreover have "x / f * (1 - 1 / 2 ^ 53) = x / f - x / f / 2 ^ 53" by (simp add: algebra_simps)
    ultimately have "SN_MAX / f * (1 - 1 / 2 ^ 53) \<le> y" using y(1) by linarith
    moreover have "sn_shrink (Fin f) m (Fin x) = sn_shrink (Fin f) (m + 1) (Fin y)" using True d by (simp add: sn_shrink.simps [of _ m])
    ultimately show ?thesis using r by (intro exI [of _ m'] exI [of _ z]) auto
  qed
qed

lemma sn_grow_ok:
  assumes "near m (x / 10 ^ m) v" and "0 < v" "2 powi (- 1022) \<le> x" "x \<le> 20000000" and "m \<le> 7"
  shows "\<exists>m' y. sn_grow m (Fin x) = (m', Fin y) \<and> near m' (y / 10 ^ m') v \<and> m' \<le> 7 \<and> (m' = 7 \<or> 1677726 \<le> y) \<and> 2 powi (- 1022) \<le> y \<and>
    y \<le> 20000000 \<and> (m' = m \<and> y = x \<or> m < m')"
  using assms
proof (induction m "Fin x" arbitrary: x rule: sn_grow.induct)
  case (1 m x)
  show ?case
  proof (cases "m < 7 \<and> x < 1677726")
    case False
    then show ?thesis using 1(2-) by (auto simp: sn_grow.simps [of m])
  next
    case True
    define y where "y = fp_round (x * 10)"
    have x: "0 < x" using 1(4) power_int_2_pos [of "- 1022"] by linarith
    then have "2 powi (- 1022) \<le> x * 10" using 1(4) by linarith
    note y = fp_near [OF this, folded y_def]
    have "\<bar>x * 10\<bar> \<le> 10 ^ 40" using True x by simp
    then have d: "ndd_mult (Fin x) (Fin 10) = Fin y" using ndd_of_rat_finite [OF huge_range] by (simp add: y_def)
    have "y / 10 ^ (m + 1) - x / 10 ^ m = (y - x * 10) / 10 ^ (m + 1)" by (simp add: field_simps)
    then have "\<bar>y / 10 ^ (m + 1) - x / 10 ^ m\<bar> = \<bar>y - x * 10\<bar> / 10 ^ (m + 1)" by (simp add: abs_divide)
    also have "\<dots> \<le> x * 10 / 2 ^ 53 / 10 ^ (m + 1)" using y(1) by (intro divide_right_mono) simp_all
    also have "\<dots> = x / 10 ^ m / 2 ^ 53" by simp
    finally have nr: "near (m + 1) (y / 10 ^ (m + 1)) v" using near_step [OF 1(2)] 1(3,6) by simp
    have "x * 10 / 2 ^ 53 \<le> 1" using True by simp
    moreover have "x * 10 / 2 ^ 53 \<le> x" using x by simp
    ultimately have "y \<le> 20000000" "2 powi (- 1022) \<le> y" using y(1) True 1(4) x by linarith+
    with nr obtain m' z where
      "sn_grow (m + 1) (Fin y) = (m', Fin z)" "near m' (z / 10 ^ m') v" "m' \<le> 7" "m' = 7 \<or> 1677726 \<le> z" "2 powi (- 1022) \<le> z"
        "z \<le> 20000000" "m' = m + 1 \<and> z = y \<or> m + 1 < m'"
      using 1(1) [OF _ d] True 1(3) by auto
    moreover have "sn_grow m (Fin x) = sn_grow (m + 1) (Fin y)" using True d by (simp add: sn_grow.simps [of m])
    ultimately show ?thesis by (intro exI [of _ m'] exI [of _ z]) auto
  qed
qed

text \<open>What the code leaves of a positive number: the exponent, and a value that is nearly the number.\<close>

definition sn_scale :: "bool \<Rightarrow> nat \<Rightarrow> bool \<Rightarrow> rat" where
  "sn_scale mult m large = (if \<not> mult then 1 / 10 ^ m else if large then 100 ^ m else 10 ^ m)"

lemma near_mono: "near i a v \<Longrightarrow> i \<le> j \<Longrightarrow> 0 < v \<Longrightarrow> near j a v"
proof -
  assume n: "near i a v" and "i \<le> j" "0 < v"
  then have "(of_nat (2 * i) :: rat) \<le> of_nat (2 * j)" by (intro of_nat_mono) simp
  then have "of_nat (2 * i) * v / 2 ^ 53 \<le> of_nat (2 * j) * v / 2 ^ 53" using \<open>0 < v\<close> by (intro divide_right_mono mult_right_mono) simp_all
  then show ?thesis using n unfolding near_def by linarith
qed

lemma near_9: "near j a v \<Longrightarrow> j \<le> 9 \<Longrightarrow> 0 < v \<Longrightarrow> \<bar>a - v\<bar> \<le> v / 10 ^ 14"
proof -
  assume "near j a v" "j \<le> 9" "0 < v"
  then have "near 9 a v" by (rule near_mono)
  then have "\<bar>a - v\<bar> \<le> 18 * v / 2 ^ 53" by (simp add: near_def)
  moreover have "18 * v / 2 ^ 53 \<le> v / 10 ^ 14" using \<open>0 < v\<close> by simp
  ultimately show ?thesis by linarith
qed

lemma fp_round_small:
  assumes "0 < q" and "q < 1"
  shows "fp_round q \<le> 2"
proof -
  define e where "e = max (ilog2 q - 52) (- 1074)"
  have "ilog2 q < 0" using assms by (intro ilog2_less) simp_all
  then have "(2 :: rat) powi e \<le> 2 powi 0" by (intro power_int_increasing) (simp_all add: e_def)
  then have e: "(2 :: rat) powi e \<le> 1" "0 < (2 :: rat) powi e" by simp_all
  define k where "k = round_even (q / 2 powi e)"
  have "of_int k \<le> q / 2 powi e + 1 / 2" using round_even_error [of "q / 2 powi e"] unfolding k_def by linarith
  then have "of_int k * 2 powi e \<le> (q / 2 powi e + 1 / 2) * 2 powi e" using e(2) by (intro mult_right_mono) simp_all
  also have "\<dots> = q + 2 powi e / 2" using e(2) by (simp add: field_simps)
  also have "\<dots> \<le> 2" using assms e(1) by linarith
  also have "of_int k * 2 powi e = fp_round q" using assms by (simp add: fp_round_def Let_def e_def k_def)
  finally show ?thesis .
qed

lemma sn_add_value_ok:
  assumes "0 < x" and "x \<le> SN_MAX"
  shows "\<exists>k. sn_add_value (of_nat (c * 2 ^ 24)) (Fin x) = Inr (of_nat (c * 2 ^ 24 + k)) \<and> k < 2 ^ 24 \<and> \<bar>of_nat k - x\<bar> \<le> 1 / 2"
proof -
  let ?k = "round_even x"
  have e: "\<bar>of_int ?k - x\<bar> \<le> 1 / 2" by (rule round_even_error)
  have "\<bar>?k\<bar> \<le> 16777215" using assms by (intro round_even_le) simp
  moreover have "- 1 < (of_int ?k :: rat)" using e assms(1) by linarith
  then have "of_int (- 1) < (of_int ?k :: rat)" by simp
  then have "- 1 < ?k" by (simp only: of_int_less_iff)
  ultimately have k: "0 \<le> ?k" "?k \<le> 16777215" by simp_all
  then have "sn_add_value (of_nat (c * 2 ^ 24)) (Fin x) = Inr (of_nat (c * 2 ^ 24) + of_int ?k)" by (simp add: sn_add_value_def)
  also have "of_int ?k = (of_nat (nat ?k) :: u32)" using k(1) by (simp add: of_nat_nat)
  finally have "sn_add_value (of_nat (c * 2 ^ 24)) (Fin x) = Inr (of_nat (c * 2 ^ 24 + nat ?k))" by (simp only: of_nat_add)
  moreover have "of_nat (nat ?k) = (of_int ?k :: rat)" using k(1) by simp
  ultimately show ?thesis using e k by (intro exI [of _ "nat ?k"]) simp
qed

lemma sn_flag_sums:
  "of_nat (c * 2 ^ 24) + (SN_FLAG_MULTIPLY + push_bit 27 (of_nat m)) = of_nat ((c + 64 + m * 8) * 2 ^ 24)"
  "of_nat (c * 2 ^ 24) + push_bit 27 (of_nat m) = (of_nat ((c + m * 8) * 2 ^ 24) :: u32)"
  "of_nat (c * 2 ^ 24) + SN_FLAG_NEGATIVE = of_nat ((c + 128) * 2 ^ 24)"
  by (simp_all add: SN_FLAG_MULTIPLY_def SN_FLAG_NEGATIVE_def push_bit_eq_mult algebra_simps)

lemma or_bit_is_add: "\<not> bit r n \<Longrightarrow> r OR push_bit n 1 = r + push_bit n (1 :: u32)"
  by (subst disjunctive_add) (auto simp: bit_simps)

lemma sn_flag_large:
  assumes "u < 4"
  shows "of_nat ((of_bool neg * 128 + u) * 2 ^ 24) OR SN_FLAG_NOT_EXISTS_MUL100 = of_nat ((of_bool neg * 128 + 4 + u) * 2 ^ 24)"
proof -
  let ?r = "of_nat ((of_bool neg * 128 + u) * 2 ^ 24) :: u32"
  have "?r = sn_word neg False 0 False u 0" by (simp add: sn_word_def)
  moreover have "\<not> bit (sn_word neg False 0 False u 0) 26"
    using sn_bit [OF sn_code_fields(1), of 0 u 0 26 neg False False] sn_code_fields(4) [of 0 u neg False False] assms unfolding sn_word_code by simp
  ultimately have "\<not> bit ?r 26" by simp
  then have "?r OR push_bit 26 1 = ?r + push_bit 26 1" by (rule or_bit_is_add)
  then show ?thesis by (simp add: SN_FLAG_NOT_EXISTS_MUL100_def push_bit_eq_mult algebra_simps)
qed

text \<open>
  What packing a positive number gives: the fields of the word, and a number \<open>x\<close> that the value was
  rounded from.
\<close>

definition sn_packed :: "rat \<Rightarrow> bool \<Rightarrow> nat \<Rightarrow> storage_number \<Rightarrow> bool" where
  "sn_packed v neg u w \<longleftrightarrow>
     (\<exists>mult m large k x. w = sn_word neg mult m large u k \<and> m < 8 \<and> k < 2 ^ 24 \<and> (large \<longrightarrow> mult \<and> 16 * 10 ^ 13 < v) \<and>
        \<bar>x * sn_scale mult m large - v\<bar> \<le> v / 10 ^ 14 \<and> \<bar>of_nat k - x\<bar> \<le> 1 / 2 \<and>
        (if v < 1 / 5 then \<not> mult \<and> m = 7 else if large then 167772 \<le> x else 1677721 \<le> x))"

lemma sn_packedI:
  assumes "near j (x * sn_scale mult m large) v" "j \<le> 9" "0 < v" and "w = of_nat (sn_code neg mult m large u * 2 ^ 24)"
    and "0 < x" "x \<le> SN_MAX" and "m < 8" and "large \<longrightarrow> mult \<and> 16 * 10 ^ 13 < v"
    and "if v < 1 / 5 then \<not> mult \<and> m = 7 else if large then 167772 \<le> x else 1677721 \<le> x"
  shows "\<exists>r. sn_add_value w (Fin x) = Inr r \<and> sn_packed v neg u r"
proof -
  from sn_add_value_ok [OF assms(5,6), of "sn_code neg mult m large u"] obtain k where
    k: "sn_add_value w (Fin x) = Inr (sn_word neg mult m large u k)" "k < 2 ^ 24" "\<bar>of_nat k - x\<bar> \<le> 1 / 2"
    unfolding assms(4) sn_word_code by blast
  have "sn_packed v neg u (sn_word neg mult m large u k)"
    unfolding sn_packed_def using k(2,3) assms(7-9) near_9 [OF assms(1-3)] by blast
  then show ?thesis using k(1) by blast
qed

lemma sn_pack_small:
  assumes "2 powi (- 1022) \<le> v" and "v \<le> SN_MAX" and "w = of_nat ((of_bool neg * 128 + u) * 2 ^ 24)"
  shows "\<exists>r. (case sn_grow 0 (Fin v) of (m, n) \<Rightarrow>
      let (m, n) = (if ndd_less (Fin SN_MAX) n then (m - 1, ndd_div n (Fin 10)) else (m, n))
      in sn_add_value (w + push_bit 27 (of_nat m)) n) = Inr r \<and> sn_packed v neg u r"
proof -
  have v: "0 < v" using assms(1) power_int_2_pos [of "- 1022"] by linarith
  have code: "w + push_bit 27 (of_nat m) = of_nat (sn_code neg False m False u * 2 ^ 24)" for m
    unfolding assms(3) sn_flag_sums by (simp add: sn_code_def algebra_simps)
  have "near 0 (v / 10 ^ 0) v" by (simp add: near_def)
  from sn_grow_ok [OF this v assms(1)] assms(2) obtain m y where
    g: "sn_grow 0 (Fin v) = (m, Fin y)" "near m (y / 10 ^ m) v" "m \<le> 7" "m = 7 \<or> 1677726 \<le> y" "2 powi (- 1022) \<le> y" "y \<le> 20000000"
      "m = 0 \<and> y = v \<or> 0 < m" by auto
  have y: "0 < y" using g(5) power_int_2_pos [of "- 1022"] by linarith
  have "\<bar>y / 10 ^ m - v\<bar> \<le> v / 10 ^ 14" using near_9 [OF g(2)] g(3) v by simp
  moreover have "v / 10 ^ 14 \<le> v / 100" using v by simp
  ultimately have yv: "y / 10 ^ m \<le> 2 * v" "v * 99 / 100 \<le> y / 10 ^ m" by linarith+
  have six: "y / 10 ^ 6 \<le> y / 10 ^ m" if "m < 7" using that y by (intro divide_left_mono power_increasing) auto
  have seven: "y / 10 ^ 7 \<le> y / 10 ^ m" using g(3) y by (intro divide_left_mono power_increasing) auto
  show ?thesis
  proof (cases "SN_MAX < y")
    case False
    have "if v < 1 / 5 then m = 7 else 1677721 \<le> y"
    proof (cases "v < 1 / 5")
      case True
      have "m = 7"
      proof (rule ccontr)
        assume "m \<noteq> 7"
        then have "1677726 \<le> y" "m < 7" using g(3,4) by auto
        then have "1 \<le> y / 10 ^ 6" by simp
        also have "\<dots> \<le> y / 10 ^ m" by (rule six) fact
        finally show False using yv(1) True by linarith
      qed
      then show ?thesis using True by simp
    next
      case F: False
      then show ?thesis using g(4) yv(2) by (cases "m = 7") auto
    qed
    then have "\<exists>r. sn_add_value (w + push_bit 27 (of_nat m)) (Fin y) = Inr r \<and> sn_packed v neg u r"
      using sn_packedI [of m y False m False v _ neg u, OF _ _ v code y] g(2,3) False by (simp add: sn_scale_def)
    then show ?thesis using g(1) False by simp
  next
    case True
    then have m: "0 < m" using g(7) assms(2) by auto
    define z where "z = fp_round (y / 10)"
    have "2 powi (- 1022) \<le> y / 10" using True by (intro normal_range) simp
    note z = fp_near [OF this, folded z_def]
    have "y / 10 / 2 ^ 53 \<le> 1 / 10" using g(6) by simp
    then have zb: "z \<le> SN_MAX" "1677721 \<le> z" using z(1) g(6) True by linarith+
    have d: "ndd_div (Fin y) (Fin 10) = Fin z" using ndd_of_rat_finite [OF huge_range, of "y / 10"] y g(6) by (simp add: z_def)
    have "z / 10 ^ (m - 1) - y / 10 ^ m = (z - y / 10) / 10 ^ (m - 1)" using m by (cases m) (simp_all add: field_simps)
    then have "\<bar>z / 10 ^ (m - 1) - y / 10 ^ m\<bar> = \<bar>z - y / 10\<bar> / 10 ^ (m - 1)" by (simp add: abs_divide)
    also have "\<dots> \<le> y / 10 / 2 ^ 53 / 10 ^ (m - 1)" using z(1) by (intro divide_right_mono) simp_all
    also have "\<dots> = y / 10 ^ m / 2 ^ 53" using m by (cases m) (simp_all add: field_simps)
    finally have nr: "near (m + 1) (z / 10 ^ (m - 1)) v" using near_step [OF g(2)] v g(3) by simp
    have "1 \<le> y / 10 ^ 7" using True by simp
    also note seven
    finally have "\<not> v < 1 / 5" using yv(1) by linarith
    then have "\<exists>r. sn_add_value (w + push_bit 27 (of_nat (m - 1))) (Fin z) = Inr r \<and> sn_packed v neg u r"
      using sn_packedI [of "m + 1" z False "m - 1" False v _ neg u, OF _ _ v code z(2)] nr g(3) zb by (simp add: sn_scale_def)
    then show ?thesis using g(1) True d by simp
  qed
qed

lemma sn_tenth_small:
  assumes "0 < v" and "v \<le> SN_MAX"
  shows "fp_round (v / 10000000) \<le> SN_MAX"
proof (cases "v / 10000000 < 1")
  case True
  then show ?thesis using fp_round_small [of "v / 10000000"] assms(1) by simp
next
  case False
  then have "2 powi (- 1022) \<le> v / 10000000" by (intro normal_range) simp
  note q = fp_near [OF this]
  have "v / 10000000 / 2 ^ 53 \<le> v / 10000000" "v / 10000000 \<le> 2" using assms by simp_all
  then show ?thesis using q(1) by linarith
qed

lemma sn_pack_shrunk:
  assumes f: "f = (if large then 100 else 10)" and v: "SN_MAX < v" "if large then 16 * 10 ^ 13 < v \<and> v \<le> 16 * 10 ^ 20 else v / 10 ^ 7 \<le> SN_MAX + 1 / 10"
    and w: "w = of_nat ((of_bool neg * 128 + of_bool large * 4 + u) * 2 ^ 24)"
  shows "\<exists>m n r. sn_shrink (Fin f) 0 (Fin v) = (m, n) \<and> m \<noteq> 0 \<and>
    (let r = w + (SN_FLAG_MULTIPLY + push_bit 27 (of_nat m)) in if ndd_less (Fin SN_MAX) n then Inr (r + 0x00ffffff) else sn_add_value r n) = Inr r \<and>
    sn_packed v neg u r"
proof -
  have v0: "0 < v" using v(1) by linarith
  have vb: "v \<le> 10 ^ 40" using v(2) by (cases large) simp_all
  have "near 0 (v * f ^ 0) v" by (simp add: near_def)
  moreover have "10 \<le> f" "f \<le> 100" by (simp_all add: f)
  ultimately obtain m y where
    g: "sn_shrink (Fin f) 0 (Fin v) = (m, Fin y)" "near m (y * f ^ m) v" "m \<le> 7" "m = 7 \<or> y \<le> SN_MAX" "0 < y"
      "m = 0 \<and> y = v \<or> 0 < m \<and> SN_MAX / f * (1 - 1 / 2 ^ 53) \<le> y"
    using sn_shrink_ok [OF _ v0 v0 vb _ _ le0] by blast
  have "m \<noteq> 0" using g(4,6) v(1) by auto
  then have m: "0 < m" "SN_MAX / f * (1 - 1 / 2 ^ 53) \<le> y" using g(6) by blast+
  have lo: "if large then 167772 \<le> y else 1677721 \<le> y" using m(2) f by (cases large) simp_all
  have sc: "y * sn_scale True m large = y * f ^ m" by (simp add: sn_scale_def f)
  have code: "w + (SN_FLAG_MULTIPLY + push_bit 27 (of_nat m)) = of_nat (sn_code neg True m large u * 2 ^ 24)"
    unfolding w sn_flag_sums by (simp add: sn_code_def algebra_simps)
  have ex: "\<bar>y * f ^ m - v\<bar> \<le> v / 10 ^ 14" using near_9 [OF g(2)] g(3) v0 by simp
  show ?thesis
  proof (cases "SN_MAX < y")
    case False
    have "large \<longrightarrow> True \<and> 16 * 10 ^ 13 < v" using v(2) by (cases large) simp_all
    from sn_packedI [of m y True m large v _ neg u, OF _ _ v0 code g(5) _ _ this]
    have "\<exists>r. sn_add_value (w + (SN_FLAG_MULTIPLY + push_bit 27 (of_nat m))) (Fin y) = Inr r \<and> sn_packed v neg u r"
      using g(2,3) v(1) False lo by (simp add: sc)
    then show ?thesis using g(1) m(1) False by (auto simp: Let_def)
  next
    case True
    then have m7: "m = 7" using g(4) by simp
    have nl: "\<not> large"
    proof
      assume l: large
      then have "f ^ 7 = 10 ^ 14" by (simp add: f)
      note ex [unfolded m7 this]
      then have "y * 10 ^ 14 - v \<le> v / 10 ^ 14" by (simp only: abs_le_iff)
      then show False using True l v(2) by simp
    qed
    then have "f ^ 7 = 10 ^ 7" by (simp add: f)
    note ex [unfolded m7 this]
    then have "y * 10 ^ 7 - v \<le> v / 10 ^ 14" by (simp only: abs_le_iff)
    then have "y \<le> SN_MAX + 1 / 2" using nl v(2) by simp
    then have k: "\<bar>of_nat 16777215 - y\<bar> \<le> 1 / 2" using True by simp
    let ?r = "sn_word neg True m large u 16777215"
    have "sn_packed v neg u ?r"
      unfolding sn_packed_def
    proof (intro exI conjI)
      show "?r = sn_word neg True m large u 16777215" by (rule refl)
      show "\<bar>y * sn_scale True m large - v\<bar> \<le> v / 10 ^ 14" unfolding sc by (rule ex)
    qed (use k nl g(3) lo v(1) in auto)
    moreover have "w + (SN_FLAG_MULTIPLY + push_bit 27 (of_nat m)) + 0x00ffffff = ?r" unfolding code sn_word_code by simp
    ultimately show ?thesis using g(1) m(1) True by (auto simp: Let_def)
  qed
qed

lemma sn_pack_positive_ok:
  assumes v: "2 powi (- 1022) \<le> v" "v \<le> 16 * 10 ^ 20" and u: "u < 4" and w: "w = of_nat ((of_bool neg * 128 + u) * 2 ^ 24)"
  shows "\<exists>r. sn_pack_positive w (Fin v) = Inr r \<and> sn_packed v neg u r"
proof -
  have v0: "0 < v" using v(1) power_int_2_pos [of "- 1022"] by linarith
  define q where "q = fp_round (v / 10000000)"
  have "\<bar>v / 10000000\<bar> \<le> 10 ^ 40" using v(2) v0 by simp
  then have q: "ndd_div (Fin v) (Fin 10000000) = Fin q" using ndd_of_rat_finite [OF huge_range] by (simp add: q_def)
  show ?thesis
  proof (cases "v \<le> SN_MAX")
    case True
    then have "\<not> SN_MAX < q" using sn_tenth_small [OF v0] unfolding q_def by simp
    moreover have "sn_shrink (Fin 10) 0 (Fin v) = (0, Fin v)" using True by (simp add: sn_shrink.simps)
    ultimately show ?thesis using sn_pack_small [OF v(1) True w] q by (simp add: sn_pack_positive_def)
  next
    case False
    then have "2 powi (- 1022) \<le> v / 10000000" by (intro normal_range) simp
    note n = fp_near [OF this, folded q_def]
    define large where "large \<longleftrightarrow> SN_MAX < q"
    define r where "r = (if large then w OR SN_FLAG_NOT_EXISTS_MUL100 else w)"
    have r: "r = of_nat ((of_bool neg * 128 + of_bool large * 4 + u) * 2 ^ 24)" using sn_flag_large [OF u] unfolding r_def w by simp
    have "if large then 16 * 10 ^ 13 < v \<and> v \<le> 16 * 10 ^ 20 else v / 10 ^ 7 \<le> SN_MAX + 1 / 10"
    proof (cases large)
      case True
      have "q \<le> v / 10000000 + v / 10000000 / 2 ^ 53" using n(1) by linarith
      then have "SN_MAX < v / 10000000 + v / 10000000 / 2 ^ 53" using True unfolding large_def by linarith
      then show ?thesis using True v(2) by simp
    next
      case False
      have "v / 10000000 - v / 10000000 / 2 ^ 53 \<le> q" using n(1) by linarith
      then have "v / 10000000 - v / 10000000 / 2 ^ 53 \<le> SN_MAX" using False unfolding large_def by linarith
      then show ?thesis using False by simp
    qed
    from sn_pack_shrunk [OF refl _ this r] False obtain m n s where
      s: "sn_shrink (Fin (if large then 100 else 10)) 0 (Fin v) = (m, n)" "m \<noteq> 0" "sn_packed v neg u s"
        "(let r = r + (SN_FLAG_MULTIPLY + push_bit 27 (of_nat m)) in if ndd_less (Fin SN_MAX) n then Inr (r + 0x00ffffff) else sn_add_value r n) = Inr s" by auto
    have "Fin (if large then 100 else 10) = (if large then Fin 100 else Fin 10)" by simp
    note sh = s(1) [unfolded this]
    have "sn_pack_positive w (Fin v) = Inr s"
      using s(2,4) by (simp only: sn_pack_positive_def q ndd_less.simps large_def [symmetric] r_def [symmetric] Let_def sh prod.case not_False_eq_True if_True)
    then show ?thesis using s(3) by blast
  qed
qed

section \<open>What comes back\<close>

lemma sn_lut:
  assumes "m < 8" and "large \<longrightarrow> mult"
  defines "s \<equiv> sn_scale mult m large"
  obtains l where "unpack_storage_number_lut10x ! (of_bool large * 16 + of_bool mult * 8 + m) = Fin l" "is_double (Fin l)" "\<bar>l - s\<bar> \<le> s / 2 ^ 53" "0 < l"
proof (cases mult)
  case False
  have p: "ndd_pow10 (int m) = Fin (10 ^ m)" using assms(1) by (intro ndd_pow10_exact) simp
  have b: "\<bar>1 / (10 :: rat) ^ m\<bar> \<le> 2 ^ 1000" 
  proof (rule huge_range)
    have "\<bar>1 / (10 :: rat) ^ m\<bar> \<le> 1" by simp
    then show "\<bar>1 / (10 :: rat) ^ m\<bar> \<le> 10 ^ 40" by (rule order_trans) simp
  qed
  have "ndd_div (Fin 1) (Fin (10 ^ m)) = Fin (fp_round (1 / 10 ^ m))" using ndd_of_rat_finite [OF b] by simp
  then have "unpack_storage_number_lut10x ! (of_bool large * 16 + of_bool mult * 8 + m) = Fin (fp_round (1 / 10 ^ m))"
    using False assms(1,2) p by (simp add: unpack_storage_number_lut10x_def nth_append)
  moreover have "2 powi (- 1022) \<le> 1 / (10 :: rat) ^ m" using assms(1) by (intro ten_pow_ge_min_normal) simp
  note fp_near [OF this]
  moreover have "s = 1 / 10 ^ m" using False by (simp add: s_def sn_scale_def)
  ultimately show ?thesis using that is_double_fp_round [OF b] by blast
next
  case True
  define n where "n = (if large then 100 ^ m else 10 ^ m :: int)"
  have "(10 :: int) ^ m \<le> 10 ^ 7" "(100 :: int) ^ m \<le> 100 ^ 7" using assms(1) by (intro power_increasing; simp)+
  then have n: "\<bar>n\<bar> < 2 ^ 53" "0 < n" by (auto simp: n_def)
  have s: "of_int n = s" using True by (simp add: s_def sn_scale_def n_def)
  have "unpack_storage_number_lut10x ! (of_bool large * 16 + of_bool mult * 8 + m) = Fin s"
  proof (cases large)
    case l: True
    then show ?thesis using True assms(1) ndd_of_rat_int [OF n(1)] by (simp add: unpack_storage_number_lut10x_def nth_append n_def s_def sn_scale_def)
  next
    case False
    then show ?thesis using True assms(1) ndd_pow10_exact [of m] by (simp add: unpack_storage_number_lut10x_def nth_append s_def sn_scale_def)
  qed
  moreover have "0 < s" using n(2) unfolding s [symmetric] by simp
  ultimately show ?thesis using that [of s] is_double_int [OF n(1)] unfolding s by simp
qed

lemma sn_unpacked:
  assumes "m < 8" and "u < 4" and "k < 2 ^ 24" and "large \<longrightarrow> mult"
  defines "s \<equiv> sn_scale mult m large"
  shows "\<exists>z. unpack_storage_number (sn_word neg mult m large u k) = Fin (if neg then - z else z) \<and> \<bar>z - of_nat k * s\<bar> \<le> 4 * (of_nat k * s) / 2 ^ 53"
proof -
  from sn_lut [OF assms(1,4)] obtain l where
    l: "unpack_storage_number_lut10x ! (of_bool large * 16 + of_bool mult * 8 + m) = Fin l" "is_double (Fin l)" "\<bar>l - s\<bar> \<le> s / 2 ^ 53" "0 < l"
    unfolding s_def by blast
  have s: "0 < s" "s \<le> 10 ^ 14" "1 / 10 ^ 7 \<le> s"
  proof -
    have "(10 :: rat) ^ m \<le> 10 ^ 7" "(100 :: rat) ^ m \<le> 100 ^ 7" 
      using assms(1) by (intro power_increasing; simp)+
    moreover have "1 \<le> (10 :: rat) ^ m" "1 \<le> (100 :: rat) ^ m" by simp_all
    then have "1 \<le> (10 :: rat) ^ m * 100000000000000" "1 \<le> (100 :: rat) ^ m * 10000000" "1 \<le> (10 :: rat) ^ m * 10000000" by linarith+
    ultimately show "0 < s" "s \<le> 10 ^ 14" "1 / 10 ^ 7 \<le> s" unfolding s_def sn_scale_def by (auto simp: field_simps)
  qed
  have "s / 2 ^ 53 \<le> s / 2" using s(1) by simp
  then have lb: "l \<le> 2 * s" "s / 2 \<le> l" using l(3) by linarith+
  have "l * of_nat k \<le> (2 * 10 ^ 14) * 2 ^ 24" using lb(1) s(2) l(4) assms(3) by (intro mult_mono) simp_all
  then have h: "\<bar>l * of_nat k\<bar> \<le> 2 ^ 1000" using l(4) by (intro huge_range) simp
  have "\<bar>- (l * of_nat k)\<bar> \<le> 2 ^ 1000" using h by (simp only: abs_minus_cancel)
  note h' = ndd_of_rat_finite [OF this]
  have sg: "ndd_mult (Fin (if neg then - 1 else 1)) (Fin l) = Fin (if neg then - l else l)"
    by (cases neg) (simp_all only: if_True if_False ndd_mult_one(1) [OF l(2)] ndd_mult_minus_one [OF l(2)])
  have "unpack_storage_number (sn_word neg mult m large u k) = Fin (if neg then - fp_round (l * of_nat k) else fp_round (l * of_nat k))"
    unfolding unpack_sn_word [OF assms(1-3) sn_word_exists [OF assms(1-4)]] l(1) sg
    by (cases neg) (simp_all only: if_True if_False ndd_mult.simps ndd_of_rat_finite [OF h] mult_minus_left h' fp_round_minus)
  moreover have "\<bar>fp_round (l * of_nat k) - of_nat k * s\<bar> \<le> 4 * (of_nat k * s) / 2 ^ 53"
  proof (cases "k = 0")
    case True
    then show ?thesis by (simp add: fp_round_def)
  next
    case False
    then have k: "(1 :: rat) \<le> of_nat k" by simp
    have "(1 :: rat) / 10 ^ 15 \<le> l" using s(3) lb(2) by simp
    also have "l * 1 \<le> l * of_nat k" using k l(4) by (intro mult_left_mono) simp_all
    finally have "2 powi (- 1022) \<le> l * of_nat k" using ten_pow_ge_min_normal [of 15] by simp
    note e = fp_near(1) [OF this]
    have "l * of_nat k - s * of_nat k = (l - s) * of_nat k" by (simp add: algebra_simps)
    then have "\<bar>l * of_nat k - s * of_nat k\<bar> = \<bar>l - s\<bar> * of_nat k" by (simp add: abs_mult)
    also have "\<dots> \<le> s / 2 ^ 53 * of_nat k" using l(3) by (intro mult_right_mono) simp_all
    finally have d: "\<bar>l * of_nat k - of_nat k * s\<bar> \<le> of_nat k * s / 2 ^ 53" by (simp add: mult.commute)
    have "l * of_nat k \<le> 2 * s * of_nat k" using lb(1) by (intro mult_right_mono) simp_all
    then have "l * of_nat k / 2 ^ 53 \<le> 2 * s * of_nat k / 2 ^ 53" by (intro divide_right_mono) simp_all
    also have "\<dots> = 2 * (of_nat k * s / 2 ^ 53)" by simp
    finally have "\<bar>fp_round (l * of_nat k) - of_nat k * s\<bar> \<le> 3 * (of_nat k * s / 2 ^ 53)" using e d by linarith
    moreover have "0 \<le> of_nat k * s / 2 ^ 53" using s(1) by simp
    moreover have "4 * (of_nat k * s) / 2 ^ 53 = 4 * (of_nat k * s / 2 ^ 53)" by simp
    ultimately show ?thesis by linarith
  qed
  ultimately show ?thesis by blast
qed

definition sn_error :: "rat \<Rightarrow> rat" where
  "sn_error v = (if v < 1 / 5 then 1 / 10 ^ 7 else if v \<le> 16 * 10 ^ 13 then 3 * v / 10 ^ 7 else 3 * v / 10 ^ 6)"

lemma sn_total_error:
  fixes z k s x v :: rat
  assumes "\<bar>z - k * s\<bar> \<le> 4 * (k * s) / 2 ^ 53" "\<bar>x * s - v\<bar> \<le> v / 10 ^ 14" "\<bar>k - x\<bar> \<le> 1 / 2" "0 < s" "0 < v"
  shows "\<bar>z - v\<bar> \<le> v / 10 ^ 13 + (1 + 1 / 10 ^ 13) * (s / 2)"
proof -
  have "k * s - x * s = (k - x) * s" by (simp add: algebra_simps)
  then have "\<bar>k * s - x * s\<bar> = \<bar>k - x\<bar> * s" using assms(4) by (simp add: abs_mult)
  also have "\<dots> \<le> 1 / 2 * s" using assms(3,4) by (intro mult_right_mono) simp_all
  finally have a: "\<bar>k * s - x * s\<bar> \<le> s / 2" by simp
  then have "k * s \<le> v + v / 10 ^ 14 + s / 2" using assms(2) by linarith
  then have "4 * (k * s) / 2 ^ 53 \<le> 4 * (v + v / 10 ^ 14 + s / 2) / 2 ^ 53" by (intro divide_right_mono) simp_all
  then have "\<bar>z - v\<bar> \<le> 4 * (v + v / 10 ^ 14 + s / 2) / 2 ^ 53 + s / 2 + v / 10 ^ 14" using a assms(1,2) by linarith
  also have "\<dots> \<le> v / 10 ^ 13 + (1 + 1 / 10 ^ 13) * (s / 2)" using assms(4,5) by (simp add: field_simps)
  finally show ?thesis .
qed

lemma sn_step_size:
  fixes s x v c :: rat
  assumes "\<bar>x * s - v\<bar> \<le> v / 10 ^ 14" and "c \<le> x" and "0 < s"
  shows "c * s \<le> (1 + 1 / 10 ^ 14) * v"
proof -
  have "c * s \<le> x * s" using assms(2,3) by (intro mult_right_mono) simp_all
  moreover have "(1 + 1 / 10 ^ 14) * v = v + v / 10 ^ 14" by (simp add: algebra_simps)
  ultimately show ?thesis using assms(1) by linarith
qed

lemma sn_packed_unpack:
  assumes "sn_packed v neg u r" and "0 < v" and "u < 4"
  shows "\<exists>z. unpack_storage_number r = Fin (if neg then - z else z) \<and> \<bar>z - v\<bar> \<le> sn_error v"
proof -
  from assms(1) obtain mult m large k x where
    r: "r = sn_word neg mult m large u k" "m < 8" "k < 2 ^ 24" "large \<longrightarrow> mult \<and> 16 * 10 ^ 13 < v"
      "\<bar>x * sn_scale mult m large - v\<bar> \<le> v / 10 ^ 14" "\<bar>of_nat k - x\<bar> \<le> 1 / 2"
    and c: "if v < 1 / 5 then \<not> mult \<and> m = 7 else if large then 167772 \<le> x else 1677721 \<le> x"
    unfolding sn_packed_def by blast
  define s where "s = sn_scale mult m large"
  have s: "0 < s" by (simp add: s_def sn_scale_def)
  from sn_unpacked [of m u k large mult neg] r(2-4) assms(3) obtain z where
    z: "unpack_storage_number r = Fin (if neg then - z else z)" "\<bar>z - of_nat k * s\<bar> \<le> 4 * (of_nat k * s) / 2 ^ 53"
    unfolding r(1) s_def by auto
  have e: "\<bar>z - v\<bar> \<le> v / 10 ^ 13 + (1 + 1 / 10 ^ 13) * (s / 2)"
    using sn_total_error [OF z(2) r(5) [folded s_def] r(6) s assms(2)] .
  have "v / 10 ^ 13 + (1 + 1 / 10 ^ 13) * (s / 2) \<le> sn_error v"
  proof (cases "v < 1 / 5")
    case True
    then have "s = 1 / 10 ^ 7" using c by (simp add: s_def sn_scale_def)
    then show ?thesis using True by (simp add: sn_error_def)
  next
    case F: False
    show ?thesis
    proof (cases large)
      case True
      then have "167772 * s \<le> (1 + 1 / 10 ^ 14) * v" using c F by (intro sn_step_size [OF r(5) [folded s_def] _ s]) simp
      then show ?thesis using True r(4) F by (simp add: sn_error_def)
    next
      case False
      then have "1677721 * s \<le> (1 + 1 / 10 ^ 14) * v" using c F by (intro sn_step_size [OF r(5) [folded s_def] _ s]) simp
      then have "v / 10 ^ 13 + (1 + 1 / 10 ^ 13) * (s / 2) \<le> 3 * v / 10 ^ 7" using assms(2) by simp
      moreover have "3 * v / 10 ^ 7 \<le> 3 * v / 10 ^ 6" using assms(2) by simp
      ultimately show ?thesis using F by (simp add: sn_error_def)
    qed
  qed
  then show ?thesis using z(1) e by (intro exI [of _ z]) simp
qed

definition sn_user :: "storage_number \<Rightarrow> nat" where
  "sn_user flags = of_bool (bit flags 24) + 2 * of_bool (bit flags 25)"

lemma sn_user_less: "sn_user flags < 4"
  by (simp add: sn_user_def of_bool_def)

lemma and_user_flags: "flags AND SN_USER_FLAGS = of_nat (sn_user flags * 2 ^ 24)"
proof -
  have "flags AND SN_USER_FLAGS = (if bit flags 24 then push_bit 24 1 else 0) OR (if bit flags 25 then push_bit 25 1 else 0)"
    unfolding SN_USER_FLAGS_def SN_FLAG_NOT_ANOMALOUS_def SN_FLAG_RESET_def
    by (rule bit_eqI) (auto simp: bit_simps simp del: push_bit_of_1)
  also have "\<dots> = of_nat (sn_user flags * 2 ^ 24)" by (simp add: sn_user_def push_bit_eq_mult)
  finally show ?thesis .
qed

lemma sn_word_flags:
  assumes r: "r = sn_word neg mult m large (sn_user flags) k" "m < 8" "k < 2 ^ 24" "large \<longrightarrow> mult"
  shows "does_storage_number_exist r" "did_storage_number_reset r \<longleftrightarrow> flags AND SN_FLAG_RESET \<noteq> 0"
    "is_storage_number_anomalous r \<longleftrightarrow> flags AND SN_FLAG_NOT_ANOMALOUS = 0"
proof -
  show ex: "does_storage_number_exist r"
    unfolding does_storage_number_exist_def r(1) by (rule sn_word_exists [OF r(2) sn_user_less r(3,4)])
  define c where "c = sn_code neg mult m large (sn_user flags)"
  note f = sn_code_fields [OF r(2) sn_user_less [of flags], of neg mult large, folded c_def]
  have b: "bit r n \<longleftrightarrow> odd (c div 2 ^ (n - 24))" if "24 \<le> n" "n < 32" for n
    unfolding r(1) sn_word_code c_def [symmetric] by (rule sn_bit [OF f(1) r(3) that])
  have "odd c \<longleftrightarrow> odd (c mod 4)" "odd (c div 2) \<longleftrightarrow> odd (c mod 4 div 2)" by presburger+
  then have "bit r 24 \<longleftrightarrow> bit flags 24" "bit r 25 \<longleftrightarrow> bit flags 25" using b [of 24] b [of 25] f(6) by (simp_all add: sn_user_def)
  then show "did_storage_number_reset r \<longleftrightarrow> flags AND SN_FLAG_RESET \<noteq> 0" "is_storage_number_anomalous r \<longleftrightarrow> flags AND SN_FLAG_NOT_ANOMALOUS = 0"
    using ex sn_flag_bits(4,5) [of r] sn_flag_bits(4,5) [of flags]
    unfolding did_storage_number_reset_def is_storage_number_anomalous_def by blast+
qed

definition sn_kept :: "storage_number \<Rightarrow> storage_number \<Rightarrow> bool" where
  "sn_kept flags r \<longleftrightarrow> does_storage_number_exist r \<and> (did_storage_number_reset r \<longleftrightarrow> flags AND SN_FLAG_RESET \<noteq> 0) \<and>
     (is_storage_number_anomalous r \<longleftrightarrow> flags AND SN_FLAG_NOT_ANOMALOUS = 0)"

lemma sn_word_kept: "r = sn_word neg mult m large (sn_user flags) k \<Longrightarrow> m < 8 \<Longrightarrow> k < 2 ^ 24 \<Longrightarrow> large \<longrightarrow> mult \<Longrightarrow> sn_kept flags r"
  unfolding sn_kept_def by (intro conjI sn_word_flags)

lemma sn_packed_kept: "sn_packed v neg (sn_user flags) r \<Longrightarrow> sn_kept flags r"
  unfolding sn_packed_def
  by (elim exE conjE) (use sn_word_kept in blast)

lemma pack_tiny:
  assumes "v = 0 \<or> \<bar>v\<bar> < 2 powi (- 1022)"
  shows "\<exists>r. pack_storage_number (Fin v) flags = Inr r \<and> sn_kept flags r \<and> unpack_storage_number r = Fin 0"
proof -
  let ?r = "sn_word False False 0 False (sn_user flags) 0"
  have "pack_storage_number (Fin v) flags = Inr ?r" using assms by (simp add: pack_storage_number_def Let_def and_user_flags sn_word_def)
  moreover have "sn_kept flags ?r" by (rule sn_word_kept [OF refl]) simp_all
  moreover have "unpack_storage_number ?r = Fin 0" using sn_unpacked [of 0 "sn_user flags" 0 False False False] sn_user_less [of flags] by simp
  ultimately show ?thesis by blast
qed

lemma pack_normal:
  assumes "2 powi (- 1022) \<le> \<bar>v\<bar>" and "\<bar>v\<bar> \<le> 16 * 10 ^ 20"
  shows "\<exists>r. pack_storage_number (Fin v) flags = Inr r \<and> sn_packed \<bar>v\<bar> (v < 0) (sn_user flags) r"
proof -
  have "0 < \<bar>v\<bar>" using assms(1) power_int_2_pos [of "- 1022"] by linarith
  then have n: "\<not> (v = 0 \<or> \<bar>v\<bar> < 2 powi (- 1022))" using assms(1) by auto
  have "(flags AND SN_USER_FLAGS) + SN_FLAG_NEGATIVE = of_nat ((of_bool True * 128 + sn_user flags) * 2 ^ 24)"
    unfolding and_user_flags sn_flag_sums by (simp add: algebra_simps)
  note m = sn_pack_positive_ok [OF assms sn_user_less this]
  have "flags AND SN_USER_FLAGS = of_nat ((of_bool False * 128 + sn_user flags) * 2 ^ 24)" unfolding and_user_flags by simp
  note p = sn_pack_positive_ok [OF assms sn_user_less this]
  show ?thesis
  proof (cases "v < 0")
    case True
    then show ?thesis using m n by (simp add: pack_storage_number_def Let_def)
  next
    case False
    then show ?thesis using p n by (simp add: pack_storage_number_def Let_def)
  qed
qed

text \<open>
  C17 (what is stored comes back)  Every finite number of magnitude up to \<open>16 * 10 ^ 20\<close> is packed without an
  error.  The stored word exists, carries the reset and the anomaly flag it was given, and unpacks to a
  number within \<open>10 ^ - 7\<close> of the original below \<open>1 / 5\<close>, within 0.3 parts per million up to \<open>16 * 10 ^ 13\<close>,
  and within 3 parts per million above, whatever the roundings of the divisions and multiplications.
\<close>

theorem storage_number_accuracy:
  assumes "\<bar>v\<bar> \<le> 16 * 10 ^ 20"
  shows "\<exists>r z. pack_storage_number (Fin v) flags = Inr r \<and> does_storage_number_exist r \<and>
    (did_storage_number_reset r \<longleftrightarrow> flags AND SN_FLAG_RESET \<noteq> 0) \<and> (is_storage_number_anomalous r \<longleftrightarrow> flags AND SN_FLAG_NOT_ANOMALOUS = 0) \<and>
    unpack_storage_number r = Fin z \<and>
    \<bar>z - v\<bar> \<le> (if \<bar>v\<bar> < 1 / 5 then 1 / 10 ^ 7 else if \<bar>v\<bar> \<le> 16 * 10 ^ 13 then 3 * \<bar>v\<bar> / 10 ^ 7 else 3 * \<bar>v\<bar> / 10 ^ 6)"
proof -
  have "\<exists>r z. pack_storage_number (Fin v) flags = Inr r \<and> sn_kept flags r \<and> unpack_storage_number r = Fin z \<and> \<bar>z - v\<bar> \<le> sn_error \<bar>v\<bar>"
  proof (cases "v = 0 \<or> \<bar>v\<bar> < 2 powi (- 1022)")
    case True
    then have "\<bar>v\<bar> \<le> 1 / 10 ^ 7" using ten_pow_ge_min_normal [of 7] by (auto simp del: power_int_minus)
    then have "\<bar>0 - v\<bar> \<le> sn_error \<bar>v\<bar>" by (simp add: sn_error_def)
    then show ?thesis using pack_tiny [OF True, of flags] by blast
  next
    case False
    then have "2 powi (- 1022) \<le> \<bar>v\<bar>" "0 < \<bar>v\<bar>" by auto
    from pack_normal [OF this(1) assms] obtain r where r: "pack_storage_number (Fin v) flags = Inr r" "sn_packed \<bar>v\<bar> (v < 0) (sn_user flags) r" by blast
    from sn_packed_unpack [OF r(2) \<open>0 < \<bar>v\<bar>\<close> sn_user_less] obtain z where
      z: "unpack_storage_number r = Fin (if v < 0 then - z else z)" "\<bar>z - \<bar>v\<bar>\<bar> \<le> sn_error \<bar>v\<bar>" by blast
    have "\<bar>(if v < 0 then - z else z) - v\<bar> = \<bar>z - \<bar>v\<bar>\<bar>" by auto
    then show ?thesis using r(1) z sn_packed_kept [OF r(2)] by metis
  qed
  then show ?thesis unfolding sn_kept_def sn_error_def by blast
qed

theorem storage_number_accuracy_witness:
  "\<exists>r z. pack_storage_number (Fin (- 1 / 3)) SN_FLAG_NOT_ANOMALOUS = Inr r \<and> does_storage_number_exist r \<and> \<not> did_storage_number_reset r \<and>
    \<not> is_storage_number_anomalous r \<and> unpack_storage_number r = Fin z \<and> \<bar>z - (- 1 / 3)\<bar> \<le> 1 / 10 ^ 7"
proof -
  have "SN_FLAG_NOT_ANOMALOUS AND SN_FLAG_RESET = 0" "SN_FLAG_NOT_ANOMALOUS AND SN_FLAG_NOT_ANOMALOUS \<noteq> 0"
    by (simp_all add: SN_FLAG_NOT_ANOMALOUS_def SN_FLAG_RESET_def)
  then show ?thesis using storage_number_accuracy [of "- 1 / 3" SN_FLAG_NOT_ANOMALOUS] by simp
qed

section \<open>The accuracy that is accepted\<close>

text \<open>The loss in percent that \<^verbatim>\<open>accuracy_loss\<close> computes, over exact numbers.\<close>

definition ACCURACY_LOSS_ACCEPTED_PERCENT :: rat where
  "ACCURACY_LOSS_ACCEPTED_PERCENT = 1 / 10000"

definition accuracy_loss :: "rat \<Rightarrow> rat \<Rightarrow> rat" where
  "accuracy_loss t1 t2 =
     (if t1 = t2 \<or> t1 = 0 \<or> t2 = 0 then 0 else 100 - (if t1 > t2 then t2 * 100 / t1 else t1 * 100 / t2))"

lemma div_exact: "\<bar>n\<bar> < 2 ^ 53 \<Longrightarrow> y \<noteq> 0 \<Longrightarrow> x / y = of_int n \<Longrightarrow> ndd_div (Fin x) (Fin y) = Fin (of_int n)"
  using ndd_of_rat_int [of n] by simp

lemma shrink_large_example: "sn_shrink (Fin 100) 0 (Fin 1677725000000000) = (5, Fin (335545 / 2))"
proof -
  have "ndd_div (Fin 1677725000000000) (Fin 100) = Fin 16777250000000" "ndd_div (Fin 16777250000000) (Fin 100) = Fin 167772500000"
    "ndd_div (Fin 167772500000) (Fin 100) = Fin 1677725000" "ndd_div (Fin 1677725000) (Fin 100) = Fin 16777250"
    using div_exact [of 16777250000000 100 1677725000000000] div_exact [of 167772500000 100 16777250000000]
      div_exact [of 1677725000 100 167772500000] div_exact [of 16777250 100 1677725000] by simp_all
  moreover have "ndd_of_rat (335545 / 2) = Fin (335545 / 2)"
    using ndd_of_rat_finite [OF huge_range, of "335545 / 2"] fp_round_representable [of 335545 "- 1"] by simp
  then have "ndd_div (Fin 16777250) (Fin 100) = Fin (335545 / 2)" by simp
  ultimately show ?thesis by (simp add: sn_shrink.simps del: ndd_div.simps)
qed

text \<open>
  A number that needs the factor 100 can lose more than
  \<^verbatim>\<open>ACCURACY_LOSS_ACCEPTED_PERCENT\<close>: 1677725000000000 is stored and comes back as 1677720000000000, a loss of
  0.000298 percent, where 0.0001 percent is the loss that is accepted.
\<close>

lemma storage_number_loss:
  "\<exists>r. pack_storage_number (Fin 1677725000000000) SN_FLAG_NOT_ANOMALOUS = Inr r \<and> unpack_storage_number r = Fin 1677720000000000 \<and>
     ACCURACY_LOSS_ACCEPTED_PERCENT < accuracy_loss 1677725000000000 1677720000000000"
proof -
  let ?r = "sn_word False True 5 True 1 167772"
  have q: "ndd_div (Fin 1677725000000000) (Fin 10000000) = Fin 167772500" using div_exact [of 167772500 10000000 1677725000000000] by simp
  have "\<lfloor>335545 / 2 :: rat\<rfloor> = 167772" by (rule floor_unique) simp_all
  then have k: "lrint (Fin (335545 / 2)) = Inr 167772" by (simp add: round_even_def Let_def)
  have f: "SN_FLAG_NOT_ANOMALOUS AND SN_USER_FLAGS = 0x1000000"
    by (simp add: SN_FLAG_NOT_ANOMALOUS_def SN_USER_FLAGS_def SN_FLAG_RESET_def)
  have "sn_pack_positive 0x1000000 (Fin 1677725000000000) = Inr ?r"
    unfolding sn_pack_positive_def q sn_add_value_def
    by (simp add: shrink_large_example k SN_FLAG_NOT_EXISTS_MUL100_def SN_FLAG_MULTIPLY_def sn_word_def del: lrint.simps)
  moreover have "\<not> (1677725000000000 :: rat) < 2 powi (- 1022)" using normal_range [of 1677725000000000] by simp
  ultimately have "pack_storage_number (Fin 1677725000000000) SN_FLAG_NOT_ANOMALOUS = Inr ?r"
    by (simp add: pack_storage_number_def f)
  moreover have "unpack_storage_number ?r = Fin 1677720000000000"
  proof -
    have l: "unpack_storage_number_lut10x ! 29 = Fin 10000000000"
      using ndd_of_rat_int [of 10000000000] by (simp add: unpack_storage_number_lut10x_def nth_append)
    have "ndd_mult (Fin 1) (Fin 10000000000) = Fin 10000000000" "ndd_mult (Fin 10000000000) (Fin 167772) = Fin 1677720000000000"
      using ndd_of_rat_int [of 10000000000] ndd_of_rat_int [of 1677720000000000] by simp_all
    then show ?thesis using unpack_sn_word [OF _ _ _ sn_word_exists, of 5 1 167772 True True False] l by (simp del: ndd_mult.simps)
  qed
  ultimately show ?thesis by (intro exI [of _ ?r]) (simp add: ACCURACY_LOSS_ACCEPTED_PERCENT_def accuracy_loss_def)
qed

text \<open>A zero is not the empty slot: it is stored as its flags, while the empty slot comes back as no number.\<close>

lemma zero_and_empty_slot:
  "pack_storage_number (Fin 0) flags = Inr (flags AND SN_USER_FLAGS)" "unpack_storage_number SN_EMPTY_SLOT = NaN"
  "pack_storage_number NaN flags = Inr SN_EMPTY_SLOT" "pack_storage_number (Inf b) flags = Inr SN_EMPTY_SLOT"
  by (simp_all add: pack_storage_number_def unpack_storage_number_def)

end
