(* ===== verification/Linked_List.thy ===== *)
theory Linked_List
  imports C_Prelude
begin

text \<open>
  The doubly linked list macros of \<^verbatim>\<open>libnetdata/linked_lists/linked_lists.h\<close> at the level of
  pointers.  A heap maps addresses to nodes; a null pointer is \<open>None\<close>, and using an address that
  holds no node is \<open>UseAfterFree\<close>.  In a list the \<^verbatim>\<open>prev\<close> of the head is the last item and the
  \<^verbatim>\<open>next\<close> of the last item is null.

  The predicate \<open>dll\<close> says that a head represents a list of addresses; each macro is shown to
  implement the corresponding operation on lists, and to leave every other node alone.
\<close>

section \<open>Nodes\<close>

type_synonym addr = nat

record node =
  n_prev :: "addr option"
  n_next :: "addr option"

type_synonym heap = "addr \<Rightarrow> node option"

fun node_at :: "heap \<Rightarrow> addr option \<Rightarrow> node res" where
  "node_at h None = Inl NullDeref"
| "node_at h (Some p) = (case h p of None \<Rightarrow> Inl UseAfterFree | Some n \<Rightarrow> Inr n)"

fun set_prev :: "heap \<Rightarrow> addr option \<Rightarrow> addr option \<Rightarrow> heap res" where
  "set_prev h None v = Inl NullDeref"
| "set_prev h (Some p) v = rbind (node_at h (Some p)) (\<lambda>n. Inr (h(p \<mapsto> n\<lparr>n_prev := v\<rparr>)))"

fun set_next :: "heap \<Rightarrow> addr option \<Rightarrow> addr option \<Rightarrow> heap res" where
  "set_next h None v = Inl NullDeref"
| "set_next h (Some p) v = rbind (node_at h (Some p)) (\<lambda>n. Inr (h(p \<mapsto> n\<lparr>n_next := v\<rparr>)))"

definition fatal_assert :: "bool \<Rightarrow> 'a \<Rightarrow> 'a res" where
  "fatal_assert b x = (if b then Inr x else Inl Fatal)"

section \<open>The macros\<close>

text \<open>Each returns the new head and the new heap.\<close>

definition DOUBLE_LINKED_LIST_PREPEND_ITEM_UNSAFE :: "addr option \<Rightarrow> addr \<Rightarrow> heap \<Rightarrow> (addr option \<times> heap) res" where
  "DOUBLE_LINKED_LIST_PREPEND_ITEM_UNSAFE head item h =
     rbind (set_next h (Some item) head) (\<lambda>h.
     rbind
       (if head \<noteq> None then
          rbind (node_at h head) (\<lambda>n.
          rbind (set_prev h (Some item) (n_prev n)) (\<lambda>h.
            set_prev h head (Some item)))
        else set_prev h (Some item) (Some item)) (\<lambda>h.
     Inr (Some item, h)))"

definition DOUBLE_LINKED_LIST_APPEND_ITEM_UNSAFE :: "addr option \<Rightarrow> addr \<Rightarrow> heap \<Rightarrow> (addr option \<times> heap) res" where
  "DOUBLE_LINKED_LIST_APPEND_ITEM_UNSAFE head item h =
     rbind (set_next h (Some item) None) (\<lambda>h.
       if head \<noteq> None then
         rbind (node_at h head) (\<lambda>n.
         rbind (set_prev h (Some item) (n_prev n)) (\<lambda>h.
         rbind (set_next h (n_prev n) (Some item)) (\<lambda>h.
         rbind (set_prev h head (Some item)) (\<lambda>h.
           Inr (head, h)))))
       else
         rbind (set_prev h (Some item) (Some item)) (\<lambda>h. Inr (Some item, h)))"

definition DOUBLE_LINKED_LIST_REMOVE_ITEM_UNSAFE :: "addr option \<Rightarrow> addr \<Rightarrow> heap \<Rightarrow> (addr option \<times> heap) res" where
  "DOUBLE_LINKED_LIST_REMOVE_ITEM_UNSAFE head item h =
     rbind (fatal_assert (head \<noteq> None) h) (\<lambda>h.
     rbind (node_at h (Some item)) (\<lambda>n.
     rbind (fatal_assert (n_prev n \<noteq> None) h) (\<lambda>h.
     rbind
       (if n_prev n = Some item then Inr (None, h)
        else if head = Some item then
          rbind (fatal_assert (n_next n \<noteq> None) h) (\<lambda>h.
          rbind (set_prev h (n_next n) (n_prev n)) (\<lambda>h.
            Inr (n_next n, h)))
        else
          rbind (set_next h (n_prev n) (n_next n)) (\<lambda>h.
          rbind
            (if n_next n \<noteq> None then set_prev h (n_next n) (n_prev n)
             else set_prev h head (n_prev n)) (\<lambda>h.
            Inr (head, h)))) (\<lambda>(head, h).
     rbind (set_next h (Some item) None) (\<lambda>h.
     rbind (set_prev h (Some item) None) (\<lambda>h.
       Inr (head, h)))))))"

definition DOUBLE_LINKED_LIST_INSERT_ITEM_BEFORE_UNSAFE ::
  "addr option \<Rightarrow> addr option \<Rightarrow> addr \<Rightarrow> heap \<Rightarrow> (addr option \<times> heap) res" where
  "DOUBLE_LINKED_LIST_INSERT_ITEM_BEFORE_UNSAFE head existing item h =
     (if existing \<noteq> None then
        rbind (fatal_assert (head \<noteq> None) h) (\<lambda>h.
        rbind (set_next h (Some item) existing) (\<lambda>h.
        rbind (node_at h existing) (\<lambda>n.
        rbind (set_prev h (Some item) (n_prev n)) (\<lambda>h.
        rbind (set_prev h existing (Some item)) (\<lambda>h.
          if head = existing then Inr (Some item, h)
          else
            rbind (node_at h (Some item)) (\<lambda>m.
            rbind (set_next h (n_prev m) (Some item)) (\<lambda>h.
              Inr (head, h))))))))
      else DOUBLE_LINKED_LIST_APPEND_ITEM_UNSAFE head item h)"

definition DOUBLE_LINKED_LIST_INSERT_ITEM_AFTER_UNSAFE ::
  "addr option \<Rightarrow> addr option \<Rightarrow> addr \<Rightarrow> heap \<Rightarrow> (addr option \<times> heap) res" where
  "DOUBLE_LINKED_LIST_INSERT_ITEM_AFTER_UNSAFE head existing item h =
     (if existing \<noteq> None then
        rbind (fatal_assert (head \<noteq> None) h) (\<lambda>h.
        rbind (node_at h existing) (\<lambda>n.
        rbind (set_next h (Some item) (n_next n)) (\<lambda>h.
        rbind (set_prev h (Some item) existing) (\<lambda>h.
        rbind (set_next h existing (Some item)) (\<lambda>h.
        rbind (node_at h (Some item)) (\<lambda>m.
        rbind
          (if n_next m \<noteq> None then set_prev h (n_next m) (Some item)
           else set_prev h head (Some item)) (\<lambda>h.
          Inr (head, h))))))))
      else DOUBLE_LINKED_LIST_PREPEND_ITEM_UNSAFE head item h)"

definition DOUBLE_LINKED_LIST_APPEND_LIST_UNSAFE ::
  "addr option \<Rightarrow> addr option \<Rightarrow> heap \<Rightarrow> (addr option \<times> heap) res" where
  "DOUBLE_LINKED_LIST_APPEND_LIST_UNSAFE head head2 h =
     (if head2 \<noteq> None then
        if head \<noteq> None then
          rbind (node_at h head2) (\<lambda>n2.
          rbind (node_at h head) (\<lambda>n.
          rbind (set_prev h head2 (n_prev n)) (\<lambda>h.
          rbind (node_at h head) (\<lambda>n.
          rbind (set_next h (n_prev n) head2) (\<lambda>h.
          rbind (set_prev h head (n_prev n2)) (\<lambda>h.
            Inr (head, h)))))))
        else Inr (head2, h)
      else Inr (head, h))"

text \<open>
  The two traversals, as the list of items visited; \<open>fuel\<close> bounds the number of steps, and
  \<open>None\<close> is a traversal that has not ended by then.
\<close>

fun foreach_forward :: "nat \<Rightarrow> heap \<Rightarrow> addr option \<Rightarrow> addr list res option" where
  "foreach_forward fuel h None = Some (Inr [])"
| "foreach_forward 0 h (Some p) = None"
| "foreach_forward (Suc fuel) h (Some p) =
     (case h p of
        None \<Rightarrow> Some (Inl UseAfterFree)
      | Some n \<Rightarrow> map_option (\<lambda>r. rbind r (\<lambda>xs. Inr (p # xs))) (foreach_forward fuel h (n_next n)))"

fun foreach_backward_from :: "nat \<Rightarrow> heap \<Rightarrow> addr option \<Rightarrow> addr option \<Rightarrow> addr list res option" where
  "foreach_backward_from fuel h head None = Some (Inr [])"
| "foreach_backward_from 0 h head (Some p) = None"
| "foreach_backward_from (Suc fuel) h head (Some p) =
     (if Some p = head then Some (Inr [p])
      else case h p of
        None \<Rightarrow> Some (Inl UseAfterFree)
      | Some n \<Rightarrow> map_option (\<lambda>r. rbind r (\<lambda>xs. Inr (p # xs))) (foreach_backward_from fuel h head (n_prev n)))"

definition foreach_backward :: "nat \<Rightarrow> heap \<Rightarrow> addr option \<Rightarrow> addr list res option" where
  "foreach_backward fuel h head =
     (case head of
        None \<Rightarrow> Some (Inr [])
      | Some p \<Rightarrow>
          (case h p of
             None \<Rightarrow> Some (Inl UseAfterFree)
           | Some n \<Rightarrow> foreach_backward_from fuel h head (n_prev n)))"

section \<open>Representation\<close>

text \<open>The nodes of a segment, given what lies before and after it.\<close>

fun seg :: "heap \<Rightarrow> addr option \<Rightarrow> addr list \<Rightarrow> addr option \<Rightarrow> bool" where
  "seg h p [] n = True"
| "seg h p (x # xs) n =
     (h x = Some \<lparr>n_prev = p, n_next = (if xs = [] then n else Some (hd xs))\<rparr> \<and> seg h (Some x) xs n)"

definition dll :: "heap \<Rightarrow> addr option \<Rightarrow> addr list \<Rightarrow> bool" where
  "dll h head xs \<longleftrightarrow>
     distinct xs \<and>
     (if xs = [] then head = None else head = Some (hd xs) \<and> seg h (Some (last xs)) xs None)"

text \<open>The heap differs at most at some addresses.\<close>

definition same_except :: "addr set \<Rightarrow> heap \<Rightarrow> heap \<Rightarrow> bool" where
  "same_except A h h' \<longleftrightarrow> (\<forall>a. a \<notin> A \<longrightarrow> h' a = h a)"

lemma seg_frame: "(\<forall>x \<in> set xs. h' x = h x) \<Longrightarrow> seg h' p xs n = seg h p xs n"
  by (induction xs arbitrary: p) auto

lemma seg_upd [simp]: "z \<notin> set xs \<Longrightarrow> seg (h(z := v)) p xs n = seg h p xs n"
  by (rule seg_frame) auto

lemma seg_append:
  "seg h p (xs @ ys) n \<longleftrightarrow>
   seg h p xs (if ys = [] then n else Some (hd ys)) \<and> seg h (if xs = [] then p else Some (last xs)) ys n"
  by (induction xs arbitrary: p) auto

lemma seg_in: "seg h p xs n \<Longrightarrow> x \<in> set xs \<Longrightarrow> \<exists>nd. h x = Some nd"
  by (induction xs arbitrary: p) auto

section \<open>The macros implement list operations\<close>

lemma prepend_dll:
  assumes "dll h head xs" and "item \<notin> set xs" and "h item = Some nd"
  shows "\<exists>h'. DOUBLE_LINKED_LIST_PREPEND_ITEM_UNSAFE head item h = Inr (Some item, h') \<and>
    dll h' (Some item) (item # xs) \<and> same_except (insert item (set xs)) h h'"
proof (cases xs)
  case Nil
  then show ?thesis
    using assms by (auto simp: dll_def DOUBLE_LINKED_LIST_PREPEND_ITEM_UNSAFE_def same_except_def)
next
  case (Cons x ys)
  then have "x \<noteq> item" "x \<notin> set ys" "item \<notin> set ys" using assms by (auto simp: dll_def)
  then show ?thesis
    using assms Cons
    by (auto simp: dll_def DOUBLE_LINKED_LIST_PREPEND_ITEM_UNSAFE_def same_except_def)
qed

lemma append_dll:
  assumes "dll h head xs" and "item \<notin> set xs" and "h item = Some nd"
  shows "\<exists>head' h'. DOUBLE_LINKED_LIST_APPEND_ITEM_UNSAFE head item h = Inr (head', h') \<and>
    dll h' head' (xs @ [item]) \<and> same_except (insert item (set xs)) h h'"
proof (cases xs)
  case Nil
  then show ?thesis
    using assms by (auto simp: dll_def DOUBLE_LINKED_LIST_APPEND_ITEM_UNSAFE_def same_except_def)
next
  case (Cons x ys)
  show ?thesis
  proof (cases ys rule: rev_cases)
    case Nil
    then show ?thesis
      using assms Cons by (auto simp: dll_def DOUBLE_LINKED_LIST_APPEND_ITEM_UNSAFE_def same_except_def)
  next
    case (snoc zs l)
    then show ?thesis
      using assms Cons
      by (auto simp: dll_def DOUBLE_LINKED_LIST_APPEND_ITEM_UNSAFE_def same_except_def seg_append hd_append)
  qed
qed

lemma remove_dll:
  assumes "dll h head (as @ item # bs)"
  shows "\<exists>head' h'. DOUBLE_LINKED_LIST_REMOVE_ITEM_UNSAFE head item h = Inr (head', h') \<and>
    dll h' head' (as @ bs) \<and> h' item = Some \<lparr>n_prev = None, n_next = None\<rparr> \<and>
    same_except (insert item (set as \<union> set bs)) h h'"
proof (cases as)
  case Nil
  show ?thesis
  proof (cases bs)
    case Nil
    then show ?thesis
      using assms \<open>as = []\<close>
      by (auto simp: dll_def DOUBLE_LINKED_LIST_REMOVE_ITEM_UNSAFE_def same_except_def fatal_assert_def)
  next
    case (Cons b cs)
    have "last (b # cs) \<in> set (b # cs)" by (rule last_in_set) simp
    then have "last (b # cs) \<noteq> item" using assms Cons by (auto simp: dll_def)
    then show ?thesis
      using assms \<open>as = []\<close> Cons
      by (auto simp: dll_def DOUBLE_LINKED_LIST_REMOVE_ITEM_UNSAFE_def same_except_def fatal_assert_def)
  qed
next
  case (Cons a as')
  show ?thesis
  proof (cases as' rule: rev_cases)
    case Nil
    then show ?thesis
      using assms Cons
      by (cases bs) (auto simp: dll_def DOUBLE_LINKED_LIST_REMOVE_ITEM_UNSAFE_def same_except_def fatal_assert_def)
  next
    case (snoc zs l)
    then show ?thesis
      using assms Cons
      by (cases bs) (auto simp: dll_def DOUBLE_LINKED_LIST_REMOVE_ITEM_UNSAFE_def same_except_def fatal_assert_def seg_append hd_append)
  qed
qed

lemma insert_before_dll:
  assumes "dll h head (as @ e # bs)" and "item \<notin> set (as @ e # bs)" and "h item = Some nd"
  shows "\<exists>head' h'. DOUBLE_LINKED_LIST_INSERT_ITEM_BEFORE_UNSAFE head (Some e) item h = Inr (head', h') \<and>
    dll h' head' (as @ item # e # bs)"
proof (cases as)
  case Nil
  then show ?thesis
    using assms by (auto simp: dll_def DOUBLE_LINKED_LIST_INSERT_ITEM_BEFORE_UNSAFE_def fatal_assert_def)
next
  case (Cons a as')
  show ?thesis
  proof (cases as' rule: rev_cases)
    case Nil
    then show ?thesis
      using assms Cons by (auto simp: dll_def DOUBLE_LINKED_LIST_INSERT_ITEM_BEFORE_UNSAFE_def fatal_assert_def)
  next
    case (snoc zs l)
    then show ?thesis
      using assms Cons
      by (auto simp: dll_def DOUBLE_LINKED_LIST_INSERT_ITEM_BEFORE_UNSAFE_def fatal_assert_def seg_append hd_append)
  qed
qed

lemma insert_after_dll:
  assumes "dll h head (as @ e # bs)" and "item \<notin> set (as @ e # bs)" and "h item = Some nd"
  shows "\<exists>head' h'. DOUBLE_LINKED_LIST_INSERT_ITEM_AFTER_UNSAFE head (Some e) item h = Inr (head', h') \<and>
    dll h' head' (as @ e # item # bs)"
proof (cases as)
  case Nil
  then show ?thesis
    using assms
    by (cases bs) (auto simp: dll_def DOUBLE_LINKED_LIST_INSERT_ITEM_AFTER_UNSAFE_def fatal_assert_def)
next
  case (Cons a as')
  then show ?thesis
    using assms
    by (cases bs) (auto simp: dll_def DOUBLE_LINKED_LIST_INSERT_ITEM_AFTER_UNSAFE_def fatal_assert_def seg_append hd_append)
qed

lemma append_list_dll:
  assumes "dll h head xs" and "dll h head2 ys" and "set xs \<inter> set ys = {}"
  shows "\<exists>head' h'. DOUBLE_LINKED_LIST_APPEND_LIST_UNSAFE head head2 h = Inr (head', h') \<and> dll h' head' (xs @ ys)"
proof (cases "xs = [] \<or> ys = []")
  case True
  then show ?thesis
    using assms by (auto simp: dll_def DOUBLE_LINKED_LIST_APPEND_LIST_UNSAFE_def)
next
  case False
  then obtain x xs' y ys' where xy: "xs = x # xs'" "ys = y # ys'" by (auto simp: neq_Nil_conv)
  show ?thesis
  proof (cases xs' rule: rev_cases)
    case Nil
    then show ?thesis
      using assms xy by (auto simp: dll_def DOUBLE_LINKED_LIST_APPEND_LIST_UNSAFE_def)
  next
    case (snoc zs l)
    then show ?thesis
      using assms xy
      by (auto simp: dll_def DOUBLE_LINKED_LIST_APPEND_LIST_UNSAFE_def seg_append hd_append)
  qed
qed

lemma foreach_forward_seg:
  "seg h p xs None \<Longrightarrow> length xs \<le> fuel \<Longrightarrow>
   foreach_forward fuel h (if xs = [] then None else Some (hd xs)) = Some (Inr xs)"
proof (induction xs arbitrary: p fuel)
  case Nil
  then show ?case by simp
next
  case (Cons x xs)
  then obtain f where f: "fuel = Suc f" by (cases fuel) auto
  then show ?case using Cons.IH [of "Some x" f] Cons.prems by simp
qed

lemma foreach_backward_seg:
  "seg h p (x # xs) n \<Longrightarrow> distinct (x # xs) \<Longrightarrow> length xs < fuel \<Longrightarrow>
   foreach_backward_from fuel h (Some x) (Some (last (x # xs))) = Some (Inr (rev (x # xs)))"
proof (induction xs arbitrary: fuel n rule: rev_induct)
  case Nil
  then obtain f where "fuel = Suc f" by (cases fuel) auto
  then show ?case by simp
next
  case (snoc l xs)
  then obtain f where f: "fuel = Suc f" by (cases fuel) auto
  have "foreach_backward_from f h (Some x) (Some (last (x # xs))) = Some (Inr (rev (x # xs)))"
    using snoc by (intro snoc.IH [where n = "Some l"]) (auto simp: seg_append f hd_append)
  then show ?case using snoc.prems f by (auto simp: seg_append)
qed

text \<open>Both traversals of a represented list end, in order and in reverse order.\<close>

lemma foreach_forward_dll: "dll h head xs \<Longrightarrow> length xs \<le> fuel \<Longrightarrow> foreach_forward fuel h head = Some (Inr xs)"
  using foreach_forward_seg [of h "Some (last xs)" xs fuel] by (auto simp: dll_def split: if_splits)

lemma foreach_backward_dll: "dll h head xs \<Longrightarrow> length xs \<le> fuel \<Longrightarrow> foreach_backward fuel h head = Some (Inr (rev xs))"
proof (cases xs)
  case Nil
  then show "dll h head xs \<Longrightarrow> ?thesis" by (simp add: dll_def foreach_backward_def)
next
  case (Cons x ys)
  assume d: "dll h head xs" and len: "length xs \<le> fuel"
  have "foreach_backward_from fuel h (Some x) (Some (last (x # ys))) = Some (Inr (rev (x # ys)))"
    using d len Cons by (intro foreach_backward_seg [where p = "Some (last xs)" and n = None]) (auto simp: dll_def)
  then show ?thesis using d Cons by (simp add: dll_def foreach_backward_def)
qed

section \<open>Building a list\<close>

text \<open>What an operation that adds an item promises, and what adding many items one by one gives.\<close>

locale list_builder =
  fixes add :: "addr option \<Rightarrow> addr \<Rightarrow> heap \<Rightarrow> (addr option \<times> heap) res"
    and place :: "addr \<Rightarrow> addr list \<Rightarrow> addr list"
  assumes add_ok: "dll h head xs \<Longrightarrow> x \<notin> set xs \<Longrightarrow> h x = Some nd \<Longrightarrow>
      \<exists>head' h'. add head x h = Inr (head', h') \<and> dll h' head' (place x xs) \<and>
        same_except (insert x (set xs)) h h'"
    and set_place: "set (place x xs) = insert x (set xs)"
begin

lemma build:
  assumes "dll h head xs" and "distinct items" and "set items \<inter> set xs = {}" and "\<forall>x \<in> set items. h x \<noteq> None"
  shows "\<exists>head' h'. rfold (\<lambda>x (head, h). add head x h) items (head, h) = Inr (head', h') \<and>
    dll h' head' (fold place items xs)"
  using assms
proof (induction items arbitrary: head h xs)
  case Nil
  then show ?case by simp
next
  case (Cons x items)
  obtain nd where "h x = Some nd" using Cons.prems(4) by auto
  then obtain head1 h1 where 1: "add head x h = Inr (head1, h1)" "dll h1 head1 (place x xs)"
    "same_except (insert x (set xs)) h h1"
    using add_ok [OF Cons.prems(1), of x nd] Cons.prems(3) by auto
  have "set items \<inter> set (place x xs) = {}" using Cons.prems(2,3) by (auto simp: set_place)
  moreover have "\<forall>y \<in> set items. h1 y \<noteq> None"
    using Cons.prems 1(3) by (auto simp: same_except_def)
  ultimately show ?case using Cons.IH [OF 1(2)] Cons.prems(2) 1(1) by simp
qed

end

interpretation appending: list_builder DOUBLE_LINKED_LIST_APPEND_ITEM_UNSAFE "\<lambda>x xs. xs @ [x]"
  using append_dll by unfold_locales auto

interpretation prepending: list_builder DOUBLE_LINKED_LIST_PREPEND_ITEM_UNSAFE "\<lambda>x xs. x # xs"
  using prepend_dll by unfold_locales fastforce+

lemma fold_snoc: "fold (\<lambda>x xs. xs @ [x]) items xs = xs @ items"
  by (induction items arbitrary: xs) auto

lemma fold_Cons_eq: "fold (\<lambda>x xs. x # xs) items xs = rev items @ xs"
  by (induction items arbitrary: xs) auto

text \<open>C36 (linked list)  Items appended one by one to an empty list are visited in that order by the
  forward traversal and in reverse by the backward one; items prepended, the other way round.
  Both traversals end within as many steps as there are items.\<close>

theorem built_lists_are_visited:
  assumes "distinct items" and "\<forall>x \<in> set items. h x \<noteq> None"
  shows "(\<exists>head h'. rfold (\<lambda>x (head, h). DOUBLE_LINKED_LIST_APPEND_ITEM_UNSAFE head x h) items (None, h) = Inr (head, h') \<and>
      foreach_forward (length items) h' head = Some (Inr items) \<and>
      foreach_backward (length items) h' head = Some (Inr (rev items))) \<and>
    (\<exists>head h'. rfold (\<lambda>x (head, h). DOUBLE_LINKED_LIST_PREPEND_ITEM_UNSAFE head x h) items (None, h) = Inr (head, h') \<and>
      foreach_forward (length items) h' head = Some (Inr (rev items)) \<and>
      foreach_backward (length items) h' head = Some (Inr items))"
proof
  have e: "dll h None []" by (simp add: dll_def)
  show "\<exists>head h'. rfold (\<lambda>x (head, h). DOUBLE_LINKED_LIST_APPEND_ITEM_UNSAFE head x h) items (None, h) = Inr (head, h') \<and>
      foreach_forward (length items) h' head = Some (Inr items) \<and>
      foreach_backward (length items) h' head = Some (Inr (rev items))"
    using appending.build [OF e assms(1) _ assms(2)] foreach_forward_dll foreach_backward_dll
    by (fastforce simp: fold_snoc)
  show "\<exists>head h'. rfold (\<lambda>x (head, h). DOUBLE_LINKED_LIST_PREPEND_ITEM_UNSAFE head x h) items (None, h) = Inr (head, h') \<and>
      foreach_forward (length items) h' head = Some (Inr (rev items)) \<and>
      foreach_backward (length items) h' head = Some (Inr items)"
    using prepending.build [OF e assms(1) _ assms(2)] foreach_forward_dll [of _ _ "rev items"]
      foreach_backward_dll [of _ _ "rev items"]
    by (fastforce simp: fold_Cons_eq)
qed

theorem built_lists_are_visited_witness:
  "\<exists>head h'. rfold (\<lambda>x (head, h). DOUBLE_LINKED_LIST_APPEND_ITEM_UNSAFE head x h) [7, 3]
      (None, \<lambda>_. Some \<lparr>n_prev = None, n_next = None\<rparr>) = Inr (head, h') \<and>
    foreach_forward 2 h' head = Some (Inr [7, 3])"
  using built_lists_are_visited [of "[7, 3]" "\<lambda>_. Some \<lparr>n_prev = None, n_next = None\<rparr>"]
  by (auto simp: eval_nat_numeral)

text \<open>C37 (list updates)  Removing an item, inserting one before or after another, and appending a
  whole list to one that is not empty keep the representation and change the list as they should; a removed item is
  left with null links.\<close>

theorem list_updates_refine:
  assumes "dll h head (as @ e # bs)"
  shows "(\<exists>head' h'. DOUBLE_LINKED_LIST_REMOVE_ITEM_UNSAFE head e h = Inr (head', h') \<and> dll h' head' (as @ bs) \<and>
      h' e = Some \<lparr>n_prev = None, n_next = None\<rparr>) \<and>
    (item \<notin> set (as @ e # bs) \<and> h item \<noteq> None \<longrightarrow>
      (\<exists>head' h'. DOUBLE_LINKED_LIST_INSERT_ITEM_BEFORE_UNSAFE head (Some e) item h = Inr (head', h') \<and>
        dll h' head' (as @ item # e # bs)) \<and>
      (\<exists>head' h'. DOUBLE_LINKED_LIST_INSERT_ITEM_AFTER_UNSAFE head (Some e) item h = Inr (head', h') \<and>
        dll h' head' (as @ e # item # bs))) \<and>
    (dll h head2 ys \<and> set (as @ e # bs) \<inter> set ys = {} \<longrightarrow>
      (\<exists>head' h'. DOUBLE_LINKED_LIST_APPEND_LIST_UNSAFE head head2 h = Inr (head', h') \<and>
        dll h' head' ((as @ e # bs) @ ys)))"
  using remove_dll [OF assms] insert_before_dll [OF assms] insert_after_dll [OF assms] append_list_dll [OF assms]
  by blast

theorem list_updates_refine_witness:
  "\<exists>head' h'. DOUBLE_LINKED_LIST_REMOVE_ITEM_UNSAFE (Some 1) 2
      [1 \<mapsto> \<lparr>n_prev = Some 2, n_next = Some 2\<rparr>, 2 \<mapsto> \<lparr>n_prev = Some 1, n_next = None\<rparr>] = Inr (head', h') \<and>
    dll h' head' [1]"
proof -
  have "dll [1 \<mapsto> \<lparr>n_prev = Some 2, n_next = Some 2\<rparr>, 2 \<mapsto> \<lparr>n_prev = Some 1, n_next = None\<rparr>] (Some 1) ([1] @ 2 # [])"
    by (simp add: dll_def)
  from conjunct1 [OF list_updates_refine [OF this]] show ?thesis by auto
qed

end
