(* ===== verification/Inlined_Numbers.thy ===== *)
theory Inlined_Numbers
  imports Number_Codec Netdata_Double
begin

text \<open>
  The number readers of \<^verbatim>\<open>libnetdata/inlined.h\<close>, \<^verbatim>\<open>str2u\<close> to \<^verbatim>\<open>str2ndd_encoded\<close>.  A reader
  takes the string it is given and returns the value with the suffix that the code stores
  through \<^verbatim>\<open>endptr\<close>.  Integers are kept at their width, so a numeral that is too long wraps;
  the signed readers return the bits of their result, which \<^verbatim>\<open>sint\<close> reads.

  The lemmas show what value each reader gives to any string, that readers invert the
  printers of \<^verbatim>\<open>Number_Codec\<close> in every encoding, and the rounding of decimal fractions.
\<close>

section \<open>Decimal integers\<close>

fun dec_loop :: "'w::len word \<Rightarrow> string \<Rightarrow> 'w word \<times> string" where
  "dec_loop n [] = (n, [])"
| "dec_loop n (c # s) =
     (if isdigit c then dec_loop (n * 10 + of_nat (digit_val c)) s else (n, c # s))"

definition str2u :: "string \<Rightarrow> u32" where
  "str2u s = fst (dec_loop 0 (dropWhile isspace s))"

definition str2i :: "string \<Rightarrow> u32" where
  "str2i s =
     (let s = dropWhile isspace s
      in if peek s = CHR ''-'' then - str2u (tl s)
         else if peek s = CHR ''+'' then str2u (tl s)
         else str2u s)"

definition str2ul :: "string \<Rightarrow> u64" where
  "str2ul s = fst (dec_loop 0 (dropWhile isspace s))"

definition str2l :: "string \<Rightarrow> u64" where
  "str2l s =
     (let s = dropWhile isspace s
      in if peek s = CHR ''-'' then - str2ul (tl s)
         else if peek s = CHR ''+'' then str2ul (tl s)
         else str2ul s)"

definition str2uint32_t :: "string \<Rightarrow> u32 \<times> string" where
  "str2uint32_t s = dec_loop 0 (dropWhile isspace s)"

definition str2uint64_t :: "string \<Rightarrow> u64 \<times> string" where
  "str2uint64_t s = dec_loop 0 (dropWhile isspace s)"

definition str2ull :: "string \<Rightarrow> u64 \<times> string" where
  "str2ull s = str2uint64_t s"

definition str2ll :: "string \<Rightarrow> u64 \<times> string" where
  "str2ll s =
     (let s = dropWhile isspace s
      in if peek s = CHR ''-'' then map_prod uminus id (str2uint64_t (tl s))
         else if peek s = CHR ''+'' then str2uint64_t (tl s)
         else str2uint64_t s)"

section \<open>Hexadecimal and base 64 integers\<close>

definition str2uint32_hex :: "string \<Rightarrow> u32 \<times> string" where
  "str2uint32_hex src = radix_loop 4 hex_value_from_ascii 0 (dropWhile isspace src)"

definition str2uint64_hex :: "string \<Rightarrow> u64 \<times> string" where
  "str2uint64_hex src = radix_loop 4 hex_value_from_ascii 0 (dropWhile isspace src)"

definition str2uint64_base64 :: "string \<Rightarrow> u64 \<times> string" where
  "str2uint64_base64 src = radix_loop 6 base64_value_from_ascii 0 (dropWhile isspace src)"

definition str2ull_encoded :: "string \<Rightarrow> u64" where
  "str2ull_encoded s =
     (if peek s = CHR ''#'' then fst (str2uint64_base64 (tl s))
      else if peek s = CHR ''0'' \<and> peek (tl s) = CHR ''x'' then fst (str2uint64_hex (drop 2 s))
      else fst (str2uint64_t s))"

definition str2ll_encoded :: "string \<Rightarrow> u64" where
  "str2ll_encoded s =
     (if peek s = CHR ''-'' then - str2ull_encoded (tl s) else str2ull_encoded s)"

section \<open>Decimal fractions\<close>

text \<open>
  The inner loop of \<^verbatim>\<open>str2ndd_parse_double_decimal_digits_internal\<close> gathers digits in an
  \<^verbatim>\<open>unsigned long\<close> while another digit is sure to fit; \<^verbatim>\<open>ULONG_MAX / 10\<close> is that of a 64-bit
  \<^verbatim>\<open>unsigned long\<close>.  The outer loop joins the chunks in floating point.
\<close>

definition ULONG_MAX_div_10 :: nat where
  "ULONG_MAX_div_10 = 1844674407370955161"

fun digit_chunk :: "nat \<Rightarrow> nat \<Rightarrow> string \<Rightarrow> nat \<times> nat \<times> string" where
  "digit_chunk ni ex [] = (ni, ex, [])"
| "digit_chunk ni ex (c # s) =
     (if isdigit c \<and> ni < ULONG_MAX_div_10 then digit_chunk (ni * 10 + digit_val c) (Suc ex) s
      else (ni, ex, c # s))"

lemma digit_chunk_length: "digit_chunk ni ex s = (m, e, t) \<Longrightarrow> length t + e = length s + ex \<and> length t \<le> length s"
  by (induction ni ex s rule: digit_chunk.induct) (auto split: if_splits)

function digit_chunks :: "ndd \<Rightarrow> string \<Rightarrow> ndd \<times> string" where
  "digit_chunks n s =
     (if isdigit (peek s) then
        let (ni, ex, t) = digit_chunk 0 0 s
        in digit_chunks (ndd_add (ndd_mult n (ndd_pow10 (int ex))) (ndd_of_nat ni)) t
      else (n, s))"
  by pat_completeness auto
termination
proof (relation "measure (\<lambda>(n, s). length s)")
  fix n s x ni y ex t
  assume dig: "isdigit (peek s)" and x: "x = digit_chunk 0 0 s" and "(ni, y) = x" and "(ex, t) = y"
  then have ch: "digit_chunk 0 0 s = (ni, ex, t)" by simp
  obtain c r where s: "s = c # r" using dig by (cases s) (auto simp: isdigit_def code_def)
  then have "digit_chunk (digit_val c) (Suc 0) r = (ni, ex, t)"
    using ch dig by (simp add: ULONG_MAX_div_10_def)
  then have "length t \<le> length r" by (auto dest: digit_chunk_length)
  then show "((ndd_add (ndd_mult n (ndd_pow10 (int ex))) (ndd_of_nat ni), t), n, s)
      \<in> measure (\<lambda>(n, s). length s)"
    by (simp add: s)
qed simp

declare digit_chunks.simps [simp del]

definition str2ndd_parse_double_decimal_digits_internal :: "string \<Rightarrow> ndd \<times> nat" where
  "str2ndd_parse_double_decimal_digits_internal src =
     (let src = dropWhile isspace src; (n, s) = digit_chunks (Fin 0) src
      in (n, length src - length s))"

text \<open>
  The three parts of \<^verbatim>\<open>str2ndd\<close> in turn.  Each moves the pointer by the number of digits, which
  does not count the spaces that the digit loop skipped.
\<close>

definition str2ndd_number :: "ndd \<Rightarrow> string \<Rightarrow> ndd \<times> string" where
  "str2ndd_number sign s =
     (let (result, integral_digits) = str2ndd_parse_double_decimal_digits_internal s;
          s = drop integral_digits s;
          (fractional, fractional_digits, s) =
            (if peek s = CHR ''.'' then
               let s = tl s; (f, d) = str2ndd_parse_double_decimal_digits_internal s
               in (f, d, drop d s)
             else (Fin 0, 0, s));
          (exponent, exponent_digits, s) =
            (if peek s = CHR ''e'' \<or> peek s = CHR ''E'' then
               let e_ptr = s; s = tl s;
                   neg = (peek s = CHR ''-'');
                   s = (if peek s = CHR ''-'' \<or> peek s = CHR ''+'' then tl s else s);
                   (x, d) = str2ndd_parse_double_decimal_digits_internal s
               in if d = 0 then (Fin 0, 0, e_ptr)
                  else (ndd_mult x (if neg then Fin (- 1) else Fin 1), d, drop d s)
             else (Fin 0, 0, s));
          result = (if exponent_digits \<noteq> 0 then ndd_mult result (ndd_powndd10 exponent) else result);
          result =
            (if fractional_digits \<noteq> 0 then
               ndd_add result
                 (ndd_mult (ndd_div fractional (ndd_pow10 (int fractional_digits)))
                   (if exponent_digits \<noteq> 0 then ndd_powndd10 exponent else Fin 1))
             else result)
      in (ndd_mult sign result, s))"

definition str2ndd :: "string \<Rightarrow> ndd \<times> string" where
  "str2ndd src =
     (let s = dropWhile isspace src
      in if peek s = CHR ''-'' then str2ndd_number (Fin (- 1)) (tl s)
         else if peek s = CHR ''+'' then str2ndd_number (Fin 1) (tl s)
         else if take 3 s = ''nan'' then (NaN, drop 3 s)
         else if take 4 s = ''null'' then (NaN, drop 3 s)
         else if take 3 s = ''inf'' then (Inf False, drop 3 s)
         else str2ndd_number (Fin 1) s)"

text \<open>
  The double whose bits are given, as the pointer cast of \<^verbatim>\<open>str2ndd_encoded\<close> reads them.
\<close>

definition ndd_of_bits :: "u64 \<Rightarrow> ndd" where
  "ndd_of_bits w =
     (let s = bit w 63;
          e = unat (take_bit 11 (drop_bit 52 w));
          f = unat (take_bit 52 w);
          sg = (if s then - 1 else 1 :: rat)
      in if e = 2047 then (if f = 0 then Inf s else NaN)
         else if e = 0 then Fin (sg * of_nat f * 2 powi (- 1074))
         else Fin (sg * of_nat (2 ^ 52 + f) * 2 powi (int e - 1075)))"

definition str2ndd_encoded :: "string \<Rightarrow> ndd \<times> string" where
  "str2ndd_encoded src =
     (if peek src = CHR ''@'' then map_prod ndd_of_bits id (str2uint64_base64 (tl src))
      else if peek src = CHR ''%'' then map_prod ndd_of_bits id (str2uint64_hex (tl src))
      else
        let neg = (peek src = CHR ''-'');
            sign = (if neg then Fin (- 1) else Fin 1);
            src = (if neg then tl src else src)
        in if peek src = CHR ''#'' then
             map_prod (\<lambda>n. ndd_mult (ndd_of_nat (unat n)) sign) id (str2uint64_base64 (tl src))
           else if peek src = CHR ''0'' \<and> peek (tl src) = CHR ''x'' then
             map_prod (\<lambda>n. ndd_mult (ndd_of_nat (unat n)) sign) id (str2uint64_hex (drop 2 src))
           else map_prod (\<lambda>x. ndd_mult x sign) id (str2ndd src))"

section \<open>What the integer readers return\<close>

lemma dec_loop_eq:
  "dec_loop n s =
   (n * 10 ^ length (takeWhile isdigit s) + of_nat (dec_value (takeWhile isdigit s)), dropWhile isdigit s)"
  by (induction n s rule: dec_loop.induct) (simp_all add: dec_value_Cons algebra_simps)

lemma dropWhile_isspace_prefix:
  "\<forall>c \<in> set ws. isspace c \<Longrightarrow> dropWhile isspace (ws @ s) = dropWhile isspace s"
  by (induction ws) auto

lemma not_isspace_sign [simp]: "\<not> isspace (CHR ''-'')" "\<not> isspace (CHR ''+'')" "\<not> isspace (CHR ''.'')"
  by (simp_all add: isspace_def code_def)

lemma show_nat_ConsE:
  obtains c cs where "show_nat n = c # cs" "isdigit c" "\<not> isspace c" "c \<noteq> CHR ''-''" "c \<noteq> CHR ''+''"
    "c \<noteq> CHR ''#''"
proof -
  obtain c cs where c: "show_nat n = c # cs" by (cases "show_nat n") auto
  then have "isdigit c" using show_nat_digits [of n] by simp
  moreover from this have "\<not> isspace c" using isspace_not_isdigit by blast
  moreover have "c \<noteq> CHR ''-''" "c \<noteq> CHR ''+''" "c \<noteq> CHR ''#''"
    using \<open>isdigit c\<close> by (auto simp: isdigit_def code_def)
  ultimately show thesis using c by (intro that)
qed

text \<open>The suffix after a numeral: nothing a decimal reader would go on with.\<close>

definition no_digit_next :: "string \<Rightarrow> bool" where
  "no_digit_next t \<longleftrightarrow> t = [] \<or> \<not> isdigit (hd t)"

lemma dec_loop_show_nat:
  "no_digit_next t \<Longrightarrow> dec_loop 0 (show_nat n @ t) = (of_nat n, t)"
proof -
  assume t: "no_digit_next t"
  then have "takeWhile isdigit (show_nat n @ t) = show_nat n"
    unfolding no_digit_next_def by (rule takeWhile_isdigit_show_nat)
  moreover have "dropWhile isdigit (show_nat n @ t) = t"
    using t show_nat_digits [of n] by (cases t) (simp_all add: no_digit_next_def dropWhile_append2)
  ultimately show ?thesis by (simp add: dec_loop_eq)
qed

text \<open>What \<^verbatim>\<open>str2u\<close> returns for any string: the number that the digits after the
  leading spaces denote, modulo \<open>2\<^sup>3\<^sup>2\<close>; zero when there is no digit.\<close>

theorem str2u_value:
  "unat (str2u s) = dec_value (takeWhile isdigit (dropWhile isspace s)) mod 2 ^ 32"
  by (simp add: str2u_def dec_loop_eq unat_of_nat take_bit_eq_mod)

lemma str2i_show_int_bits:
  assumes "\<forall>c \<in> set ws. isspace c" and "no_digit_next t"
  shows "str2i (ws @ show_int i @ t) = of_int i"
proof (cases "i < 0")
  case True
  then show ?thesis
    using assms
    by (simp add: str2i_def dropWhile_isspace_prefix show_int_def str2u_def
        dropWhile_isspace_show_nat dec_loop_show_nat of_nat_nat)
next
  case False
  obtain c cs where c: "show_nat (nat i) = c # cs" "isdigit c" "\<not> isspace c" "c \<noteq> CHR ''-''" "c \<noteq> CHR ''+''"
    by (rule show_nat_ConsE)
  have "str2u (show_nat (nat i) @ t) = of_int i"
    using assms False by (simp add: str2u_def dropWhile_isspace_show_nat dec_loop_show_nat of_nat_nat)
  then show ?thesis
    using assms(1) False c by (simp add: str2i_def dropWhile_isspace_prefix show_int_def)
qed

lemma str2ll_show_int:
  assumes "\<forall>c \<in> set ws. isspace c" and "no_digit_next t"
  shows "str2ll (ws @ show_int i @ t) = (of_int i, t)"
proof (cases "i < 0")
  case True
  then show ?thesis
    using assms
    by (simp add: str2ll_def dropWhile_isspace_prefix show_int_def str2uint64_t_def
        dropWhile_isspace_show_nat dec_loop_show_nat of_nat_nat)
next
  case False
  obtain c cs where c: "show_nat (nat i) = c # cs" "isdigit c" "\<not> isspace c" "c \<noteq> CHR ''-''" "c \<noteq> CHR ''+''"
    by (rule show_nat_ConsE)
  have "str2uint64_t (show_nat (nat i) @ t) = (of_int i, t)"
    using assms False by (simp add: str2uint64_t_def dropWhile_isspace_show_nat dec_loop_show_nat of_nat_nat)
  then show ?thesis
    using assms(1) False c by (simp add: str2ll_def dropWhile_isspace_prefix show_int_def)
qed

text \<open>Both signed readers invert \<^verbatim>\<open>printf\<close>: after any spaces, the decimal
  numeral of an integer in range is read back as that integer, and \<^verbatim>\<open>str2ll\<close> stops right
  after it.\<close>

theorem signed_readers_invert_printf:
  assumes "\<forall>c \<in> set ws. isspace c" and "no_digit_next t"
  shows "(- (2 ^ 31) \<le> i \<and> i < 2 ^ 31 \<longrightarrow> sint (str2i (ws @ show_int i @ t)) = i) \<and>
    (- (2 ^ 63) \<le> i \<and> i < 2 ^ 63 \<longrightarrow>
       map_prod sint id (str2ll (ws @ show_int i @ t)) = (i, t))"
  unfolding str2i_show_int_bits [OF assms] str2ll_show_int [OF assms]
  by (simp add: signed_of_int signed_take_bit_int_eq_self)

theorem signed_readers_invert_printf_witness:
  "sint (str2i '' -5'') = - 5 \<and> map_prod sint id (str2ll '' -5'') = (- 5, [])"
proof -
  have "show_int (- 5) = ''-5''"
    by code_simp
  then show ?thesis
    using signed_readers_invert_printf [of "'' ''" "[]" "- 5"]
    by (simp add: no_digit_next_def isspace_def)
qed

text \<open>The unsigned reader of encoded numbers inverts the encoded printer.\<close>

lemma peek_show_nat:
  "peek (show_nat n @ t) \<noteq> CHR ''#''" "peek (show_nat n @ t) \<noteq> CHR ''-''"
  by (rule show_nat_ConsE [of n], simp)+

lemma show_nat_not_hex:
  assumes "peek t \<noteq> CHR ''x''" and "peek (show_nat n @ t) = CHR ''0''"
  shows "peek (tl (show_nat n @ t)) \<noteq> CHR ''x''"
proof -
  have "\<forall>c \<in> set (show_nat n). c \<noteq> CHR ''x''" using show_nat_digits [of n] by (auto simp: isdigit_def code_def)
  then show ?thesis
    using assms(1) by (cases "show_nat n"; cases "tl (show_nat n)") auto
qed

lemma str2uint64_t_show_nat: "no_digit_next t \<Longrightarrow> str2uint64_t (show_nat n @ t) = (of_nat n, t)"
  by (simp add: str2uint64_t_def dropWhile_isspace_show_nat dec_loop_show_nat)

lemma str2ull_encoded_show_nat: "str2ull_encoded (show_nat n) = of_nat n"
  using peek_show_nat [of n "[]"] show_nat_not_hex [of "[]" n] str2uint64_t_show_nat [of "[]" n]
  by (auto simp: str2ull_encoded_def no_digit_next_def)

lemma str2ull_encoded_dec: "str2ull_encoded (show_nat (unat v)) = v"
  by (simp add: str2ull_encoded_show_nat)

lemma str2ll_encoded_show_int: "str2ll_encoded (show_int i) = of_int i"
  using peek_show_nat(2) [of "nat i" "[]"]
  by (simp add: str2ll_encoded_def show_int_def str2ull_encoded_show_nat of_nat_nat)

lemma str2ull_encoded_hex: "str2ull_encoded (''0x'' @ rev (radix_reversed 4 hex_digits v)) = v"
  using hex.read_printed_digits [of v "[]"] hex.dropWhile_printed [of v "[]"]
  by (simp add: str2ull_encoded_def str2uint64_hex_def)

lemma str2ull_encoded_b64: "str2ull_encoded (CHR ''#'' # rev (radix_reversed 6 base64_digits v)) = v"
  using b64.read_printed_digits [of v "[]"] b64.dropWhile_printed [of v "[]"]
  by (simp add: str2ull_encoded_def str2uint64_base64_def)

lemmas printers_eq =
  buffer_print_int64_base64_def buffer_print_int64_hex_def buffer_print_uint64_base64_def
  buffer_print_uint64_hex_def buffer_print_uint64_def buffer_print_int64_def
  print_uint64_hex_def print_int64_def print_uint64_eq append_reversed_eq
  print_uint64_hex_reversed_def print_uint64_base64_reversed_def

lemma str2ull_encoded_print: "str2ull_encoded (buffer_print_uint64_encoded [] encoding v) = v"
  using str2ull_encoded_hex [of v]
  by (simp add: buffer_print_uint64_encoded_def printers_eq str2ull_encoded_dec str2ull_encoded_b64)

lemma peek_print_uint64: "peek (buffer_print_uint64_encoded [] encoding v) \<noteq> CHR ''-''"
  using peek_show_nat [of "unat v" "[]"]
  by (simp add: buffer_print_uint64_encoded_def printers_eq)

lemma print_int64_encoded_split:
  "buffer_print_int64_encoded [] encoding v =
   (if v <s 0 then CHR ''-'' # buffer_print_uint64_encoded [] encoding (- v)
    else buffer_print_uint64_encoded [] encoding v)"
  by (simp add: buffer_print_int64_encoded_def buffer_print_uint64_encoded_def printers_eq)

text \<open>C18 (encodings)  The encodings of a 64-bit integer (decimal, hexadecimal, base 64) that the
  buffer printers write are read back, signed and unsigned, for every value.\<close>

theorem encoded_round_trip:
  "str2ull_encoded (buffer_print_uint64_encoded [] encoding v) = v \<and>
   str2ll_encoded (buffer_print_int64_encoded [] encoding v) = v"
  by (simp add: str2ll_encoded_def print_int64_encoded_split str2ull_encoded_print peek_print_uint64)

section \<open>What the reader of decimal fractions returns\<close>

lemma digit_chunk_digits:
  assumes "\<forall>c \<in> set ds. isdigit c" and "no_digit_next t" and "ni < 10 ^ k" and "k + length ds \<le> 18"
  shows "digit_chunk ni ex (ds @ t) = (ni * 10 ^ length ds + dec_value ds, ex + length ds, t)"
  using assms
proof (induction ds arbitrary: ni ex k)
  case Nil
  then show ?case by (cases t) (simp_all add: no_digit_next_def)
next
  case (Cons c ds)
  have "(10 :: nat) ^ k \<le> 10 ^ 17" using Cons.prems(4) by (intro power_increasing) auto
  then have "ni < ULONG_MAX_div_10" using Cons.prems(3) by (simp add: ULONG_MAX_div_10_def)
  moreover have "ni * 10 + digit_val c < 10 ^ Suc k"
    using Cons.prems(1,3) digit_val_le [of c] by simp
  moreover have "Suc k + length ds \<le> 18" using Cons.prems(4) by simp
  ultimately show ?case
    using Cons.IH [of "ni * 10 + digit_val c" "Suc k" "Suc ex"] Cons.prems(1,2)
    by (simp add: dec_value_Cons algebra_simps)
qed

lemma not_isdigit_NUL [simp]: "\<not> isdigit NUL"
  by (simp add: isdigit_def code_def)

lemma no_digit_next_peek: "no_digit_next t \<Longrightarrow> \<not> isdigit (peek t)"
  by (cases t) (simp_all add: no_digit_next_def)

lemma digit_chunks_digits:
  assumes ds: "\<forall>c \<in> set ds. isdigit c" and t: "no_digit_next t" and len: "length ds \<le> 15"
  shows "digit_chunks (Fin 0) (ds @ t) = (Fin (of_nat (dec_value ds)), t)"
proof (cases ds)
  case Nil
  then show ?thesis using no_digit_next_peek [OF t] by (simp add: digit_chunks.simps [of _ t])
next
  case (Cons c cs)
  have "(10 :: nat) ^ length ds \<le> 10 ^ 15" using len by (intro power_increasing) auto
  then have v: "dec_value ds < 2 ^ 53" using dec_value_less [OF ds] by simp
  have "ndd_add (ndd_mult (Fin 0) (ndd_pow10 (int (length ds)))) (ndd_of_nat (dec_value ds))
      = Fin (of_nat (dec_value ds))"
    using len v ndd_of_rat_int [of 0] ndd_of_rat_int [of "int (dec_value ds)"]
    by (simp add: ndd_pow10_exact ndd_of_nat_small)
  moreover have "digit_chunk 0 0 (ds @ t) = (dec_value ds, length ds, t)"
    using digit_chunk_digits [OF ds t, of 0 0 0] len by simp
  moreover have "isdigit (peek (ds @ t))" using ds Cons by simp
  ultimately show ?thesis
    using no_digit_next_peek [OF t]
    by (simp add: digit_chunks.simps [of _ "ds @ t"] digit_chunks.simps [of _ t])
qed

lemma parse_digits:
  assumes "\<forall>c \<in> set ds. isdigit c" and "no_digit_next t" and "length ds \<le> 15" and "ds = [] \<longrightarrow> \<not> isspace (peek t)"
  shows "str2ndd_parse_double_decimal_digits_internal (ds @ t) = (Fin (of_nat (dec_value ds)), length ds)"
proof -
  have "dropWhile isspace (ds @ t) = ds @ t"
    using assms(1,4) isspace_not_isdigit by (cases ds; cases t) auto
  then show ?thesis
    using digit_chunks_digits [OF assms(1-3)]
    by (simp add: str2ndd_parse_double_decimal_digits_internal_def)
qed

text \<open>The decimal text of a reading, and the number it stands for.\<close>

definition dec_text :: "bool \<Rightarrow> string \<Rightarrow> string \<Rightarrow> string" where
  "dec_text neg ip fp = (if neg then ''-'' else []) @ ip @ (if fp = [] then [] else CHR ''.'' # fp)"

definition dec_rat :: "bool \<Rightarrow> string \<Rightarrow> string \<Rightarrow> rat" where
  "dec_rat neg ip fp =
     (if neg then - 1 else 1) * (of_nat (dec_value ip) + of_nat (dec_value fp) / 10 ^ length fp)"

definition wf_dec :: "string \<Rightarrow> string \<Rightarrow> bool" where
  "wf_dec ip fp \<longleftrightarrow> ip \<noteq> [] \<and> (\<forall>c \<in> set (ip @ fp). isdigit c) \<and> length ip + length fp \<le> 15"

definition number_ends :: "string \<Rightarrow> bool" where
  "number_ends t \<longleftrightarrow> \<not> isdigit (peek t) \<and> peek t \<noteq> CHR ''.'' \<and> peek t \<noteq> CHR ''e'' \<and> peek t \<noteq> CHR ''E''"

lemma number_ends_no_digit: "number_ends t \<Longrightarrow> no_digit_next t"
  by (cases t) (simp_all add: number_ends_def no_digit_next_def)

lemma wf_dec_bounds:
  assumes "wf_dec ip fp"
  shows "dec_value ip < 10 ^ 15" and "dec_value fp < 10 ^ length fp" and "length fp \<le> 15"
proof -
  have "dec_value ip < 10 ^ length ip" using assms by (intro dec_value_less) (simp add: wf_dec_def)
  also have "(10 :: nat) ^ length ip \<le> 10 ^ 15" using assms by (intro power_increasing) (simp_all add: wf_dec_def)
  finally show "dec_value ip < 10 ^ 15" .
  show "dec_value fp < 10 ^ length fp" using assms by (intro dec_value_less) (simp add: wf_dec_def)
  show "length fp \<le> 15" using assms by (simp add: wf_dec_def)
qed

lemma str2ndd_number_dec:
  assumes wf: "wf_dec ip fp" and t: "number_ends t"
  shows "str2ndd_number sign (ip @ (if fp = [] then [] else CHR ''.'' # fp) @ t) =
    (ndd_mult sign (Fin (decimal_sum (dec_value ip) (dec_value fp) (length fp))), t)"
proof -
  have ip: "str2ndd_parse_double_decimal_digits_internal (ip @ u) = (Fin (of_nat (dec_value ip)), length ip)"
    if "no_digit_next u" for u
    using wf that by (intro parse_digits) (auto simp: wf_dec_def)
  have fp: "str2ndd_parse_double_decimal_digits_internal (fp @ t) = (Fin (of_nat (dec_value fp)), length fp)"
    if "fp \<noteq> []"
    using wf that number_ends_no_digit [OF t] by (intro parse_digits) (auto simp: wf_dec_def)
  have e: "peek t \<noteq> CHR ''.''" "peek t \<noteq> CHR ''e''" "peek t \<noteq> CHR ''E''"
    using t by (simp_all add: number_ends_def)
  note b = wf_dec_bounds [OF wf]
  show ?thesis
  proof (cases "fp = []")
    case True
    then show ?thesis
      using ip [OF number_ends_no_digit [OF t]] e
      by (simp add: str2ndd_number_def decimal_sum_int [OF b(1)])
  next
    case False
    have "no_digit_next (CHR ''.'' # fp @ t)" by (simp add: no_digit_next_def isdigit_def code_def)
    then show ?thesis
      using ip [of "CHR ''.'' # fp @ t"] fp [OF False] e False
      by (simp add: str2ndd_number_def decimal_sum_code(1) [OF b])
  qed
qed

lemma str2ndd_dec:
  assumes wf: "wf_dec ip fp" and t: "number_ends t"
  shows "str2ndd (dec_text neg ip fp @ t) =
    (Fin ((if neg then - 1 else 1) * decimal_sum (dec_value ip) (dec_value fp) (length fp)), t)"
proof -
  note dbl = decimal_sum_code(2) [OF wf_dec_bounds [OF wf]]
  note num = str2ndd_number_dec [OF wf t, of "Fin 1", unfolded ndd_mult_one(1) [OF dbl]]
    str2ndd_number_dec [OF wf t, of "Fin (- 1)", unfolded ndd_mult_minus_one [OF dbl]]
  obtain c cs where c: "ip = c # cs" "isdigit c" using wf by (cases ip) (auto simp: wf_dec_def)
  then have "\<not> isspace c" using isspace_not_isdigit by blast
  moreover have "c \<noteq> CHR ''-''" "c \<noteq> CHR ''+''" "c \<noteq> CHR ''n''" "c \<noteq> CHR ''i''"
    using c(2) by (auto simp: isdigit_def code_def)
  ultimately show ?thesis
    using num c(1) by (auto simp: str2ndd_def dec_text_def)
qed

text \<open>C16 (str2ndd)  Decimal text of at most fifteen digits is read to the number it denotes,
  up to three parts in \<open>2\<^sup>5\<^sup>3\<close>, and exactly when it has no fraction; the reader stops right
  after the number.\<close>

theorem str2ndd_accuracy:
  assumes "wf_dec ip fp" and "number_ends t"
  shows "\<exists>r. str2ndd (dec_text neg ip fp @ t) = (Fin r, t) \<and>
    \<bar>r - dec_rat neg ip fp\<bar> \<le> 3 * \<bar>dec_rat neg ip fp\<bar> / 2 ^ 53 \<and>
    (fp = [] \<longrightarrow> r = dec_rat neg ip fp)"
proof -
  define r where "r = (if neg then - 1 else 1) * decimal_sum (dec_value ip) (dec_value fp) (length fp)"
  note b = wf_dec_bounds [OF assms(1)]
  define v :: rat where "v = of_nat (dec_value ip) + of_nat (dec_value fp) / 10 ^ length fp"
  have "\<bar>r - dec_rat neg ip fp\<bar> = \<bar>decimal_sum (dec_value ip) (dec_value fp) (length fp) - v\<bar>"
    unfolding r_def dec_rat_def v_def [symmetric] by (cases neg) auto
  moreover have "\<bar>dec_rat neg ip fp\<bar> = v" by (simp add: dec_rat_def v_def abs_mult)
  ultimately have "\<bar>r - dec_rat neg ip fp\<bar> \<le> 3 * \<bar>dec_rat neg ip fp\<bar> / 2 ^ 53"
    using decimal_sum_error [OF b] by (simp only: v_def)
  moreover have "fp = [] \<Longrightarrow> r = dec_rat neg ip fp"
    by (simp add: r_def dec_rat_def decimal_sum_int [OF b(1)])
  ultimately show ?thesis using str2ndd_dec [OF assms] by (auto simp: r_def)
qed

theorem str2ndd_accuracy_witness:
  "\<exists>r. str2ndd ''-230.4'' = (Fin r, []) \<and> \<bar>r + 2304 / 10\<bar> \<le> 3 * (2304 / 10) / 2 ^ 53"
proof -
  have "wf_dec ''230'' ''4''" by (simp add: wf_dec_def isdigit_def code_def)
  moreover have "number_ends []" by (simp add: number_ends_def)
  moreover have "dec_rat True ''230'' ''4'' = - (2304 / 10)"
    by (simp add: dec_rat_def dec_value_def digit_val_def code_def)
  moreover have "dec_text True ''230'' ''4'' = ''-230.4''" by (simp add: dec_text_def)
  ultimately show ?thesis
    using str2ndd_accuracy [of "''230''" "''4''" "[]" True] by auto
qed

end
