(* ===== verification/Inlined_Strings.thy ===== *)
theory Inlined_Strings
  imports Inlined_Numbers "HOL-Library.Sublist"
begin

text \<open>
  The string helpers of \<^verbatim>\<open>libnetdata/inlined.h\<close>.  The ones that fill a destination array are
  modelled on the array itself: a write outside it is the error \<open>OutOfBounds\<close>.  The lemmas show
  for each what it leaves in the array and when it stays inside it, and that the helpers on
  plain strings compute their mathematical counterparts.
\<close>

section \<open>Destination arrays\<close>

definition put :: "string \<Rightarrow> nat \<Rightarrow> char \<Rightarrow> string res" where
  "put dst i c = (if i < length dst then Inr (dst[i := c]) else Inl OutOfBounds)"

text \<open>The C string that starts at the beginning of an array.\<close>

definition text_of :: "string \<Rightarrow> string" where
  "text_of dst = takeWhile (\<lambda>c. c \<noteq> NUL) dst"

text \<open>An array with a string written over it from an index on.\<close>

definition blit :: "string \<Rightarrow> nat \<Rightarrow> string \<Rightarrow> string" where
  "blit dst i xs = take i dst @ xs @ drop (i + length xs) dst"

lemma blit_Nil [simp]: "blit dst i [] = dst"
  by (simp add: blit_def)

lemma length_blit [simp]: "i + length xs \<le> length dst \<Longrightarrow> length (blit dst i xs) = length dst"
  by (simp add: blit_def)

lemma blit_blit:
  "i + length xs \<le> length dst \<Longrightarrow> blit (blit dst i xs) (i + length xs) ys = blit dst i (xs @ ys)"
proof -
  assume "i + length xs \<le> length dst"
  then have "min (length dst) i = i" by simp
  then show ?thesis by (simp add: blit_def ac_simps)
qed

lemmas blit_Suc = blit_blit [where xs = "[c]" for c, simplified]

lemma put_Inr: "i < length dst \<Longrightarrow> put dst i c = Inr (blit dst i [c])"
  by (simp add: put_def blit_def upd_conv_take_nth_drop)

lemma text_of_blit: "cstring xs \<Longrightarrow> text_of (blit dst 0 (xs @ [NUL])) = xs"
proof -
  assume "cstring xs"
  then have "\<And>c. c \<in> set xs \<Longrightarrow> c \<noteq> NUL" by (auto simp: cstring_def)
  then show ?thesis by (simp add: text_of_def blit_def takeWhile_append2)
qed

section \<open>Bounded copies\<close>

fun strncpyz_loop :: "string \<Rightarrow> nat \<Rightarrow> string \<Rightarrow> nat \<Rightarrow> string res" where
  "strncpyz_loop dst d [] n = put dst d NUL"
| "strncpyz_loop dst d (c # src) 0 = put dst d NUL"
| "strncpyz_loop dst d (c # src) (Suc n) = rbind (put dst d c) (\<lambda>dst. strncpyz_loop dst (Suc d) src n)"

definition strncpyz :: "string \<Rightarrow> string \<Rightarrow> nat \<Rightarrow> string res" where
  "strncpyz dst src dst_size_minus_1 = strncpyz_loop dst 0 src dst_size_minus_1"

text \<open>
  \<^verbatim>\<open>strcatz\<close>; a null \<^verbatim>\<open>src\<close> is \<open>None\<close>.  Its copy loop is that of \<^verbatim>\<open>strncpyz\<close>, started at the end
  of the string in \<^verbatim>\<open>dst\<close>, and it returns the new length.
\<close>

definition strcatz :: "string \<Rightarrow> nat \<Rightarrow> string option \<Rightarrow> nat \<Rightarrow> (string \<times> nat) res" where
  "strcatz dst len src sz =
     (if sz \<le> len then
        rbind (if 0 < sz then put dst (sz - 1) NUL else Inr dst) (\<lambda>dst. Inr (dst, len))
      else case src of
        None \<Rightarrow> rbind (put dst len NUL) (\<lambda>dst. Inr (dst, len))
      | Some [] \<Rightarrow> rbind (put dst len NUL) (\<lambda>dst. Inr (dst, len))
      | Some (c # cs) \<Rightarrow>
          let space = sz - len - 1
          in rbind (strncpyz_loop dst len (c # cs) space)
               (\<lambda>dst. Inr (dst, len + min space (length (c # cs)))))"

section \<open>Sanitizers\<close>

text \<open>
  \<^verbatim>\<open>sanitize_json_string\<close>: plain \<^verbatim>\<open>char\<close> is signed, so \<^verbatim>\<open>*src < 0x1F\<close> also holds of the bytes
  above 127.
\<close>

fun sanitize_json_loop :: "string \<Rightarrow> nat \<Rightarrow> string \<Rightarrow> nat \<Rightarrow> string res" where
  "sanitize_json_loop dst d [] dst_size = put dst d NUL"
| "sanitize_json_loop dst d (c # src) dst_size =
     (if dst_size \<le> 1 then put dst d NUL
      else if schar c < 0x1F then
        rbind (put dst d (CHR ''_'')) (\<lambda>dst. sanitize_json_loop dst (d + 1) src (dst_size - 1))
      else if c = BACKSLASH \<or> c = DQUOTE then
        rbind (put dst d BACKSLASH) (\<lambda>dst.
        rbind (put dst (d + 1) c) (\<lambda>dst. sanitize_json_loop dst (d + 2) src (dst_size - 2)))
      else rbind (put dst d c) (\<lambda>dst. sanitize_json_loop dst (d + 1) src (dst_size - 1)))"

definition sanitize_json_string :: "string \<Rightarrow> string \<Rightarrow> nat \<Rightarrow> string res" where
  "sanitize_json_string dst src dst_size = sanitize_json_loop dst 0 src dst_size"

fun sanitize_command_loop :: "string \<Rightarrow> nat \<Rightarrow> string \<Rightarrow> nat \<Rightarrow> (string \<times> bool) res" where
  "sanitize_command_loop dst d [] dst_size =
     (if dst_size = 0 then Inr (dst, False) else rbind (put dst d NUL) (\<lambda>dst. Inr (dst, True)))"
| "sanitize_command_loop dst d (c # src) dst_size =
     (if dst_size < 1 then Inr (dst, False)
      else if iscntrl c \<or> c = CHR ''$'' then
        rbind (put dst d (CHR ''_'')) (\<lambda>dst. sanitize_command_loop dst (d + 1) src (dst_size - 1))
      else if c = SQUOTE \<or> c = CHR 0x60 then
        if dst_size < 4 then Inr (dst, False)
        else
          rbind (put dst d SQUOTE) (\<lambda>dst.
          rbind (put dst (d + 1) BACKSLASH) (\<lambda>dst.
          rbind (put dst (d + 2) SQUOTE) (\<lambda>dst.
          rbind (put dst (d + 3) SQUOTE) (\<lambda>dst.
            sanitize_command_loop dst (d + 4) src (dst_size - 4)))))
      else rbind (put dst d c) (\<lambda>dst. sanitize_command_loop dst (d + 1) src (dst_size - 1)))"

definition sanitize_command_argument_string :: "string \<Rightarrow> string \<Rightarrow> nat \<Rightarrow> (string \<times> bool) res" where
  "sanitize_command_argument_string dst src dst_size =
     rbind (if dst_size \<noteq> 0 then put dst 0 NUL else Inr dst) (\<lambda>dst.
       sanitize_command_loop dst 0 (dropWhile (\<lambda>c. c = CHR ''-'') src) dst_size)"

section \<open>Trimming\<close>

text \<open>\<^verbatim>\<open>trim\<close>: the backward scan keeps at least the byte at \<^verbatim>\<open>s\<close>; \<open>None\<close> is a null result.\<close>

fun trim_back :: "string \<Rightarrow> nat \<Rightarrow> nat" where
  "trim_back s 0 = 0"
| "trim_back s (Suc p) = (if isspace (s ! Suc p) then trim_back s p else Suc p)"

definition trim :: "string \<Rightarrow> string option" where
  "trim buf =
     (let s = dropWhile isspace buf
      in if s = [] then None else Some (take (trim_back s (length s - 1) + 1) s))"

text \<open>
  \<^verbatim>\<open>trim_all\<close>: \<^verbatim>\<open>d\<close> is what has been written at the start of the buffer, \<^verbatim>\<open>s\<close> what is left to
  read.  The write pointer never passes the read pointer, so the two can share the buffer.
\<close>

function trim_all_loop :: "string \<Rightarrow> string \<Rightarrow> string" where
  "trim_all_loop d s =
     (if s = [] then d
      else
        let d = d @ takeWhile (\<lambda>c. \<not> isspace c) s;
            r = dropWhile (\<lambda>c. \<not> isspace c) s
        in if r \<noteq> [] then trim_all_loop (d @ [SPACE]) (dropWhile isspace (tl r))
           else trim_all_loop d (dropWhile isspace r))"
  by pat_completeness auto
termination
proof (relation "measure (\<lambda>(d, s). length s)", goal_cases)
  case 1
  then show ?case by simp
next
  case (2 d s d' r)
  have "length (dropWhile isspace (tl r)) \<le> length (tl r)" by (rule length_dropWhile_le)
  also have "\<dots> < length r" using 2(4) by simp
  also have "length r \<le> length s" using 2(3) by (simp add: length_dropWhile_le)
  finally show ?case by simp
next
  case (3 d s d' r)
  then have r: "r = []" by blast
  show ?case unfolding r using 3(1) by simp
qed

declare trim_all_loop.simps [simp del]

definition trim_all :: "string \<Rightarrow> string" where
  "trim_all buffer =
     (let d = trim_all_loop [] (dropWhile isspace buffer)
      in if d \<noteq> [] \<and> isspace (last d) then butlast d else d)"

section \<open>Comparisons\<close>

text \<open>Null pointers are \<open>None\<close>; equal pointers point at equal strings.\<close>

fun streq :: "string option \<Rightarrow> string option \<Rightarrow> bool" where
  "streq None None = True"
| "streq (Some a) (Some b) = (a = b)"
| "streq _ _ = False"

fun strstartswith :: "string option \<Rightarrow> string option \<Rightarrow> bool" where
  "strstartswith (Some str) (Some prf) =
     (if length str < length prf then False
      else take (length prf) str = take (length prf) prf)"
| "strstartswith _ _ = False"

fun strendswith_lengths :: "string option \<Rightarrow> nat \<Rightarrow> string option \<Rightarrow> nat \<Rightarrow> bool" where
  "strendswith_lengths (Some str) string_len (Some sfx) suffix_len =
     (if string_len < suffix_len then False else drop (string_len - suffix_len) str = sfx)"
| "strendswith_lengths _ _ _ _ = False"

fun strendswith :: "string option \<Rightarrow> string option \<Rightarrow> bool" where
  "strendswith (Some str) (Some sfx) =
     (if length str < length sfx then False else drop (length str - length sfx) str = sfx)"
| "strendswith _ _ = False"

section \<open>Separators\<close>

text \<open>
  \<^verbatim>\<open>strsep\<close> of the C library on the string \<^verbatim>\<open>*ptr\<close> points at, and the helper that calls it until
  a token is not empty.
\<close>

fun strsep :: "string \<Rightarrow> string \<Rightarrow> string \<times> string option" where
  "strsep [] delims = ([], None)"
| "strsep (c # s) delims =
     (if c \<in> set delims then ([], Some s)
      else case strsep s delims of (t, rest) \<Rightarrow> (c # t, rest))"

lemma strsep_rest_shorter: "strsep s delims = (t, Some r) \<Longrightarrow> length r < length s"
  by (induction s delims arbitrary: t rule: strsep.induct) (auto split: if_splits prod.splits)

function strsep_skip_consecutive_separators :: "string option \<Rightarrow> string \<Rightarrow> string \<times> string option" where
  "strsep_skip_consecutive_separators ptr delims =
     (case ptr of
        None \<Rightarrow> ([], None)
      | Some s \<Rightarrow>
          let (p, rest) = strsep s delims
          in if p = [] then strsep_skip_consecutive_separators rest delims else (p, rest))"
  by pat_completeness auto
termination
proof (relation "measure (\<lambda>(ptr, delims). case ptr of None \<Rightarrow> 0 | Some s \<Rightarrow> Suc (length s))", goal_cases)
  case 1
  then show ?case by simp
next
  case (2 ptr delims s x p rest)
  then have "strsep s delims = (p, rest)" by simp
  then show ?case using 2 by (auto split: option.splits dest: strsep_rest_shorter)
qed

declare strsep_skip_consecutive_separators.simps [simp del]

section \<open>Files of one number\<close>

text \<open>
  What the kernel answers for a file name: no file, a read that fails, or the bytes of the file,
  of which one \<^verbatim>\<open>read\<close> delivers as many as asked for.  The readers return their status and the
  C string they leave in the buffer.
\<close>

datatype file_answer = OpenFails | ReadFails | Bytes string

definition read_txt_file :: "(string \<Rightarrow> file_answer) \<Rightarrow> string \<Rightarrow> nat \<Rightarrow> int \<times> string option" where
  "read_txt_file fs filename sz =
     (if sz = 0 then (3, None)
      else case fs filename of
        OpenFails \<Rightarrow> (1, Some [])
      | ReadFails \<Rightarrow> (2, Some [])
      | Bytes bs \<Rightarrow> (0, Some (text_of (take (sz - 1) bs @ [NUL]))))"

definition read_proc_cmdline :: "(string \<Rightarrow> file_answer) \<Rightarrow> string \<Rightarrow> nat \<Rightarrow> int \<times> string option" where
  "read_proc_cmdline fs filename sz =
     (if sz = 0 then (3, None)
      else case fs filename of
        OpenFails \<Rightarrow> (1, Some [])
      | ReadFails \<Rightarrow> (2, Some [])
      | Bytes bs \<Rightarrow>
          let r = take (sz - 1) bs
          in (0, Some (if r = [] then []
                       else text_of (map (\<lambda>c. if c = NUL then SPACE else c) (butlast r)
                                     @ [last r] @ [NUL]))))"

definition read_single_number_file :: "(string \<Rightarrow> file_answer) \<Rightarrow> string \<Rightarrow> int \<times> u64" where
  "read_single_number_file fs filename =
     (case read_txt_file fs filename 31 of (ret, buffer) \<Rightarrow>
        if ret \<noteq> 0 then (ret, 0) else (0, fst (str2ull (the buffer))))"

definition read_single_base64_or_hex_number_file :: "(string \<Rightarrow> file_answer) \<Rightarrow> string \<Rightarrow> int \<times> u64" where
  "read_single_base64_or_hex_number_file fs filename =
     (case read_txt_file fs filename 31 of (ret, buffer) \<Rightarrow>
        if ret \<noteq> 0 then (ret, 0)
        else if the buffer \<noteq> [] then (0, str2ull_encoded (the buffer))
        else (- 1, 0))"

section \<open>Bounded copies stay in bounds\<close>

lemma strncpyz_loop_eq:
  "d + min n (length src) < length dst \<Longrightarrow>
   strncpyz_loop dst d src n = Inr (blit dst d (take n src @ [NUL]))"
  by (induction dst d src n rule: strncpyz_loop.induct) (simp_all add: put_Inr blit_Suc)

text \<open>With room for \<^verbatim>\<open>dst_size_minus_1\<close> bytes and a terminator, \<^verbatim>\<open>strncpyz\<close>
  stays in the array and leaves the longest prefix of the source that fits, terminated; the
  bytes after it are untouched.\<close>

theorem strncpyz_spec:
  assumes "n < length dst" and "cstring src"
  shows "\<exists>b. strncpyz dst src n = Inr b \<and> length b = length dst \<and> text_of b = take n src \<and>
    drop (Suc (min n (length src))) b = drop (Suc (min n (length src))) dst"
proof -
  have "cstring (take n src)" using assms(2) by (auto simp: cstring_def dest: in_set_takeD)
  then have "text_of (blit dst 0 (take n src @ [NUL])) = take n src" by (rule text_of_blit)
  then show ?thesis
    using assms(1) by (auto simp: strncpyz_def strncpyz_loop_eq blit_def min_def)
qed

theorem strncpyz_spec_witness:
  "\<exists>b. strncpyz (replicate 4 (CHR ''?'')) ''upsd'' 2 = Inr b \<and> text_of b = ''up''"
  using strncpyz_spec [of 2 "replicate 4 (CHR ''?'')" "''upsd''"] by (auto simp: cstring_def)

text \<open>When the array holds a string of length \<^verbatim>\<open>len\<close> and \<^verbatim>\<open>size\<close> is its true size,
  \<^verbatim>\<open>strcatz\<close> stays in the array, leaves the longest prefix of the concatenation that fits, and
  returns its length.\<close>

theorem strcatz_spec:
  assumes "length dst = sz" and "text_of dst = s" and "length s < sz" and "cstring src"
  shows "\<exists>b. strcatz dst (length s) (Some src) sz = Inr (b, length (take (sz - 1) (s @ src))) \<and>
    length b = sz \<and> text_of b = take (sz - 1) (s @ src)"
proof -
  define n where "n = sz - length s - 1"
  define b where "b = blit dst (length s) (take n src @ [NUL])"
  have pre: "take (length s) dst = s"
    using assms(2) takeWhile_eq_take [of "\<lambda>c. c \<noteq> NUL" dst] by (simp add: text_of_def)
  have "strncpyz_loop dst (length s) src n = Inr b"
    unfolding b_def using assms(1,3) by (intro strncpyz_loop_eq) (simp add: n_def)
  moreover have "put dst (length s) NUL = Inr b" if "src = []"
    unfolding b_def using assms(1,3) that by (simp add: put_Inr)
  moreover have "take (sz - 1) (s @ src) = s @ take n src" using assms(3) by (simp add: n_def)
  moreover have "text_of b = s @ take n src"
  proof -
    have "cstring (s @ take n src)"
      using assms(2,4) by (auto simp: cstring_def text_of_def dest: in_set_takeD set_takeWhileD)
    moreover have "b = blit dst 0 ((s @ take n src) @ [NUL])" by (simp add: b_def blit_def pre)
    ultimately show ?thesis by (simp only: text_of_blit)
  qed
  moreover have "length b = sz" unfolding b_def using assms(1,3) by (subst length_blit) (simp_all add: n_def)
  moreover have "length (s @ take n src) = length s + min n (length src)" by simp
  moreover have "\<not> sz \<le> length s" using assms(3) by simp
  moreover have "sz - (length s + 1) = n" by (simp add: n_def)
  ultimately show ?thesis
    by (cases src) (simp_all add: strcatz_def Let_def del: One_nat_def)
qed

theorem strcatz_spec_witness:
  "\<exists>b. strcatz (''ups'' @ [NUL, NUL, NUL]) 3 (Some ''d_name'') 6 = Inr (b, 5) \<and> text_of b = ''upsd_''"
  using strcatz_spec [of "''ups'' @ [NUL, NUL, NUL]" 6 "''ups''" "''d_name''"]
  by (auto simp: cstring_def text_of_def eval_nat_numeral)

section \<open>What the sanitizers leave\<close>

definition json_esc :: "char \<Rightarrow> string" where
  "json_esc c =
     (if schar c < 0x1F then ''_'' else if c = BACKSLASH \<or> c = DQUOTE then [BACKSLASH, c] else [c])"

lemmas put_simps = put_Inr blit_Suc blit_blit [where xs = "[a, b]" for a b, simplified]
  blit_blit [where xs = "[a, b, c]" for a b c, simplified] eval_nat_numeral

lemma sanitize_json_step:
  assumes "1 < sz" and "d + sz < length dst"
  shows "sanitize_json_loop dst d (c # src) sz =
    sanitize_json_loop (blit dst d (json_esc c)) (d + length (json_esc c)) src (sz - length (json_esc c))"
  using assms by (auto simp: json_esc_def put_simps)

lemma sanitize_json_loop_eq:
  assumes "d + sz < length dst"
  shows "\<exists>n. sanitize_json_loop dst d src sz =
    Inr (blit dst d (concat (map json_esc (take n src)) @ [NUL])) \<and>
    length (concat (map json_esc (take n src))) \<le> sz"
  using assms
proof (induction src arbitrary: dst d sz)
  case Nil
  then show ?case by (intro exI [of _ 0]) (simp add: put_Inr)
next
  case (Cons c src)
  show ?case
  proof (cases "sz \<le> 1")
    case True
    then show ?thesis using Cons.prems by (intro exI [of _ 0]) (simp add: put_Inr)
  next
    case False
    define w where "w = json_esc c"
    have w: "length w \<le> sz" using False by (simp add: w_def json_esc_def)
    have "d + length w + (sz - length w) < length (blit dst d w)" using Cons.prems w by simp
    then obtain n where
      "sanitize_json_loop (blit dst d w) (d + length w) src (sz - length w) =
       Inr (blit (blit dst d w) (d + length w) (concat (map json_esc (take n src)) @ [NUL]))"
      "length (concat (map json_esc (take n src))) \<le> sz - length w"
      using Cons.IH by blast
    then show ?thesis
      using sanitize_json_step [of sz d dst c src] False Cons.prems w
      by (intro exI [of _ "Suc n"]) (simp add: w_def blit_blit)
  qed
qed

lemma cstring_json_esc: "cstring s \<Longrightarrow> cstring (concat (map json_esc s))"
  by (auto simp: cstring_def json_esc_def)

lemma cstring_take: "cstring s \<Longrightarrow> cstring (take n s)"
  by (auto simp: cstring_def dest: in_set_takeD)

text \<open>C20 (json safe)  \<^verbatim>\<open>sanitize_json_string\<close> needs one byte more than \<^verbatim>\<open>dst_size\<close>: with it, the
  array holds the escaped form of a prefix of the source; without it, the escape of the last
  character can put the terminator past the end.\<close>

theorem sanitize_json_string_spec:
  "(sz < length dst \<and> cstring src \<longrightarrow>
     (\<exists>b n. sanitize_json_string dst src sz = Inr b \<and> text_of b = concat (map json_esc (take n src)))) \<and>
   (length dst = 2 \<longrightarrow> sanitize_json_string dst [DQUOTE] 2 = Inl OutOfBounds)"
proof (intro conjI impI)
  assume a: "sz < length dst \<and> cstring src"
  then obtain n where "sanitize_json_loop dst 0 src sz = Inr (blit dst 0 (concat (map json_esc (take n src)) @ [NUL]))"
    using sanitize_json_loop_eq [of 0 sz dst src] by auto
  then show "\<exists>b n. sanitize_json_string dst src sz = Inr b \<and> text_of b = concat (map json_esc (take n src))"
    using a cstring_json_esc [OF cstring_take, of src n] by (auto simp: sanitize_json_string_def text_of_blit)
next
  assume "length dst = 2"
  then show "sanitize_json_string dst [DQUOTE] 2 = Inl OutOfBounds"
    by (simp add: sanitize_json_string_def schar_def code_def put_def)
qed

theorem sanitize_json_string_spec_witness:
  "(\<exists>b n. sanitize_json_string ''????'' ''a'' 3 = Inr b \<and> text_of b = concat (map json_esc (take n ''a''))) \<and>
   sanitize_json_string ''??'' [DQUOTE] 2 = Inl OutOfBounds"
  using sanitize_json_string_spec [of 3 "''????''" "''a''"] sanitize_json_string_spec [of 2 "''??''" "[]"]
  by (simp add: cstring_def)

definition cmd_esc :: "char \<Rightarrow> string" where
  "cmd_esc c =
     (if iscntrl c \<or> c = CHR ''$'' then ''_''
      else if c = SQUOTE \<or> c = CHR 0x60 then [SQUOTE, BACKSLASH, SQUOTE, SQUOTE]
      else [c])"

text \<open>Inside single quotes of a shell: every quote closes, is escaped, and opens again.\<close>

fun shell_quoted :: "string \<Rightarrow> bool" where
  "shell_quoted [] = True"
| "shell_quoted (c # s) =
     (if c = SQUOTE then take 3 s = [BACKSLASH, SQUOTE, SQUOTE] \<and> shell_quoted (drop 3 s)
      else \<not> iscntrl c \<and> c \<noteq> CHR ''$'' \<and> c \<noteq> CHR 0x60 \<and> shell_quoted s)"

lemma shell_quoted_cmd_esc: "shell_quoted (cmd_esc c @ s) = shell_quoted s"
  by (auto simp: cmd_esc_def iscntrl_def code_def)

lemma shell_quoted_concat: "shell_quoted (concat (map cmd_esc s))"
  by (induction s) (simp_all add: shell_quoted_cmd_esc)

lemma sanitize_command_step:
  assumes "d + sz \<le> length dst"
  shows "sanitize_command_loop dst d (c # src) sz =
    (if length (cmd_esc c) \<le> sz
     then sanitize_command_loop (blit dst d (cmd_esc c)) (d + length (cmd_esc c)) src (sz - length (cmd_esc c))
     else Inr (dst, False))"
  using assms by (auto simp: cmd_esc_def put_simps)

lemma sanitize_command_loop_eq:
  assumes "d + sz \<le> length dst"
  shows "if length (concat (map cmd_esc src)) < sz
    then sanitize_command_loop dst d src sz = Inr (blit dst d (concat (map cmd_esc src) @ [NUL]), True)
    else \<exists>b. sanitize_command_loop dst d src sz = Inr (b, False)"
  using assms
proof (induction src arbitrary: dst d sz)
  case Nil
  then show ?case by (simp add: put_Inr)
next
  case (Cons c src)
  have pos: "0 < length (cmd_esc c)" by (simp add: cmd_esc_def)
  show ?case
  proof (cases "length (cmd_esc c) \<le> sz")
    case True
    then show ?thesis
      using Cons.IH [of "d + length (cmd_esc c)" "sz - length (cmd_esc c)" "blit dst d (cmd_esc c)"]
        Cons.prems sanitize_command_step [OF Cons.prems, of c src]
      by (auto simp: blit_blit split: if_splits)
  next
    case False
    then show ?thesis using sanitize_command_step [OF Cons.prems, of c src] by auto
  qed
qed

text \<open>Told the true size of the array, \<^verbatim>\<open>sanitize_command_argument_string\<close> never
  leaves it.  It returns true exactly when the escaped argument, without its leading dashes,
  fits with its terminator; the array then holds it, and it is safe inside single quotes.\<close>

theorem sanitize_command_argument_string_spec:
  assumes "sz \<le> length dst" and "cstring src"
  defines "out \<equiv> concat (map cmd_esc (dropWhile (\<lambda>c. c = CHR ''-'') src))"
  shows "\<exists>b ok. sanitize_command_argument_string dst src sz = Inr (b, ok) \<and>
    (ok \<longleftrightarrow> length out < sz) \<and> (ok \<longrightarrow> text_of b = out \<and> shell_quoted (text_of b))"
proof -
  define s where "s = dropWhile (\<lambda>c. c = CHR ''-'') src"
  define dst' where "dst' = (if sz = 0 then dst else blit dst 0 [NUL])"
  have len: "length dst' = length dst" using assms(1) by (simp add: dst'_def)
  have call: "sanitize_command_argument_string dst src sz = sanitize_command_loop dst' 0 s sz"
  proof (cases "sz = 0")
    case True
    then show ?thesis by (simp add: sanitize_command_argument_string_def dst'_def s_def)
  next
    case False
    then have "0 < length dst" using assms(1) by linarith
    then show ?thesis
      using False by (simp add: sanitize_command_argument_string_def put_Inr dst'_def s_def)
  qed
  have "cstring s" using assms(2) by (auto simp: s_def cstring_def dest: set_dropWhileD)
  then have "cstring out" by (auto simp: out_def s_def [symmetric] cstring_def cmd_esc_def)
  then have "text_of (blit dst' 0 (out @ [NUL])) = out" by (rule text_of_blit)
  moreover have "shell_quoted out" by (simp add: out_def shell_quoted_concat)
  ultimately show ?thesis
    unfolding call using sanitize_command_loop_eq [of 0 sz dst' s] assms(1)
    by (auto simp: len out_def s_def [symmetric] split: if_splits)
qed

theorem sanitize_command_argument_string_spec_witness:
  "\<exists>b ok. sanitize_command_argument_string (replicate 8 (CHR ''?'')) ''--a$b'' 8 = Inr (b, ok) \<and>
    ok \<and> text_of b = ''a_b''"
  using sanitize_command_argument_string_spec [of 8 "replicate 8 (CHR ''?'')" "''--a$b''"]
  by (auto simp: cstring_def cmd_esc_def iscntrl_def code_def)

section \<open>What the trimmers and comparisons compute\<close>

lemma take_trim_back:
  assumes "p < length s" and "\<not> isspace (hd s)"
  shows "take (trim_back s p + 1) s = rev (dropWhile isspace (rev (take (p + 1) s)))"
  using assms
proof (induction s p rule: trim_back.induct)
  case (1 s)
  then show ?case by (cases s) simp_all
next
  case (2 s p)
  then show ?case by (auto simp: take_Suc_conv_app_nth [of "Suc p"])
qed

fun join_words :: "string list \<Rightarrow> string" where
  "join_words [] = []"
| "join_words [w] = w"
| "join_words (w # ws) = w @ SPACE # join_words ws"

text \<open>The maximal runs of characters that are not spaces.\<close>

function words :: "string \<Rightarrow> string list" where
  "words s =
     (let s = dropWhile isspace s
      in if s = [] then []
         else takeWhile (\<lambda>c. \<not> isspace c) s # words (dropWhile (\<lambda>c. \<not> isspace c) s))"
  by pat_completeness auto
termination
proof (relation "measure length", goal_cases)
  case 1
  then show ?case by simp
next
  case (2 s s')
  have "\<not> isspace (hd s')" using 2 hd_dropWhile by metis
  then have "length (dropWhile (\<lambda>c. \<not> isspace c) s') < length s'"
    using 2(2) by (cases s') (auto simp: le_imp_less_Suc length_dropWhile_le)
  also have "\<dots> \<le> length s" using 2(1) by (simp add: length_dropWhile_le)
  finally show ?case by simp
qed

declare words.simps [simp del]

lemma words_dropWhile [simp]: "words (dropWhile isspace s) = words s"
  by (simp add: words.simps [of "dropWhile isspace s"] words.simps [of s] dropWhile_idem)

lemma words_Nil [simp]: "words [] = []"
  by (simp add: words.simps)

lemma words_nonspace: "s \<noteq> [] \<Longrightarrow> \<not> isspace (hd s) \<Longrightarrow>
    words s = takeWhile (\<lambda>c. \<not> isspace c) s # words (dropWhile (\<lambda>c. \<not> isspace c) s)"
  by (subst words.simps) (cases s; simp add: Let_def)

lemma words_space: "s \<noteq> [] \<Longrightarrow> isspace (hd s) \<Longrightarrow> words s = words (tl s)"
proof -
  assume "s \<noteq> []" "isspace (hd s)"
  then have "dropWhile isspace s = dropWhile isspace (tl s)" by (cases s) simp_all
  then show ?thesis by (simp only: words.simps [of s] words.simps [of "tl s"])
qed

lemma join_words_Cons: "ws \<noteq> [] \<Longrightarrow> join_words (w # ws) = w @ SPACE # join_words ws"
  by (cases ws) simp_all

lemma isspace_SPACE [simp]: "isspace SPACE"
  by (simp add: isspace_def)

lemma hd_dropWhile_isspace: "dropWhile isspace s = [] \<or> \<not> isspace (hd (dropWhile isspace s))"
  using hd_dropWhile by blast

lemma trim_all_loop_Nil [simp]: "trim_all_loop d [] = d"
  by (simp add: trim_all_loop.simps)

lemma trim_all_loop_words:
  assumes "s = [] \<or> \<not> isspace (hd s)"
  shows "\<exists>e. trim_all_loop d s = d @ join_words (words s) @ e \<and> (e = [] \<or> e = [SPACE])"
  using assms
proof (induction "length s" arbitrary: d s rule: less_induct)
  case less
  show ?case
  proof (cases "s = []")
    case True
    then show ?thesis by simp
  next
    case False
    define w r where "w = takeWhile (\<lambda>c. \<not> isspace c) s" and "r = dropWhile (\<lambda>c. \<not> isspace c) s"
    have ws: "words s = w # words r" using False less.prems by (simp add: w_def r_def words_nonspace)
    show ?thesis
    proof (cases "r = []")
      case True
      then show ?thesis
        using False ws
        by (simp add: trim_all_loop.simps [of d s] w_def [symmetric] r_def [symmetric])
    next
      case r: False
      define s' where "s' = dropWhile isspace (tl r)"
      have "isspace (hd r)" using r hd_dropWhile [of "\<lambda>c. \<not> isspace c" s] by (simp add: r_def)
      then have wr: "words r = words s'" using r by (simp add: s'_def words_space)
      have "length s' \<le> length (tl r)" unfolding s'_def by (rule length_dropWhile_le)
      also have "\<dots> < length r" using r by simp
      also have "\<dots> \<le> length s" unfolding r_def by (rule length_dropWhile_le)
      finally obtain e where e: "trim_all_loop (d @ w @ [SPACE]) s' = (d @ w @ [SPACE]) @ join_words (words s') @ e"
        "e = [] \<or> e = [SPACE]"
        using less.hyps [of s' "d @ w @ [SPACE]"] hd_dropWhile_isspace [of "tl r"] by (auto simp: s'_def)
      have step: "trim_all_loop d s = trim_all_loop (d @ w @ [SPACE]) s'"
        using False r by (simp add: trim_all_loop.simps [of d s] w_def [symmetric] r_def [symmetric] s'_def)
      show ?thesis
      proof (cases "s' = []")
        case True
        then show ?thesis using step ws wr by simp
      next
        case False
        then have "\<not> isspace (hd s')" using hd_dropWhile_isspace [of "tl r"] unfolding s'_def by blast
        then have "words s' \<noteq> []" using False by (simp add: words_nonspace)
        then show ?thesis using step ws wr e by (auto simp: join_words_Cons)
      qed
    qed
  qed
qed

lemma words_not_space: "w \<in> set (words s) \<Longrightarrow> w \<noteq> [] \<and> (\<forall>c \<in> set w. \<not> isspace c)"
proof (induction s rule: words.induct)
  case (1 s)
  define s' where "s' = dropWhile isspace s"
  show ?case
  proof (cases "s' = []")
    case True
    then show ?thesis using 1(2) by (simp add: words.simps [of s] s'_def)
  next
    case False
    then have "\<not> isspace (hd s')" using hd_dropWhile_isspace [of s] unfolding s'_def by blast
    then have "takeWhile (\<lambda>c. \<not> isspace c) s' \<noteq> []" using False by (cases s') auto
    moreover have ws: "words s = takeWhile (\<lambda>c. \<not> isspace c) s' # words (dropWhile (\<lambda>c. \<not> isspace c) s')"
      using False by (subst words.simps) (simp only: s'_def [symmetric] Let_def if_False)
    moreover have "w = takeWhile (\<lambda>c. \<not> isspace c) s' \<or> w \<in> set (words (dropWhile (\<lambda>c. \<not> isspace c) s'))"
      using 1(2) unfolding ws by simp
    moreover have "w \<in> set (words (dropWhile (\<lambda>c. \<not> isspace c) s')) \<Longrightarrow> w \<noteq> [] \<and> (\<forall>c \<in> set w. \<not> isspace c)"
      using False by (rule 1(1) [OF s'_def])
    moreover have "\<forall>c \<in> set (takeWhile (\<lambda>c. \<not> isspace c) s'). \<not> isspace c"
      by (auto dest: set_takeWhileD)
    ultimately show ?thesis by metis
  qed
qed

lemma last_join_words:
  "\<forall>w \<in> set ws. w \<noteq> [] \<and> (\<forall>c \<in> set w. \<not> isspace c) \<Longrightarrow> ws \<noteq> [] \<Longrightarrow>
   join_words ws \<noteq> [] \<and> \<not> isspace (last (join_words ws))"
  by (induction ws rule: join_words.induct) auto

text \<open>\<^verbatim>\<open>trim\<close> removes the leading and trailing spaces, and returns null when nothing is
  left; \<^verbatim>\<open>trim_all\<close> leaves the words of its argument with one space between two of them.\<close>

theorem trim_spec:
  "trim s = (if list_all isspace s then None
             else Some (rev (dropWhile isspace (rev (dropWhile isspace s))))) \<and>
   trim_all s = join_words (words s)"
proof
  define t where "t = dropWhile isspace s"
  show "trim s = (if list_all isspace s then None
      else Some (rev (dropWhile isspace (rev (dropWhile isspace s)))))"
  proof (cases "t = []")
    case True
    then show ?thesis by (simp add: trim_def t_def list_all_iff)
  next
    case False
    then have "\<not> list_all isspace s" by (simp add: t_def list_all_iff)
    moreover have "\<not> isspace (hd t)" using False hd_dropWhile_isspace [of s] unfolding t_def by blast
    ultimately show ?thesis
      using False take_trim_back [of "length t - 1" t] by (simp add: trim_def t_def [symmetric])
  qed
  obtain e where e: "trim_all_loop [] t = join_words (words s) @ e" "e = [] \<or> e = [SPACE]"
    using trim_all_loop_words [of t "[]"] hd_dropWhile_isspace [of s] by (auto simp: t_def)
  have "words s = [] \<or> \<not> isspace (last (join_words (words s)))"
    using last_join_words [of "words s"] words_not_space [of _ s] by blast
  then show "trim_all s = join_words (words s)"
    using e by (auto simp: trim_all_def t_def [symmetric])
qed

text \<open>The comparisons decide equality, being a prefix and being a suffix, and say no
  to a null argument unless both are null.\<close>

theorem comparisons_spec:
  "streq a b = (a = b) \<and>
   strstartswith a b = (\<exists>s p. a = Some s \<and> b = Some p \<and> prefix p s) \<and>
   strendswith a b = (\<exists>s p. a = Some s \<and> b = Some p \<and> suffix p s)"
proof -
  have "strstartswith (Some s) (Some p) = prefix p s" for s p
    by (auto simp: prefix_def not_less) (metis append_take_drop_id)
  moreover have "strendswith (Some s) (Some p) = suffix p s" for s p
    by (auto simp: suffix_def not_less) (metis append_take_drop_id)
  ultimately show ?thesis by (cases a; cases b) simp_all
qed

end
