(* ===== verification/Simple_Pattern.thy ===== *)
theory Simple_Pattern
  imports Inlined_Strings
begin

text \<open>
  The patterns of \<^verbatim>\<open>libnetdata/simple_pattern\<close>: lists of words with asterisks that select names.  A
  word becomes a chain of nodes, one for each stretch between two asterisks, linked through
  \<^verbatim>\<open>child\<close>; a list is linked through \<^verbatim>\<open>next\<close>, here the list of its first nodes.  The lengths of
  patterns are below \<open>2 ^ 32\<close>, the width of \<^verbatim>\<open>len\<close>; lengths of subjects are 64 bit words that wrap.
  The array for the parts that asterisks match is kept with the position of the pointer that walks
  over it and the room that is left.

  The lemmas show that the search from left to right decides membership in the language of the
  pattern, which is defined by recursion on the pattern alone, and that a list decides by its first
  word that matches.
\<close>

section \<open>Data\<close>

datatype simple_prefix_mode = SIMPLE_PATTERN_EXACT | SIMPLE_PATTERN_PREFIX | SIMPLE_PATTERN_SUFFIX | SIMPLE_PATTERN_SUBSTRING

datatype simple_pattern_result = SP_NOT_MATCHED | SP_MATCHED_NEGATIVE | SP_MATCHED_POSITIVE

datatype simple_pattern =
  Simple_Pattern (sp_match: "string option") (sp_len: nat) (sp_mode: simple_prefix_mode) (sp_negative: bool)
    (sp_case_sensitive: bool) (sp_child: "simple_pattern option")

datatype separators = SIMPLE_PATTERN_NO_SEPARATORS | Separators "string option"

abbreviation (input) ASTERISK :: char where "ASTERISK \<equiv> CHR 0x2A"

section \<open>Parsing\<close>

definition first_stretch :: "string \<Rightarrow> string \<times> string" where
  "first_stretch str =
     (let c = dropWhile (\<lambda>c. c = ASTERISK) str
      in (takeWhile (\<lambda>c. c = ASTERISK) str @ takeWhile (\<lambda>c. c \<noteq> ASTERISK) c, dropWhile (\<lambda>c. c \<noteq> ASTERISK) c))"

definition stretch_mode :: "string \<Rightarrow> simple_prefix_mode \<Rightarrow> simple_prefix_mode \<times> string" where
  "stretch_mode s default_mode =
     (if 2 \<le> length s \<and> hd s = ASTERISK \<and> last s = ASTERISK then (SIMPLE_PATTERN_SUBSTRING, butlast (tl s))
      else if 1 \<le> length s \<and> hd s = ASTERISK then (SIMPLE_PATTERN_SUFFIX, tl s)
      else if 1 \<le> length s \<and> last s = ASTERISK then (SIMPLE_PATTERN_PREFIX, butlast s)
      else (default_mode, s))"

definition new_pattern :: "simple_prefix_mode \<Rightarrow> string \<Rightarrow> simple_pattern option \<Rightarrow> simple_pattern" where
  "new_pattern mode s child =
     (if s \<noteq> [] then Simple_Pattern (Some s) (length s) mode False False child
      else Simple_Pattern None 0 SIMPLE_PATTERN_SUBSTRING False False child)"

function parse_pattern :: "string \<Rightarrow> simple_prefix_mode \<Rightarrow> nat \<Rightarrow> simple_pattern option" where
  "parse_pattern str default_mode count =
     (if 1000 \<le> count then None
      else
        case first_stretch str of (front, c) \<Rightarrow>
          let inner = (peek c = ASTERISK \<and> tl c \<noteq> []);
            child = (if inner then parse_pattern c default_mode (count + 1) else None);
            s = (if inner then front @ [ASTERISK] else str)
          in case stretch_mode s default_mode of (mode, s) \<Rightarrow> Some (new_pattern mode s child))"
  by pat_completeness auto
termination
  by (relation "measure (\<lambda>(_, _, count). 1000 - count)") auto

declare parse_pattern.simps [simp del]

definition is_separator :: "separators \<Rightarrow> char \<Rightarrow> bool" where
  "is_separator separators c =
     (case separators of
        SIMPLE_PATTERN_NO_SEPARATORS \<Rightarrow> False
      | Separators (Some (x # xs)) \<Rightarrow> c \<in> set (x # xs)
      | Separators _ \<Rightarrow> c \<in> {SPACE, CHR 0x09, CHR 0x0D, NEWLINE, CHR 0x0C, CHR 0x0B})"

text \<open>The next word, without the backslashes that escape, and what follows its separator.\<close>

fun next_word :: "(char \<Rightarrow> bool) \<Rightarrow> bool \<Rightarrow> string \<Rightarrow> string \<times> string" where
  "next_word sep escape [] = ([], [])"
| "next_word sep escape (c # s) =
     (if c = BACKSLASH \<and> \<not> escape then next_word sep True s
      else if sep c \<and> \<not> escape then ([], s)
      else case next_word sep False s of (w, rest) \<Rightarrow> (c # w, rest))"

lemma next_word_shorter: "s \<noteq> [] \<Longrightarrow> length (snd (next_word sep escape s)) < length s"
proof (induction sep escape s rule: next_word.induct)
  case (2 sep escape c s)
  then show ?case by (cases s) (auto simp: less_Suc_eq split: prod.splits)
qed simp

text \<open>With the default mode for substrings, the first and the last node of a chain search for substrings.\<close>

fun last_substring :: "simple_pattern \<Rightarrow> simple_pattern" where
  "last_substring (Simple_Pattern mt l mode neg cs None) = Simple_Pattern mt l SIMPLE_PATTERN_SUBSTRING neg cs None"
| "last_substring (Simple_Pattern mt l mode neg cs (Some child)) = Simple_Pattern mt l mode neg cs (Some (last_substring child))"

definition finish_pattern :: "simple_prefix_mode \<Rightarrow> bool \<Rightarrow> bool \<Rightarrow> simple_pattern \<Rightarrow> simple_pattern" where
  "finish_pattern default_mode negative case_sensitive m =
     (let m = Simple_Pattern (sp_match m) (sp_len m) (sp_mode m) negative case_sensitive (sp_child m)
      in if default_mode = SIMPLE_PATTERN_SUBSTRING
         then last_substring (Simple_Pattern (sp_match m) (sp_len m) SIMPLE_PATTERN_SUBSTRING negative case_sensitive (sp_child m))
         else m)"

lemma create_shorter:
  assumes "t = (if negative then tl (dropWhile sep s) else dropWhile sep s)" and "t \<noteq> []" and "(buf, rest) = next_word sep False t"
  shows "length rest < length s"
proof -
  have "length rest < length t" using next_word_shorter [OF assms(2), of sep False] assms(3) by (metis snd_conv)
  also have "length t \<le> length (dropWhile sep s)" using assms(1) by simp
  also have "\<dots> \<le> length s" by (rule length_dropWhile_le)
  finally show ?thesis .
qed

function create_loop :: "(char \<Rightarrow> bool) \<Rightarrow> simple_prefix_mode \<Rightarrow> bool \<Rightarrow> string \<Rightarrow> simple_pattern list res" where
  "create_loop sep default_mode case_sensitive s =
     (if s = [] then Inr []
      else
        let s = dropWhile sep s; negative = (peek s = CHR ''!''); s = (if negative then tl s else s)
        in if s = [] then Inr []
           else
             case next_word sep False s of (buf, rest) \<Rightarrow>
               if buf = [] then create_loop sep default_mode case_sensitive rest
               else
                 case parse_pattern buf default_mode 0 of
                   None \<Rightarrow> Inl NullDeref
                 | Some m \<Rightarrow>
                     rbind (create_loop sep default_mode case_sensitive rest) (\<lambda>ms.
                       Inr (finish_pattern default_mode negative case_sensitive m # ms)))"
  by pat_completeness auto
termination
  by (relation "measure (\<lambda>(_, _, _, s). length s)") (auto intro: create_shorter)

declare create_loop.simps [simp del]

text \<open>A null list is \<open>None\<close>; a null pattern is the empty list.\<close>

definition simple_pattern_create :: "string option \<Rightarrow> separators \<Rightarrow> simple_prefix_mode \<Rightarrow> bool \<Rightarrow> simple_pattern list res" where
  "simple_pattern_create list separators default_mode case_sensitive =
     (case list of
        None \<Rightarrow> Inr []
      | Some s \<Rightarrow> create_loop (is_separator separators) default_mode case_sensitive s)"

section \<open>Matching\<close>

type_synonym wild = "(string \<times> nat \<times> u64) option"

text \<open>
  Copies a part of the subject to the array: \<open>matched\<close> is the string at the pointer, of which
  \<open>matched_size\<close> bytes count.
\<close>

definition add_wildcarded :: "string \<Rightarrow> u64 \<Rightarrow> wild \<Rightarrow> wild res" where
  "add_wildcarded matched matched_size wild =
     (case wild of
        None \<Rightarrow> Inr None
      | Some (dst, pos, room) \<Rightarrow>
          if room \<noteq> 0 \<and> matched \<noteq> [] \<and> matched_size \<noteq> 0 then
            let wss = room - 1; len = (if matched_size < wss then matched_size else wss)
            in if len \<noteq> 0 then
                 rbind (strncpyz (drop pos dst) matched (unat len)) (\<lambda>d.
                   Inr (Some (take pos dst @ d, pos + unat len, room - len)))
               else Inr wild
          else Inr wild)"

definition same_char :: "bool \<Rightarrow> char \<Rightarrow> char \<Rightarrow> bool" where
  "same_char case_sensitive a b = (if case_sensitive then a = b else tolower a = tolower b)"

text \<open>Whether the comparisons give zero, and the position that the search finds.\<close>

definition sp_strcmp :: "string \<Rightarrow> string \<Rightarrow> bool \<Rightarrow> bool" where
  "sp_strcmp s1 s2 case_sensitive = list_all2 (same_char case_sensitive) s1 s2"

definition sp_strncmp :: "string \<Rightarrow> string \<Rightarrow> nat \<Rightarrow> bool \<Rightarrow> bool" where
  "sp_strncmp s1 s2 n case_sensitive = list_all2 (same_char case_sensitive) (take n s1) (take n s2)"

fun sp_strstr :: "string \<Rightarrow> string \<Rightarrow> bool \<Rightarrow> nat option" where
  "sp_strstr [] needle case_sensitive = (if needle = [] then Some 0 else None)"
| "sp_strstr (c # haystack) needle case_sensitive =
     (if sp_strncmp (c # haystack) needle (length needle) case_sensitive then Some 0
      else map_option Suc (sp_strstr haystack needle case_sensitive))"

definition match_of :: "string option \<Rightarrow> string res" where
  "match_of mt = (case mt of None \<Rightarrow> Inl NullDeref | Some s \<Rightarrow> Inr s)"

fun match_pattern :: "simple_pattern \<Rightarrow> string \<Rightarrow> u64 \<Rightarrow> wild \<Rightarrow> (bool \<times> wild) res" where
  "match_pattern (Simple_Pattern mt l mode neg case_sensitive child) str len wild =
     (if \<not> of_nat l \<le> len then Inr (False, wild)
      else
        case mode of
          SIMPLE_PATTERN_EXACT \<Rightarrow>
            rbind (match_of mt) (\<lambda>mt. Inr (sp_strcmp str mt case_sensitive \<and> child = None, wild))
        | SIMPLE_PATTERN_SUBSTRING \<Rightarrow>
            if l = 0 then Inr (True, wild)
            else
              rbind (match_of mt) (\<lambda>mt.
                case sp_strstr str mt case_sensitive of
                  None \<Rightarrow> Inr (False, wild)
                | Some i \<Rightarrow>
                    rbind (add_wildcarded str (of_nat i) wild) (\<lambda>wild.
                      case child of
                        None \<Rightarrow> rbind (add_wildcarded (drop (i + l) str) (len - of_nat (i + l)) wild) (\<lambda>wild. Inr (True, wild))
                      | Some m \<Rightarrow> match_pattern m (drop (i + l) str) (len - of_nat i - of_nat l) wild))
        | SIMPLE_PATTERN_PREFIX \<Rightarrow>
            rbind (match_of mt) (\<lambda>mt.
              if sp_strncmp str mt l case_sensitive then
                case child of
                  None \<Rightarrow> rbind (add_wildcarded (drop l str) (len - of_nat l) wild) (\<lambda>wild. Inr (True, wild))
                | Some m \<Rightarrow> match_pattern m (drop l str) (len - of_nat l) wild
              else Inr (False, wild))
        | SIMPLE_PATTERN_SUFFIX \<Rightarrow>
            rbind (match_of mt) (\<lambda>mt.
              let i = unat (len - of_nat l)
              in if length str < i then Inl OutOfBounds
                 else if sp_strcmp (drop i str) mt case_sensitive then
                   rbind (add_wildcarded str (len - of_nat l) wild) (\<lambda>wild. Inr (child = None, wild))
                 else Inr (False, wild)))"

fun simple_pattern_matches_extract_with_length ::
  "simple_pattern list \<Rightarrow> string \<Rightarrow> u64 \<Rightarrow> string option \<Rightarrow> u64 \<Rightarrow> (simple_pattern_result \<times> string option) res" where
  "simple_pattern_matches_extract_with_length [] str len wildcarded wildcarded_size = Inr (SP_NOT_MATCHED, wildcarded)"
| "simple_pattern_matches_extract_with_length (m # ms) str len wildcarded wildcarded_size =
     rbind (case wildcarded of None \<Rightarrow> Inr None | Some dst \<Rightarrow> rbind (put dst 0 NUL) (\<lambda>dst. Inr (Some (dst, 0, wildcarded_size))))
       (\<lambda>ws. rbind (match_pattern m str len ws) (\<lambda>(matched, ws).
          if matched then Inr (if sp_negative m then SP_MATCHED_NEGATIVE else SP_MATCHED_POSITIVE, map_option fst ws)
          else simple_pattern_matches_extract_with_length ms str len (map_option fst ws) wildcarded_size))"

text \<open>The entry points: for a buffer, an interned string, a C string, and a C string with its length.\<close>

definition simple_pattern_matches_buffer_extract ::
  "simple_pattern list \<Rightarrow> string option \<Rightarrow> string option \<Rightarrow> u64 \<Rightarrow> (simple_pattern_result \<times> string option) res" where
  "simple_pattern_matches_buffer_extract list str wildcarded wildcarded_size =
     (case str of
        None \<Rightarrow> Inr (SP_NOT_MATCHED, wildcarded)
      | Some s \<Rightarrow>
          if list = [] \<or> length s \<noteq> 0 then Inr (SP_NOT_MATCHED, wildcarded)
          else simple_pattern_matches_extract_with_length list s (of_nat (length s)) wildcarded wildcarded_size)"

definition simple_pattern_matches_string_extract ::
  "simple_pattern list \<Rightarrow> string option \<Rightarrow> string option \<Rightarrow> u64 \<Rightarrow> (simple_pattern_result \<times> string option) res" where
  "simple_pattern_matches_string_extract list str wildcarded wildcarded_size =
     (case str of
        None \<Rightarrow> Inr (SP_NOT_MATCHED, wildcarded)
      | Some s \<Rightarrow>
          if list = [] then Inr (SP_NOT_MATCHED, wildcarded)
          else simple_pattern_matches_extract_with_length list s (of_nat (length s)) wildcarded wildcarded_size)"

definition simple_pattern_matches_extract ::
  "simple_pattern list \<Rightarrow> string option \<Rightarrow> string option \<Rightarrow> u64 \<Rightarrow> (simple_pattern_result \<times> string option) res" where
  "simple_pattern_matches_extract list str wildcarded wildcarded_size =
     (case str of
        None \<Rightarrow> Inr (SP_NOT_MATCHED, wildcarded)
      | Some s \<Rightarrow>
          if list = [] \<or> s = [] then Inr (SP_NOT_MATCHED, wildcarded)
          else simple_pattern_matches_extract_with_length list s (of_nat (length s)) wildcarded wildcarded_size)"

definition simple_pattern_matches_length_extract ::
  "simple_pattern list \<Rightarrow> string option \<Rightarrow> u64 \<Rightarrow> string option \<Rightarrow> u64 \<Rightarrow> (simple_pattern_result \<times> string option) res" where
  "simple_pattern_matches_length_extract list str len wildcarded wildcarded_size =
     (case str of
        None \<Rightarrow> Inr (SP_NOT_MATCHED, wildcarded)
      | Some s \<Rightarrow>
          if list = [] \<or> s = [] \<or> len = 0 then Inr (SP_NOT_MATCHED, wildcarded)
          else simple_pattern_matches_extract_with_length list s len wildcarded wildcarded_size)"

section \<open>Names and wildcards\<close>

text \<open>The flags are for letters, for colons and for wildcards; the loop gets a number of rounds.\<close>

definition scan_flags :: "string \<Rightarrow> bool \<times> bool \<times> bool \<Rightarrow> bool \<times> bool \<times> bool" where
  "scan_flags s = (\<lambda>(alpha, colon, wildcards).
     (alpha \<or> (\<exists>c \<in> set s. 97 \<le> code c \<and> code c \<le> 122 \<or> 65 \<le> code c \<and> code c \<le> 90), colon \<or> CHR '':'' \<in> set s, wildcards))"

fun scan_is_potential_name :: "nat \<Rightarrow> simple_pattern option \<Rightarrow> bool \<times> bool \<times> bool \<Rightarrow> (bool \<times> bool \<times> bool) res" where
  "scan_is_potential_name fuel None flags = Inr flags"
| "scan_is_potential_name 0 (Some p) flags = Inl Unfinished"
| "scan_is_potential_name (Suc fuel) (Some p) flags =
     (case sp_match p of
        None \<Rightarrow> scan_is_potential_name fuel (Some p) flags
      | Some s \<Rightarrow>
          if sp_mode p = SIMPLE_PATTERN_EXACT \<and> s = ''localhost'' then scan_is_potential_name fuel (sp_child p) flags
          else
            case scan_flags s flags of (alpha, colon, wildcards) \<Rightarrow>
              scan_is_potential_name fuel (sp_child p) (alpha, colon, wildcards \<or> sp_mode p \<noteq> SIMPLE_PATTERN_EXACT))"

definition simple_pattern_is_potential_name :: "nat \<Rightarrow> simple_pattern list \<Rightarrow> bool res" where
  "simple_pattern_is_potential_name fuel p =
     rbind (rfold (\<lambda>root flags.
         rbind (if sp_match root \<noteq> None then scan_is_potential_name fuel (Some root) flags else Inr flags)
           (\<lambda>(alpha, colon, wildcards). Inr (alpha, colon, wildcards \<or> sp_mode root \<noteq> SIMPLE_PATTERN_EXACT)))
       p (False, False, False))
       (\<lambda>(alpha, colon, wildcards). Inr ((alpha \<or> wildcards) \<and> \<not> colon))"

fun simple_pattern_iterate :: "simple_pattern list \<Rightarrow> (string option \<times> simple_pattern list) res" where
  "simple_pattern_iterate [] = Inl NullDeref"
| "simple_pattern_iterate (m # p) = Inr (sp_match m, p)"

fun contains_loop :: "(char \<Rightarrow> bool) \<Rightarrow> bool \<Rightarrow> string \<Rightarrow> bool" where
  "contains_loop sep escape [] = False"
| "contains_loop sep escape (c # s) =
     (if c = BACKSLASH \<and> \<not> escape then contains_loop sep True s
      else if \<not> escape \<and> (sep c \<or> c = ASTERISK) then True
      else contains_loop sep False s)"

definition simple_pattern_contains_wildcards :: "string option \<Rightarrow> separators \<Rightarrow> bool" where
  "simple_pattern_contains_wildcards str separators =
     (case str of
        None \<Rightarrow> False
      | Some s \<Rightarrow>
          if s = [] then False
          else if peek s = CHR ''!'' then True
          else contains_loop (is_separator separators) False s)"

section \<open>The language of a pattern\<close>

text \<open>A pattern is a sequence of conditions on one character each, and of gaps.\<close>

fun glob :: "(char \<Rightarrow> bool) option list \<Rightarrow> string \<Rightarrow> bool" where
  "glob [] s = (s = [])"
| "glob (Some P # ps) [] = False"
| "glob (Some P # ps) (c # s) = (P c \<and> glob ps s)"
| "glob (None # ps) [] = glob ps []"
| "glob (None # ps) (c # s) = (glob ps (c # s) \<or> glob (None # ps) s)"

definition token :: "bool \<Rightarrow> char \<Rightarrow> (char \<Rightarrow> bool) option" where
  "token case_sensitive p = (if p = ASTERISK then None else Some (\<lambda>c. same_char case_sensitive c p))"

abbreviation starfree :: "string \<Rightarrow> bool" where "starfree s \<equiv> ASTERISK \<notin> set s"

lemma glob_gap: "glob (None # ps) s \<longleftrightarrow> (\<exists>k \<le> length s. glob ps (drop k s))"
proof (induction s)
  case (Cons c s)
  have "(\<exists>k \<le> Suc n. P k) \<longleftrightarrow> P 0 \<or> (\<exists>k \<le> n. P (Suc k))" for n and P :: "nat \<Rightarrow> bool"
    unfolding less_Suc_eq_le [symmetric] by (rule Ex_less_Suc2)
  from this [of "length s" "\<lambda>k. glob ps (drop k (c # s))"] Cons show ?case by simp
qed simp

lemma glob_gap_drop: "glob (None # ps) (drop k s) \<Longrightarrow> glob (None # ps) (drop j s)" if "j \<le> k"
proof -
  assume "glob (None # ps) (drop k s)"
  then obtain i where i: "i \<le> length s - k" "glob ps (drop (i + k) s)" by (auto simp: glob_gap drop_drop)
  show "glob (None # ps) (drop j s)"
  proof (cases "k \<le> length s")
    case True
    then have "i + (k - j) \<le> length (drop j s)" "glob ps (drop (i + (k - j)) (drop j s))" using i that by (simp_all add: drop_drop add.commute)
    then show ?thesis unfolding glob_gap by blast
  next
    case False
    then have "glob ps []" using i by simp
    then have "glob ps (drop (length (drop j s)) (drop j s))" by simp
    then show ?thesis unfolding glob_gap by blast
  qed
qed

lemma sp_strncmp_length: "sp_strncmp s m (length m) cs \<Longrightarrow> length m \<le> length s"
  by (auto simp: sp_strncmp_def dest: list_all2_lengthD)

lemma glob_stretch: "starfree seg \<Longrightarrow> glob (map (token cs) seg @ ps) s \<longleftrightarrow> sp_strncmp s seg (length seg) cs \<and> glob ps (drop (length seg) s)"
proof (induction seg arbitrary: s)
  case (Cons c seg)
  then show ?case by (cases s) (auto simp: token_def sp_strncmp_def)
qed (simp add: sp_strncmp_def)

lemma sp_strstr_None: "seg \<noteq> [] \<Longrightarrow> sp_strstr s seg cs = None \<longleftrightarrow> (\<forall>k. \<not> sp_strncmp (drop k s) seg (length seg) cs)"
proof (induction s)
  case Nil
  then show ?case by (auto simp: sp_strncmp_def)
next
  case (Cons c s)
  have "(\<forall>k. \<not> sp_strncmp (drop k (c # s)) seg (length seg) cs) \<longleftrightarrow>
      \<not> sp_strncmp (c # s) seg (length seg) cs \<and> (\<forall>k. \<not> sp_strncmp (drop k s) seg (length seg) cs)"
    by (metis drop0 drop_Suc_Cons not0_implies_Suc)
  then show ?case using Cons by simp
qed

lemma sp_strstr_Some:
  "sp_strstr s seg cs = Some i \<Longrightarrow> seg \<noteq> [] \<Longrightarrow> sp_strncmp (drop i s) seg (length seg) cs \<and> (\<forall>k < i. \<not> sp_strncmp (drop k s) seg (length seg) cs)"
proof (induction s arbitrary: i)
  case (Cons c s)
  show ?case
  proof (cases "sp_strncmp (c # s) seg (length seg) cs")
    case False
    then obtain j where j: "i = Suc j" "sp_strstr s seg cs = Some j" using Cons.prems by auto
    then show ?thesis using Cons.IH [OF j(2)] Cons.prems(2) False by (auto simp: less_Suc_eq_0_disj)
  qed (use Cons.prems in simp)
qed simp

text \<open>Searching for the first occurrence is enough, because a gap follows.\<close>

lemma glob_search:
  assumes "starfree seg" and "seg \<noteq> []"
  shows "glob (None # map (token cs) seg @ None # ps) s \<longleftrightarrow>
    (case sp_strstr s seg cs of None \<Rightarrow> False | Some i \<Rightarrow> glob (None # ps) (drop (i + length seg) s))"
proof -
  have g: "glob (None # map (token cs) seg @ None # ps) s \<longleftrightarrow>
      (\<exists>k \<le> length s. sp_strncmp (drop k s) seg (length seg) cs \<and> glob (None # ps) (drop (k + length seg) s))"
    unfolding glob_gap [of "map (token cs) seg @ None # ps"] glob_stretch [OF assms(1)] by (simp add: drop_drop add.commute)
  show ?thesis
  proof (cases "sp_strstr s seg cs")
    case None
    then have "\<forall>k. \<not> sp_strncmp (drop k s) seg (length seg) cs" by (simp add: sp_strstr_None [OF assms(2)])
    then show ?thesis using g None by simp
  next
    case (Some i)
    note i = sp_strstr_Some [OF this assms(2)]
    have "i \<le> length s" using sp_strncmp_length [of "drop i s" seg cs] i assms(2) by (cases "i \<le> length s") auto
    moreover have "glob (None # ps) (drop (i + length seg) s)"
      if "sp_strncmp (drop k s) seg (length seg) cs" "glob (None # ps) (drop (k + length seg) s)" for k
    proof -
      have "i + length seg \<le> k + length seg" using i that(1) by (meson add_le_mono1 not_le)
      then show ?thesis using glob_gap_drop that(2) by blast
    qed
    ultimately show ?thesis using g Some i by auto
  qed
qed

lemma glob_suffix:
  assumes "starfree seg"
  shows "glob (None # map (token cs) seg) s \<longleftrightarrow> length seg \<le> length s \<and> sp_strcmp (drop (length s - length seg) s) seg cs"
proof -
  have "glob (map (token cs) seg) t \<longleftrightarrow> sp_strcmp t seg cs" for t
    using glob_stretch [OF assms, of cs "[]" t] list_all2_lengthD [of "same_char cs" t seg]
    by (auto simp: sp_strncmp_def sp_strcmp_def)
  then have "glob (None # map (token cs) seg) s \<longleftrightarrow> (\<exists>k \<le> length s. sp_strcmp (drop k s) seg cs)" by (simp add: glob_gap)
  moreover have "sp_strcmp (drop k s) seg cs \<Longrightarrow> k \<le> length s \<Longrightarrow> k = length s - length seg \<and> length seg \<le> length s" for k
    by (auto simp: sp_strcmp_def dest!: list_all2_lengthD)
  ultimately show ?thesis by (metis diff_le_self)
qed

section \<open>What the nodes match\<close>

text \<open>A node decides a language when it is asked with the true length of the subject.\<close>

definition decides :: "simple_pattern \<Rightarrow> (char \<Rightarrow> bool) option list \<Rightarrow> bool" where
  "decides m ps \<longleftrightarrow> (\<forall>s. length s < 2 ^ 64 \<longrightarrow> match_pattern m s (of_nat (length s)) None = Inr (glob ps s, None))"

lemma of_nat_le_u64: "a < 2 ^ 64 \<Longrightarrow> b < 2 ^ 64 \<Longrightarrow> (of_nat a :: u64) \<le> of_nat b \<longleftrightarrow> a \<le> b"
  by (simp add: word_le_nat_alt unat_of_nat)

lemma add_wildcarded_None [simp]: "add_wildcarded s n None = Inr None"
  by (simp add: add_wildcarded_def)

lemma decides_any: "decides (Simple_Pattern None 0 SIMPLE_PATTERN_SUBSTRING neg cs child) [None]"
  unfolding decides_def glob_gap by (auto intro: exI [of _ "length _"])

lemma decides_exact:
  assumes "starfree seg" and "length seg < 2 ^ 64"
  shows "decides (Simple_Pattern (Some seg) (length seg) SIMPLE_PATTERN_EXACT neg cs None) (map (token cs) seg)"
  unfolding decides_def
proof (intro allI impI)
  fix s :: string
  assume s: "length s < 2 ^ 64"
  have "glob (map (token cs) seg) s \<longleftrightarrow> sp_strcmp s seg cs"
    using glob_stretch [OF assms(1), of cs "[]" s] list_all2_lengthD [of "same_char cs" s seg]
    by (auto simp: sp_strncmp_def sp_strcmp_def)
  moreover have "sp_strcmp s seg cs \<Longrightarrow> length seg \<le> length s" by (auto simp: sp_strcmp_def dest: list_all2_lengthD)
  ultimately show "match_pattern (Simple_Pattern (Some seg) (length seg) SIMPLE_PATTERN_EXACT neg cs None) s (of_nat (length s)) None =
      Inr (glob (map (token cs) seg) s, None)"
    using of_nat_le_u64 [OF assms(2) s] by (auto simp: match_of_def)
qed

lemma decides_suffix:
  assumes "starfree seg" and "length seg < 2 ^ 64"
  shows "decides (Simple_Pattern (Some seg) (length seg) SIMPLE_PATTERN_SUFFIX neg cs None) (None # map (token cs) seg)"
  unfolding decides_def
proof (intro allI impI)
  fix s :: string
  assume s: "length s < 2 ^ 64"
  have "unat (of_nat (length s) - of_nat (length seg) :: u64) = length s - length seg" if "length seg \<le> length s"
  proof -
    have "(of_nat (length s) - of_nat (length seg) :: u64) = of_nat (length s - length seg)" using of_nat_diff [OF that] by (rule sym)
    then show ?thesis using s by (simp add: unat_of_nat)
  qed
  then show "match_pattern (Simple_Pattern (Some seg) (length seg) SIMPLE_PATTERN_SUFFIX neg cs None) s (of_nat (length s)) None =
      Inr (glob (None # map (token cs) seg) s, None)"
    using of_nat_le_u64 [OF assms(2) s] glob_suffix [OF assms(1), of cs s] by (auto simp: match_of_def Let_def)
qed

text \<open>The rest of a chain: nothing but a gap, or a node that decides what starts with one.\<close>

definition continues :: "simple_pattern option \<Rightarrow> (char \<Rightarrow> bool) option list \<Rightarrow> bool" where
  "continues child ps \<longleftrightarrow> (case child of None \<Rightarrow> ps = [] | Some m \<Rightarrow> decides m (None # ps))"

lemma continuesD: "continues (Some m) ps \<Longrightarrow> length t < 2 ^ 64 \<Longrightarrow> match_pattern m t (of_nat (length t)) None = Inr (glob (None # ps) t, None)"
  by (simp add: continues_def decides_def)

lemma continues_None: "continues None ps \<longleftrightarrow> ps = []"
  by (simp add: continues_def)

lemma decides_prefix:
  assumes "starfree seg" and "length seg < 2 ^ 64" and "continues child ps"
  shows "decides (Simple_Pattern (Some seg) (length seg) SIMPLE_PATTERN_PREFIX neg cs child) (map (token cs) seg @ None # ps)"
  unfolding decides_def
proof (intro allI impI)
  fix s :: string
  assume s: "length s < 2 ^ 64"
  have r: "(of_nat (length s) - of_nat (length seg) :: u64) = of_nat (length (drop (length seg) s))" if "length seg \<le> length s"
    using that by (simp add: of_nat_diff)
  have any: "glob [None] t" for t unfolding glob_gap by (auto intro: exI [of _ "length t"])
  show "match_pattern (Simple_Pattern (Some seg) (length seg) SIMPLE_PATTERN_PREFIX neg cs child) s (of_nat (length s)) None =
      Inr (glob (map (token cs) seg @ None # ps) s, None)"
  proof (cases "sp_strncmp s seg (length seg) cs")
    case True
    note l = sp_strncmp_length [OF True]
    have "length (drop (length seg) s) < 2 ^ 64" using s by simp
    note m = continuesD [OF _ this, folded r [OF l]]
    show ?thesis
      using True l m assms(3) of_nat_le_u64 [OF assms(2) s] any
      by (cases child) (simp_all add: match_of_def glob_stretch [OF assms(1)] continues_None)
  qed (simp add: match_of_def glob_stretch [OF assms(1)])
qed

lemma decides_substring:
  assumes "starfree seg" and "seg \<noteq> []" and "length seg < 2 ^ 64" and "continues child ps"
  shows "decides (Simple_Pattern (Some seg) (length seg) SIMPLE_PATTERN_SUBSTRING neg cs child) (None # map (token cs) seg @ None # ps)"
  unfolding decides_def
proof (intro allI impI)
  fix s :: string
  assume s: "length s < 2 ^ 64"
  have short: "length seg \<le> length s" "i + length seg \<le> length s" if "sp_strstr s seg cs = Some i" for i
  proof -
    have "length seg \<le> length (drop i s)" using sp_strstr_Some [OF that assms(2)] by (blast intro: sp_strncmp_length)
    then show "length seg \<le> length s" "i + length seg \<le> length s" using assms(2) by (cases seg; simp)+
  qed
  have r: "(of_nat (length s) - of_nat i - of_nat (length seg) :: u64) = of_nat (length (drop (i + length seg) s))"
    if "i + length seg \<le> length s" for i
    using that by (simp add: of_nat_diff diff_diff_eq)
  have any: "glob [None] t" for t unfolding glob_gap by (auto intro: exI [of _ "length t"])
  show "match_pattern (Simple_Pattern (Some seg) (length seg) SIMPLE_PATTERN_SUBSTRING neg cs child) s (of_nat (length s)) None =
      Inr (glob (None # map (token cs) seg @ None # ps) s, None)"
  proof (cases "sp_strstr s seg cs")
    case None
    then show ?thesis using assms(2) by (simp add: match_of_def glob_search [OF assms(1,2)] del: glob.simps)
  next
    case (Some i)
    have "length (drop (i + length seg) s) < 2 ^ 64" using s by simp
    note m = continuesD [OF _ this, folded r [OF short(2) [OF Some]]]
    show ?thesis
      using Some assms(2,4) m of_nat_le_u64 [OF assms(3) s] short(1) [OF Some] any
      by (cases child) (simp_all add: match_of_def glob_search [OF assms(1,2)] continues_None del: glob.simps)
  qed
qed

section \<open>What a word parses to\<close>

lemma finish_exact [simp]:
  "finish_pattern SIMPLE_PATTERN_EXACT neg cs (Simple_Pattern mt l mode n c child) = Simple_Pattern mt l mode neg cs child"
  by (simp add: finish_pattern_def)

lemma span_starfree:
  assumes "starfree x" and "t = [] \<or> hd t = ASTERISK"
  shows "takeWhile (\<lambda>c. c \<noteq> ASTERISK) (x @ t) = x" "dropWhile (\<lambda>c. c \<noteq> ASTERISK) (x @ t) = t"
proof -
  have "\<forall>c \<in> set x. c \<noteq> ASTERISK" using assms(1) by auto
  then show "takeWhile (\<lambda>c. c \<noteq> ASTERISK) (x @ t) = x" "dropWhile (\<lambda>c. c \<noteq> ASTERISK) (x @ t) = t"
    using assms(2) by (cases t; simp)+
qed

lemma first_stretch_plain:
  assumes "starfree x" and "x \<noteq> []" and "t = [] \<or> hd t = ASTERISK"
  shows "first_stretch (x @ t) = (x, t)"
proof -
  have "hd x \<noteq> ASTERISK" using assms(1,2) by (cases x) auto
  then have "takeWhile (\<lambda>c. c = ASTERISK) (x @ t) = []" "dropWhile (\<lambda>c. c = ASTERISK) (x @ t) = x @ t"
    using assms(2) by (cases x; simp)+
  then show ?thesis using span_starfree [OF assms(1,3)] by (simp add: first_stretch_def)
qed

lemma first_stretch_star:
  assumes "starfree x" and "x \<noteq> [] \<or> t = []" and "t = [] \<or> hd t = ASTERISK"
  shows "first_stretch (ASTERISK # x @ t) = (ASTERISK # x, t)"
proof (cases x)
  case Nil
  then show ?thesis using assms(2) by (simp add: first_stretch_def)
next
  case (Cons c cs)
  then have "c \<noteq> ASTERISK" using assms(1) by auto
  then have "takeWhile (\<lambda>c. c = ASTERISK) (x @ t) = []" "dropWhile (\<lambda>c. c = ASTERISK) (x @ t) = x @ t" using Cons by simp_all
  then show ?thesis using span_starfree [OF assms(1,3)] by (simp add: first_stretch_def)
qed

lemma last_starfree: "starfree x \<Longrightarrow> x \<noteq> [] \<Longrightarrow> last x \<noteq> ASTERISK"
  using last_in_set by force

text \<open>The chain of a stretch and what follows it.\<close>

definition rest_pattern :: "string \<Rightarrow> nat \<Rightarrow> simple_pattern option" where
  "rest_pattern t count = (if tl t \<noteq> [] then parse_pattern t SIMPLE_PATTERN_EXACT (count + 1) else None)"

lemma parse_star:
  assumes "starfree x" and "x \<noteq> [] \<or> t = []" and "t = [] \<or> hd t = ASTERISK" and "count < 1000"
  shows "parse_pattern (ASTERISK # x @ t) SIMPLE_PATTERN_EXACT count =
    Some (new_pattern (if t = [] then SIMPLE_PATTERN_SUFFIX else SIMPLE_PATTERN_SUBSTRING) x (rest_pattern t count))"
proof -
  have "last (ASTERISK # x) \<noteq> ASTERISK" if "x \<noteq> []" using that last_starfree [OF assms(1)] by simp
  then have suffix: "stretch_mode (ASTERISK # x) SIMPLE_PATTERN_EXACT = (SIMPLE_PATTERN_SUFFIX, x)"
    by (cases "x = []") (simp_all add: stretch_mode_def)
  have sub: "stretch_mode (ASTERISK # x @ [ASTERISK]) SIMPLE_PATTERN_EXACT = (SIMPLE_PATTERN_SUBSTRING, x)"
    by (simp add: stretch_mode_def)
  show ?thesis
  proof (cases t)
    case Nil
    then show ?thesis
      using assms(4) suffix first_stretch_star [OF assms(1-3)] by (simp add: parse_pattern.simps [of "ASTERISK # _"] rest_pattern_def)
  next
    case (Cons c r)
    then have "c = ASTERISK" using assms(3) by simp
    then show ?thesis
      using assms(4) sub first_stretch_star [OF assms(1-3)] Cons
      by (cases r) (simp_all add: parse_pattern.simps [of "ASTERISK # _"] rest_pattern_def Let_def)
  qed
qed

lemma parse_plain:
  assumes "starfree x" and "x \<noteq> []" and "t = [] \<or> hd t = ASTERISK" and "count < 1000"
  shows "parse_pattern (x @ t) SIMPLE_PATTERN_EXACT count =
    Some (new_pattern (if t = [] then SIMPLE_PATTERN_EXACT else SIMPLE_PATTERN_PREFIX) x (rest_pattern t count))"
proof -
  have h: "hd x \<noteq> ASTERISK" using assms(1,2) by (cases x) auto
  then have exact: "stretch_mode x SIMPLE_PATTERN_EXACT = (SIMPLE_PATTERN_EXACT, x)"
    using last_starfree [OF assms(1,2)] by (simp add: stretch_mode_def)
  have prefix: "stretch_mode (x @ [ASTERISK]) SIMPLE_PATTERN_EXACT = (SIMPLE_PATTERN_PREFIX, x)"
    using h assms(2) by (simp add: stretch_mode_def)
  show ?thesis
  proof (cases t)
    case Nil
    then show ?thesis
      using assms(4) exact first_stretch_plain [OF assms(1-3)] by (simp add: parse_pattern.simps [of x] rest_pattern_def)
  next
    case (Cons c r)
    then have "c = ASTERISK" using assms(3) by simp
    then show ?thesis
      using assms(4) prefix first_stretch_plain [OF assms(1-3)] Cons
      by (cases r) (simp_all add: parse_pattern.simps [of "x @ _"] rest_pattern_def Let_def)
  qed
qed

text \<open>
  The conditions that a word stands for.  Only the first stretch is compared with the case of its
  letters, because the flag is stored in the first node alone.
\<close>

definition pattern_tokens :: "bool \<Rightarrow> string \<Rightarrow> (char \<Rightarrow> bool) option list" where
  "pattern_tokens case_sensitive p =
     (case first_stretch p of (front, rest) \<Rightarrow> map (token case_sensitive) front @ map (token False) rest)"

lemma tokens_nocase: "pattern_tokens False p = map (token False) p"
proof -
  obtain a b where ab: "first_stretch p = (a, b)" by (cases "first_stretch p")
  then have "a @ b = p" by (auto simp: first_stretch_def Let_def)
  then show ?thesis using ab by (auto simp: pattern_tokens_def)
qed

definition stars :: "string list \<Rightarrow> string" where
  "stars xs = concat (map (\<lambda>x. ASTERISK # x) xs)"

lemma stars_simps [simp]: "stars [] = []" "stars (x # xs) = ASTERISK # x @ stars xs"
  by (simp_all add: stars_def)

lemma stars_start: "stars xs = [] \<or> hd (stars xs) = ASTERISK"
  by (cases xs) simp_all

lemma tokens_simps [simp]: "token cs ASTERISK = None"
  by (simp add: token_def)

definition parses_to_language :: "string \<Rightarrow> nat \<Rightarrow> bool" where
  "parses_to_language p count \<longleftrightarrow>
     (\<exists>m. parse_pattern p SIMPLE_PATTERN_EXACT count = Some m \<and> finish_pattern SIMPLE_PATTERN_EXACT False False m = m \<and>
       (\<forall>neg cs. decides (finish_pattern SIMPLE_PATTERN_EXACT neg cs m) (pattern_tokens cs p)))"

lemma rest_continues:
  assumes "xs \<noteq> []" and "parses_to_language (stars xs) (count + 1)"
  shows "continues (rest_pattern (stars xs) count) (tl (map (token False) (stars xs)))"
proof (cases "tl (stars xs) = []")
  case True
  then show ?thesis using assms(1) by (cases xs) (simp_all add: rest_pattern_def continues_None)
next
  case False
  from assms(2) obtain m where
    m: "parse_pattern (stars xs) SIMPLE_PATTERN_EXACT (count + 1) = Some m" "finish_pattern SIMPLE_PATTERN_EXACT False False m = m"
      "\<forall>neg cs. decides (finish_pattern SIMPLE_PATTERN_EXACT neg cs m) (pattern_tokens cs (stars xs))"
    unfolding parses_to_language_def by blast
  then have "decides m (map (token False) (stars xs))" using tokens_nocase by metis
  then show ?thesis using m(1) False assms(1) by (cases xs) (simp_all add: rest_pattern_def continues_def)
qed

lemma parse_stars:
  assumes "xs \<noteq> []" and "\<forall>x \<in> set xs. starfree x" and "\<forall>x \<in> set (butlast xs). x \<noteq> []"
    and "\<forall>x \<in> set xs. length x < 2 ^ 64" and "count + length xs \<le> 1000"
  shows "parses_to_language (stars xs) count"
  using assms
proof (induction xs arbitrary: count)
  case (Cons x xs)
  let ?t = "stars xs"
  have x: "starfree x" "x \<noteq> [] \<or> ?t = []" "length x < 2 ^ 64" "count < 1000" using Cons.prems by (cases xs; simp)+
  note parse = parse_star [OF x(1,2) stars_start x(4)]
  have tok: "pattern_tokens cs (stars (x # xs)) = None # map (token cs) x @ map (token False) ?t" for cs
    using first_stretch_star [OF x(1,2) stars_start] by (simp add: pattern_tokens_def)
  show ?case
  proof (cases xs)
    case Nil
    then show ?thesis
      using parse tok decides_suffix [OF x(1,3)] decides_any
      by (cases "x = []") (simp_all add: parses_to_language_def rest_pattern_def new_pattern_def)
  next
    case (Cons y ys)
    then have ne: "x \<noteq> []" "xs \<noteq> []" using x(2) by simp_all
    have "\<forall>x \<in> set xs. starfree x" "\<forall>x \<in> set (butlast xs). x \<noteq> []" "\<forall>x \<in> set xs. length x < 2 ^ 64" "count + 1 + length xs \<le> 1000"
      using Cons.prems Cons by simp_all
    note rest = rest_continues [OF ne(2) Cons.IH [OF ne(2) this]]
    from decides_substring [OF x(1) ne(1) x(3) rest] show ?thesis
      using parse tok ne Cons by (simp add: parses_to_language_def new_pattern_def)
  qed
qed simp

text \<open>Words without two asterisks in a row, and their stretches.\<close>

fun single_stars :: "string \<Rightarrow> bool" where
  "single_stars (a # b # s) = (\<not> (a = ASTERISK \<and> b = ASTERISK) \<and> single_stars (b # s))"
| "single_stars _ = True"

definition pattern_ok :: "string \<Rightarrow> bool" where
  "pattern_ok p \<longleftrightarrow> p \<noteq> [] \<and> single_stars p \<and> count_list p ASTERISK < 1000 \<and> length p < 2 ^ 32"

lemma stretches:
  assumes "single_stars p"
  shows "\<exists>x xs. p = x @ stars xs \<and> starfree x \<and> (\<forall>y \<in> set xs. starfree y) \<and> (\<forall>y \<in> set (butlast xs). y \<noteq> []) \<and> length xs = count_list p ASTERISK"
  using assms
proof (induction p)
  case Nil
  show ?case by (rule exI [of _ "[]"], rule exI [of _ "[]"]) simp
next
  case (Cons c p)
  have "single_stars p" using Cons.prems by (cases p) simp_all
  with Cons.IH obtain x xs where
    x: "p = x @ stars xs" "starfree x" "\<forall>y \<in> set xs. starfree y" "\<forall>y \<in> set (butlast xs). y \<noteq> []" "length xs = count_list p ASTERISK"
    by blast
  show ?case
  proof (cases "c = ASTERISK")
    case True
    have "x \<noteq> []" if "xs \<noteq> []" using Cons.prems True x(1) that by (cases x; cases xs) simp_all
    then have "\<forall>y \<in> set (butlast (x # xs)). y \<noteq> []" using x(4) by simp
    then show ?thesis using x True by (intro exI [of _ "[]"] exI [of _ "x # xs"]) simp
  next
    case False
    then show ?thesis using x by (intro exI [of _ "c # x"] exI [of _ xs]) simp
  qed
qed

lemma stars_lengths: "x \<in> set xs \<Longrightarrow> length x \<le> length (stars xs)"
  by (induction xs) auto

lemma word_decides:
  assumes "pattern_ok p"
  shows "parses_to_language p 0"
proof -
  from stretches assms obtain x xs where
    x: "p = x @ stars xs" "starfree x" "\<forall>y \<in> set xs. starfree y" "\<forall>y \<in> set (butlast xs). y \<noteq> []" "length xs = count_list p ASTERISK"
    unfolding pattern_ok_def by metis
  have len: "length x < 2 ^ 64" "\<forall>y \<in> set xs. length y < 2 ^ 64" "length xs < 1000"
    using assms x(1,5) stars_lengths [of _ xs] by (fastforce simp: pattern_ok_def)+
  show ?thesis
  proof (cases "x = []")
    case True
    then have "xs \<noteq> []" using assms x(1) by (auto simp: pattern_ok_def)
    from parse_stars [OF this x(3,4) len(2), of 0] len(3) True x(1) show ?thesis by simp
  next
    case False
    note parse = parse_plain [OF x(2) False stars_start, of 0 xs]
    have tok: "pattern_tokens cs p = map (token cs) x @ map (token False) (stars xs)" for cs
      using first_stretch_plain [OF x(2) False stars_start] x(1) by (simp add: pattern_tokens_def)
    show ?thesis
    proof (cases xs)
      case Nil
      then show ?thesis
        using parse tok decides_exact [OF x(2) len(1)] False x(1) by (simp add: parses_to_language_def new_pattern_def rest_pattern_def)
    next
      case (Cons y ys)
      have ne: "xs \<noteq> []" "0 + 1 + length xs \<le> 1000" using Cons len(3) by simp_all
      note rest = rest_continues [OF ne(1) parse_stars [OF ne(1) x(3,4) len(2) ne(2)]]
      from decides_prefix [OF x(2) len(1) rest] show ?thesis
        using parse tok False Cons x(1) by (simp add: parses_to_language_def new_pattern_def)
    qed
  qed
qed

section \<open>Lists of words\<close>

definition list_text :: "char \<Rightarrow> (bool \<times> string) list \<Rightarrow> string" where
  "list_text sep ws = concat (map (\<lambda>(negative, p). (if negative then ''!'' else []) @ p @ [sep]) ws)"

definition word_ok :: "(char \<Rightarrow> bool) \<Rightarrow> string \<Rightarrow> bool" where
  "word_ok sep p \<longleftrightarrow> pattern_ok p \<and> (\<forall>c \<in> set p. \<not> sep c \<and> c \<noteq> BACKSLASH) \<and> hd p \<noteq> CHR ''!''"

definition verdict :: "(bool \<times> string) option \<Rightarrow> simple_pattern_result" where
  "verdict w = (case w of None \<Rightarrow> SP_NOT_MATCHED | Some (negative, _) \<Rightarrow> if negative then SP_MATCHED_NEGATIVE else SP_MATCHED_POSITIVE)"

lemma next_word_plain: "\<forall>c \<in> set p. \<not> sep c \<and> c \<noteq> BACKSLASH \<Longrightarrow> sep x \<Longrightarrow> x \<noteq> BACKSLASH \<Longrightarrow> next_word sep False (p @ x # rest) = (p, rest)"
  by (induction p) auto

lemma create_list:
  assumes "sep x" and "x \<noteq> BACKSLASH" and "\<not> sep (CHR ''!'')" and "\<forall>(n, p) \<in> set ws. word_ok sep p"
  shows "\<exists>ms. create_loop sep SIMPLE_PATTERN_EXACT cs (list_text x ws) = Inr ms \<and>
    list_all2 (\<lambda>(n, p) m. sp_negative m = n \<and> decides m (pattern_tokens cs p)) ws ms"
  using assms(4)
proof (induction ws)
  case Nil
  show ?case by (simp add: list_text_def create_loop.simps)
next
  case (Cons w ws)
  obtain n p where w: "w = (n, p)" by (cases w)
  have p: "pattern_ok p" "\<forall>c \<in> set p. \<not> sep c \<and> c \<noteq> BACKSLASH" "hd p \<noteq> CHR ''!''" "p \<noteq> []"
    using Cons.prems w by (auto simp: word_ok_def pattern_ok_def)
  from Cons obtain ms where ms: "create_loop sep SIMPLE_PATTERN_EXACT cs (list_text x ws) = Inr ms"
    "list_all2 (\<lambda>(n, p) m. sp_negative m = n \<and> decides m (pattern_tokens cs p)) ws ms" by auto
  from word_decides [OF p(1)] obtain m where
    m: "parse_pattern p SIMPLE_PATTERN_EXACT 0 = Some m" "decides (finish_pattern SIMPLE_PATTERN_EXACT n cs m) (pattern_tokens cs p)"
    unfolding parses_to_language_def by blast
  obtain c p' where c: "p = c # p'" using p(4) by (cases p) auto
  have t: "list_text x (w # ws) = (if n then ''!'' else []) @ p @ x # list_text x ws" using w by (simp add: list_text_def)
  have "next_word sep False (p @ x # list_text x ws) = (p, list_text x ws)" using next_word_plain [OF p(2) assms(1,2)] .
  then have "create_loop sep SIMPLE_PATTERN_EXACT cs (list_text x (w # ws)) = Inr (finish_pattern SIMPLE_PATTERN_EXACT n cs m # ms)"
    unfolding t using p(2,3) c assms(3) m(1) ms(1) by (subst create_loop.simps) (simp add: Let_def)
  moreover have "sp_negative (finish_pattern SIMPLE_PATTERN_EXACT n cs m) = n" by (simp add: finish_pattern_def)
  ultimately show ?case using ms(2) m(2) w by auto
qed

lemma matches_list:
  assumes "list_all2 (\<lambda>(n, p) m. sp_negative m = n \<and> decides m (pattern_tokens cs p)) ws ms" and "length s < 2 ^ 64"
  shows "simple_pattern_matches_extract_with_length ms s (of_nat (length s)) None k =
    Inr (verdict (List.find (\<lambda>(_, p). glob (pattern_tokens cs p) s) ws), None)"
  using assms(1)
proof (induction ws ms rule: list_all2_induct)
  case Nil
  then show ?case by (simp add: verdict_def)
next
  case (Cons w ws m ms)
  then show ?case using assms(2) by (cases w) (auto simp: decides_def verdict_def)
qed

text \<open>
  C4 (patterns decide their language)  A list of words, each with or without an exclamation mark,
  decides a name by the first word whose language contains it: an asterisk stands for any
  characters, and any other character for itself.  The search from left to right that the code
  performs never misses a match.  The words have no escapes, no two asterisks in a row and less than
  a thousand of them.  Letters after the first inner asterisk are compared without case even when
  the list is made to be case sensitive.
\<close>

theorem simple_pattern_decides_language:
  assumes "is_separator seps x" and "x \<noteq> BACKSLASH" and "\<not> is_separator seps (CHR ''!'')"
    and "\<forall>(n, p) \<in> set ws. word_ok (is_separator seps) p" and "ws \<noteq> []" and "s \<noteq> []" and "length s < 2 ^ 64"
  shows "\<exists>ms. simple_pattern_create (Some (list_text x ws)) seps SIMPLE_PATTERN_EXACT cs = Inr ms \<and>
    simple_pattern_matches_extract ms (Some s) None 0 =
      Inr (verdict (List.find (\<lambda>(_, p). glob (pattern_tokens cs p) s) ws), None)"
proof -
  from create_list [OF assms(1-4), of cs] obtain ms where
    ms: "create_loop (is_separator seps) SIMPLE_PATTERN_EXACT cs (list_text x ws) = Inr ms"
      "list_all2 (\<lambda>(n, p) m. sp_negative m = n \<and> decides m (pattern_tokens cs p)) ws ms" by blast
  have "ms \<noteq> []" using ms(2) assms(5) by auto
  then show ?thesis
    using ms(1) matches_list [OF ms(2) assms(7)] assms(6) by (simp add: simple_pattern_create_def simple_pattern_matches_extract_def)
qed

theorem simple_pattern_decides_language_witness:
  "\<exists>ms. simple_pattern_create (Some ''!*loop* eth*D '') (Separators None) SIMPLE_PATTERN_EXACT True = Inr ms \<and>
    simple_pattern_matches_extract ms (Some ''eth0d'') None 0 = Inr (SP_MATCHED_POSITIVE, None)"
proof -
  let ?ws = "[(True, ''*loop*''), (False, ''eth*D'')]" and ?seps = "Separators None"
  have w: "\<forall>(n, p) \<in> set ?ws. word_ok (is_separator ?seps) p"
    by (simp add: word_ok_def pattern_ok_def is_separator_def)
  have t: "list_text SPACE ?ws = ''!*loop* eth*D ''" by (simp add: list_text_def)
  have "verdict (List.find (\<lambda>(_, p). glob (pattern_tokens True p) ''eth0d'') ?ws) = SP_MATCHED_POSITIVE"
    by (simp add: pattern_tokens_def first_stretch_def token_def same_char_def verdict_def tolower_def code_def char_of_def bit_Suc_0_iff)
  then show ?thesis
    using simple_pattern_decides_language [of ?seps SPACE ?ws "''eth0d''" True] w t by (simp add: is_separator_def)
qed

section \<open>Patterns for which the code does not end\<close>

lemma scan_stuck: "sp_match p = None \<Longrightarrow> scan_is_potential_name fuel (Some p) flags = Inl Unfinished"
  by (induction fuel) simp_all

text \<open>
  A word that ends in two asterisks has a last node without a text, on which
  the loop of \<open>simple_pattern_is_potential_name\<close> does not advance: no number of rounds is enough.
\<close>

theorem potential_name_never_ends:
  assumes "starfree x" and "x \<noteq> []"
  shows "\<exists>m. parse_pattern (x @ [ASTERISK, ASTERISK]) SIMPLE_PATTERN_EXACT 0 = Some m \<and>
    (\<forall>fuel. simple_pattern_is_potential_name fuel (finish_pattern SIMPLE_PATTERN_EXACT negative case_sensitive m # ms) = Inl Unfinished)"
proof -
  let ?t = "[ASTERISK, ASTERISK]" and ?child = "new_pattern SIMPLE_PATTERN_SUBSTRING [] None"
  have "parse_pattern ?t SIMPLE_PATTERN_EXACT 1 = Some ?child"
    by (simp add: parse_pattern.simps first_stretch_def stretch_mode_def)
  then have "parse_pattern (x @ ?t) SIMPLE_PATTERN_EXACT 0 = Some (new_pattern SIMPLE_PATTERN_PREFIX x (Some ?child))"
    using parse_plain [OF assms, of ?t 0] by (simp add: rest_pattern_def)
  moreover have "scan_is_potential_name fuel (Some (Simple_Pattern (Some x) l SIMPLE_PATTERN_PREFIX n c (Some ?child))) flags = Inl Unfinished"
    for fuel l n c flags
    by (cases fuel) (simp_all add: scan_stuck new_pattern_def split: prod.splits)
  ultimately show ?thesis
    using assms(2) by (intro exI [of _ "new_pattern SIMPLE_PATTERN_PREFIX x (Some ?child)"])
      (simp add: simple_pattern_is_potential_name_def new_pattern_def)
qed

theorem potential_name_never_ends_witness:
  "\<exists>m. parse_pattern ''host**'' SIMPLE_PATTERN_EXACT 0 = Some m \<and>
    simple_pattern_is_potential_name 1000000 [finish_pattern SIMPLE_PATTERN_EXACT False True m] = Inl Unfinished"
  using potential_name_never_ends [of "''host''" False True "[]"] by auto

section \<open>Entry points that fail\<close>

text \<open>The test of the length in the entry point for buffers is reversed: no buffer with a text in it is ever matched.\<close>

lemma buffer_is_not_matched: "s \<noteq> [] \<Longrightarrow> simple_pattern_matches_buffer_extract ms (Some s) wildcarded k = Inr (SP_NOT_MATCHED, wildcarded)"
  by (simp add: simple_pattern_matches_buffer_extract_def)

text \<open>
  With a length that is shorter than the subject, the search finds a text behind that length.  The
  length that is left wraps around, and the next node reads far behind the subject.
\<close>

lemma short_length_escapes:
  "\<exists>m. parse_pattern ''*X*Z'' SIMPLE_PATTERN_EXACT 0 = Some m \<and>
    simple_pattern_matches_length_extract [m] (Some ''abcXYZ'') 2 None 0 = Inl OutOfBounds"
proof -
  have "parse_pattern ''*X*Z'' SIMPLE_PATTERN_EXACT 0 =
      Some (Simple_Pattern (Some ''X'') 1 SIMPLE_PATTERN_SUBSTRING False False
        (Some (Simple_Pattern (Some ''Z'') 1 SIMPLE_PATTERN_SUFFIX False False None)))"
    by (simp add: parse_pattern.simps first_stretch_def stretch_mode_def new_pattern_def)
  moreover have "sp_strstr ''abcXYZ'' ''X'' False = Some 3"
    by (simp add: sp_strncmp_def same_char_def tolower_def code_def char_of_def bit_Suc_0_iff)
  ultimately show ?thesis by (simp add: simple_pattern_matches_length_extract_def match_of_def word_le_nat_alt)
qed

end
