(* ===== verification/Circular_Buffer.thy ===== *)
theory Circular_Buffer
  imports C_Prelude
begin

text \<open>
  The growing ring of bytes of \<^verbatim>\<open>libnetdata/circular_buffer\<close>.  A byte of memory that was allocated and
  not yet written is \<open>None\<close>; a copy outside an array is \<open>OutOfBounds\<close>.  Sizes are
  natural numbers: they are sizes of arrays in memory, far below the \<open>2 ^ 64\<close> at which a sum of two
  \<^verbatim>\<open>size_t\<close> would wrap, and requests for more than memory can hold are outside this model.  The loop that grows the ring gets a number of rounds.

  The lemmas show that every operation keeps the ring well formed, and that bytes come out in the
  order in which they were put in, whatever operations are mixed and however often the ring grows,
  wraps around or is straightened.
\<close>

section \<open>Memory\<close>

type_synonym bytes = "char option list"

definition mallocz :: "nat \<Rightarrow> bytes" where
  "mallocz n = replicate n None"

definition mem_read :: "bytes \<Rightarrow> nat \<Rightarrow> nat \<Rightarrow> bytes res" where
  "mem_read data i n = (if i + n \<le> length data then Inr (take n (drop i data)) else Inl OutOfBounds)"

definition mem_write :: "bytes \<Rightarrow> nat \<Rightarrow> bytes \<Rightarrow> bytes res" where
  "mem_write data i bs =
     (if i + length bs \<le> length data then Inr (take i data @ bs @ drop (i + length bs) data) else Inl OutOfBounds)"

text \<open>\<^verbatim>\<open>memcpy\<close> and \<^verbatim>\<open>memmove\<close> between two arrays, or within one.\<close>

definition mem_copy :: "bytes \<Rightarrow> nat \<Rightarrow> bytes \<Rightarrow> nat \<Rightarrow> nat \<Rightarrow> bytes res" where
  "mem_copy dst i src j n = rbind (mem_read src j n) (mem_write dst i)"

section \<open>The buffer\<close>

text \<open>\<open>cb_statistics\<close> is the counter that \<^verbatim>\<open>statistics\<close> points at, if it points at one.\<close>

record circular_buffer =
  cb_size :: nat
  cb_write :: nat
  cb_read :: nat
  cb_max_size :: nat
  cb_statistics :: "int option"
  cb_data :: "bytes option"

definition data_of :: "circular_buffer \<Rightarrow> bytes res" where
  "data_of buf = (case cb_data buf of None \<Rightarrow> Inl NullDeref | Some data \<Rightarrow> Inr data)"

definition count_bytes :: "int \<Rightarrow> circular_buffer \<Rightarrow> circular_buffer" where
  "count_bytes n buf = buf\<lparr>cb_statistics := map_option (\<lambda>k. k + n) (cb_statistics buf)\<rparr>"

definition cbuffer_init :: "nat \<Rightarrow> nat \<Rightarrow> int option \<Rightarrow> circular_buffer" where
  "cbuffer_init initial mx statistics =
     count_bytes (int initial)
       \<lparr>cb_size = initial, cb_write = 0, cb_read = 0, cb_max_size = mx, cb_statistics = statistics, cb_data = Some (mallocz initial)\<rparr>"

definition cbuffer_cleanup :: "circular_buffer \<Rightarrow> circular_buffer" where
  "cbuffer_cleanup buf = (count_bytes (- int (cb_size buf)) buf)\<lparr>cb_data := None, cb_size := 0, cb_write := 0, cb_read := 0\<rparr>"

text \<open>The size of the structure itself is an argument.\<close>

definition cbuffer_new :: "nat \<Rightarrow> nat \<Rightarrow> nat \<Rightarrow> int option \<Rightarrow> circular_buffer" where
  "cbuffer_new struct_size initial mx statistics = count_bytes (int struct_size) (cbuffer_init initial mx statistics)"

definition cbuffer_free :: "nat \<Rightarrow> circular_buffer \<Rightarrow> circular_buffer" where
  "cbuffer_free struct_size buf = cbuffer_cleanup (count_bytes (- int struct_size) buf)"

text \<open>The live bytes at the bottom of a larger array, and their number.\<close>

definition copy_live :: "circular_buffer \<Rightarrow> bytes \<Rightarrow> bytes \<Rightarrow> (bytes \<times> nat) res" where
  "copy_live buf data new_data =
     (if cb_read buf = cb_write buf then Inr (new_data, 0)
      else if cb_read buf < cb_write buf then
        rbind (mem_copy new_data 0 data (cb_read buf) (cb_write buf - cb_read buf)) (\<lambda>new_data.
          Inr (new_data, cb_write buf - cb_read buf))
      else
        let top_part = cb_size buf - cb_read buf
        in rbind (mem_copy new_data 0 data (cb_read buf) top_part) (\<lambda>new_data.
           rbind (mem_copy new_data top_part data 0 (cb_write buf)) (\<lambda>new_data.
             Inr (new_data, top_part + cb_write buf))))"

text \<open>Returns whether it fails.\<close>

definition cbuffer_realloc_unsafe :: "circular_buffer \<Rightarrow> (bool \<times> circular_buffer) res" where
  "cbuffer_realloc_unsafe buf =
     (if cb_max_size buf \<le> cb_size buf then Inr (True, buf)
      else
        let old_size = cb_size buf;
          new_size = cb_size buf * 2;
          new_size = (if cb_max_size buf < new_size then cb_max_size buf else new_size)
        in rbind (data_of buf) (\<lambda>data.
           rbind (copy_live buf data (mallocz new_size)) (\<lambda>(new_data, write).
             Inr (False, count_bytes (int new_size - int old_size)
               (buf\<lparr>cb_write := write, cb_read := 0, cb_data := Some new_data, cb_size := new_size\<rparr>)))))"

definition cbuffer_used_size_unsafe :: "circular_buffer \<Rightarrow> nat" where
  "cbuffer_used_size_unsafe buf =
     (if cb_read buf \<le> cb_write buf then cb_write buf - cb_read buf else cb_size buf - cb_read buf + cb_write buf)"

definition cbuffer_available_size_unsafe :: "circular_buffer \<Rightarrow> nat" where
  "cbuffer_available_size_unsafe buf = nat ((int (cb_max_size buf) - int (cbuffer_used_size_unsafe buf)) mod 2 ^ 64)"

text \<open>The loop that makes room for \<open>need\<close> bytes and one more; returns whether it fails.\<close>

fun grow_loop :: "nat \<Rightarrow> nat \<Rightarrow> circular_buffer \<Rightarrow> (bool \<times> circular_buffer) res" where
  "grow_loop fuel need buf =
     (if need < cb_size buf then Inr (False, buf)
      else
        case fuel of
          0 \<Rightarrow> Inl Unfinished
        | Suc fuel \<Rightarrow>
            rbind (cbuffer_realloc_unsafe buf) (\<lambda>(failed, buf).
              if failed then Inr (True, buf) else grow_loop fuel need buf))"

declare grow_loop.simps [simp del]

text \<open>Each round adds at least one byte, so that as many rounds as bytes can be added are enough.\<close>

definition grow_rounds :: "circular_buffer \<Rightarrow> nat" where
  "grow_rounds buf = Suc (cb_max_size buf - cb_size buf)"

definition cbuffer_add_unsafe :: "circular_buffer \<Rightarrow> string \<Rightarrow> (bool \<times> circular_buffer) res" where
  "cbuffer_add_unsafe buf d =
     (let d = map Some d; len = cbuffer_used_size_unsafe buf
      in rbind (grow_loop (grow_rounds buf) (length d + len) buf) (\<lambda>(failed, buf).
         if failed then Inr (True, buf)
         else
           rbind (data_of buf) (\<lambda>data.
             if cb_write buf + length d < cb_size buf then
               rbind (mem_write data (cb_write buf) d) (\<lambda>data.
                 Inr (False, buf\<lparr>cb_data := Some data, cb_write := cb_write buf + length d\<rparr>))
             else
               let top_part = cb_size buf - cb_write buf
               in rbind (mem_copy data (cb_write buf) d 0 top_part) (\<lambda>data.
                  rbind (mem_copy data 0 d top_part (length d - top_part)) (\<lambda>data.
                    Inr (False, buf\<lparr>cb_data := Some data, cb_write := length d - top_part\<rparr>))))))"

definition cbuffer_remove_unsafe :: "circular_buffer \<Rightarrow> nat \<Rightarrow> circular_buffer" where
  "cbuffer_remove_unsafe buf num =
     (let buf = buf\<lparr>cb_read := cb_read buf + num\<rparr>
      in if cb_size buf \<le> cb_read buf then buf\<lparr>cb_read := cb_read buf - cb_size buf\<rparr> else buf)"

text \<open>The position of the first byte, and how many follow it without a break.\<close>

definition cbuffer_next_unsafe :: "circular_buffer \<Rightarrow> nat \<times> nat" where
  "cbuffer_next_unsafe buf =
     (cb_read buf, if cb_read buf \<le> cb_write buf then cb_write buf - cb_read buf else cb_size buf - cb_read buf)"

definition cbuffer_flush :: "circular_buffer \<Rightarrow> circular_buffer" where
  "cbuffer_flush buf = buf\<lparr>cb_write := 0, cb_read := 0\<rparr>"

definition cbuffer_ensure_unwrapped_size :: "circular_buffer \<Rightarrow> nat \<Rightarrow> (bool \<times> circular_buffer) res" where
  "cbuffer_ensure_unwrapped_size buf n =
     (case cb_data buf of
        None \<Rightarrow> Inr (False, buf)
      | Some data \<Rightarrow>
          let used = cbuffer_used_size_unsafe buf
          in if used < n then Inr (False, buf)
             else
               case cbuffer_next_unsafe buf of (unwrapped, unwrapped_size) \<Rightarrow>
                 if n \<le> unwrapped_size then Inr (True, buf)
                 else
                   let wrapped_size = used - unwrapped_size
                   in rbind (mem_copy (mallocz unwrapped_size) 0 data unwrapped unwrapped_size) (\<lambda>tmp.
                      let buf = cbuffer_remove_unsafe buf unwrapped_size
                      in rbind (mem_copy data unwrapped_size data 0 wrapped_size) (\<lambda>data.
                         rbind (mem_copy data 0 tmp 0 unwrapped_size) (\<lambda>data.
                           Inr (True, buf\<lparr>cb_data := Some data, cb_read := 0, cb_write := unwrapped_size + wrapped_size\<rparr>)))))"

text \<open>Moves the bytes when a block of \<open>n\<close> does not fit behind them; returns whether the block is possible.\<close>

definition make_room :: "circular_buffer \<Rightarrow> nat \<Rightarrow> nat \<Rightarrow> (bool \<times> circular_buffer) res" where
  "make_room buf len n =
     (if cb_size buf < cb_write buf + n then
        rbind (cbuffer_ensure_unwrapped_size buf len) (\<lambda>(unwrapped, buf).
          if \<not> unwrapped then Inr (False, buf)
          else if cb_read buf \<noteq> 0 \<and> cb_size buf < cb_write buf + n then
            rbind (data_of buf) (\<lambda>data.
            rbind (mem_copy data 0 data (cb_read buf) (cb_write buf - cb_read buf)) (\<lambda>data.
              Inr (True, buf\<lparr>cb_data := Some data, cb_write := cb_write buf - cb_read buf, cb_read := 0\<rparr>)))
          else Inr (True, buf))
      else Inr (True, buf))"

text \<open>The position of the reserved bytes, or \<open>None\<close> for a null pointer.\<close>

definition cbuffer_reserve_unsafe :: "circular_buffer \<Rightarrow> nat \<Rightarrow> (nat option \<times> circular_buffer) res" where
  "cbuffer_reserve_unsafe buf n =
     (if cb_data buf = None \<or> n = 0 then Inr (None, buf)
      else
        let len = cbuffer_used_size_unsafe buf
        in rbind (grow_loop (grow_rounds buf) (n + len) buf) (\<lambda>(failed, buf).
           if failed then Inr (None, buf)
           else
             rbind (make_room buf len n) (\<lambda>(possible, buf).
               if \<not> possible then Inr (None, buf)
               else if cb_write buf + n \<le> cb_size buf then Inr (Some (cb_write buf), buf)
               else Inr (None, buf))))"

definition cbuffer_commit_reserved_unsafe :: "circular_buffer \<Rightarrow> nat \<Rightarrow> circular_buffer" where
  "cbuffer_commit_reserved_unsafe buf n =
     (if cb_data buf = None \<or> n = 0 then buf
      else
        let buf = buf\<lparr>cb_write := cb_write buf + n\<rparr>
        in if cb_size buf \<le> cb_write buf then buf\<lparr>cb_write := cb_write buf - cb_size buf\<rparr> else buf)"

section \<open>Well-formed rings\<close>

text \<open>The bytes between two positions of a ring, and rings that hold a string.\<close>

definition between :: "nat \<Rightarrow> nat \<Rightarrow> bytes \<Rightarrow> bytes" where
  "between r w data = (if r \<le> w then take (w - r) (drop r data) else drop r data @ take w data)"

definition ring :: "circular_buffer \<Rightarrow> string \<Rightarrow> bool" where
  "ring buf c \<longleftrightarrow>
     (\<exists>data. cb_data buf = Some data \<and> length data = cb_size buf \<and> cb_read buf < cb_size buf \<and> cb_write buf < cb_size buf \<and>
        between (cb_read buf) (cb_write buf) data = map Some c)"

lemma ringE:
  assumes "ring buf c"
  obtains data where "cb_data buf = Some data" "data_of buf = Inr data" "length data = cb_size buf" "cb_read buf < cb_size buf"
    "cb_write buf < cb_size buf" "between (cb_read buf) (cb_write buf) data = map Some c"
  using assms by (auto simp: ring_def data_of_def)

lemma ringD:
  assumes "ring buf c" and "cb_data buf = Some data"
  shows "data_of buf = Inr data" "length data = cb_size buf" "cb_read buf < cb_size buf" "cb_write buf < cb_size buf"
    "between (cb_read buf) (cb_write buf) data = map Some c"
  using assms by (simp_all add: ring_def data_of_def)

lemma ring_used:
  assumes "ring buf c"
  shows "cbuffer_used_size_unsafe buf = length c" "length c < cb_size buf"
proof -
  obtain data where d: "length data = cb_size buf" "cb_read buf < cb_size buf" "cb_write buf < cb_size buf"
    "between (cb_read buf) (cb_write buf) data = map Some c" using ringE [OF assms] by metis
  have "length (between (cb_read buf) (cb_write buf) data) = length c" using d(4) by simp
  then show "cbuffer_used_size_unsafe buf = length c" "length c < cb_size buf"
    using d(1-3) by (auto simp: between_def cbuffer_used_size_unsafe_def split: if_splits)
qed

lemma ring_empty: "ring buf c \<Longrightarrow> cb_read buf = cb_write buf \<longleftrightarrow> c = []"
  using ring_used [of buf c] by (auto simp: cbuffer_used_size_unsafe_def ring_def split: if_splits)

lemma count_bytes_fields [simp]:
  "cb_size (count_bytes n buf) = cb_size buf" "cb_write (count_bytes n buf) = cb_write buf" "cb_read (count_bytes n buf) = cb_read buf"
  "cb_max_size (count_bytes n buf) = cb_max_size buf" "cb_data (count_bytes n buf) = cb_data buf"
  by (simp_all add: count_bytes_def)

lemma ring_count [simp]: "ring (count_bytes n buf) c = ring buf c"
  by (simp add: ring_def)

lemma mem_write_length: "mem_write data i bs = Inr data' \<Longrightarrow> length data' = length data"
  by (auto simp: mem_write_def split: if_splits)

lemma mem_write_ok: "i + length bs \<le> length data \<Longrightarrow> mem_write data i bs = Inr (take i data @ bs @ drop (i + length bs) data)"
  by (simp add: mem_write_def)

lemma mem_copy_ok:
  "j + n \<le> length src \<Longrightarrow> i + n \<le> length dst \<Longrightarrow>
   mem_copy dst i src j n = Inr (take i dst @ take n (drop j src) @ drop (i + n) dst)"
  by (simp add: mem_copy_def mem_read_def mem_write_def)

text \<open>A ring whose bytes stand at the beginning.\<close>

lemma ring_straight:
  assumes "cb_data buf = Some (map Some c @ rest)" and "length c + length rest = cb_size buf" and "cb_read buf = 0" and "cb_write buf = length c"
    and "rest \<noteq> []"
  shows "ring buf c"
  using assms by (cases rest) (auto simp: ring_def between_def)

lemma init_ring: "0 < initial \<Longrightarrow> ring (cbuffer_init initial mx statistics) []"
  by (simp add: cbuffer_init_def ring_def between_def mallocz_def)

lemma flush_ring: "ring buf c \<Longrightarrow> ring (cbuffer_flush buf) []"
  by (auto simp: cbuffer_flush_def ring_def between_def)

section \<open>Growing\<close>

lemma copy_live_ok:
  assumes "ring buf c" and "cb_data buf = Some data" and "cb_size buf < n"
  shows "copy_live buf data (mallocz n) = Inr (map Some c @ replicate (n - length c) None, length c)"
proof -
  let ?r = "cb_read buf" and ?w = "cb_write buf"
  have d: "length data = cb_size buf" "?r < cb_size buf" "?w < cb_size buf" "between ?r ?w data = map Some c"
    using ringD [OF assms(1,2)] by simp_all
  note u = ring_used(1) [OF assms(1)]
  consider "?r = ?w" | "?r < ?w" | "?w < ?r" by linarith
  then show ?thesis
  proof cases
    case 1
    then show ?thesis using ring_empty [OF assms(1)] by (simp add: copy_live_def mallocz_def)
  next
    case 2
    then have "take (?w - ?r) (drop ?r data) = map Some c" "length c = ?w - ?r"
      using d(4) u by (simp_all add: between_def cbuffer_used_size_unsafe_def)
    then show ?thesis using 2 d(1,3) assms(3) by (simp add: copy_live_def mem_copy_ok mallocz_def)
  next
    case 3
    then have b: "map Some c = drop ?r data @ take ?w data" "length c = cb_size buf - ?r + ?w"
      using d(4) u by (simp_all add: between_def cbuffer_used_size_unsafe_def)
    have "mem_copy (mallocz n) 0 data ?r (cb_size buf - ?r) = Inr (drop ?r data @ replicate (n - (cb_size buf - ?r)) None)"
      using d(1,2) assms(3) by (simp add: mem_copy_ok mallocz_def)
    moreover have "mem_copy (drop ?r data @ replicate (n - (cb_size buf - ?r)) None) (cb_size buf - ?r) data 0 ?w =
        Inr (drop ?r data @ take ?w data @ replicate (n - length c) None)"
      using 3 d(1-3) assms(3) b(2) by (simp add: mem_copy_ok)
    ultimately show ?thesis using 3 b by (simp add: copy_live_def Let_def)
  qed
qed

lemma realloc_ok:
  assumes "ring buf c" and "cb_size buf < cb_max_size buf"
  shows "\<exists>buf'. cbuffer_realloc_unsafe buf = Inr (False, buf') \<and> ring buf' c \<and> cb_max_size buf' = cb_max_size buf \<and>
    cb_size buf < cb_size buf' \<and> cb_size buf' \<le> cb_max_size buf"
proof -
  obtain data where d: "cb_data buf = Some data" "data_of buf = Inr data" "cb_read buf < cb_size buf" using ringE [OF assms(1)] by metis
  define n where "n = (if cb_max_size buf < cb_size buf * 2 then cb_max_size buf else cb_size buf * 2)"
  have n: "cb_size buf < n" "n \<le> cb_max_size buf" using assms(2) d(3) by (auto simp: n_def)
  let ?data = "map Some c @ replicate (n - length c) None"
  let ?buf = "count_bytes (int n - int (cb_size buf)) (buf\<lparr>cb_write := length c, cb_read := 0, cb_data := Some ?data, cb_size := n\<rparr>)"
  have "cbuffer_realloc_unsafe buf = Inr (False, ?buf)"
    using assms(2) d(2) copy_live_ok [OF assms(1) d(1) n(1)] by (simp add: cbuffer_realloc_unsafe_def n_def [symmetric] Let_def)
  moreover have "ring ?buf c"
    using ring_used(2) [OF assms(1)] n(1) by (intro ring_straight [where rest = "replicate (n - length c) None"]) simp_all
  ultimately show ?thesis using n by (intro exI [of _ ?buf]) simp
qed

lemma grow_ok:
  assumes "ring buf c" and "cb_max_size buf - cb_size buf < fuel"
  shows "\<exists>failed buf'. grow_loop fuel need buf = Inr (failed, buf') \<and> ring buf' c \<and> cb_max_size buf' = cb_max_size buf \<and>
    (failed \<longleftrightarrow> max (cb_size buf) (cb_max_size buf) \<le> need) \<and> (\<not> failed \<longrightarrow> need < cb_size buf')"
  using assms
proof (induction fuel arbitrary: buf)
  case (Suc fuel)
  consider "need < cb_size buf" | "cb_size buf \<le> need" "cb_max_size buf \<le> cb_size buf" | "cb_size buf \<le> need" "cb_size buf < cb_max_size buf"
    by linarith
  then show ?case
  proof cases
    case 1
    then show ?thesis using Suc.prems by (intro exI [of _ False] exI [of _ buf]) (simp add: grow_loop.simps [of "Suc fuel"])
  next
    case 2
    then show ?thesis
      using Suc.prems by (intro exI [of _ True] exI [of _ buf]) (simp add: grow_loop.simps [of "Suc fuel"] cbuffer_realloc_unsafe_def)
  next
    case 3
    from realloc_ok [OF Suc.prems(1) 3(2)] obtain b where
      b: "cbuffer_realloc_unsafe buf = Inr (False, b)" "ring b c" "cb_max_size b = cb_max_size buf" "cb_size buf < cb_size b"
        "cb_size b \<le> cb_max_size buf" by blast
    have "cb_max_size b - cb_size b < fuel" using b(3-5) Suc.prems(2) by simp
    from Suc.IH [OF b(2) this] obtain failed buf' where
      "grow_loop fuel need b = Inr (failed, buf')" "ring buf' c" "cb_max_size buf' = cb_max_size b"
      "failed \<longleftrightarrow> max (cb_size b) (cb_max_size b) \<le> need" "\<not> failed \<longrightarrow> need < cb_size buf'" by blast
    then show ?thesis using 3 b by (intro exI [of _ failed] exI [of _ buf']) (simp add: grow_loop.simps [of "Suc fuel"])
  qed
qed simp

section \<open>Putting bytes in\<close>

lemma between_length: "r < length data \<Longrightarrow> w < length data \<Longrightarrow> length (between r w data) = (if r \<le> w then w - r else length data - r + w)"
  by (simp add: between_def)

text \<open>Writing to the free part of a ring leaves its bytes, and moving the end makes them longer.\<close>

lemma between_write:
  assumes "r < length data" "w < length data" and "length (between r w data) + length bs < length data" and "w + length bs \<le> length data"
  shows "between r w (take w data @ bs @ drop (w + length bs) data) = between r w data"
proof (cases "r \<le> w")
  case True
  then show ?thesis using assms by (simp add: between_def drop_take)
next
  case False
  then have "w + length bs \<le> r" using assms by (simp add: between_length)
  then have "drop r (take w data @ bs @ drop (w + length bs) data) = drop r data" using assms(2) by simp
  then show ?thesis using False assms(2) by (simp add: between_def)
qed

lemma between_extend:
  assumes "r < length data" "w < length data" and "length (between r w data) + n < length data" and "w + n \<le> length data"
  shows "between r (if w + n = length data then 0 else w + n) data = between r w data @ take n (drop w data)"
proof (cases "r \<le> w")
  case True
  have t: "take (w - r) (drop r data) @ take n (drop w data) = take (w + n - r) (drop r data)"
    using True take_add [of "w - r" n "drop r data"] by (simp add: add.commute)
  show ?thesis
  proof (cases "w + n = length data")
    case wrap: True
    then have "0 < r" using True assms by (simp add: between_length)
    then show ?thesis using True t wrap assms(1) by (simp add: between_def)
  next
    case False
    then show ?thesis using True t by (simp add: between_def)
  qed
next
  case False
  then have "w + n < r" using assms by (simp add: between_length)
  then show ?thesis using False assms(1) by (simp add: between_def take_add)
qed

lemma ringI:
  assumes "cb_data buf = Some data" "length data = cb_size buf" "cb_read buf < cb_size buf" "cb_write buf < cb_size buf"
    "between (cb_read buf) (cb_write buf) data = map Some c"
  shows "ring buf c"
  unfolding ring_def using assms by blast

lemma ring_append:
  assumes "ring buf c" and "cb_data buf = Some data" and "length c + length d < cb_size buf" and "cb_write buf + length d \<le> cb_size buf"
  shows "ring (buf\<lparr>cb_data := Some (take (cb_write buf) data @ map Some d @ drop (cb_write buf + length d) data),
    cb_write := if cb_write buf + length d = cb_size buf then 0 else cb_write buf + length d\<rparr>) (c @ d)"
proof -
  define r w data' where "r = cb_read buf" and "w = cb_write buf" and "data' = take w data @ map Some d @ drop (w + length d) data"
  have d: "length data = cb_size buf" "r < length data" "w < length data" "between r w data = map Some c"
    using ringD [OF assms(1,2)] by (simp_all add: r_def w_def)
  have l: "length data' = length data" using assms(4) d(1) by (simp add: data'_def w_def)
  have n: "length (between r w data) + length (map Some d) < length data" "w + length (map Some d) \<le> length data"
    using assms(3,4) d(1,4) by (simp_all add: w_def)
  have same: "between r w data' = map Some c" using between_write [OF d(2,3) n] d(4) by (simp add: data'_def)
  have bs: "take (length d) (drop w data') = map Some d" using d(3) by (simp add: data'_def)
  have "between r (if w + length d = length data' then 0 else w + length d) data' = map Some (c @ d)"
    using between_extend [of r data' w "length d"] d n l same bs by simp
  moreover have "(if w + length d = length data' then 0 else w + length d) < cb_size buf" using l d(1,3) assms(4) by (auto simp: w_def)
  ultimately show ?thesis
    using d(1,2) l by (intro ringI [of _ data']) (simp_all add: data'_def [symmetric] w_def [symmetric] r_def [symmetric] split: if_splits)
qed

lemma add_ok:
  assumes "ring buf c"
  shows "\<exists>failed buf'. cbuffer_add_unsafe buf d = Inr (failed, buf') \<and> (failed \<longleftrightarrow> max (cb_size buf) (cb_max_size buf) \<le> length c + length d) \<and>
    ring buf' (if failed then c else c @ d)"
proof -
  have "cb_max_size buf - cb_size buf < grow_rounds buf" by (simp add: grow_rounds_def)
  from grow_ok [OF assms this, of "length d + length c"] obtain failed b where
    g: "grow_loop (grow_rounds buf) (length d + length c) buf = Inr (failed, b)" "ring b c"
      "failed \<longleftrightarrow> max (cb_size buf) (cb_max_size buf) \<le> length d + length c" "\<not> failed \<longrightarrow> length d + length c < cb_size b" by blast
  obtain data where b: "cb_data b = Some data" "data_of b = Inr data" "length data = cb_size b" "cb_write b < cb_size b"
    using ringE [OF g(2)] by metis
  show ?thesis
  proof (cases failed)
    case True
    then show ?thesis
      using g ring_used(1) [OF assms] by (intro exI [of _ True] exI [of _ b]) (simp add: cbuffer_add_unsafe_def add.commute)
  next
    case False
    then have room: "length c + length d < cb_size b" using g(4) by simp
    let ?w = "cb_write b" and ?d = "map Some d"
    have step: "cbuffer_add_unsafe buf d =
        (if ?w + length d < cb_size b then
           rbind (mem_write data ?w ?d) (\<lambda>data. Inr (False, b\<lparr>cb_data := Some data, cb_write := ?w + length d\<rparr>))
         else let top_part = cb_size b - ?w
           in rbind (mem_copy data ?w ?d 0 top_part) (\<lambda>data.
              rbind (mem_copy data 0 ?d top_part (length d - top_part)) (\<lambda>data.
                Inr (False, b\<lparr>cb_data := Some data, cb_write := length d - top_part\<rparr>))))"
      using g(1) False b(2) ring_used(1) [OF assms] by (simp add: cbuffer_add_unsafe_def Let_def)
    have "\<exists>b'. cbuffer_add_unsafe buf d = Inr (False, b') \<and> ring b' (c @ d)"
    proof (cases "?w + length d < cb_size b")
      case True
      then show ?thesis using step ring_append [OF g(2) b(1), of d] room b(3) by (simp add: mem_write_ok)
    next
      case wrap: False
      define k where "k = cb_size b - ?w"
      have k: "?w + k = cb_size b" "k \<le> length d" using wrap b(4) by (simp_all add: k_def)
      define data1 where "data1 = take ?w data @ map Some (take k d) @ drop (?w + k) data"
      let ?b = "b\<lparr>cb_data := Some data1, cb_write := 0\<rparr>" and ?e = "map Some (drop k d)"
      have r1: "ring ?b (c @ take k d)"
        using ring_append [OF g(2) b(1), of "take k d"] room k by (simp add: data1_def)
      have l1: "length data1 = cb_size b" using b(3) k by (simp add: data1_def)
      have ne: "length d - k \<noteq> cb_size b" "length d - k \<le> cb_size b" using room by simp_all
      have r2: "ring (?b\<lparr>cb_data := Some (?e @ drop (length ?e) data1), cb_write := length d - k\<rparr>) ((c @ take k d) @ drop k d)"
        using ring_append [OF r1, of data1 "drop k d"] room k ne by simp
      have "mem_copy data ?w ?d 0 k = Inr data1" using k b(3) by (simp add: mem_copy_ok data1_def take_map)
      moreover have "mem_copy data1 0 ?d k (length d - k) = Inr (?e @ drop (length ?e) data1)"
        using k l1 room by (simp add: mem_copy_ok drop_map)
      ultimately show ?thesis using step wrap r2 by (simp add: Let_def k_def [symmetric])
    qed
    then show ?thesis using g(3) False by (auto simp: add.commute)
  qed
qed

section \<open>Taking bytes out\<close>

lemma remove_ok:
  assumes "ring buf c" and "n \<le> length c"
  shows "ring (cbuffer_remove_unsafe buf n) (drop n c)"
proof -
  obtain data where a: "cb_data buf = Some data" using assms(1) by (auto simp: ring_def)
  note d = ringD [OF assms(1) a]
  define r where "r = cb_read buf + n"
  define r' where "r' = (if cb_size buf \<le> r then r - cb_size buf else r)"
  have len: "length c = (if cb_read buf \<le> cb_write buf then cb_write buf - cb_read buf else cb_size buf - cb_read buf + cb_write buf)"
    using ring_used(1) [OF assms(1)] by (simp add: cbuffer_used_size_unsafe_def)
  have less: "r' < cb_size buf" using d(3,4) len assms(2) by (auto simp: r'_def r_def split: if_splits)
  have "between r' (cb_write buf) data = drop n (between (cb_read buf) (cb_write buf) data)"
  proof (cases "cb_read buf \<le> cb_write buf")
    case True
    then have "r' = r" "r \<le> cb_write buf" using len assms(2) d(4) by (auto simp: r'_def r_def)
    then show ?thesis using True by (simp add: between_def r_def drop_take add.commute)
  next
    case False
    then show ?thesis
      using d(2-4) len assms(2) by (cases "cb_size buf \<le> r") (auto simp: between_def r'_def r_def drop_take add.commute)
  qed
  then have b: "between r' (cb_write buf) data = map Some (drop n c)" using d(5) by (simp add: drop_map)
  have "cbuffer_remove_unsafe buf n = buf\<lparr>cb_read := r'\<rparr>"
    by (simp add: cbuffer_remove_unsafe_def Let_def r'_def r_def)
  then show ?thesis using a d(2,4) less b by (intro ringI [of _ data]) simp_all
qed

text \<open>The bytes that \<open>cbuffer_next_unsafe\<close> shows are the first ones, and there are some if there are any.\<close>

lemma next_ok:
  assumes "ring buf c" and "cb_data buf = Some data" and "cbuffer_next_unsafe buf = (i, n)"
  shows "mem_read data i n = Inr (map Some (take n c))" "n \<le> length c" "c \<noteq> [] \<Longrightarrow> 0 < n"
proof -
  note d = ringD [OF assms(1,2)]
  have i: "i = cb_read buf" "n = (if cb_read buf \<le> cb_write buf then cb_write buf - cb_read buf else cb_size buf - cb_read buf)"
    using assms(3) by (auto simp: cbuffer_next_unsafe_def)
  have len: "length c = (if cb_read buf \<le> cb_write buf then cb_write buf - cb_read buf else cb_size buf - cb_read buf + cb_write buf)"
    using ring_used(1) [OF assms(1)] by (simp add: cbuffer_used_size_unsafe_def)
  show n: "n \<le> length c" using i len by simp
  have "take n (drop i data) = take n (between (cb_read buf) (cb_write buf) data)"
    using i d(2-4) by (simp add: between_def)
  then show "mem_read data i n = Inr (map Some (take n c))" using d i by (simp add: mem_read_def take_map split: if_splits)
  show "c \<noteq> [] \<Longrightarrow> 0 < n" using i len d(3) ring_empty [OF assms(1)] by (auto split: if_splits)
qed

section \<open>Straightening and reserving\<close>

lemma unwrap_ok:
  assumes "ring buf c"
  shows "if length c < n then cbuffer_ensure_unwrapped_size buf n = Inr (False, buf)
    else \<exists>b. cbuffer_ensure_unwrapped_size buf n = Inr (True, b) \<and> ring b c \<and> cb_size b = cb_size buf \<and> cb_max_size b = cb_max_size buf \<and>
      n \<le> snd (cbuffer_next_unsafe b)"
proof -
  obtain data where a: "cb_data buf = Some data" using assms by (auto simp: ring_def)
  note d = ringD [OF assms a]
  note u = ring_used [OF assms]
  obtain i m where nx: "cbuffer_next_unsafe buf = (i, m)" by (cases "cbuffer_next_unsafe buf")
  note nxt = next_ok [OF assms a nx]
  consider "length c < n" | "n \<le> length c" "n \<le> m" | "n \<le> length c" "m < n" by linarith
  then show ?thesis
  proof cases
    case 1
    then show ?thesis using a u(1) by (simp add: cbuffer_ensure_unwrapped_size_def)
  next
    case 2
    then have "cbuffer_ensure_unwrapped_size buf n = Inr (True, buf)" using a u(1) nx by (simp add: cbuffer_ensure_unwrapped_size_def)
    then show ?thesis using 2 assms nx by auto
  next
    case 3
    then have w: "cb_write buf < cb_read buf" "i = cb_read buf" "m = cb_size buf - cb_read buf" "length c = m + cb_write buf"
      using nx u(1) by (auto simp: cbuffer_next_unsafe_def cbuffer_used_size_unsafe_def split: if_splits)
    have c: "map Some c = drop i data @ take (cb_write buf) data" using d(5) w(1,2) by (simp add: between_def)
    have t: "mem_copy (mallocz m) 0 data i m = Inr (drop i data)" using d(2,3) w by (simp add: mem_copy_ok mallocz_def)
    define data1 where "data1 = take m data @ take (cb_write buf) data @ drop (m + cb_write buf) data"
    have m1: "mem_copy data m data 0 (cb_write buf) = Inr data1" using d(2-4) w(3,4) u(2) by (simp add: mem_copy_ok data1_def)
    have l1: "length data1 = cb_size buf" using m1 d(2) w(3,4) u(2) by (simp add: data1_def)
    have "mem_copy data1 0 (drop i data) 0 m = Inr (drop i data @ drop m data1)" using l1 d(2) w(2,3) by (simp add: mem_copy_ok)
    moreover have "drop i data @ drop m data1 = map Some c @ drop (length c) data" using c w(3,4) d(2) by (simp add: data1_def)
    ultimately have m2: "mem_copy data1 0 (drop i data) 0 m = Inr (map Some c @ drop (length c) data)" by simp
    let ?b = "(cbuffer_remove_unsafe buf m)\<lparr>cb_data := Some (map Some c @ drop (length c) data), cb_read := 0, cb_write := length c\<rparr>"
    have f: "cb_size ?b = cb_size buf" "cb_max_size ?b = cb_max_size buf" by (simp_all add: cbuffer_remove_unsafe_def Let_def)
    have "cbuffer_ensure_unwrapped_size buf n = Inr (True, ?b)"
      using 3 a u(1) nx t m1 m2 w(4) by (simp add: cbuffer_ensure_unwrapped_size_def Let_def)
    moreover have "ring ?b c" using f u(2) d(2) by (intro ring_straight [where rest = "drop (length c) data"]) simp_all
    moreover have "n \<le> snd (cbuffer_next_unsafe ?b)" using 3 by (simp add: cbuffer_next_unsafe_def)
    ultimately show ?thesis using 3 f by auto
  qed
qed

text \<open>When a block has to be placed at the end, the bytes are first moved together, and then down.\<close>

lemma make_room_ok:
  assumes "ring buf c" and "n + length c < cb_size buf"
  shows "\<exists>b. make_room buf (length c) n = Inr (True, b) \<and> ring b c \<and> cb_size b = cb_size buf \<and> cb_write b + n \<le> cb_size b"
proof (cases "cb_size buf < cb_write buf + n")
  case far: True
  from unwrap_ok [OF assms(1), of "length c"] obtain b where
    b: "cbuffer_ensure_unwrapped_size buf (length c) = Inr (True, b)" "ring b c" "cb_size b = cb_size buf" "cb_max_size b = cb_max_size buf"
      "length c \<le> snd (cbuffer_next_unsafe b)" by auto
  obtain data where a: "cb_data b = Some data" using b(2) by (auto simp: ring_def)
  note d = ringD [OF b(2) a]
  show ?thesis
  proof (cases "cb_read b \<noteq> 0 \<and> cb_size b < cb_write b + n")
    case True
    have "cb_read b \<le> cb_write b" "length c = cb_write b - cb_read b"
      using True b(5) ring_used(1) [OF b(2)] assms(2) b(3)
      by (auto simp: cbuffer_next_unsafe_def cbuffer_used_size_unsafe_def split: if_splits)
    then have c: "take (length c) (drop (cb_read b) data) = map Some c" "cb_read b + length c \<le> length data"
      using d(2,4,5) by (simp_all add: between_def)
    let ?b = "b\<lparr>cb_data := Some (map Some c @ drop (length c) data), cb_write := length c, cb_read := 0\<rparr>"
    have "mem_copy data 0 data (cb_read b) (length c) = Inr (map Some c @ drop (length c) data)" using c by (simp add: mem_copy_ok)
    moreover have "ring ?b c"
      using ring_used(2) [OF b(2)] d(2) by (intro ring_straight [where rest = "drop (length c) data"]) simp_all
    ultimately show ?thesis
      using far b(1,3,4) True d(1) assms(2) \<open>length c = cb_write b - cb_read b\<close> by (intro exI [of _ ?b]) (simp add: make_room_def)
  next
    case False
    then have "cb_write b + n \<le> cb_size b"
      using ring_used [OF b(2)] b(3) assms(2) by (auto simp: cbuffer_used_size_unsafe_def)
    then show ?thesis using far b False by (intro exI [of _ b]) (simp add: make_room_def)
  qed
qed (use assms in \<open>simp add: make_room_def\<close>)

lemma reserve_ok:
  assumes "ring buf c" and "0 < n"
  shows "\<exists>place b. cbuffer_reserve_unsafe buf n = Inr (place, b) \<and> ring b c \<and>
    (if max (cb_size buf) (cb_max_size buf) \<le> n + length c then place = None
     else place = Some (cb_write b) \<and> n + length c < cb_size b \<and> cb_write b + n \<le> cb_size b)"
proof -
  have "cb_max_size buf - cb_size buf < grow_rounds buf" by (simp add: grow_rounds_def)
  from grow_ok [OF assms(1) this, of "n + length c"] obtain failed g where
    g: "grow_loop (grow_rounds buf) (n + length c) buf = Inr (failed, g)" "ring g c"
      "failed \<longleftrightarrow> max (cb_size buf) (cb_max_size buf) \<le> n + length c" "\<not> failed \<longrightarrow> n + length c < cb_size g" by blast
  obtain y where data: "cb_data buf = Some y" using assms(1) by (auto simp: ring_def)
  note start = data assms(2) g(1) ring_used(1) [OF assms(1)]
  show ?thesis
  proof (cases failed)
    case True
    then show ?thesis using start g(2,3) by (intro exI [of _ None] exI [of _ g]) (simp add: cbuffer_reserve_unsafe_def Let_def)
  next
    case False
    then have room: "n + length c < cb_size g" using g(4) by simp
    from make_room_ok [OF g(2) this] obtain b where
      b: "make_room g (length c) n = Inr (True, b)" "ring b c" "cb_size b = cb_size g" "cb_write b + n \<le> cb_size b" by blast
    then have "cbuffer_reserve_unsafe buf n = Inr (Some (cb_write b), b)" using start False by (simp add: cbuffer_reserve_unsafe_def Let_def)
    then show ?thesis using b g(3) False room by (intro exI [of _ "Some (cb_write b)"] exI [of _ b]) simp
  qed
qed

text \<open>What the caller of \<open>cbuffer_reserve_unsafe\<close> does: it writes to the block and commits a part of it.\<close>

lemma commit_ok:
  assumes "ring buf c" and "cb_data buf = Some data" and "length d + length c < cb_size buf" and "cb_write buf + length d \<le> cb_size buf" and "k \<le> length d"
  shows "\<exists>data'. mem_write data (cb_write buf) (map Some d) = Inr data' \<and>
    ring (cbuffer_commit_reserved_unsafe (buf\<lparr>cb_data := Some data'\<rparr>) k) (c @ take k d)"
proof -
  let ?w = "cb_write buf"
  define data' where "data' = take ?w data @ map Some d @ drop (?w + length d) data"
  note r = ringD [OF assms(1,2)]
  have l: "length data' = cb_size buf" using r(2) assms(4) by (simp add: data'_def)
  have "between (cb_read buf) ?w data' = map Some c"
    using between_write [of "cb_read buf" data ?w "map Some d"] r assms(3,4) by (simp add: data'_def)
  then have ring': "ring (buf\<lparr>cb_data := Some data'\<rparr>) c" using r l by (intro ringI [of _ data']) simp_all
  have tk: "length (take k d) = k" using assms(5) by simp
  have same: "take ?w data' @ map Some (take k d) @ drop (?w + k) data' = data'"
    using assms(5) r(2,4) by (simp add: data'_def take_map [symmetric] append_take_drop_id flip: append_assoc) 
  have "cbuffer_commit_reserved_unsafe (buf\<lparr>cb_data := Some data'\<rparr>) k =
      buf\<lparr>cb_data := Some data', cb_write := if ?w + k = cb_size buf then 0 else ?w + k\<rparr>"
    using assms(4,5) r(4) by (auto simp: cbuffer_commit_reserved_unsafe_def Let_def)
  moreover have "ring (buf\<lparr>cb_data := Some data', cb_write := if ?w + k = cb_size buf then 0 else ?w + k\<rparr>) (c @ take k d)"
    using ring_append [OF ring', of data' "take k d", unfolded tk] assms(3-5) same by (simp split del: if_split cong: if_cong)
  ultimately show ?thesis using assms(4) r(2) by (intro exI [of _ data']) (simp add: mem_write_ok data'_def)
qed

section \<open>First in, first out\<close>

text \<open>
  What a client of a queue of bytes relies on: a step says which bytes came out and which were taken
  in, and what came out followed by what is held is what was held followed by what was taken in.
\<close>

fun run_steps :: "('c \<Rightarrow> 's \<Rightarrow> (string \<times> string \<times> 's) res) \<Rightarrow> 'c list \<Rightarrow> 's \<Rightarrow> (string \<times> string \<times> 's) res" where
  "run_steps step [] s = Inr ([], [], s)"
| "run_steps step (x # xs) s =
     rbind (step x s) (\<lambda>(out, acc, s). rbind (run_steps step xs s) (\<lambda>(out', acc', s). Inr (out @ out', acc @ acc', s)))"

locale byte_queue =
  fixes holds :: "'s \<Rightarrow> string \<Rightarrow> bool" and step :: "'c \<Rightarrow> 's \<Rightarrow> (string \<times> string \<times> 's) res"
  assumes step_fifo: "holds s c \<Longrightarrow> \<exists>out acc s' c'. step x s = Inr (out, acc, s') \<and> holds s' c' \<and> out @ c' = c @ acc"
begin

lemma run_fifo: "holds s c \<Longrightarrow> \<exists>out acc s' c'. run_steps step xs s = Inr (out, acc, s') \<and> holds s' c' \<and> out @ c' = c @ acc"
proof (induction xs arbitrary: s c)
  case Nil
  then show ?case by auto
next
  case (Cons x xs)
  from step_fifo [OF Cons.prems] obtain out acc s1 c1 where
    x: "step x s = Inr (out, acc, s1)" "holds s1 c1" "out @ c1 = c @ acc" by blast
  from Cons.IH [OF x(2)] obtain out' acc' s2 c2 where
    xs: "run_steps step xs s1 = Inr (out', acc', s2)" "holds s2 c2" "out' @ c2 = c1 @ acc'" by blast
  have "(out @ out') @ c2 = c @ acc @ acc'" using x(3) xs(3) by (metis append.assoc)
  then show ?case using x(1) xs(1,2) by auto
qed

end

text \<open>The ways in which a ring is used.\<close>

datatype cb_command =
    Add string
  | Get nat
  | Unwrap nat
  | Reserve string nat  \<comment> \<open>what is written to the block, and how much of it is committed\<close>

definition bytes_text :: "bytes \<Rightarrow> string res" where
  "bytes_text bs = (if None \<in> set bs then Inl Opaque else Inr (map the bs))"

fun cb_step :: "cb_command \<Rightarrow> circular_buffer \<Rightarrow> (string \<times> string \<times> circular_buffer) res" where
  "cb_step (Add d) buf = rbind (cbuffer_add_unsafe buf d) (\<lambda>(failed, buf). Inr ([], if failed then [] else d, buf))"
| "cb_step (Get n) buf =
     (case cbuffer_next_unsafe buf of (start, available) \<Rightarrow>
        rbind (data_of buf) (\<lambda>data.
        rbind (mem_read data start (min n available)) (\<lambda>bs.
        rbind (bytes_text bs) (\<lambda>out.
          Inr (out, [], cbuffer_remove_unsafe buf (min n available))))))"
| "cb_step (Unwrap n) buf = rbind (cbuffer_ensure_unwrapped_size buf n) (\<lambda>(_, buf). Inr ([], [], buf))"
| "cb_step (Reserve d k) buf =
     rbind (cbuffer_reserve_unsafe buf (length d)) (\<lambda>(place, buf).
       case place of
         None \<Rightarrow> Inr ([], [], buf)
       | Some i \<Rightarrow>
           rbind (data_of buf) (\<lambda>data.
           rbind (mem_write data i (map Some d)) (\<lambda>data.
             Inr ([], take k d, cbuffer_commit_reserved_unsafe (buf\<lparr>cb_data := Some data\<rparr>) (min k (length d))))))"

lemma get_step_ok:
  assumes "ring buf c"
  shows "\<exists>out buf' c'. cb_step (Get n) buf = Inr (out, [], buf') \<and> ring buf' c' \<and> out @ c' = c"
proof -
  obtain data where a: "cb_data buf = Some data" using assms by (auto simp: ring_def)
  note d = ringD [OF assms a]
  obtain i m where nx: "cbuffer_next_unsafe buf = (i, m)" by (cases "cbuffer_next_unsafe buf")
  note nxt = next_ok [OF assms a nx]
  let ?k = "min n m"
  have "mem_read data i ?k = Inr (map Some (take ?k c))"
    using nxt(1) by (auto simp: mem_read_def split: if_splits) (metis (no_types) min.commute take_map take_take)
  moreover have "bytes_text (map Some (take ?k c)) = Inr (take ?k c)" by (auto simp: bytes_text_def comp_def)
  moreover have "ring (cbuffer_remove_unsafe buf ?k) (drop ?k c)" using nxt(2) by (intro remove_ok [OF assms]) simp
  ultimately show ?thesis
    using nx d(1) by (intro exI [of _ "take ?k c"] exI [of _ "cbuffer_remove_unsafe buf ?k"] exI [of _ "drop ?k c"]) simp
qed

lemma reserve_step_ok:
  assumes "ring buf c"
  shows "\<exists>acc buf'. cb_step (Reserve d k) buf = Inr ([], acc, buf') \<and> ring buf' (c @ acc)"
proof (cases "d = []")
  case True
  then show ?thesis using assms by (simp add: cbuffer_reserve_unsafe_def)
next
  case False
  then have "0 < length d" by simp
  from reserve_ok [OF assms this] obtain place b where
    p: "cbuffer_reserve_unsafe buf (length d) = Inr (place, b)" "ring b c"
      "if max (cb_size buf) (cb_max_size buf) \<le> length d + length c then place = None
       else place = Some (cb_write b) \<and> length d + length c < cb_size b \<and> cb_write b + length d \<le> cb_size b" by blast
  show ?thesis
  proof (cases place)
    case None
    then show ?thesis using p(1,2) by simp
  next
    case (Some i)
    then have i: "i = cb_write b" "length d + length c < cb_size b" "cb_write b + length d \<le> cb_size b" using p(3) by (auto split: if_splits)
    obtain data where a: "cb_data b = Some data" using p(2) by (auto simp: ring_def)
    from commit_ok [OF p(2) a i(2,3), of "min k (length d)"] obtain data' where
      w: "mem_write data (cb_write b) (map Some d) = Inr data'"
        "ring (cbuffer_commit_reserved_unsafe (b\<lparr>cb_data := Some data'\<rparr>) (min k (length d))) (c @ take (min k (length d)) d)" by auto
    have "take (min k (length d)) d = take k d" by (simp add: min_def)
    then show ?thesis using p(1) Some i(1) w ringD(1) [OF p(2) a] by simp
  qed
qed

interpretation cb: byte_queue ring cb_step
proof
  fix buf c x
  assume r: "ring buf c"
  show "\<exists>out acc buf' c'. cb_step x buf = Inr (out, acc, buf') \<and> ring buf' c' \<and> out @ c' = c @ acc"
  proof (cases x)
    case (Add d)
    from add_ok [OF r, of d] obtain failed b where
      "cbuffer_add_unsafe buf d = Inr (failed, b)" "ring b (if failed then c else c @ d)" by blast
    then show ?thesis using Add by (cases failed) auto
  next
    case (Get n)
    from get_step_ok [OF r, of n] show ?thesis unfolding Get by auto
  next
    case (Unwrap n)
    then show ?thesis using unwrap_ok [OF r, of n] r by (cases "length c < n") auto
  next
    case (Reserve d k)
    from reserve_step_ok [OF r, of d k] show ?thesis unfolding Reserve by auto
  qed
qed

text \<open>
  C6 (bytes leave in the order they came)  From a new ring of any size but zero, any sequence of
  operations runs without an error.  What was read, followed by what is still held, is exactly what
  was accepted, in order: no byte is lost, doubled or made up, however often the ring grows, wraps
  around or is straightened.
\<close>

theorem cbuffer_is_fifo:
  assumes "0 < initial"
  shows "\<exists>out acc buf c. run_steps cb_step cmds (cbuffer_init initial mx statistics) = Inr (out, acc, buf) \<and> ring buf c \<and> out @ c = acc"
  using cb.run_fifo [OF init_ring [OF assms, of mx statistics], of cmds] by simp

theorem cbuffer_is_fifo_witness:
  "\<exists>out acc buf c. run_steps cb_step [Add ''abc'', Get 2, Reserve ''defgh'' 4, Unwrap 3, Get 10] (cbuffer_init 4 8 None) = Inr (out, acc, buf) \<and>
    ring buf c \<and> out @ c = acc"
  by (rule cbuffer_is_fifo) simp

text \<open>
  Bytes are accepted exactly when, with those already held, they are
  fewer than the larger of the present and the greatest size; otherwise the ring keeps what it holds.
\<close>

theorem cbuffer_add_accepts:
  assumes "ring buf c"
  shows "\<exists>failed buf'. cbuffer_add_unsafe buf d = Inr (failed, buf') \<and> (failed \<longleftrightarrow> max (cb_size buf) (cb_max_size buf) \<le> length c + length d) \<and>
    ring buf' (if failed then c else c @ d)"
  using add_ok [OF assms] .

theorem cbuffer_add_accepts_witness:
  "\<exists>failed buf'. cbuffer_add_unsafe (cbuffer_init 4 8 None) ''abcdefg'' = Inr (failed, buf') \<and> \<not> failed \<and> ring buf' ''abcdefg''"
proof -
  have "ring (cbuffer_init 4 8 None) []" by (rule init_ring) simp
  from cbuffer_add_accepts [OF this, of "''abcdefg''"] show ?thesis by (auto simp: cbuffer_init_def count_bytes_def)
qed

text \<open>The number of bytes that a ring reports as available is one more than it accepts.\<close>

lemma available_is_too_much:
  assumes "ring buf c" and "cb_size buf \<le> cb_max_size buf" and "cb_max_size buf < 2 ^ 64" and "length d = cbuffer_available_size_unsafe buf"
  shows "\<exists>buf'. cbuffer_add_unsafe buf d = Inr (True, buf')"
proof -
  have "length c < cb_max_size buf" using ring_used(2) [OF assms(1)] assms(2) by simp
  then have "cbuffer_available_size_unsafe buf = cb_max_size buf - length c"
    using ring_used(1) [OF assms(1)] assms(3) by (simp add: cbuffer_available_size_unsafe_def)
  then have "max (cb_size buf) (cb_max_size buf) \<le> length c + length d" using assms(2,4) by simp
  then show ?thesis using add_ok [OF assms(1), of d] by auto
qed

text \<open>A ring of size zero that may grow doubles zero for ever.\<close>

lemma empty_ring_never_grows: "0 < mx \<Longrightarrow> grow_loop fuel need (cbuffer_init 0 mx statistics) = Inl Unfinished"
proof (induction fuel arbitrary: statistics)
  case 0
  then show ?case by (simp add: grow_loop.simps [of 0] cbuffer_init_def)
next
  case (Suc fuel)
  have "cbuffer_realloc_unsafe (cbuffer_init 0 mx statistics) = Inr (False, cbuffer_init 0 mx statistics)"
    using Suc.prems by (simp add: cbuffer_realloc_unsafe_def cbuffer_init_def count_bytes_def data_of_def copy_live_def option.map_ident)
  then show ?case using Suc by (simp add: grow_loop.simps [of "Suc fuel"]) (simp add: cbuffer_init_def)
qed

end
