(* ===== verification/Rw_Spinlock.thy ===== *)
theory Rw_Spinlock
  imports C_Prelude
begin

text \<open>
  The reader/writer spinlock of \<^verbatim>\<open>libnetdata/locks/rw-spinlock.c\<close>: a 32 bit counter whose top bit
  belongs to writers and whose other bits count readers.  The first part gives the operations as a
  single thread sees them, where a lock that cannot be taken is a deadlock.  The second part
  interleaves the atomic steps of any number of threads, including a reader that has counted itself
  and must undo it, and a writer that has set the top bit and must clear it again.
\<close>

section \<open>One thread\<close>

definition WRITER_BIT :: u32 where "WRITER_BIT = push_bit 31 1"

definition READER_MASK :: u32 where "READER_MASK = NOT WRITER_BIT"

record rw_spinlock =
  rw_counter :: u32
  rw_writer :: nat

definition rw_spinlock_init :: rw_spinlock where
  "rw_spinlock_init = \<lparr>rw_counter = 0, rw_writer = 0\<rparr>"

definition rw_spinlock_tryread_lock :: "rw_spinlock \<Rightarrow> bool \<times> rw_spinlock" where
  "rw_spinlock_tryread_lock l =
     (let val = rw_counter l + 1; l = l\<lparr>rw_counter := val\<rparr>
      in if val AND WRITER_BIT \<noteq> 0 then (False, l\<lparr>rw_counter := rw_counter l - 1\<rparr>) else (True, l))"

definition rw_spinlock_read_lock :: "rw_spinlock \<Rightarrow> rw_spinlock res" where
  "rw_spinlock_read_lock l =
     (let val = rw_counter l + 1
      in if val AND WRITER_BIT = 0 then Inr (l\<lparr>rw_counter := val\<rparr>) else Inl Deadlock)"

definition rw_spinlock_read_unlock :: "rw_spinlock \<Rightarrow> rw_spinlock" where
  "rw_spinlock_read_unlock l = l\<lparr>rw_counter := rw_counter l - 1\<rparr>"

definition rw_spinlock_trywrite_lock :: "nat \<Rightarrow> rw_spinlock \<Rightarrow> bool \<times> rw_spinlock" where
  "rw_spinlock_trywrite_lock tid l =
     (let old = rw_counter l; l = l\<lparr>rw_counter := old OR WRITER_BIT\<rparr>
      in if old = 0 then (True, l\<lparr>rw_writer := tid\<rparr>)
         else if old AND WRITER_BIT \<noteq> 0 then (False, l)
         else (False, l\<lparr>rw_counter := rw_counter l AND NOT WRITER_BIT\<rparr>))"

definition rw_spinlock_write_lock :: "nat \<Rightarrow> rw_spinlock \<Rightarrow> rw_spinlock res" where
  "rw_spinlock_write_lock tid l =
     (let old = rw_counter l
      in if old = 0 then Inr (l\<lparr>rw_counter := old OR WRITER_BIT, rw_writer := tid\<rparr>) else Inl Deadlock)"

definition rw_spinlock_write_unlock :: "rw_spinlock \<Rightarrow> rw_spinlock" where
  "rw_spinlock_write_unlock l = l\<lparr>rw_writer := 0, rw_counter := rw_counter l AND NOT WRITER_BIT\<rparr>"

section \<open>The top bit\<close>

lemma WRITER_BIT_num: "WRITER_BIT = 0x80000000"
  by (simp add: WRITER_BIT_def push_bit_eq_mult)

lemma bit_WRITER_BIT: "bit WRITER_BIT n \<longleftrightarrow> n = 31"
  unfolding WRITER_BIT_def by (simp only: bit_push_bit_iff) (auto simp: bit_1_iff)

lemma not_WRITER_BIT: "NOT WRITER_BIT = mask 31"
  by (simp add: WRITER_BIT_num mask_eq_exp_minus_1)

lemma and_not_WRITER_BIT: "uint (c AND NOT WRITER_BIT) = uint c mod 2 ^ 31"
proof -
  have "c AND NOT WRITER_BIT = take_bit 31 c"
    by (simp only: not_WRITER_BIT take_bit_eq_mask)
  then show ?thesis by (simp only: unsigned_take_bit_eq take_bit_eq_mod [of _ "uint c"])
qed

lemma bit_31_iff: "bit (c :: u32) 31 \<longleftrightarrow> 2 ^ 31 \<le> uint c"
proof -
  have "bit c 31 \<longleftrightarrow> odd (uint c div 2 ^ 31)"
    by (simp only: bit_iff_odd [symmetric] bit_uint_iff) simp
  moreover have "uint c < 2 ^ 32" using uint_lt2p [of c] by simp
  then have "uint c div 2 ^ 31 = (if uint c < 2 ^ 31 then 0 else 1)"
    using uint_ge_0 [of c] by (simp add: div_pos_geq)
  ultimately show ?thesis by simp
qed

lemma and_WRITER_BIT: "c AND WRITER_BIT = 0 \<longleftrightarrow> uint c < 2 ^ 31"
proof -
  have "c AND WRITER_BIT = 0 \<longleftrightarrow> (\<forall>n < 32. \<not> (bit c n \<and> n = 31))"
    by (simp add: bit_eq_iff bit_and_iff bit_WRITER_BIT)
  also have "\<dots> \<longleftrightarrow> \<not> bit c 31" by (auto dest: spec [of _ 31])
  finally show ?thesis by (simp add: bit_31_iff not_le)
qed

lemma or_WRITER_BIT: "uint (c OR WRITER_BIT) = (if uint c < 2 ^ 31 then uint c + 2 ^ 31 else uint c)"
proof (cases "uint c < 2 ^ 31")
  case True
  then have "\<not> bit c 31" by (simp add: bit_31_iff)
  then have "c OR WRITER_BIT = c + WRITER_BIT"
    by (subst disjunctive_add) (auto simp: bit_WRITER_BIT)
  then show ?thesis using True by (simp add: WRITER_BIT_num uint_word_ariths)
next
  case False
  then have "bit c 31" by (simp add: bit_31_iff)
  then have "c OR WRITER_BIT = c"
    by (intro bit_eqI) (auto simp: bit_or_iff bit_WRITER_BIT)
  then show ?thesis using False by simp
qed

lemmas writer_bit_simps = and_WRITER_BIT or_WRITER_BIT and_not_WRITER_BIT

section \<open>Many threads\<close>

text \<open>
  A thread is outside, about to count itself as a reader, a counted reader that has met a writer
  and must undo the count, a reader inside, about to set the top bit, a writer that has met readers
  and must clear the bit, or a writer inside.  The flag tells the locking operations, which
  try again, from the trying ones, which give up.
\<close>

datatype rw_phase =
  Outside | ReadTry bool | ReadUndo bool | Reading | WriteTry bool | WriteClear bool | Writing

text \<open>One atomic step on the counter.\<close>

fun rw_step :: "u32 \<Rightarrow> rw_phase \<Rightarrow> u32 \<times> rw_phase" where
  "rw_step c Outside = (c, Outside)"
| "rw_step c (ReadTry again) =
     (let val = c + 1 in (val, if val AND WRITER_BIT = 0 then Reading else ReadUndo again))"
| "rw_step c (ReadUndo again) = (c - 1, if again then ReadTry True else Outside)"
| "rw_step c Reading = (c - 1, Outside)"
| "rw_step c (WriteTry again) =
     (let old = c in
      (c OR WRITER_BIT,
       if old = 0 then Writing
       else if old AND WRITER_BIT \<noteq> 0 then (if again then WriteTry True else Outside)
       else WriteClear again))"
| "rw_step c (WriteClear again) = (c AND NOT WRITER_BIT, if again then WriteTry True else Outside)"
| "rw_step c Writing = (c AND NOT WRITER_BIT, Outside)"

inductive rw_steps :: "u32 \<times> rw_phase list \<Rightarrow> u32 \<times> rw_phase list \<Rightarrow> bool" where
  read_begin: "rw_steps (c, as @ Outside # bs) (c, as @ ReadTry again # bs)"
| write_begin: "rw_steps (c, as @ Outside # bs) (c, as @ WriteTry again # bs)"
| atomic: "rw_step c t = (c', t') \<Longrightarrow> rw_steps (c, as @ t # bs) (c', as @ t' # bs)"

definition rw_reachable :: "nat \<Rightarrow> u32 \<times> rw_phase list \<Rightarrow> bool" where
  "rw_reachable n s \<longleftrightarrow> rw_steps\<^sup>*\<^sup>* (0, replicate n Outside) s"

text \<open>Threads that are counted, and threads that own the top bit.\<close>

fun counted :: "rw_phase \<Rightarrow> nat" where
  "counted Reading = 1"
| "counted (ReadUndo again) = 1"
| "counted t = 0"

fun owns_bit :: "rw_phase \<Rightarrow> nat" where
  "owns_bit Writing = 1"
| "owns_bit (WriteClear again) = 1"
| "owns_bit t = 0"

abbreviation tally :: "(rw_phase \<Rightarrow> nat) \<Rightarrow> rw_phase list \<Rightarrow> nat" where
  "tally f ts \<equiv> sum_list (map f ts)"

definition rw_ok :: "u32 \<Rightarrow> nat \<Rightarrow> nat \<Rightarrow> nat \<Rightarrow> nat \<Rightarrow> bool" where
  "rw_ok c cnt own reading writing \<longleftrightarrow>
     own \<le> 1 \<and> uint c = int cnt + 2 ^ 31 * int own \<and> writing \<le> own \<and> (writing = 0 \<or> reading = 0)"

lemma counted_le: "counted t \<le> 1"
  by (cases t) auto

lemma tally_counted_le: "tally counted ts \<le> length ts"
proof (induction ts)
  case (Cons t ts)
  then show ?case using counted_le [of t] by simp
qed simp

abbreviation is_reading :: "rw_phase \<Rightarrow> nat" where
  "is_reading t \<equiv> of_bool (t = Reading)"

abbreviation is_writing :: "rw_phase \<Rightarrow> nat" where
  "is_writing t \<equiv> of_bool (t = Writing)"

text \<open>A step of one thread, given the totals \<open>C\<close>, \<open>B\<close>, \<open>R\<close> and \<open>W\<close> of the others.\<close>

lemma uint_plus_1: "uint (c :: u32) < 2 ^ 32 - 1 \<Longrightarrow> uint (c + 1) = uint c + 1"
  by (simp add: uint_word_ariths)

lemma uint_minus_1: "0 < uint (c :: u32) \<Longrightarrow> uint (c - 1) = uint c - 1"
  using uint_lt2p [of c] by (simp add: uint_word_ariths)

lemma rw_step_ok:
  assumes "rw_ok c (C + counted t) (B + owns_bit t) (R + is_reading t) (W + is_writing t)"
    and "rw_step c t = (c', t')" and "C + 1 < 2 ^ 31" and "R \<le> C" and "W \<le> B"
  shows "rw_ok c' (C + counted t') (B + owns_bit t') (R + is_reading t') (W + is_writing t')"
proof (cases t)
  case (ReadTry again)
  have u: "uint (c + 1) = uint c + 1"
    using assms(1,3) ReadTry by (intro uint_plus_1) (auto simp: rw_ok_def)
  show ?thesis
    using assms ReadTry by (auto simp: rw_ok_def Let_def u and_WRITER_BIT split: if_splits)
next
  case (ReadUndo again)
  have u: "uint (c - 1) = uint c - 1"
    using assms(1) ReadUndo by (intro uint_minus_1) (auto simp: rw_ok_def)
  show ?thesis using assms ReadUndo by (auto simp: rw_ok_def u split: if_splits)
next
  case Reading
  have u: "uint (c - 1) = uint c - 1"
    using assms(1) Reading by (intro uint_minus_1) (auto simp: rw_ok_def)
  show ?thesis using assms Reading by (auto simp: rw_ok_def u)
next
  case (WriteTry again)
  show ?thesis
  proof (cases "c = 0")
    case True
    then show ?thesis
      using assms WriteTry by (auto simp: rw_ok_def Let_def WRITER_BIT_num)
  next
    case False
    then show ?thesis
      using assms WriteTry by (auto simp: rw_ok_def Let_def or_WRITER_BIT and_WRITER_BIT split: if_splits)
  qed
next
  case (WriteClear again)
  have "uint (c AND NOT WRITER_BIT) = int C"
    using assms(1,3) WriteClear by (auto simp: rw_ok_def and_not_WRITER_BIT)
  then show ?thesis using assms WriteClear by (auto simp: rw_ok_def split: if_splits)
next
  case Writing
  have "uint (c AND NOT WRITER_BIT) = int C"
    using assms(1,3) Writing by (auto simp: rw_ok_def and_not_WRITER_BIT)
  then show ?thesis using assms Writing by (auto simp: rw_ok_def)
qed (use assms in auto)

definition rw_inv :: "nat \<Rightarrow> u32 \<times> rw_phase list \<Rightarrow> bool" where
  "rw_inv n s \<longleftrightarrow>
     length (snd s) = n \<and>
     rw_ok (fst s) (tally counted (snd s)) (tally owns_bit (snd s))
       (tally is_reading (snd s)) (tally is_writing (snd s))"

lemma tally_reading_le: "tally is_reading ts \<le> tally counted ts"
  by (induction ts) (auto split: if_splits)

lemma tally_writing_le: "tally is_writing ts \<le> tally owns_bit ts"
  by (induction ts) (auto split: if_splits)

lemma rw_steps_inv:
  assumes "rw_steps s s'" and "rw_inv n s" and "n < 2 ^ 31"
  shows "rw_inv n s'"
  using assms(1)
proof cases
  case (atomic c t c' t' as bs)
  have "rw_ok c' (tally counted (as @ bs) + counted t') (tally owns_bit (as @ bs) + owns_bit t')
      (tally is_reading (as @ bs) + is_reading t') (tally is_writing (as @ bs) + is_writing t')"
  proof (rule rw_step_ok [OF _ atomic(3)])
    show "rw_ok c (tally counted (as @ bs) + counted t) (tally owns_bit (as @ bs) + owns_bit t)
      (tally is_reading (as @ bs) + is_reading t) (tally is_writing (as @ bs) + is_writing t)"
      using assms(2) atomic(1) by (simp add: rw_inv_def algebra_simps)
    show "tally counted (as @ bs) + 1 < 2 ^ 31"
      using tally_counted_le [of "as @ bs"] assms(2,3) atomic(1) by (simp add: rw_inv_def)
    show "tally is_reading (as @ bs) \<le> tally counted (as @ bs)" by (rule tally_reading_le)
    show "tally is_writing (as @ bs) \<le> tally owns_bit (as @ bs)" by (rule tally_writing_le)
  qed
  then show ?thesis using assms(2) atomic(1,2) by (simp add: rw_inv_def algebra_simps)
qed (use assms(2) in \<open>auto simp: rw_inv_def\<close>)

lemma rw_reachable_inv:
  assumes "rw_reachable n s" and "n < 2 ^ 31"
  shows "rw_inv n s"
  using assms(1) unfolding rw_reachable_def
proof (induction rule: rtranclp_induct)
  case base
  show ?case by (simp add: rw_inv_def rw_ok_def sum_list_replicate)
next
  case (step s s')
  then show ?case using rw_steps_inv assms(2) by blast
qed

lemma tally_of_bool: "tally (\<lambda>t. of_bool (t = a)) ts = count_list ts a"
  by (induction ts) auto

text \<open>C35 (reader/writer lock)  However the atomic steps of fewer than 2 ^ 31 threads interleave, at most
  one writer is inside, and no reader is inside together with a writer; when nobody is inside and
  no attempt is under way, the counter is zero.\<close>

theorem rw_spinlock_exclusion:
  assumes "rw_reachable n (c, ts)" and "n < 2 ^ 31"
  shows "count_list ts Writing \<le> 1 \<and> (Writing \<in> set ts \<longrightarrow> Reading \<notin> set ts) \<and>
    (set ts \<subseteq> {Outside} \<longrightarrow> c = 0)"
proof -
  have inv: "rw_ok c (tally counted ts) (tally owns_bit ts) (count_list ts Reading) (count_list ts Writing)"
    using rw_reachable_inv [OF assms] by (simp add: rw_inv_def tally_of_bool)
  have "tally counted ts = 0 \<and> tally owns_bit ts = 0" if "set ts \<subseteq> {Outside}"
    using that by (induction ts) auto
  then have "set ts \<subseteq> {Outside} \<Longrightarrow> uint c = 0"
    using inv by (simp add: rw_ok_def del: sum_list_eq_0_iff)
  then have "set ts \<subseteq> {Outside} \<longrightarrow> c = 0" using word_uint_eqI [of c 0] by simp
  moreover have "count_list ts Writing \<le> 1" using inv by (auto simp: rw_ok_def)
  moreover have "Writing \<in> set ts \<longrightarrow> Reading \<notin> set ts"
    using inv by (auto simp: rw_ok_def count_list_0_iff)
  ultimately show ?thesis by blast
qed

theorem rw_spinlock_exclusion_witness:
  "rw_reachable 2 (WRITER_BIT, [Writing, Outside]) \<and> Reading \<notin> set [Writing, Outside]"
proof -
  have 1: "rw_steps\<^sup>*\<^sup>* (0, replicate 2 Outside) (0, [] @ WriteTry True # [Outside])"
    using read_begin write_begin [of 0 "[]" "[Outside]" True] by (simp add: eval_nat_numeral r_into_rtranclp)
  have "rw_steps (0, [] @ WriteTry True # [Outside]) (WRITER_BIT, [] @ Writing # [Outside])"
    by (rule atomic) simp
  with 1 have r: "rw_reachable 2 (WRITER_BIT, [Writing, Outside])"
    unfolding rw_reachable_def by (metis append_Nil rtranclp.rtrancl_into_rtrancl)
  show ?thesis using rw_spinlock_exclusion [OF r] r by simp
qed

end
