(* ===== verification/Avl_Tree.thy ===== *)
theory Avl_Tree
  imports Rw_Spinlock
begin

text \<open>
  The balanced trees of \<^verbatim>\<open>libnetdata/avl\<close>, at the level of pointers.  An element is a number, its
  address; the code treats the address of \<^verbatim>\<open>tree->root\<close> as that of an element whose left link is the
  root, and whose other members must not be touched.  \<^verbatim>\<open>compar\<close> is an argument: it looks at the
  objects that the elements are embedded in.  The arrays for the way down are stacks with the size
  \<open>AVL_MAX_HEIGHT\<close>.  A loop along links gets a number of rounds.

  The code has every rotation twice, once for each direction.  Here they are one definition with the
  direction as an argument: \<open>False\<close> is the left link and \<open>True\<close> the right one.
\<close>

section \<open>Elements and links\<close>

record avl_element =
  avl_link0 :: "nat option"
  avl_link1 :: "nat option"
  avl_balance :: int

record avl_tree_type =
  avl_root :: "nat option"
  avl_elements :: "nat \<Rightarrow> avl_element option"

type_synonym compar = "nat \<Rightarrow> nat \<Rightarrow> int"

definition AVL_MAX_HEIGHT :: nat where
  "AVL_MAX_HEIGHT = 92"

text \<open>A pointer to an element, or to the root of the tree seen as one.\<close>

datatype avl_place = Root_Cell | Element nat

definition element_at :: "nat \<Rightarrow> avl_tree_type \<Rightarrow> avl_element res" where
  "element_at a t = (case avl_elements t a of None \<Rightarrow> Inl UseAfterFree | Some e \<Rightarrow> Inr e)"

definition deref :: "nat option \<Rightarrow> nat res" where
  "deref p = (case p of None \<Rightarrow> Inl NullDeref | Some a \<Rightarrow> Inr a)"

fun avl_link :: "bool \<Rightarrow> avl_element \<Rightarrow> nat option" where
  "avl_link False e = avl_link0 e"
| "avl_link True e = avl_link1 e"

fun link_to :: "bool \<Rightarrow> nat option \<Rightarrow> avl_element \<Rightarrow> avl_element" where
  "link_to False v e = e\<lparr>avl_link0 := v\<rparr>"
| "link_to True v e = e\<lparr>avl_link1 := v\<rparr>"

fun get_link :: "avl_place \<Rightarrow> bool \<Rightarrow> avl_tree_type \<Rightarrow> nat option res" where
  "get_link Root_Cell dir t = (if dir then Inl Opaque else Inr (avl_root t))"
| "get_link (Element a) dir t = rbind (element_at a t) (\<lambda>e. Inr (avl_link dir e))"

definition put_element :: "nat \<Rightarrow> avl_element \<Rightarrow> avl_tree_type \<Rightarrow> avl_tree_type" where
  "put_element a e t = t\<lparr>avl_elements := (avl_elements t)(a := Some e)\<rparr>"

fun set_link :: "avl_place \<Rightarrow> bool \<Rightarrow> nat option \<Rightarrow> avl_tree_type \<Rightarrow> avl_tree_type res" where
  "set_link Root_Cell dir v t = (if dir then Inl Opaque else Inr (t\<lparr>avl_root := v\<rparr>))"
| "set_link (Element a) dir v t = rbind (element_at a t) (\<lambda>e. Inr (put_element a (link_to dir v e) t))"

definition get_balance :: "nat \<Rightarrow> avl_tree_type \<Rightarrow> int res" where
  "get_balance a t = rbind (element_at a t) (\<lambda>e. Inr (avl_balance e))"

definition set_balance :: "nat \<Rightarrow> int \<Rightarrow> avl_tree_type \<Rightarrow> avl_tree_type res" where
  "set_balance a b t = rbind (element_at a t) (\<lambda>e. Inr (put_element a (e\<lparr>avl_balance := b\<rparr>) t))"

definition avl_init :: "avl_tree_type \<Rightarrow> avl_tree_type" where
  "avl_init t = t\<lparr>avl_root := None\<rparr>"

section \<open>Searching\<close>

fun search_loop :: "nat \<Rightarrow> compar \<Rightarrow> nat \<Rightarrow> nat option \<Rightarrow> avl_tree_type \<Rightarrow> nat option res" where
  "search_loop fuel compar item None t = Inr None"
| "search_loop 0 compar item (Some p) t = Inl Unfinished"
| "search_loop (Suc fuel) compar item (Some p) t =
     (let cmp = compar item p
      in if cmp < 0 then rbind (get_link (Element p) False t) (\<lambda>p. search_loop fuel compar item p t)
         else if 0 < cmp then rbind (get_link (Element p) True t) (\<lambda>p. search_loop fuel compar item p t)
         else Inr (Some p))"

definition avl_search :: "nat \<Rightarrow> compar \<Rightarrow> nat \<Rightarrow> avl_tree_type \<Rightarrow> nat option res" where
  "avl_search fuel compar item t = search_loop fuel compar item (avl_root t) t"

section \<open>Rotations\<close>

text \<open>The balance of an element that is higher on one side.\<close>

definition side :: "bool \<Rightarrow> int" where
  "side dir = (if dir then 1 else - 1)"

text \<open>\<open>x\<close> is the child of \<open>y\<close> in the direction \<open>dir\<close>, and takes its place.\<close>

definition single_rotation :: "bool \<Rightarrow> nat \<Rightarrow> nat \<Rightarrow> avl_tree_type \<Rightarrow> avl_tree_type res" where
  "single_rotation dir y x t =
     rbind (get_link (Element x) (\<not> dir) t) (\<lambda>l.
     rbind (set_link (Element y) dir l t) (\<lambda>t.
       set_link (Element x) (\<not> dir) (Some y) t))"

text \<open>The inner child of \<open>x\<close> takes the place of \<open>y\<close>; it is returned.\<close>

definition double_rotation :: "bool \<Rightarrow> nat \<Rightarrow> nat \<Rightarrow> avl_tree_type \<Rightarrow> (nat \<times> avl_tree_type) res" where
  "double_rotation dir y x t =
     rbind (get_link (Element x) (\<not> dir) t) (\<lambda>w.
     rbind (deref w) (\<lambda>w.
     rbind (get_link (Element w) dir t) (\<lambda>l.
     rbind (set_link (Element x) (\<not> dir) l t) (\<lambda>t.
     rbind (set_link (Element w) dir (Some x) t) (\<lambda>t.
     rbind (get_link (Element w) (\<not> dir) t) (\<lambda>l.
     rbind (set_link (Element y) dir l t) (\<lambda>t.
     rbind (set_link (Element w) (\<not> dir) (Some y) t) (\<lambda>t.
     rbind (get_balance w t) (\<lambda>b.
     let (bx, by) = (if b = side dir then (0, - side dir) else if b = 0 then (0, 0) else (side dir, 0)) in
     rbind (set_balance x bx t) (\<lambda>t.
     rbind (set_balance y by t) (\<lambda>t.
     rbind (set_balance w 0 t) (\<lambda>t.
       Inr (w, t)))))))))))))"

section \<open>Inserting\<close>

text \<open>
  The way down: \<open>q\<close> is the parent of \<open>p\<close>, and \<open>y\<close> the last element met whose balance is not zero, or
  the root, with its parent \<open>z\<close>; \<open>da\<close> has the directions from \<open>y\<close> on.  Returns the element that is equal
  to the new one, or where the new one goes.
\<close>

fun insert_descend ::
  "nat \<Rightarrow> compar \<Rightarrow> nat \<Rightarrow> avl_tree_type \<Rightarrow> avl_place \<Rightarrow> nat option \<Rightarrow> avl_place \<Rightarrow> nat option \<Rightarrow> bool \<Rightarrow> bool list \<Rightarrow>
   (nat + avl_place \<times> nat option \<times> avl_place \<times> bool \<times> bool list) res" where
  "insert_descend fuel compar item t z y q None dir da = Inr (Inr (z, y, q, dir, da))"
| "insert_descend 0 compar item t z y q (Some p) dir da = Inl Unfinished"
| "insert_descend (Suc fuel) compar item t z y q (Some p) dir da =
     (let cmp = compar item p
      in if cmp = 0 then Inr (Inl p)
         else
           rbind (get_balance p t) (\<lambda>b.
             let (z, y, da) = (if b \<noteq> 0 then (q, Some p, []) else (z, y, da)); dir = (0 < cmp)
             in if length da < AVL_MAX_HEIGHT then
                  rbind (get_link (Element p) dir t) (\<lambda>p'.
                    insert_descend fuel compar item t z y (Element p) p' dir (da @ [dir]))
                else Inl OutOfBounds))"

fun update_balances :: "nat \<Rightarrow> bool list \<Rightarrow> nat \<Rightarrow> avl_tree_type \<Rightarrow> avl_tree_type res" where
  "update_balances n [] p t = (if p = n then Inr t else Inl OutOfBounds)"
| "update_balances n (d # da) p t =
     (if p = n then Inr t
      else
        rbind (get_balance p t) (\<lambda>b.
        rbind (set_balance p (b + side d) t) (\<lambda>t.
        rbind (get_link (Element p) d t) (\<lambda>p.
        rbind (deref p) (\<lambda>p.
          update_balances n da p t)))))"

text \<open>The new root of the subtree of \<open>y\<close>, which is too high on the side \<open>dir\<close>.\<close>

definition insert_rotate :: "bool \<Rightarrow> nat \<Rightarrow> avl_tree_type \<Rightarrow> (nat \<times> avl_tree_type) res" where
  "insert_rotate dir y t =
     rbind (get_link (Element y) dir t) (\<lambda>x.
     rbind (deref x) (\<lambda>x.
     rbind (get_balance x t) (\<lambda>b.
       if b = side dir then
         rbind (single_rotation dir y x t) (\<lambda>t.
         rbind (set_balance y 0 t) (\<lambda>t.
         rbind (set_balance x 0 t) (\<lambda>t.
           Inr (x, t))))
       else double_rotation dir y x t)))"

definition replace_child :: "avl_place \<Rightarrow> nat \<Rightarrow> nat \<Rightarrow> avl_tree_type \<Rightarrow> avl_tree_type res" where
  "replace_child z y w t = rbind (get_link z False t) (\<lambda>l. set_link z (Some y \<noteq> l) (Some w) t)"

definition insert_rebalance :: "avl_place \<Rightarrow> nat \<Rightarrow> avl_tree_type \<Rightarrow> avl_tree_type res" where
  "insert_rebalance z y t =
     rbind (get_balance y t) (\<lambda>b.
       if b = - 2 then rbind (insert_rotate False y t) (\<lambda>(w, t). replace_child z y w t)
       else if b = 2 then rbind (insert_rotate True y t) (\<lambda>(w, t). replace_child z y w t)
       else Inr t)"

definition link_new :: "avl_place \<Rightarrow> bool \<Rightarrow> nat \<Rightarrow> avl_tree_type \<Rightarrow> avl_tree_type res" where
  "link_new q dir item t =
     rbind (set_link q dir (Some item) t) (\<lambda>t.
     rbind (set_link (Element item) True None t) (\<lambda>t.
     rbind (set_link (Element item) False None t) (\<lambda>t.
       set_balance item 0 t)))"

definition avl_insert :: "nat \<Rightarrow> compar \<Rightarrow> nat \<Rightarrow> avl_tree_type \<Rightarrow> (nat \<times> avl_tree_type) res" where
  "avl_insert fuel compar item t =
     rbind (insert_descend fuel compar item t Root_Cell (avl_root t) Root_Cell (avl_root t) False []) (\<lambda>r.
       case r of
         Inl p \<Rightarrow> Inr (p, t)
       | Inr (z, y, q, dir, da) \<Rightarrow>
           rbind (link_new q dir item t) (\<lambda>t.
             case y of
               None \<Rightarrow> Inr (item, t)
             | Some y \<Rightarrow>
                 rbind (update_balances item da y t) (\<lambda>t.
                 rbind (insert_rebalance z y t) (\<lambda>t.
                   Inr (item, t)))))"

section \<open>Removing\<close>

type_synonym avl_stack = "(avl_place \<times> bool) list"

definition push :: "avl_place \<Rightarrow> bool \<Rightarrow> avl_stack \<Rightarrow> avl_stack res" where
  "push p dir pa = (if length pa < AVL_MAX_HEIGHT then Inr ((p, dir) # pa) else Inl OutOfBounds)"

text \<open>Writes the link that the top of the stack stands for.\<close>

definition set_top :: "avl_stack \<Rightarrow> nat option \<Rightarrow> avl_tree_type \<Rightarrow> avl_tree_type res" where
  "set_top pa v t = (case pa of [] \<Rightarrow> Inl OutOfBounds | (q, dir) # _ \<Rightarrow> set_link q dir v t)"

fun remove_descend :: "nat \<Rightarrow> compar \<Rightarrow> nat \<Rightarrow> avl_tree_type \<Rightarrow> avl_place \<Rightarrow> int \<Rightarrow> avl_stack \<Rightarrow> (avl_stack \<times> nat) option res" where
  "remove_descend 0 compar item t p cmp pa = Inl Unfinished"
| "remove_descend (Suc fuel) compar item t p cmp pa =
     (let dir = (0 < cmp)
      in rbind (push p dir pa) (\<lambda>pa.
         rbind (get_link p dir t) (\<lambda>p.
           case p of
             None \<Rightarrow> Inr None
           | Some a \<Rightarrow>
               if compar item a = 0 then Inr (Some (pa, a))
               else remove_descend fuel compar item t (Element a) (compar item a) pa)))"

text \<open>The way to the leftmost element \<open>s\<close> below \<open>r\<close>, whose parent is returned before it.\<close>

fun leftmost :: "nat \<Rightarrow> nat \<Rightarrow> avl_tree_type \<Rightarrow> avl_stack \<Rightarrow> (nat \<times> nat \<times> avl_stack) res" where
  "leftmost 0 r t pa = Inl Unfinished"
| "leftmost (Suc fuel) r t pa =
     rbind (push (Element r) False pa) (\<lambda>pa.
     rbind (get_link (Element r) False t) (\<lambda>s.
     rbind (deref s) (\<lambda>s.
     rbind (get_link (Element s) False t) (\<lambda>l.
       if l = None then Inr (r, s, pa) else leftmost fuel s t pa))))"

text \<open>
  Takes \<open>p\<close> out of the tree.  The place on the stack that is kept for the element that replaces it
  holds the direction in which the way goes on.
\<close>

definition remove_unlink :: "nat \<Rightarrow> avl_stack \<Rightarrow> nat \<Rightarrow> avl_tree_type \<Rightarrow> (avl_stack \<times> avl_tree_type) res" where
  "remove_unlink fuel pa p t =
     rbind (get_link (Element p) True t) (\<lambda>r.
       case r of
         None \<Rightarrow>
           rbind (get_link (Element p) False t) (\<lambda>l.
           rbind (set_top pa l t) (\<lambda>t.
             Inr (pa, t)))
       | Some r \<Rightarrow>
           rbind (get_link (Element r) False t) (\<lambda>rl.
             if rl = None then
               rbind (get_link (Element p) False t) (\<lambda>l.
               rbind (set_link (Element r) False l t) (\<lambda>t.
               rbind (get_balance p t) (\<lambda>b.
               rbind (set_balance r b t) (\<lambda>t.
               rbind (set_top pa (Some r) t) (\<lambda>t.
               rbind (push (Element r) True pa) (\<lambda>pa.
                 Inr (pa, t)))))))
             else
               rbind (leftmost fuel r t ((Element p, True) # pa)) (\<lambda>(r, s, pa').
               rbind (get_link (Element p) False t) (\<lambda>l.
               rbind (set_link (Element s) False l t) (\<lambda>t.
               rbind (get_link (Element s) True t) (\<lambda>l.
               rbind (set_link (Element r) False l t) (\<lambda>t.
               rbind (get_link (Element p) True t) (\<lambda>l.
               rbind (set_link (Element s) True l t) (\<lambda>t.
               rbind (get_balance p t) (\<lambda>b.
               rbind (set_balance s b t) (\<lambda>t.
               rbind (set_top pa (Some s) t) (\<lambda>t.
                 Inr (pa'[length pa' - 1 - length pa := (Element s, True)], t)))))))))))))"

definition element_of :: "avl_place \<Rightarrow> nat res" where
  "element_of p = (case p of Root_Cell \<Rightarrow> Inl Opaque | Element a \<Rightarrow> Inr a)"

text \<open>
  Rotates the subtree of \<open>y\<close>, which is too high on the side that the way does not come from; returns
  whether the subtree has become lower.
\<close>

definition remove_rotate :: "bool \<Rightarrow> nat \<Rightarrow> avl_stack \<Rightarrow> avl_tree_type \<Rightarrow> (bool \<times> avl_tree_type) res" where
  "remove_rotate d y pa t =
     rbind (get_link (Element y) (\<not> d) t) (\<lambda>x.
     rbind (deref x) (\<lambda>x.
     rbind (get_balance x t) (\<lambda>bx.
       if bx = side d then
         rbind (double_rotation (\<not> d) y x t) (\<lambda>(w, t).
         rbind (set_top pa (Some w) t) (\<lambda>t.
           Inr (True, t)))
       else
         rbind (single_rotation (\<not> d) y x t) (\<lambda>t.
         rbind (set_top pa (Some x) t) (\<lambda>t.
           if bx = 0 then
             rbind (set_balance x (side d) t) (\<lambda>t.
             rbind (set_balance y (- side d) t) (\<lambda>t.
               Inr (False, t)))
           else
             rbind (set_balance y 0 t) (\<lambda>t.
             rbind (set_balance x 0 t) (\<lambda>t.
               Inr (True, t))))))))"

text \<open>Goes up from the place where the tree became lower; the last entry of the stack is the root of the tree.\<close>

fun remove_rebalance :: "avl_stack \<Rightarrow> avl_tree_type \<Rightarrow> avl_tree_type res" where
  "remove_rebalance [] t = Inr t"
| "remove_rebalance [_] t = Inr t"
| "remove_rebalance ((y, d) # q # pa) t =
     rbind (element_of y) (\<lambda>y.
     rbind (get_balance y t) (\<lambda>b.
     let b = b - side d in
     rbind (set_balance y b t) (\<lambda>t.
       if b = - side d then Inr t
       else if b = - 2 * side d then
         rbind (remove_rotate d y (q # pa) t) (\<lambda>(lower, t). if lower then remove_rebalance (q # pa) t else Inr t)
       else remove_rebalance (q # pa) t)))"

definition avl_remove :: "nat \<Rightarrow> compar \<Rightarrow> nat \<Rightarrow> avl_tree_type \<Rightarrow> (nat option \<times> avl_tree_type) res" where
  "avl_remove fuel compar item t =
     rbind (remove_descend fuel compar item t Root_Cell (- 1) []) (\<lambda>r.
       case r of
         None \<Rightarrow> Inr (None, t)
       | Some (pa, p) \<Rightarrow>
           rbind (remove_unlink fuel pa p t) (\<lambda>(pa, t).
           rbind (remove_rebalance pa t) (\<lambda>t.
             Inr (Some p, t))))"

section \<open>Traversing\<close>

definition int_add :: "int \<Rightarrow> int \<Rightarrow> int res" where
  "int_add a b = (if - (2 ^ 31) \<le> a + b \<and> a + b < 2 ^ 31 then Inr (a + b) else Inl Overflow)"

text \<open>The callback gets the address of the element and the data, and leaves the tree alone.\<close>

fun avl_walker :: "nat \<Rightarrow> (nat \<Rightarrow> 's \<Rightarrow> (int \<times> 's) res) \<Rightarrow> nat \<Rightarrow> avl_tree_type \<Rightarrow> 's \<Rightarrow> (int \<times> 's) res" where
  "avl_walker 0 callback node t s = Inl Unfinished"
| "avl_walker (Suc fuel) callback node t s =
     rbind (get_link (Element node) False t) (\<lambda>l.
     rbind (case l of None \<Rightarrow> Inr (0, s) | Some l \<Rightarrow> avl_walker fuel callback l t s) (\<lambda>(ret, s).
       if ret < 0 then Inr (ret, s)
       else
         rbind (int_add 0 ret) (\<lambda>total.
         rbind (callback node s) (\<lambda>(ret, s).
           if ret < 0 then Inr (ret, s)
           else
             rbind (int_add total ret) (\<lambda>total.
             rbind (get_link (Element node) True t) (\<lambda>r.
               case r of
                 None \<Rightarrow> Inr (total, s)
               | Some r \<Rightarrow>
                   rbind (avl_walker fuel callback r t s) (\<lambda>(ret, s).
                     if ret < 0 then Inr (ret, s) else rbind (int_add total ret) (\<lambda>total. Inr (total, s)))))))))"

definition avl_traverse :: "nat \<Rightarrow> (nat \<Rightarrow> 's \<Rightarrow> (int \<times> 's) res) \<Rightarrow> avl_tree_type \<Rightarrow> 's \<Rightarrow> (int \<times> 's) res" where
  "avl_traverse fuel callback t s = (case avl_root t of None \<Rightarrow> Inr (0, s) | Some node \<Rightarrow> avl_walker fuel callback node t s)"

section \<open>Trees with a lock\<close>

text \<open>With the spinlock, which is what the code uses unless it is told otherwise.\<close>

record avl_tree_lock =
  lk_tree :: avl_tree_type
  lk_rwlock :: rw_spinlock

definition avl_init_lock :: "avl_tree_lock \<Rightarrow> avl_tree_lock" where
  "avl_init_lock t = t\<lparr>lk_tree := avl_init (lk_tree t), lk_rwlock := rw_spinlock_init\<rparr>"

definition avl_read_lock :: "avl_tree_lock \<Rightarrow> avl_tree_lock res" where
  "avl_read_lock t = rbind (rw_spinlock_read_lock (lk_rwlock t)) (\<lambda>l. Inr (t\<lparr>lk_rwlock := l\<rparr>))"

definition avl_write_lock :: "nat \<Rightarrow> avl_tree_lock \<Rightarrow> avl_tree_lock res" where
  "avl_write_lock tid t = rbind (rw_spinlock_write_lock tid (lk_rwlock t)) (\<lambda>l. Inr (t\<lparr>lk_rwlock := l\<rparr>))"

definition avl_read_unlock :: "avl_tree_lock \<Rightarrow> avl_tree_lock" where
  "avl_read_unlock t = t\<lparr>lk_rwlock := rw_spinlock_read_unlock (lk_rwlock t)\<rparr>"

definition avl_write_unlock :: "avl_tree_lock \<Rightarrow> avl_tree_lock" where
  "avl_write_unlock t = t\<lparr>lk_rwlock := rw_spinlock_write_unlock (lk_rwlock t)\<rparr>"

definition avl_search_lock :: "nat \<Rightarrow> compar \<Rightarrow> nat \<Rightarrow> avl_tree_lock \<Rightarrow> (nat option \<times> avl_tree_lock) res" where
  "avl_search_lock fuel compar item t =
     rbind (avl_read_lock t) (\<lambda>t.
     rbind (avl_search fuel compar item (lk_tree t)) (\<lambda>ret.
       Inr (ret, avl_read_unlock t)))"

definition avl_remove_lock :: "nat \<Rightarrow> nat \<Rightarrow> compar \<Rightarrow> nat \<Rightarrow> avl_tree_lock \<Rightarrow> (nat option \<times> avl_tree_lock) res" where
  "avl_remove_lock tid fuel compar item t =
     rbind (avl_write_lock tid t) (\<lambda>t.
     rbind (avl_remove fuel compar item (lk_tree t)) (\<lambda>(ret, tree).
       Inr (ret, avl_write_unlock (t\<lparr>lk_tree := tree\<rparr>))))"

definition avl_insert_lock :: "nat \<Rightarrow> nat \<Rightarrow> compar \<Rightarrow> nat \<Rightarrow> avl_tree_lock \<Rightarrow> (nat \<times> avl_tree_lock) res" where
  "avl_insert_lock tid fuel compar item t =
     rbind (avl_write_lock tid t) (\<lambda>t.
     rbind (avl_insert fuel compar item (lk_tree t)) (\<lambda>(ret, tree).
       Inr (ret, avl_write_unlock (t\<lparr>lk_tree := tree\<rparr>))))"

definition avl_traverse_lock :: "nat \<Rightarrow> (nat \<Rightarrow> 's \<Rightarrow> (int \<times> 's) res) \<Rightarrow> avl_tree_lock \<Rightarrow> 's \<Rightarrow> (int \<times> 's \<times> avl_tree_lock) res" where
  "avl_traverse_lock fuel callback t s =
     rbind (avl_read_lock t) (\<lambda>t.
     rbind (avl_traverse fuel callback (lk_tree t) s) (\<lambda>(ret, s).
       Inr (ret, s, avl_read_unlock t)))"

end
