(* ===== verification/Avl_Memory.thy ===== *)
theory Avl_Memory
  imports Avl_Tree "HOL-Library.Tree"
begin

text \<open>
  What a balanced tree looks like in memory.  \<open>tree_at\<close> says that the links and balances in memory are
  those of a tree; a context is a tree with one subtree taken out, and corresponds to the stacks with
  which the code goes down.  The lemmas on rotations give the tree that each of them leaves; those on
  heights bound the stacks.
\<close>

section \<open>Trees in memory\<close>

type_synonym atree = "(nat \<times> int) tree"

abbreviation ids :: "atree \<Rightarrow> nat list" where "ids t \<equiv> map fst (inorder t)"

fun ptr :: "atree \<Rightarrow> nat option" where
  "ptr Leaf = None"
| "ptr (Node l ab r) = Some (fst ab)"

text \<open>A node whose child in a direction comes first.\<close>

definition nd :: "bool \<Rightarrow> atree \<Rightarrow> nat \<Rightarrow> int \<Rightarrow> atree \<Rightarrow> atree" where
  "nd d t a b s = (if d then Node s (a, b) t else Node t (a, b) s)"

fun tree_at :: "avl_tree_type \<Rightarrow> atree \<Rightarrow> bool" where
  "tree_at h Leaf = True"
| "tree_at h (Node l ab r) =
     (avl_elements h (fst ab) = Some \<lparr>avl_link0 = ptr l, avl_link1 = ptr r, avl_balance = snd ab\<rparr> \<and> tree_at h l \<and> tree_at h r)"

fun avl :: "atree \<Rightarrow> bool" where
  "avl Leaf = True"
| "avl (Node l ab r) = (snd ab = int (height r) - int (height l) \<and> \<bar>snd ab\<bar> \<le> 1 \<and> avl l \<and> avl r)"

definition elem :: "bool \<Rightarrow> nat option \<Rightarrow> nat option \<Rightarrow> int \<Rightarrow> avl_element" where
  "elem d p q b = (if d then \<lparr>avl_link0 = q, avl_link1 = p, avl_balance = b\<rparr> else \<lparr>avl_link0 = p, avl_link1 = q, avl_balance = b\<rparr>)"

lemma elem_simps [simp]:
  "avl_link d (elem d p q b) = p" "avl_link (\<not> d) (elem d p q b) = q" "avl_balance (elem d p q b) = b"
  "link_to d v (elem d p q b) = elem d v q b" "link_to (\<not> d) v (elem d p q b) = elem d p v b"
  "elem d p q b\<lparr>avl_balance := c\<rparr> = elem d p q c"
  by (cases d; simp add: elem_def)+

lemma elem_not [simp]: "elem (\<not> d) p q b = elem d q p b"
  by (simp add: elem_def)

lemma nd_simps [simp]:
  "ptr (nd d t a b s) = Some a" "height (nd d t a b s) = Suc (max (height t) (height s))"
  "tree_at h (nd d t a b s) \<longleftrightarrow> avl_elements h a = Some (elem d (ptr t) (ptr s) b) \<and> tree_at h t \<and> tree_at h s"
  "avl (nd d t a b s) \<longleftrightarrow> b = side d * (int (height t) - int (height s)) \<and> \<bar>b\<bar> \<le> 1 \<and> avl t \<and> avl s"
  "fst ` set_tree (nd d t a b s) = insert a (fst ` set_tree t \<union> fst ` set_tree s)"
  "distinct (ids (nd d t a b s)) \<longleftrightarrow>
     a \<notin> fst ` set_tree t \<and> a \<notin> fst ` set_tree s \<and> distinct (ids t) \<and> distinct (ids s) \<and> fst ` set_tree t \<inter> fst ` set_tree s = {}"
  by (auto simp: nd_def elem_def side_def)

lemma nd_not: "nd (\<not> d) t a b s = nd d s a b t"
  by (simp add: nd_def)

lemma nd_cases:
  assumes "t \<noteq> Leaf"
  obtains l a b r where "t = nd d l a b r"
  using assms by (cases t; cases d) (auto simp: nd_def)

section \<open>Changes\<close>

lemma element_at_put [simp]:
  "element_at a (put_element a e h) = Inr e" "a \<noteq> b \<Longrightarrow> element_at a (put_element b e h) = element_at a h"
  by (simp_all add: element_at_def put_element_def)

lemma element_at_Some [simp]: "avl_elements h a = Some e \<Longrightarrow> element_at a h = Inr e"
  by (simp add: element_at_def)

lemma put_element_fields [simp]:
  "avl_root (put_element a e h) = avl_root h" "avl_elements (put_element a e h) = (avl_elements h)(a := Some e)"
  "avl_elements (h\<lparr>avl_root := v\<rparr>) = avl_elements h"
  by (simp_all add: put_element_def)

definition changes :: "nat set \<Rightarrow> avl_tree_type \<Rightarrow> avl_tree_type \<Rightarrow> bool" where
  "changes A h h' \<longleftrightarrow> avl_root h' = avl_root h \<and> (\<forall>a. a \<notin> A \<longrightarrow> avl_elements h' a = avl_elements h a) \<and>
     (\<forall>a. avl_elements h a \<noteq> None \<longrightarrow> avl_elements h' a \<noteq> None)"

lemma tree_at_cong: "(\<And>a. a \<in> fst ` set_tree t \<Longrightarrow> avl_elements h' a = avl_elements h a) \<Longrightarrow> tree_at h' t = tree_at h t"
  by (induction t) auto

lemma tree_at_put [simp]: "a \<notin> fst ` set_tree t \<Longrightarrow> tree_at (put_element a e h) t = tree_at h t"
  by (rule tree_at_cong) auto

lemma tree_at_root [simp]: "tree_at (h\<lparr>avl_root := v\<rparr>) t = tree_at h t"
  by (rule tree_at_cong) simp

lemma tree_at_changes: "changes A h h' \<Longrightarrow> A \<inter> fst ` set_tree t = {} \<Longrightarrow> tree_at h' t = tree_at h t"
  by (rule tree_at_cong) (auto simp: changes_def)

lemma changes_trans: "changes A h h' \<Longrightarrow> changes B h' h'' \<Longrightarrow> A \<union> B \<subseteq> D \<Longrightarrow> changes D h h''"
  unfolding changes_def by (metis Un_subset_iff subset_iff)

lemma single_rotation_ok:
  assumes "tree_at h (nd d (nd d A x bx B) y by C)" and "distinct (ids (nd d (nd d A x bx B) y by C))"
  shows "\<exists>h'. single_rotation d y x h = Inr h' \<and> tree_at h' (nd d A x bx (nd d B y by C)) \<and> changes {x, y} h h'"
  using assms by (auto simp: single_rotation_def changes_def simp del: rbind_Inr_iff)

lemma double_rotation_ok:
  assumes "tree_at h (nd d (nd d A x bx (nd d P w bw Q)) y by C)" and "distinct (ids (nd d (nd d A x bx (nd d P w bw Q)) y by C))"
  shows "\<exists>h'. double_rotation d y x h = Inr (w, h') \<and> changes {x, y, w} h h' \<and>
    tree_at h' (nd d (nd d A x (if bw = side d \<or> bw = 0 then 0 else side d) P) w 0 (nd d Q y (if bw = side d then - side d else 0) C))"
  using assms by (auto simp: double_rotation_def changes_def deref_def get_balance_def set_balance_def Let_def simp del: rbind_Inr_iff)

lemma set_balance_ok:
  assumes "tree_at h (nd d t a b s)" and "distinct (ids (nd d t a b s))"
  shows "\<exists>h'. set_balance a c h = Inr h' \<and> tree_at h' (nd d t a c s) \<and> changes {a} h h'"
  using assms by (auto simp: set_balance_def changes_def)

section \<open>Contexts\<close>

text \<open>
  The way from a subtree up to the root: for each element the direction in which the way comes from,
  its address and its balance, and its other subtree.
\<close>

type_synonym frame = "bool \<times> nat \<times> int \<times> atree"

fun plug :: "frame list \<Rightarrow> atree \<Rightarrow> atree" where
  "plug [] t = t"
| "plug ((d, a, b, s) # C) t = plug C (nd d t a b s)"

fun stored :: "avl_tree_type \<Rightarrow> frame list \<Rightarrow> nat option \<Rightarrow> bool" where
  "stored h [] p \<longleftrightarrow> avl_root h = p"
| "stored h ((d, a, b, s) # C) p \<longleftrightarrow>
     avl_elements h a = Some (elem d p (ptr s) b) \<and> tree_at h s \<and> stored h C (Some a)"

fun cids :: "frame list \<Rightarrow> nat list" where
  "cids [] = []"
| "cids ((d, a, b, s) # C) = a # ids s @ cids C"

fun place :: "frame list \<Rightarrow> avl_place" where
  "place [] = Root_Cell"
| "place ((d, a, b, s) # C) = Element a"

fun dir_of :: "frame list \<Rightarrow> bool" where
  "dir_of [] = False"
| "dir_of ((d, a, b, s) # C) = d"

definition holds :: "avl_tree_type \<Rightarrow> atree \<Rightarrow> bool" where
  "holds h t \<longleftrightarrow> avl_root h = ptr t \<and> tree_at h t \<and> distinct (ids t)"

lemma plug_append: "plug (C @ D) t = plug D (plug C t)"
  by (induction C t rule: plug.induct) simp_all

lemma plug_ids [simp]: "fst ` set_tree (plug C t) = set (cids C) \<union> fst ` set_tree t"
  by (induction C t rule: plug.induct) auto

lemma plug_distinct: "distinct (ids (plug C t)) \<longleftrightarrow> distinct (cids C) \<and> distinct (ids t) \<and> set (cids C) \<inter> fst ` set_tree t = {}"
  by (induction C t rule: plug.induct) auto

lemma plug_stored: "avl_root h = ptr (plug C t) \<and> tree_at h (plug C t) \<longleftrightarrow> stored h C (ptr t) \<and> tree_at h t"
  by (induction C t rule: plug.induct) auto

lemma holds_plug:
  "holds h (plug C t) \<longleftrightarrow>
     stored h C (ptr t) \<and> tree_at h t \<and> distinct (cids C) \<and> distinct (ids t) \<and> set (cids C) \<inter> fst ` set_tree t = {}"
  using plug_stored [of h C t] by (auto simp: holds_def plug_distinct)

lemma stored_cong:
  "avl_root h' = avl_root h \<Longrightarrow> (\<And>a. a \<in> set (cids C) \<Longrightarrow> avl_elements h' a = avl_elements h a) \<Longrightarrow> stored h' C p = stored h C p"
proof (induction h C p rule: stored.induct)
  case (2 h d a b s C p)
  have "tree_at h' s = tree_at h s" using 2(3) by (intro tree_at_cong) auto
  then show ?case using 2 by simp
qed simp

lemma stored_changes: "changes A h h' \<Longrightarrow> A \<inter> set (cids C) = {} \<Longrightarrow> stored h' C p = stored h C p"
  by (rule stored_cong) (auto simp: changes_def)

lemma stored_put: "a \<notin> set (cids C) \<Longrightarrow> stored (put_element a e h) C p = stored h C p"
  by (rule stored_cong) auto

text \<open>The subtree of a context is exchanged.\<close>

lemma holds_exchange:
  assumes "holds h (plug C t)" and "changes (fst ` set_tree t) h h'" and "tree_at h' t'" and "ptr t' = ptr t"
    and "distinct (ids t')" "fst ` set_tree t' = fst ` set_tree t"
  shows "holds h' (plug C t')"
  using assms stored_changes [OF assms(2), of C "ptr t"] by (auto simp: holds_plug)

text \<open>The link at the end of a context is written.\<close>

definition relinked :: "frame list \<Rightarrow> avl_tree_type \<Rightarrow> avl_tree_type \<Rightarrow> bool" where
  "relinked C h h' \<longleftrightarrow>
     (\<forall>a. Element a \<noteq> place C \<longrightarrow> avl_elements h' a = avl_elements h a) \<and> (\<forall>a. avl_elements h a \<noteq> None \<longrightarrow> avl_elements h' a \<noteq> None)"

lemma set_link_ok:
  assumes "stored h C p" and "distinct (cids C)"
  shows "\<exists>h'. set_link (place C) (dir_of C) v h = Inr h' \<and> stored h' C v \<and> relinked C h h'"
proof (cases C)
  case Nil
  then show ?thesis by (simp add: relinked_def)
next
  case (Cons f D)
  obtain d a b s where f: "f = (d, a, b, s)" by (cases f)
  let ?h = "put_element a (elem d v (ptr s) b) h"
  have "stored ?h D (Some a) = stored h D (Some a)" using assms(2) by (intro stored_cong) (auto simp: Cons f)
  then show ?thesis using assms by (auto simp: Cons f relinked_def)
qed

lemma relinked_frame:
  assumes "relinked C h h'" and "fst ` set_tree t \<inter> set (cids C) = {}"
  shows "tree_at h' t = tree_at h t"
proof (rule tree_at_cong)
  fix a
  assume "a \<in> fst ` set_tree t"
  then have "Element a \<noteq> place C" using assms(2) by (cases C rule: place.cases) auto
  then show "avl_elements h' a = avl_elements h a" using assms(1) by (simp add: relinked_def)
qed

definition touches :: "nat set \<Rightarrow> avl_tree_type \<Rightarrow> avl_tree_type \<Rightarrow> bool" where
  "touches A h h' \<longleftrightarrow>
     (\<forall>a. a \<notin> A \<longrightarrow> avl_elements h' a = avl_elements h a) \<and> (\<forall>a. avl_elements h a \<noteq> None \<longrightarrow> avl_elements h' a \<noteq> None)"

lemma touches_refl [simp]: "touches A h h"
  by (simp add: touches_def)

lemma touches_trans: "touches A h h' \<Longrightarrow> touches B h' h'' \<Longrightarrow> A \<union> B \<subseteq> D \<Longrightarrow> touches D h h''"
  unfolding touches_def by (metis Un_subset_iff subset_iff)

lemma touches_mono: "touches A h h' \<Longrightarrow> A \<subseteq> B \<Longrightarrow> touches B h h'"
  by (auto simp: touches_def)

lemma changes_touches: "changes A h h' \<Longrightarrow> touches A h h'"
  by (simp add: changes_def touches_def)

lemma relinked_touches: "relinked C h h' \<Longrightarrow> touches (set (cids C)) h h'"
  by (cases C rule: place.cases) (auto simp: relinked_def touches_def)

lemma holds_relink:
  assumes "holds h0 (plug C t)" and "changes (fst ` set_tree t) h0 h" and "tree_at h t'"
    and "distinct (ids t')" "fst ` set_tree t' \<subseteq> fst ` set_tree t"
  shows "\<exists>h'. set_link (place C) (dir_of C) (ptr t') h = Inr h' \<and> holds h' (plug C t') \<and> touches (fst ` set_tree (plug C t)) h0 h'"
proof -
  have st: "stored h C (ptr t)" "distinct (cids C)" "set (cids C) \<inter> fst ` set_tree t = {}"
    using assms(1) stored_changes [OF assms(2), of C "ptr t"] by (auto simp: holds_plug)
  from set_link_ok [OF st(1,2)] obtain h' where
    h: "set_link (place C) (dir_of C) (ptr t') h = Inr h'" "stored h' C (ptr t')" "relinked C h h'" by blast
  have "tree_at h' t'" using relinked_frame [OF h(3), of t'] assms(3,5) st(3) by auto
  moreover have "set (cids C) \<inter> fst ` set_tree t' = {}" using st(3) assms(5) by blast
  ultimately have "holds h' (plug C t')" using h(2) st(2) assms(4) by (simp add: holds_plug)
  moreover have "touches (fst ` set_tree (plug C t)) h0 h'"
    using changes_touches [OF assms(2)] relinked_touches [OF h(3)] by (rule touches_trans) auto
  ultimately show ?thesis using h(1) by blast
qed

section \<open>Heights\<close>

lemma avl_plug_sub: "avl (plug C t) \<Longrightarrow> avl t"
  by (induction C t rule: plug.induct) auto

lemma avl_plug_same: "avl (plug C t) \<Longrightarrow> avl t' \<Longrightarrow> height t' = height t \<Longrightarrow> avl (plug C t')"
proof (induction C t arbitrary: t' rule: plug.induct)
  case (2 d a b s C t)
  have "avl (nd d t a b s)" using 2(2) unfolding plug.simps by (rule avl_plug_sub)
  then have "avl (nd d t' a b s)" using 2(3,4) by auto
  moreover have "height (nd d t' a b s) = height (nd d t a b s)" using 2(4) by simp
  ultimately show ?case using 2(1) [OF 2(2) [unfolded plug.simps]] by (simp only: plug.simps)
qed simp

lemma plug_height: "length C + height t \<le> height (plug C t)"
  by (induction C t rule: plug.induct) auto

lemma side_cases: "side d = 1 \<or> side d = - 1"
  by (simp add: side_def)

lemma side_not_zero [simp]: "side d \<noteq> 0"
  by (simp add: side_def)

lemma side_not [simp]: "side (\<not> d) = - side d"
  by (simp add: side_def)

lemma avl_size: "avl t \<Longrightarrow> 2 ^ (height t div 2) \<le> size t + 1"
proof (induction "height t" arbitrary: t rule: less_induct)
  case less
  show ?case
  proof (cases "height t < 2")
    case True
    then show ?thesis by (simp add: div_less)
  next
    case False
    then obtain l ab r where t: "t = Node l ab r" by (cases t) auto
    let ?m = "max (height l) (height r)"
    have h: "?m \<le> Suc (height l)" "?m \<le> Suc (height r)" "height t = Suc ?m" "avl l" "avl r" using less.prems by (auto simp: t)
    define k where "k = (height t - 2) div 2"
    have k: "height t div 2 = Suc k" unfolding k_def using False by presburger
    have "height t - 2 \<le> height l" "height t - 2 \<le> height r" using h(1-3) by linarith+
    then have "k \<le> height l div 2" "k \<le> height r div 2" unfolding k_def by (auto intro: div_le_mono)
    then have "(2 :: nat) ^ k \<le> 2 ^ (height l div 2)" "(2 :: nat) ^ k \<le> 2 ^ (height r div 2)" by simp_all
    moreover have "2 ^ (height l div 2) \<le> size l + 1" "2 ^ (height r div 2) \<le> size r + 1"
      using h less.hyps [of l] less.hyps [of r] by auto
    ultimately have "2 ^ k \<le> size l + 1" "2 ^ k \<le> size r + 1" by (blast intro: order_trans)+
    then show ?thesis unfolding k by (simp add: t)
  qed
qed

lemma avl_height: "avl t \<Longrightarrow> size t < 2 ^ 45 \<Longrightarrow> height t \<le> 91"
proof (rule ccontr)
  assume a: "avl t" "size t < 2 ^ 45" "\<not> height t \<le> 91"
  then have "46 \<le> height t div 2" by simp
  then have "(2 :: nat) ^ 46 \<le> 2 ^ (height t div 2)" by (rule power_increasing) simp
  then show False using avl_size [OF a(1)] a(2) by simp
qed

section \<open>Order\<close>

definition orders :: "(nat \<Rightarrow> 'k :: linorder) \<Rightarrow> compar \<Rightarrow> bool" where
  "orders key compar \<longleftrightarrow> (\<forall>a b. (compar a b < 0 \<longleftrightarrow> key a < key b) \<and> (0 < compar a b \<longleftrightarrow> key b < key a))"

lemma ordersD:
  assumes "orders key compar"
  shows "compar a b < 0 \<longleftrightarrow> key a < key b" "0 < compar a b \<longleftrightarrow> key b < key a" "compar a b = 0 \<longleftrightarrow> key a = key b"
proof -
  show 1: "compar a b < 0 \<longleftrightarrow> key a < key b" and 2: "0 < compar a b \<longleftrightarrow> key b < key a" using assms by (simp_all add: orders_def)
  show "compar a b = 0 \<longleftrightarrow> key a = key b" using 1 2 by (metis less_irrefl linorder_neqE)
qed

fun lefts :: "frame list \<Rightarrow> nat list" where
  "lefts [] = []"
| "lefts ((d, a, b, s) # C) = (if d then lefts C @ ids s @ [a] else lefts C)"

fun rights :: "frame list \<Rightarrow> nat list" where
  "rights [] = []"
| "rights ((d, a, b, s) # C) = (if d then rights C else a # ids s @ rights C)"

lemma plug_inorder: "ids (plug C t) = lefts C @ ids t @ rights C"
  by (induction C t rule: plug.induct) (auto simp: nd_def)

definition increasing :: "(nat \<Rightarrow> 'k :: linorder) \<Rightarrow> nat list \<Rightarrow> bool" where
  "increasing key xs \<longleftrightarrow> sorted_wrt (\<lambda>a b. key a < key b) xs"

definition apart :: "(nat \<Rightarrow> 'k :: linorder) \<Rightarrow> 'k \<Rightarrow> frame list \<Rightarrow> bool" where
  "apart key k C \<longleftrightarrow> (\<forall>x \<in> set (lefts C). key x < k) \<and> (\<forall>x \<in> set (rights C). k < key x)"

lemma apart_Nil [simp]: "apart key k []"
  by (simp add: apart_def)

lemma apart_Cons:
  assumes "apart key k C" and "increasing key (ids (plug C (nd d t a b s)))" and "if d then key a < k else k < key a"
  shows "apart key k ((d, a, b, s) # C)"
  using assms by (auto simp: apart_def plug_inorder nd_def increasing_def sorted_wrt_append split: if_splits)

lemma apart_in:
  assumes "apart key k C" and "x \<in> set (ids (plug C t))" and "key x = k"
  shows "x \<in> set (ids t)"
  using assms by (auto simp: apart_def plug_inorder simp del: plug_ids)

end
