(* ===== verification/Avl_Insert.thy ===== *)
theory Avl_Insert
  imports Avl_Memory
begin

text \<open>
  Searching for an element and inserting one.  An insertion into a tree without an equal element ends,
  keeps the tree balanced and in order, and adds exactly the new element.
\<close>

section \<open>Inserting an element\<close>

fun fbal :: "frame \<Rightarrow> int" where
  "fbal (d, a, b, s) = b"

fun bump :: "frame \<Rightarrow> frame" where
  "bump (d, a, b, s) = (d, a, b + side d, s)"

lemma bump_simps [simp]: "cids (map bump C) = cids C" "lefts (map bump C) = lefts C" "rights (map bump C) = rights C"
  by (induction C rule: cids.induct) auto

text \<open>
  The two parts of the way down: all elements below \<open>y\<close> have the balance zero, and \<open>y\<close> has it only when it
  is the root.
\<close>

definition split_at :: "frame list \<Rightarrow> frame list \<Rightarrow> bool" where
  "split_at C2 C1 \<longleftrightarrow> (\<forall>f \<in> set (butlast C2). fbal f = 0) \<and> (C1 = [] \<or> C2 \<noteq> [] \<and> fbal (last C2) \<noteq> 0)"

lemma insert_descend_ok:
  assumes "holds h (plug (C2 @ C1) T)" and "orders key compar" and "increasing key (ids (plug (C2 @ C1) T))"
    and "apart key (key item) (C2 @ C1)" and "split_at C2 C1" and "height T \<le> fuel" and "length C2 + height T \<le> 92"
  shows "(\<exists>p \<in> set (ids T). key p = key item \<and>
      insert_descend fuel compar item h (place C1) (ptr (plug C2 T)) (place (C2 @ C1)) (ptr T) (dir_of (C2 @ C1)) (rev (map fst C2)) = Inr (Inl p)) \<or>
    (\<exists>D2 D1. plug (D2 @ D1) Leaf = plug (C2 @ C1) T \<and> apart key (key item) (D2 @ D1) \<and> split_at D2 D1 \<and>
      insert_descend fuel compar item h (place C1) (ptr (plug C2 T)) (place (C2 @ C1)) (ptr T) (dir_of (C2 @ C1)) (rev (map fst C2)) =
        Inr (Inr (place D1, ptr (plug D2 Leaf), place (D2 @ D1), dir_of (D2 @ D1), rev (map fst D2))))"
  using assms
proof (induction T arbitrary: C1 C2 fuel)
  case Leaf
  then show ?case by auto
next
  case (Node l ab r)
  obtain a b where ab: "ab = (a, b)" by (cases ab)
  from Node.prems(6) obtain n where n: "fuel = Suc n" by (cases fuel) auto
  note o = ordersD [OF Node.prems(2), of item a]
  show ?case
  proof (cases "key item = key a")
    case True
    then show ?thesis using o(3) by (simp add: n ab)
  next
    case False
    define d where "d = (0 < compar item a)"
    define T' where "T' = (if d then r else l)"
    define S where "S = (if d then l else r)"
    have T: "Node l ab r = nd d T' a b S" by (simp add: nd_def ab T'_def S_def)
    let ?f = "(d, a, b, S)"
    define D1 where "D1 = (if b \<noteq> 0 then C2 @ C1 else C1)"
    define D2 where "D2 = (if b \<noteq> 0 then [?f] else ?f # C2)"
    have D: "D2 @ D1 = ?f # C2 @ C1" by (simp add: D1_def D2_def)
    then have whole: "plug (D2 @ D1) T' = plug (C2 @ C1) (Node l ab r)" by (simp add: T)
    have e: "avl_elements h a = Some (elem d (ptr T') (ptr S) b)" using Node.prems(1) by (simp add: T holds_plug)
    have side: "if d then key a < key item else key item < key a" using False o(2) by (auto simp: d_def)
    have ap: "apart key (key item) (D2 @ D1)" unfolding D
      by (rule apart_Cons [OF Node.prems(4) _ side, of T']) (use Node.prems(3) in \<open>simp only: T\<close>)
    have sp: "split_at D2 D1" using Node.prems(5) by (auto simp: split_at_def D1_def D2_def)
    have ht: "Suc (height T') \<le> height (Node l ab r)" by (simp add: T'_def)
    have len: "length D2 + height T' \<le> 92" "height T' \<le> n" using Node.prems(6,7) ht n by (auto simp: D2_def)
    have "height (Node l ab r) > 0" by simp
    then have room: "length (if b \<noteq> 0 then [] else rev (map fst C2)) < AVL_MAX_HEIGHT" using Node.prems(7) by (simp add: AVL_MAX_HEIGHT_def)
    let ?run = "insert_descend n compar item h (place D1) (ptr (plug D2 T')) (place (D2 @ D1)) (ptr T') (dir_of (D2 @ D1)) (rev (map fst D2))"
    have step: "insert_descend fuel compar item h (place C1) (ptr (plug C2 (Node l ab r))) (place (C2 @ C1)) (ptr (Node l ab r))
        (dir_of (C2 @ C1)) (rev (map fst C2)) = ?run"
      using e room False o(3) unfolding D by (cases "b = 0") (simp_all add: n T get_balance_def D1_def D2_def flip: d_def)
    have IH: "(\<exists>p \<in> set (ids T'). key p = key item \<and> ?run = Inr (Inl p)) \<or>
      (\<exists>E2 E1. plug (E2 @ E1) Leaf = plug (D2 @ D1) T' \<and> apart key (key item) (E2 @ E1) \<and> split_at E2 E1 \<and>
        ?run = Inr (Inr (place E1, ptr (plug E2 Leaf), place (E2 @ E1), dir_of (E2 @ E1), rev (map fst E2))))"
    proof (cases d)
      case True
      then have "T' = r" by (simp add: T'_def)
      then show ?thesis using Node.prems(1-3) ap sp len whole [symmetric] by (simp only:) (rule Node.IH(2))
    next
      case False
      then have "T' = l" by (simp add: T'_def)
      then show ?thesis using Node.prems(1-3) ap sp len whole [symmetric] by (simp only:) (rule Node.IH(1))
    qed
    have "set (ids T') \<subseteq> set (ids (Node l ab r))" by (auto simp: T'_def)
    then show ?thesis using IH unfolding step whole by blast
  qed
qed

lemma ptr_plug: "ptr (plug (rev F) t) = (case F of [] \<Rightarrow> ptr t | f # _ \<Rightarrow> Some (fst (snd f)))"
  by (cases F) (auto simp: plug_append split: list.split)

lemma cids_append [simp]: "cids (C @ D) = cids C @ cids D"
  by (induction C rule: cids.induct) auto

lemma update_balances_ok:
  assumes "tree_at h (plug (rev F) N)" and "distinct (ids (plug (rev F) N))" and "ptr N = Some n"
  shows "\<exists>h'. update_balances n (map fst F) (the (ptr (plug (rev F) N))) h = Inr h' \<and> tree_at h' (plug (rev (map bump F)) N) \<and>
    changes (set (cids (rev F))) h h'"
  using assms
proof (induction F arbitrary: h)
  case Nil
  then show ?case by (simp add: changes_def)
next
  case (Cons f F)
  obtain d a b s where f: "f = (d, a, b, s)" by (cases f)
  let ?T = "plug (rev F) N" and ?h = "put_element a (elem d (ptr (plug (rev F) N)) (ptr s) (b + side d)) h"
  have n: "n \<in> fst ` set_tree N" using Cons.prems(3) by (cases N) auto
  have t: "avl_elements h a = Some (elem d (ptr ?T) (ptr s) b)" "tree_at h ?T" "tree_at h s"
    and ds: "distinct (ids ?T)" "a \<notin> fst ` set_tree ?T" "a \<notin> fst ` set_tree s" "fst ` set_tree ?T \<inter> fst ` set_tree s = {}"
    using Cons.prems(1,2) by (auto simp: f plug_append)
  have "ptr ?T \<noteq> None" using Cons.prems(3) by (simp add: ptr_plug split: list.split)
  then obtain p where p: "ptr ?T = Some p" by blast
  have "tree_at ?h ?T" using t(2) ds(2) by simp
  from Cons.IH [OF this ds(1) Cons.prems(3)] obtain h' where
    h: "update_balances n (map fst F) p ?h = Inr h'" "tree_at h' (plug (rev (map bump F)) N)" "changes (set (cids (rev F))) ?h h'"
    by (auto simp: p)
  have "a \<noteq> n" using ds(2) n by auto
  then have "update_balances n (map fst (f # F)) (the (ptr (plug (rev (f # F)) N))) h = Inr h'"
    using t(1) h(1) p by (simp add: f plug_append get_balance_def set_balance_def deref_def del: rbind_Inr_iff)
  moreover have "tree_at h' s" using tree_at_changes [OF h(3), of s] t(3) ds(3,4) by auto
  moreover have "avl_elements h' a = avl_elements ?h a" using h(3) ds(2) by (simp add: changes_def)
  moreover have "changes (set (cids (rev (f # F)))) h h'" using h(3) t(1) by (auto simp: changes_def cids_append f)
  moreover have "ptr (plug (rev (map bump F)) N) = ptr ?T" by (cases F; cases "hd F") (auto simp: plug_append)
  ultimately show ?case using h(2) by (simp add: f plug_append)
qed

lemma grow_path:
  assumes "\<forall>f \<in> set C. fbal f = 0" and "avl (plug C t)" and "avl t'" and "height t' = Suc (height t)"
  shows "avl (plug (map bump C) t') \<and> height (plug (map bump C) t') = Suc (height (plug C t))"
  using assms
proof (induction C t arbitrary: t' rule: plug.induct)
  case (2 d a b s C t)
  have b: "b = 0" using 2(2) by simp
  have "avl (nd d t a b s)" using 2(3) unfolding plug.simps by (rule avl_plug_sub)
  then have "height t = height s" "avl s" using b side_cases [of d] by auto
  then have "avl (nd d t' a (b + side d) s)" "height (nd d t' a (b + side d) s) = Suc (height (nd d t a b s))"
    using 2(4,5) b side_cases [of d] by auto
  then show ?case using 2(1) [OF _ 2(3) [unfolded plug.simps]] 2(2) by (simp only: list.map bump.simps plug.simps) simp
qed simp

fun root_balance :: "atree \<Rightarrow> int" where
  "root_balance Leaf = 0"
| "root_balance (Node l ab r) = snd ab"

lemma root_balance_nd [simp]: "root_balance (nd d t a b s) = b"
  by (simp add: nd_def)

lemma replace_child_eq:
  assumes "stored h C (Some y)" and "y \<notin> set (cids C)"
  shows "replace_child (place C) y w h = set_link (place C) (dir_of C) (Some w) h"
proof (cases C rule: place.cases)
  case 1
  then show ?thesis using assms by (simp add: replace_child_def)
next
  case (2 d a b s D)
  have "ptr s \<noteq> Some y" using assms(2) by (cases s) (auto simp: 2)
  then show ?thesis using assms(1) by (cases d) (auto simp: 2 replace_child_def elem_def)
qed

text \<open>The rotation after an insertion gives the subtree the height that it had before.\<close>

lemma insert_rotate_ok:
  assumes "tree_at h (nd d I y b s)" and "distinct (ids (nd d I y b s))"
    and "avl I" and "avl s" and "root_balance I \<noteq> 0" and "height I = height s + 2"
  shows "\<exists>h' T'. insert_rotate d y h = Inr (the (ptr T'), h') \<and> tree_at h' T' \<and> changes (fst ` set_tree (nd d I y b s)) h h' \<and>
    avl T' \<and> height T' = height s + 2 \<and> ids T' = ids (nd d I y b s) \<and> ptr T' \<noteq> None"
proof -
  have "I \<noteq> Leaf" using assms(5) by auto
  then obtain A x bx B where I: "I = nd d A x bx B" by (rule nd_cases)
  have bx: "bx = side d * (int (height A) - int (height B))" "\<bar>bx\<bar> \<le> 1" "bx \<noteq> 0" "avl A" "avl B" using assms(3,5) by (auto simp: I)
  have x: "avl_elements h x = Some (elem d (ptr A) (ptr B) bx)" "avl_elements h y = Some (elem d (Some x) (ptr s) b)" using assms(1) by (simp_all add: I)
  show ?thesis
  proof (cases "bx = side d")
    case True
    let ?T = "nd d A x 0 (nd d B y 0 s)"
    from single_rotation_ok [OF assms(1,2) [unfolded I]] obtain h1 where
      h1: "single_rotation d y x h = Inr h1" "tree_at h1 (nd d A x bx (nd d B y b s))" "changes {x, y} h h1" by blast
    let ?h = "put_element x (elem d (ptr A) (Some y) 0) (put_element y (elem d (ptr B) (ptr s) 0) h1)"
    have "insert_rotate d y h = Inr (x, ?h)"
      using x h1(1,2) assms(2) True by (simp add: insert_rotate_def deref_def get_balance_def set_balance_def I del: rbind_Inr_iff)
    moreover have "tree_at ?h ?T" using h1(2) assms(2) by (auto simp: I)
    moreover have "changes (fst ` set_tree (nd d I y b s)) h ?h" using h1(3) x by (auto simp: changes_def I)
    moreover have "height A = Suc (height B)" using bx(1) True side_cases [of d] by auto
    then have "avl ?T" "height ?T = height s + 2" using bx(4,5) assms(4,6) by (auto simp: I)
    moreover have "ids ?T = ids (nd d I y b s)" by (cases d) (simp_all add: nd_def I)
    ultimately show ?thesis by (intro exI [of _ ?h] exI [of _ ?T]) simp
  next
    case False
    then have h: "height B = Suc (height A)" "bx = - side d" using bx(1-3) side_cases [of d] by auto
    then have "B \<noteq> Leaf" by auto
    then obtain P w bw Q where B: "B = nd d P w bw Q" by (rule nd_cases)
    define T' where "T' = nd d (nd d A x (if bw = side d \<or> bw = 0 then 0 else side d) P) w 0 (nd d Q y (if bw = side d then - side d else 0) s)"
    from double_rotation_ok [OF assms(1,2) [unfolded I B]] obtain h' where
      h': "double_rotation d y x h = Inr (w, h')" "changes {x, y, w} h h'" "tree_at h' T'" unfolding T'_def by blast
    have "insert_rotate d y h = Inr (w, h')" using x h'(1) False by (simp add: insert_rotate_def deref_def get_balance_def del: rbind_Inr_iff)
    moreover have "changes (fst ` set_tree (nd d I y b s)) h h'" using h'(2) by (auto simp: changes_def I B)
    moreover have "bw = side d * (int (height P) - int (height Q))" "\<bar>bw\<bar> \<le> 1" "avl P" "avl Q" using bx(5) by (auto simp: B)
    then have "avl T'" "height T' = height s + 2" using h(1) bx(4) assms(4,6) unfolding T'_def by (cases d; auto simp: I B side_def)+
    moreover have "ids T' = ids (nd d I y b s)" unfolding T'_def by (cases d) (simp_all add: nd_def I B)
    moreover have "ptr T' = Some w" unfolding T'_def by simp
    ultimately show ?thesis using h'(3) by (intro exI [of _ h'] exI [of _ T']) simp
  qed
qed

lemma insert_rebalance_ok:
  assumes "holds h (plug C (nd d I y (b + side d) s))" and "avl (plug C (nd d t y b s))"
    and "avl I" and "height I = Suc (height t)" and "root_balance I \<noteq> 0 \<or> t = Leaf" and "b = 0 \<longrightarrow> C = []"
  shows "\<exists>h' Y. insert_rebalance (place C) y h = Inr h' \<and> holds h' (plug C Y) \<and> avl (plug C Y) \<and> ids Y = ids (nd d I y (b + side d) s) \<and>
    touches (fst ` set_tree (plug C (nd d I y (b + side d) s))) h h'"
proof -
  let ?T = "nd d I y (b + side d) s"
  have n: "avl (nd d t y b s)" using assms(2) by (rule avl_plug_sub)
  then have b: "b = side d * (int (height t) - int (height s))" "\<bar>b\<bar> \<le> 1" "avl s" by auto
  have e: "get_balance y h = Inr (b + side d)" "tree_at h ?T" "distinct (ids ?T)" "stored h C (Some y)" "y \<notin> set (cids C)"
    using assms(1) by (auto simp: holds_plug get_balance_def)
  consider "b = 0" | "b = - side d" | "b = side d" using b(2) side_cases [of d] by linarith
  then show ?thesis
  proof cases
    case 1
    then have "avl (plug C ?T)" using assms(3,4,6) b side_cases [of d] by auto
    moreover have "insert_rebalance (place C) y h = Inr h" using e(1) 1 side_cases [of d] by (auto simp: insert_rebalance_def)
    ultimately show ?thesis using assms(1) by (intro exI [of _ h] exI [of _ ?T]) simp
  next
    case 2
    then have "height s = Suc (height t)" using b(1) side_cases [of d] by auto
    then have "avl ?T" "height ?T = height (nd d t y b s)" using assms(3,4) b(3) 2 by auto
    then have "avl (plug C ?T)" using avl_plug_same [OF assms(2)] by blast
    moreover have "insert_rebalance (place C) y h = Inr h" using e(1) 2 by (simp add: insert_rebalance_def)
    ultimately show ?thesis using assms(1) by (intro exI [of _ h] exI [of _ ?T]) simp
  next
    case 3
    then have ht: "height t = Suc (height s)" using b(1) side_cases [of d] by auto
    then have "root_balance I \<noteq> 0" "height I = height s + 2" using assms(4,5) by auto
    from insert_rotate_ok [OF e(2,3) assms(3) b(3) this] obtain h1 T' where
      r: "insert_rotate d y h = Inr (the (ptr T'), h1)" "tree_at h1 T'" "changes (fst ` set_tree ?T) h h1" "avl T'"
        "height T' = height s + 2" "ids T' = ids ?T" "ptr T' \<noteq> None" by blast
    have same: "fst ` set_tree T' = fst ` set_tree ?T" using arg_cong [OF r(6), of set] by simp
    from holds_relink [OF assms(1) r(3,2) _ equalityD1 [OF same]] r(6) e(3) obtain h2 where
      h2: "set_link (place C) (dir_of C) (ptr T') h1 = Inr h2" "holds h2 (plug C T')" "touches (fst ` set_tree (plug C ?T)) h h2" by auto
    have "fst ` set_tree ?T \<inter> set (cids C) = {}" using assms(1) by (auto simp: holds_plug)
    then have "stored h1 C (Some y)" using stored_changes [OF r(3)] e(4) by simp
    from replace_child_eq [OF this e(5), of "the (ptr T')"] have "replace_child (place C) y (the (ptr T')) h1 = Inr h2" using h2(1) r(7) by simp
    then have "insert_rebalance (place C) y h = Inr h2"
      using e(1) r(1) 3 by (cases d) (simp_all add: insert_rebalance_def side_def del: rbind_Inr_iff)
    moreover have "height T' = height (nd d t y b s)" using r(5) ht by simp
    then have "avl (plug C T')" using avl_plug_same [OF assms(2) r(4)] by blast
    ultimately show ?thesis using h2(2,3) r(6) by blast
  qed
qed

lemma put_put [simp]: "put_element a e (put_element a e' h) = put_element a e h"
  by (simp add: put_element_def)

text \<open>The new element is put at the end of a context.\<close>

lemma link_new_ok:
  assumes "holds h (plug C Leaf)" and "item \<notin> set (cids C)" and "avl_elements h item \<noteq> None"
  shows "\<exists>h'. link_new (place C) (dir_of C) item h = Inr h' \<and>
      holds h' (plug C (Node Leaf (item, 0) Leaf)) \<and> touches (insert item (set (cids C))) h h'"
proof -
  have st: "stored h C None" "distinct (cids C)" using assms(1) by (auto simp: holds_plug)
  from set_link_ok [OF this] obtain h1 where
    h1: "set_link (place C) (dir_of C) (Some item) h = Inr h1" "stored h1 C (Some item)" "relinked C h h1" by blast
  from h1(3) assms(3) obtain e where e: "avl_elements h1 item = Some e" by (auto simp: relinked_def)
  let ?e = "\<lparr>avl_link0 = None, avl_link1 = None, avl_balance = 0\<rparr>"
  have "link_new (place C) (dir_of C) item h = Inr (put_element item ?e h1)"
    using h1(1) e by (cases e) (simp add: link_new_def set_balance_def del: rbind_Inr_iff)
  moreover have "stored (put_element item ?e h1) C (Some item)" using h1(2) assms(2) by (simp add: stored_put)
  moreover have "touches (insert item (set (cids C))) h (put_element item ?e h1)"
    using relinked_touches [OF h1(3)] by (auto simp: touches_def)
  ultimately show ?thesis using st(2) assms(2) by (intro exI [of _ "put_element item ?e h1"]) (simp add: holds_plug)
qed

lemma increasing_insert:
  assumes "increasing key (ids (plug C Leaf))" and "apart key (key item) C" and "ids t = ids (plug C (Node Leaf (item, b) Leaf))"
  shows "increasing key (ids t)" "fst ` set_tree t = insert item (set (cids C))"
proof -
  show "increasing key (ids t)" using assms by (auto simp: plug_inorder increasing_def apart_def sorted_wrt_append)
  have "set (ids t) = insert item (set (cids C))" unfolding assms(3) by simp
  then show "fst ` set_tree t = insert item (set (cids C))" by simp
qed

lemma avl_insert_place:
  assumes "holds h (plug (D2 @ D1) Leaf)" and "avl (plug (D2 @ D1) Leaf)" and "split_at D2 D1"
    and "item \<notin> set (cids (D2 @ D1))" and "avl_elements h item \<noteq> None"
    and "insert_descend fuel compar item h Root_Cell (avl_root h) Root_Cell (avl_root h) False [] =
        Inr (Inr (place D1, ptr (plug D2 Leaf), place (D2 @ D1), dir_of (D2 @ D1), rev (map fst D2)))"
  shows "\<exists>h' t'. avl_insert fuel compar item h = Inr (item, h') \<and> holds h' t' \<and> avl t' \<and>
    ids t' = ids (plug (D2 @ D1) (Node Leaf (item, 0) Leaf)) \<and> touches (insert item (set (cids (D2 @ D1)))) h h'"
proof -
  let ?N = "Node Leaf (item, 0) Leaf :: atree"
  from link_new_ok [OF assms(1,4,5)] obtain h1 where
    h1: "link_new (place (D2 @ D1)) (dir_of (D2 @ D1)) item h = Inr h1"
      "holds h1 (plug (D2 @ D1) ?N)" "touches (insert item (set (cids (D2 @ D1)))) h h1" by blast
  have run: "avl_insert fuel compar item h =
      (case ptr (plug D2 Leaf) of None \<Rightarrow> Inr (item, h1)
       | Some y \<Rightarrow> rbind (update_balances item (rev (map fst D2)) y h1) (\<lambda>t. rbind (insert_rebalance (place D1) y t) (\<lambda>t. Inr (item, t))))"
    using h1(1) unfolding avl_insert_def assms(6) by (auto simp: split: option.splits)
  show ?thesis
  proof (cases D2 rule: rev_cases)
    case Nil
    then have "D1 = []" using assms(3) by (simp add: split_at_def)
    then show ?thesis using h1 run by (intro exI [of _ h1] exI [of _ ?N]) (simp add: Nil)
  next
    case (snoc D f)
    obtain d y b s where f: "f = (d, y, b, s)" by (cases f)
    have D2: "D2 = D @ [(d, y, b, s)]" by (simp add: snoc f)
    define I where "I = plug (map bump D) ?N"
    define t where "t = plug D Leaf"
    have T: "plug (map bump D2) ?N = nd d I y (b + side d) s" by (simp add: D2 plug_append I_def)
    have old: "avl (plug D1 (nd d t y b s))" using assms(2) by (simp add: D2 plug_append t_def)
    have sp: "\<forall>f \<in> set D. fbal f = 0" "b = 0 \<longrightarrow> D1 = []" using assms(3) by (auto simp: split_at_def D2)
    have "avl (plug D Leaf)" using avl_plug_sub [OF old] by (simp add: t_def)
    from grow_path [OF sp(1) this, of ?N] have I: "avl I" "height I = Suc (height t)" by (simp_all add: I_def t_def)
    have rb: "root_balance I \<noteq> 0 \<or> t = Leaf"
    proof (cases D rule: rev_cases)
      case (snoc E g)
      then show ?thesis using sp(1) by (cases g) (auto simp: I_def plug_append)
    qed (simp add: t_def)
    have st: "tree_at h1 (plug D2 ?N)" "distinct (ids (plug D2 ?N))" using h1(2) unfolding plug_append by (auto simp: holds_plug)
    from update_balances_ok [of h1 "rev D2" ?N item] st obtain h2 where
      h2: "update_balances item (rev (map fst D2)) y h1 = Inr h2" "tree_at h2 (plug (map bump D2) ?N)" "changes (set (cids D2)) h1 h2"
      by (auto simp: rev_map D2 plug_append)
    have "changes (fst ` set_tree (plug D2 ?N)) h1 h2" using h2(3) by (auto simp: changes_def)
    moreover have "distinct (ids (plug (map bump D2) ?N))" using st(2) by (simp add: plug_distinct)
    moreover have "ptr (plug (map bump D2) ?N) = ptr (plug D2 ?N)" by (simp add: D2 plug_append)
    ultimately have "holds h2 (plug D1 (nd d I y (b + side d) s))"
      using holds_exchange [of h1 D1 "plug D2 ?N" h2 "plug (map bump D2) ?N"] h1(2) h2(2) unfolding T by (simp add: plug_append flip: T)
    from insert_rebalance_ok [OF this old I rb sp(2)] obtain h3 Y where
      h3: "insert_rebalance (place D1) y h2 = Inr h3" "holds h3 (plug D1 Y)" "avl (plug D1 Y)" "ids Y = ids (nd d I y (b + side d) s)"
        "touches (fst ` set_tree (plug D1 (nd d I y (b + side d) s))) h2 h3" by blast
    have "avl_insert fuel compar item h = Inr (item, h3)" using run h2(1) h3(1) by (simp add: D2 plug_append del: rbind_Inr_iff)
    moreover have "ids (plug D1 Y) = ids (plug (D2 @ D1) ?N)"
      unfolding plug_append plug_inorder [of D1] h3(4) T [symmetric] by (simp add: plug_inorder)
    moreover have "touches (insert item (set (cids (D2 @ D1)))) h h3"
      by (rule touches_trans [OF h1(3) touches_trans [OF changes_touches [OF h2(3)] h3(5) order_refl]]) (auto simp: T [symmetric])
    ultimately show ?thesis using h3(2,3) by blast
  qed
qed

text \<open>A tree in memory that is balanced and in order.\<close>

definition search_tree :: "(nat \<Rightarrow> 'k :: linorder) \<Rightarrow> avl_tree_type \<Rightarrow> atree \<Rightarrow> bool" where
  "search_tree key h t \<longleftrightarrow> holds h t \<and> avl t \<and> increasing key (ids t)"

lemma increasing_inj: "increasing key xs \<Longrightarrow> x \<in> set xs \<Longrightarrow> y \<in> set xs \<Longrightarrow> key x = key y \<Longrightarrow> x = y"
  unfolding increasing_def by (induction xs) fastforce+

lemma avl_insert_found:
  assumes "search_tree key h t" and "orders key compar" and "height t \<le> 91" and "height t \<le> fuel" and "p \<in> set (ids t)" and "key p = key item"
  shows "avl_insert fuel compar item h = Inr (p, h)"
proof -
  have s: "holds h t" "increasing key (ids t)" "split_at [] []" using assms(1) by (simp_all add: search_tree_def split_at_def)
  from insert_descend_ok [of h "[]" "[]" t key compar item fuel] s assms(2-4) consider
    q where "q \<in> set (ids t)" "key q = key item" "insert_descend fuel compar item h Root_Cell (avl_root h) Root_Cell (avl_root h) False [] = Inr (Inl q)"
  | C where "t = plug C Leaf" "apart key (key item) C" by (auto simp: holds_def)
  then show ?thesis
  proof cases
    case 1
    then have "q = p" using increasing_inj [OF s(2)] assms(5,6) by metis
    then show ?thesis using 1(3) by (simp add: avl_insert_def)
  next
    case 2
    then show ?thesis using apart_in [OF 2(2), of p Leaf] assms(5,6) by simp
  qed
qed

lemma avl_insert_new:
  assumes "search_tree key h t" and "orders key compar" and "height t \<le> 91" and "height t \<le> fuel"
    and "\<forall>p \<in> set (ids t). key p \<noteq> key item" and "avl_elements h item \<noteq> None"
  shows "\<exists>h' t'. avl_insert fuel compar item h = Inr (item, h') \<and> search_tree key h' t' \<and> set (ids t') = insert item (set (ids t)) \<and>
    touches (insert item (set (ids t))) h h'"
proof -
  have s: "holds h t" "avl t" "increasing key (ids t)" using assms(1) by (simp_all add: search_tree_def)
  have "split_at [] []" by (simp add: split_at_def)
  with insert_descend_ok [of h "[]" "[]" t key compar item fuel] s assms(2-5) obtain D2 D1 where
    D: "t = plug (D2 @ D1) Leaf" "apart key (key item) (D2 @ D1)" "split_at D2 D1"
      "insert_descend fuel compar item h Root_Cell (avl_root h) Root_Cell (avl_root h) False [] =
        Inr (Inr (place D1, ptr (plug D2 Leaf), place (D2 @ D1), dir_of (D2 @ D1), rev (map fst D2)))"
    by (auto simp: holds_def)
  have ids: "set (ids t) = set (cids (D2 @ D1))" by (simp only: D(1) set_map set_inorder plug_ids) simp
  then have "item \<notin> set (cids (D2 @ D1))" using assms(5) by metis
  from avl_insert_place [OF s(1,2) [unfolded D(1)] D(3) this assms(6) D(4)] obtain h' t' where
    r: "avl_insert fuel compar item h = Inr (item, h')" "holds h' t'" "avl t'" "ids t' = ids (plug (D2 @ D1) (Node Leaf (item, 0) Leaf))"
      "touches (insert item (set (cids (D2 @ D1)))) h h'" by blast
  note i = increasing_insert [OF s(3) [unfolded D(1)] D(2) r(4)]
  show ?thesis using r i ids by (intro exI [of _ h'] exI [of _ t']) (simp add: search_tree_def)
qed

lemma search_loop_ok:
  assumes "tree_at h t" and "orders key compar" and "increasing key (ids t)" and "height t \<le> fuel"
  shows "\<exists>r. search_loop fuel compar item (ptr t) h = Inr r \<and>
    (case r of None \<Rightarrow> \<forall>p \<in> set (ids t). key p \<noteq> key item | Some p \<Rightarrow> p \<in> set (ids t) \<and> key p = key item)"
  using assms
proof (induction t arbitrary: fuel)
  case (Node l ab r)
  obtain n where n: "fuel = Suc n" using Node.prems(4) by (cases fuel) auto
  note o = ordersD [OF Node.prems(2), of item "fst ab"]
  have inc: "increasing key (ids l)" "increasing key (ids r)" "\<forall>x \<in> set (ids l). key x < key (fst ab)" "\<forall>x \<in> set (ids r). key (fst ab) < key x"
    using Node.prems(3) by (auto simp: increasing_def sorted_wrt_append)
  consider "key item < key (fst ab)" | "key (fst ab) < key item" | "key item = key (fst ab)" by (rule linorder_cases)
  then show ?case
  proof cases
    case 1
    then have "search_loop fuel compar item (ptr (Node l ab r)) h = search_loop n compar item (ptr l) h"
      using o Node.prems(1) by (simp add: n del: rbind_Inr_iff)
    moreover have "\<forall>p \<in> set (ids r). key p \<noteq> key item" using 1 inc(4) by fastforce
    moreover have "\<exists>q. search_loop n compar item (ptr l) h = Inr q \<and>
        (case q of None \<Rightarrow> \<forall>p \<in> set (ids l). key p \<noteq> key item | Some p \<Rightarrow> p \<in> set (ids l) \<and> key p = key item)"
      using Node.prems inc(1) by (intro Node.IH(1)) (auto simp: n)
    ultimately show ?thesis using 1 by (elim exE) (auto split: option.split_asm)
  next
    case 2
    then have "search_loop fuel compar item (ptr (Node l ab r)) h = search_loop n compar item (ptr r) h"
      using o Node.prems(1) by (simp add: n del: rbind_Inr_iff)
    moreover have "\<forall>p \<in> set (ids l). key p \<noteq> key item" using 2 inc(3) by fastforce
    moreover have "\<exists>q. search_loop n compar item (ptr r) h = Inr q \<and>
        (case q of None \<Rightarrow> \<forall>p \<in> set (ids r). key p \<noteq> key item | Some p \<Rightarrow> p \<in> set (ids r) \<and> key p = key item)"
      using Node.prems inc(2) by (intro Node.IH(2)) (auto simp: n)
    ultimately show ?thesis using 2 by (elim exE) (auto split: option.split_asm)
  next
    case 3
    then show ?thesis using o by (simp add: n)
  qed
qed simp

end
