(* ===== verification/Avl_Remove.thy ===== *)
theory Avl_Remove
  imports Avl_Insert
begin

text \<open>
  Removing an element.  The element that is equal to the given one is taken out, and the way back up
  restores the balances.
\<close>

section \<open>Removing an element\<close>

fun stack_of :: "frame list \<Rightarrow> avl_stack" where
  "stack_of [] = [(Root_Cell, False)]"
| "stack_of ((d, a, b, s) # C) = (Element a, d) # stack_of C"

lemma stack_of_length [simp]: "length (stack_of C) = Suc (length C)"
  by (induction C rule: stack_of.induct) auto

lemma stack_of_append: "stack_of (C @ D) = map (\<lambda>(d, a, b, s). (Element a, d)) C @ stack_of D"
  by (induction C rule: stack_of.induct) auto

lemma set_top_eq: "set_top (stack_of C) v h = set_link (place C) (dir_of C) v h"
  by (cases C rule: place.cases) (simp_all add: set_top_def)

lemma stack_link: "stack_of C = (q, d) # pa \<Longrightarrow> stored h C p \<Longrightarrow> get_link q d h = Inr p"
  by (cases C rule: place.cases) auto

lemma push_stack:
  assumes "stack_of C = (q, d) # pa" and "length C \<le> 91"
  shows "push q d pa = Inr (stack_of C)"
proof -
  have "length pa = length C" using arg_cong [OF assms(1), of length] by simp
  then show ?thesis using assms by (simp add: push_def AVL_MAX_HEIGHT_def)
qed

lemma remove_descend_ok:
  assumes "holds h (plug C T)" and "orders key compar" and "increasing key (ids (plug C T))" and "apart key (key item) C"
    and "height T < fuel" and "length C + height T \<le> 91"
    and "stack_of C = (q, 0 < cmp) # pa"
  shows "(\<exists>D l p b r. plug D (Node l (p, b) r) = plug C T \<and> key p = key item \<and>
      remove_descend fuel compar item h q cmp pa = Inr (Some (stack_of D, p))) \<or>
    ((\<forall>p \<in> set (ids (plug C T)). key p \<noteq> key item) \<and> remove_descend fuel compar item h q cmp pa = Inr None)"
  using assms
proof (induction T arbitrary: C fuel q cmp pa)
  case Leaf
  obtain n where n: "fuel = Suc n" using Leaf.prems(5) by (cases fuel) auto
  have "push q (0 < cmp) pa = Inr (stack_of C)" using Leaf.prems(6) by (intro push_stack Leaf.prems(7)) simp
  moreover have "get_link q (0 < cmp) h = Inr None" using Leaf.prems(1) by (intro stack_link [OF Leaf.prems(7)]) (simp add: holds_plug)
  moreover have "\<forall>p \<in> set (ids (plug C Leaf)). key p \<noteq> key item" using apart_in [OF Leaf.prems(4), of _ Leaf] by fastforce
  ultimately show ?case by (simp add: n)
next
  case (Node l ab r)
  obtain a b where ab: "ab = (a, b)" by (cases ab)
  obtain n where n: "fuel = Suc n" using Node.prems(5) by (cases fuel) auto
  note o = ordersD [OF Node.prems(2), of item a]
  have push: "push q (0 < cmp) pa = Inr (stack_of C)" using Node.prems(6) by (intro push_stack Node.prems(7)) simp
  have link: "get_link q (0 < cmp) h = Inr (Some a)" using Node.prems(1) by (intro stack_link [OF Node.prems(7)]) (simp add: holds_plug ab)
  show ?case
  proof (cases "key item = key a")
    case True
    then have "remove_descend fuel compar item h q cmp pa = Inr (Some (stack_of C, a))" using push link o(3) by (simp add: n)
    then show ?thesis using True by (intro disjI1 exI [of _ C] exI [of _ l] exI [of _ a] exI [of _ b] exI [of _ r]) (simp add: ab)
  next
    case False
    define d where "d = (0 < compar item a)"
    define T' where "T' = (if d then r else l)"
    define S where "S = (if d then l else r)"
    have T: "Node l ab r = nd d T' a b S" by (simp add: nd_def ab T'_def S_def)
    let ?C = "(d, a, b, S) # C"
    have whole: "plug C (Node l ab r) = plug ?C T'" by (simp add: T)
    have side: "if d then key a < key item else key item < key a" using False o(2) by (auto simp: d_def)
    have ap: "apart key (key item) ?C"
      by (rule apart_Cons [OF Node.prems(4) _ side, of T']) (use Node.prems(3) in \<open>simp only: T\<close>)
    have ht: "Suc (height T') \<le> height (Node l ab r)" by (simp add: T'_def)
    have st: "stack_of ?C = (Element a, 0 < compar item a) # stack_of C" by (simp add: d_def)
    have len: "height T' < n" "length ?C + height T' \<le> 91" using Node.prems(5,6) ht n by auto
    have step: "remove_descend fuel compar item h q cmp pa = remove_descend n compar item h (Element a) (compar item a) (stack_of C)"
      using push link o(3) False by (simp add: n)
    note pr = Node.prems(1) [unfolded whole] Node.prems(2) Node.prems(3) [unfolded whole] ap len st
    show ?thesis
    proof (cases d)
      case True
      then have "T' = r" by (simp add: T'_def)
      then show ?thesis unfolding step whole using pr by (simp only:) (rule Node.IH(2))
    next
      case False
      then have "T' = l" by (simp add: T'_def)
      then show ?thesis unfolding step whole using pr by (simp only:) (rule Node.IH(1))
    qed
  qed
qed

lemma tree_at_sub: "tree_at h (plug C t) \<Longrightarrow> tree_at h t"
  by (induction C t rule: plug.induct) auto

lemma tree_at_plug:
  assumes "tree_at h (plug C t)" and "tree_at h' t'" and "ptr t' = ptr t" and "\<And>a. a \<in> set (cids C) \<Longrightarrow> avl_elements h' a = avl_elements h a"
  shows "tree_at h' (plug C t')"
  using assms
proof (induction C t arbitrary: t' rule: plug.induct)
  case (2 d a b s C t)
  have "tree_at h (nd d t a b s)" using 2(2) unfolding plug.simps by (rule tree_at_sub)
  moreover have "tree_at h' s = tree_at h s" using 2(5) by (intro tree_at_cong) auto
  ultimately have "tree_at h' (nd d t' a b s)" using 2(3-5) by simp
  then show ?case using 2(1) [of "nd d t' a b s"] 2(2,5) by (simp only: plug.simps nd_simps(1) cids.simps) simp
qed simp

definition entry :: "frame \<Rightarrow> avl_place \<times> bool" where
  "entry f = (Element (fst (snd f)), fst f)"

lemma stack_of_entries: "stack_of (C @ D) = map entry C @ stack_of D"
  by (induction C rule: stack_of.induct) (auto simp: entry_def)

lemma leftmost_ok:
  assumes "tree_at h (Node L (a, b) X)" and "L \<noteq> Leaf" and "height L \<le> fuel" and "length pa + height L \<le> 92"
  shows "\<exists>f E s bs sr. Node L (a, b) X = plug (f # E) (Node Leaf (s, bs) sr) \<and> (\<forall>g \<in> set (f # E). \<not> fst g) \<and>
    leftmost fuel a h pa = Inr (fst (snd f), s, map entry (f # E) @ pa)"
  using assms
proof (induction L arbitrary: a b X fuel pa)
  case (Node L ab Y)
  obtain c bc where ab: "ab = (c, bc)" by (cases ab)
  obtain n where n: "fuel = Suc n" using Node.prems(3) by (cases fuel) auto
  have e: "get_link (Element a) False h = Inr (Some c)" "get_link (Element c) False h = Inr (ptr L)" "tree_at h (Node L (c, bc) Y)"
    using Node.prems(1) by (simp_all add: ab)
  let ?pa = "(Element a, False) # pa"
  have push: "push (Element a) False pa = Inr ?pa" using Node.prems(4) by (simp add: push_def AVL_MAX_HEIGHT_def)
  show ?case
  proof (cases "L = Leaf")
    case True
    then have "leftmost fuel a h pa = Inr (a, c, ?pa)" using push e by (simp add: n deref_def del: get_link.simps)
    then show ?thesis
      by (intro exI [of _ "(False, a, b, X)"] exI [of _ "[]"] exI [of _ c] exI [of _ bc] exI [of _ Y]) (simp add: nd_def ab True entry_def)
  next
    case False
    then obtain x where "ptr L = Some x" by (cases L) auto
    then have step: "leftmost fuel a h pa = leftmost n c h ?pa" using push e by (simp add: n deref_def del: get_link.simps)
    have "height L \<le> n" "length ?pa + height L \<le> 92" using Node.prems(3,4) n by auto
    from Node.IH(1) [OF e(3) False this] obtain f E s bs sr where
      E: "Node L (c, bc) Y = plug (f # E) (Node Leaf (s, bs) sr)" "\<forall>g \<in> set (f # E). \<not> fst g"
        "leftmost n c h ?pa = Inr (fst (snd f), s, map entry (f # E) @ ?pa)" by blast
    have "Node (Node L ab Y) (a, b) X = plug (f # E @ [(False, a, b, X)]) (Node Leaf (s, bs) sr)"
      using E(1) plug_append [of "f # E" "[(False, a, b, X)]"] by (simp add: ab nd_def)
    then show ?thesis using E(2,3) step
      by (intro exI [of _ f] exI [of _ "E @ [(False, a, b, X)]"] exI [of _ s] exI [of _ bs] exI [of _ sr]) (simp add: entry_def)
  qed
qed simp

lemma put_put_other: "a \<noteq> c \<Longrightarrow> put_element a e (put_element c f (put_element a g h)) = put_element a e (put_element c f h)"
  by (auto simp: put_element_def fun_eq_iff)

lemma ptr_plug_cong: "ptr t = ptr t' \<Longrightarrow> ptr (plug C t) = ptr (plug C t')"
  by (induction C t arbitrary: t' rule: plug.induct) auto

lemma lefts_straight: "\<forall>g \<in> set C. \<not> fst g \<Longrightarrow> lefts C = []"
  by (induction C rule: lefts.induct) auto

text \<open>
  What is left after an element has been taken out: a context and a subtree that is one level lower than
  the balances of the context say.
\<close>

definition lowered :: "frame list \<Rightarrow> atree \<Rightarrow> bool" where
  "lowered C S \<longleftrightarrow> avl S \<and> (\<exists>G. avl (plug C G) \<and> height G = Suc (height S))"

lemma remove_unlink_deep:
  assumes "holds h (plug C (Node l (p, b) (Node L (a, ba) rr)))" and "avl (plug C (Node l (p, b) (Node L (a, ba) rr)))" and "L \<noteq> Leaf"
    and "height (Node L (a, ba) rr) \<le> fuel" and "length C + height (Node L (a, ba) rr) \<le> 90"
  shows "\<exists>h' D S. remove_unlink fuel (stack_of C) p h = Inr (stack_of D, h') \<and> holds h' (plug D S) \<and> lowered D S \<and>
    ids (plug D S) = lefts C @ ids l @ ids (Node L (a, ba) rr) @ rights C \<and>
    touches (fst ` set_tree (plug C (Node l (p, b) (Node L (a, ba) rr)))) h h'"
proof -
  define r where "r = Node L (a, ba) rr"
  let ?T = "Node l (p, b) r"
  have T: "avl ?T" using assms(2) unfolding r_def by (rule avl_plug_sub)
  have t: "tree_at h ?T" "distinct (ids ?T)" "tree_at h r" "tree_at h l" using assms(1) by (simp_all add: holds_plug r_def)
  have p: "avl_elements h p = Some \<lparr>avl_link0 = ptr l, avl_link1 = Some a, avl_balance = b\<rparr>" using t(1) by (simp add: r_def)
  have fresh: "p \<notin> fst ` set_tree l" "p \<notin> fst ` set_tree r" "distinct (ids l)" "distinct (ids r)" "fst ` set_tree l \<inter> fst ` set_tree r = {}"
    using t(2) by auto
  have "height L \<le> fuel" "length ((Element p, True) # stack_of C) + height L \<le> 92" using assms(4,5) by auto
  from leftmost_ok [OF t(3) [unfolded r_def] assms(3) this] obtain f E s bs sr where
    E: "r = plug (f # E) (Node Leaf (s, bs) sr)" "\<forall>g \<in> set (f # E). \<not> fst g"
      "leftmost fuel a h ((Element p, True) # stack_of C) = Inr (fst (snd f), s, map entry (f # E) @ (Element p, True) # stack_of C)"
    unfolding r_def by blast
  obtain q bq rq where f: "f = (False, q, bq, rq)" using E(2) by (cases f) auto
  let ?S = "Node Leaf (s, bs) sr" and ?R = "plug (f # E) sr" and ?D = "(f # E) @ (True, s, b, l) # C"
  let ?h = "put_element s (elem True (Some a) (ptr l) b) (put_element q (elem False (ptr sr) (ptr rq) bq) h)"
  have ids: "ids (nd True ?R s b l) = ids l @ ids r" using plug_inorder [of "f # E" sr] plug_inorder [of "f # E" ?S] lefts_straight [OF E(2)]
    by (simp add: E(1) nd_def del: plug.simps lefts.simps rights.simps)
  have tr: "tree_at h (nd False ?S q bq rq)" using t(3) unfolding E(1) f plug.simps by (rule tree_at_sub)
  have eq: "avl_elements h q = Some (elem False (Some s) (ptr rq) bq)" "avl_elements h s = Some (elem False None (ptr sr) bs)"
    using tr by (simp_all add: elem_def)
  have new: "q \<noteq> s" "q \<noteq> p" "s \<noteq> p" "s \<notin> set (cids E)" "q \<notin> set (cids E)" "q \<notin> fst ` set_tree sr" "s \<notin> fst ` set_tree sr"
    "q \<notin> fst ` set_tree rq" "s \<notin> fst ` set_tree rq" "s \<notin> fst ` set_tree l" "q \<notin> fst ` set_tree l"
    using fresh by (auto simp: E(1) f plug_distinct)
  have "tree_at ?h (nd False sr q bq rq)" using tr new by simp
  then have "tree_at ?h (plug E (nd False sr q bq rq))"
    by (rule tree_at_plug [OF t(3) [unfolded E(1) f plug.simps]]) (use new in auto)
  then have "tree_at ?h ?R" by (simp only: f plug.simps)
  moreover have "ptr ?R = ptr r" using ptr_plug_cong [of "nd False sr q bq rq" "nd False ?S q bq rq" E] by (simp add: E(1) f)
  ultimately have st: "tree_at ?h (nd True ?R s b l)" using t(4) new by (simp add: r_def)
  have in_r: "q \<in> fst ` set_tree r" "s \<in> fst ` set_tree r" by (simp_all add: E(1) f)
  then have ch: "changes (fst ` set_tree ?T) h ?h" by (auto simp: changes_def)
  have ds: "distinct (ids (nd True ?R s b l))" unfolding ids using fresh by auto
  have "set (ids (nd True ?R s b l)) \<subseteq> set (ids ?T)" unfolding ids by auto
  then have "fst ` set_tree (nd True ?R s b l) \<subseteq> fst ` set_tree ?T" by (simp only: set_map set_inorder)
  from holds_relink [OF assms(1) [folded r_def] ch st ds this] obtain h' where
    h: "set_link (place C) (dir_of C) (Some s) ?h = Inr h'" "holds h' (plug C (nd True ?R s b l))" "touches (fst ` set_tree (plug C ?T)) h h'"
    unfolding nd_simps(1) by blast
  obtain x where x: "avl_elements h a = Some \<lparr>avl_link0 = Some x, avl_link1 = ptr rr, avl_balance = ba\<rparr>" using t(3) assms(3) by (cases L) (auto simp: r_def)
  have "remove_unlink fuel (stack_of C) p h = Inr (stack_of ?D, h')"
    using p x E(3) eq new h(1)
    by (simp add: remove_unlink_def f set_top_eq get_balance_def set_balance_def elem_def put_put_other stack_of_entries list_update_append entry_def
        del: rbind_Inr_iff)
  moreover have "avl (Node l (s, b) r)" "height (Node l (s, b) r) = height ?T" using T by auto
  then have "avl (plug C (Node l (s, b) r))" using avl_plug_same [OF assms(2) [folded r_def]] by blast
  then have "avl (plug ?D ?S)" unfolding E(1) by (simp only: plug_append plug.simps nd_def) simp
  then have "lowered ?D sr" using avl_plug_sub unfolding lowered_def by (intro conjI exI [of _ ?S]) fastforce+
  moreover have "plug ?D sr = plug C (nd True ?R s b l)" by (simp only: plug_append plug.simps)
  ultimately show ?thesis using h(2,3) ids unfolding r_def [symmetric]
    by (intro exI [of _ h'] exI [of _ ?D] exI [of _ sr]) (simp add: plug_inorder [of C])
qed

lemma remove_unlink_ok:
  assumes "holds h (plug C (Node l (p, b) r))" and "avl (plug C (Node l (p, b) r))" and "height r \<le> fuel" and "length C + height r \<le> 90"
  shows "\<exists>h' D S. remove_unlink fuel (stack_of C) p h = Inr (stack_of D, h') \<and> holds h' (plug D S) \<and> lowered D S \<and>
    ids (plug D S) = lefts C @ ids l @ ids r @ rights C \<and> touches (fst ` set_tree (plug C (Node l (p, b) r))) h h'"
proof -
  let ?T = "Node l (p, b) r"
  have T: "avl ?T" using assms(2) by (rule avl_plug_sub)
  have t: "tree_at h ?T" "distinct (ids ?T)" using assms(1) by (simp_all add: holds_plug)
  have p: "avl_elements h p = Some \<lparr>avl_link0 = ptr l, avl_link1 = ptr r, avl_balance = b\<rparr>" using t(1) by simp
  have fresh: "p \<notin> fst ` set_tree l" "p \<notin> fst ` set_tree r" "distinct (ids l)" "distinct (ids r)" "fst ` set_tree l \<inter> fst ` set_tree r = {}"
    using t(2) by auto
  consider "r = Leaf" | a ba rr where "r = Node Leaf (a, ba) rr" | L a ba rr where "r = Node L (a, ba) rr" "L \<noteq> Leaf"
    by (cases r) (metis prod.collapse)+
  then show ?thesis
  proof cases
    case 1
    have "changes (fst ` set_tree ?T) h h" by (simp add: changes_def)
    from holds_relink [OF assms(1) this, of l] t(1) fresh(3) obtain h' where
      h: "set_link (place C) (dir_of C) (ptr l) h = Inr h'" "holds h' (plug C l)" "touches (fst ` set_tree (plug C ?T)) h h'" by auto
    have "remove_unlink fuel (stack_of C) p h = Inr (stack_of C, h')"
      using p h(1) 1 by (simp add: remove_unlink_def set_top_eq del: rbind_Inr_iff)
    moreover have "lowered C l" using assms(2) T 1 by (auto simp: lowered_def intro: exI [of _ ?T])
    ultimately show ?thesis using h(2,3) 1 by (intro exI [of _ h'] exI [of _ C] exI [of _ l]) (simp add: plug_inorder)
  next
    case 2
    let ?R = "nd True rr a b l" and ?h = "put_element a \<lparr>avl_link0 = ptr l, avl_link1 = ptr rr, avl_balance = b\<rparr> h"
    have a: "a \<noteq> p" "a \<notin> fst ` set_tree l" "a \<notin> fst ` set_tree rr" "distinct (ids rr)" "fst ` set_tree l \<inter> fst ` set_tree rr = {}" using fresh 2 by auto
    have ea: "avl_elements h a = Some \<lparr>avl_link0 = None, avl_link1 = ptr rr, avl_balance = ba\<rparr>" "tree_at h l" "tree_at h rr" using t(1) 2 by simp_all
    have "changes (fst ` set_tree ?T) h ?h" by (auto simp: changes_def 2)
    moreover have "tree_at ?h ?R" using a(2,3) ea by (simp add: elem_def)
    moreover have "distinct (ids ?R)" "fst ` set_tree ?R \<subseteq> fst ` set_tree ?T" using a fresh(3) 2 by auto
    ultimately obtain h' where
      h: "set_link (place C) (dir_of C) (Some a) ?h = Inr h'" "holds h' (plug C ?R)" "touches (fst ` set_tree (plug C ?T)) h h'"
      using holds_relink [OF assms(1), of ?h ?R] by auto
    have "push (Element a) True (stack_of C) = Inr (stack_of ((True, a, b, l) # C))" using assms(4) 2 by (intro push_stack) simp_all
    then have "remove_unlink fuel (stack_of C) p h = Inr (stack_of ((True, a, b, l) # C), h')"
      using p ea(1) h(1) a(1) 2 by (simp add: remove_unlink_def set_top_eq get_balance_def set_balance_def del: rbind_Inr_iff)
    moreover have "avl (Node l (a, b) r)" "height (Node l (a, b) r) = height ?T" using T by auto
    then have "avl (plug C (Node l (a, b) r))" using avl_plug_same [OF assms(2)] by blast
    then have "lowered ((True, a, b, l) # C) rr" using T 2 by (auto simp: lowered_def nd_def intro: exI [of _ r])
    ultimately show ?thesis using h(2,3) 2
      by (intro exI [of _ h'] exI [of _ "(True, a, b, l) # C"] exI [of _ rr]) (simp add: plug_inorder nd_def)
  next
    case 3
    show ?thesis using remove_unlink_deep [OF assms(1) [unfolded 3(1)] assms(2) [unfolded 3(1)] 3(2)] assms(3,4) unfolding 3(1) by blast
  qed
qed

lemma holds_set_balance:
  assumes "holds h (plug C (nd d t a b s))"
  shows "\<exists>h'. set_balance a c h = Inr h' \<and> holds h' (plug C (nd d t a c s)) \<and> touches (fst ` set_tree (plug C (nd d t a b s))) h h'"
proof -
  let ?T = "nd d t a b s" and ?T' = "nd d t a c s"
  have "tree_at h ?T" "distinct (ids ?T)" using assms by (simp_all add: holds_plug)
  from set_balance_ok [OF this] obtain h' where h: "set_balance a c h = Inr h'" "tree_at h' ?T'" "changes {a} h h'" by blast
  have "changes (fst ` set_tree ?T) h h'" using h(3) by (auto simp: changes_def)
  from holds_exchange [OF assms this h(2)] \<open>distinct (ids ?T)\<close> have "holds h' (plug C ?T')" by auto
  moreover have "touches (fst ` set_tree (plug C ?T)) h h'" using changes_touches [OF h(3)] by (rule touches_mono) auto
  ultimately show ?thesis using h(1) by blast
qed

lemma holds_set_inner_balance:
  assumes "holds h (plug C (nd e A x bx (nd e B y b S)))"
  shows "\<exists>h'. set_balance y c h = Inr h' \<and> holds h' (plug C (nd e A x bx (nd e B y c S))) \<and>
    touches (fst ` set_tree (plug C (nd e A x bx (nd e B y b S)))) h h'"
  using holds_set_balance [of h "(\<not> e, x, bx, A) # C" e B y b S c] assms by (simp only: plug.simps nd_not)

lemma ids_same: "ids t' = ids t \<Longrightarrow> fst ` set_tree t' = fst ` set_tree t"
  by (metis set_inorder set_map)

lemma remove_rotate_ok:
  assumes "holds h (plug C (nd (\<not> d) s y b S))" and "avl S" and "avl s" and "height s = height S + 2"
  shows "\<exists>h' T' lower. remove_rotate d y (stack_of C) h = Inr (lower, h') \<and> holds h' (plug C T') \<and> avl T' \<and>
    height T' = (if lower then height S + 2 else height S + 3) \<and> ids T' = ids (nd (\<not> d) s y b S) \<and>
    touches (fst ` set_tree (plug C (nd (\<not> d) s y b S))) h h'"
proof -
  define e where "e = (\<not> d)"
  have d: "d = (\<not> e)" by (simp add: e_def)
  let ?T = "nd e s y b S"
  have "s \<noteq> Leaf" using assms(4) by auto
  then obtain A x bx B where s: "s = nd e A x bx B" by (rule nd_cases)
  have hT: "holds h (plug C ?T)" using assms(1) by (simp add: e_def)
  then have t: "tree_at h ?T" "distinct (ids ?T)" by (simp_all add: holds_plug)
  have bx: "bx = side e * (int (height A) - int (height B))" "\<bar>bx\<bar> \<le> 1" "avl A" "avl B" using assms(3) by (auto simp: s)
  have x: "avl_elements h x = Some (elem e (ptr A) (ptr B) bx)" "avl_elements h y = Some (elem e (Some x) (ptr S) b)" using t(1) by (simp_all add: s)
  show ?thesis
  proof (cases "bx = - side e")
    case True
    then have h: "height B = Suc (height A)" using bx(1) side_cases [of e] by auto
    then have "B \<noteq> Leaf" by auto
    then obtain P w bw Q where B: "B = nd e P w bw Q" by (rule nd_cases)
    define T' where "T' = nd e (nd e A x (if bw = side e \<or> bw = 0 then 0 else side e) P) w 0 (nd e Q y (if bw = side e then - side e else 0) S)"
    from double_rotation_ok [OF t [unfolded s B]] obtain h1 where
      h1: "double_rotation e y x h = Inr (w, h1)" "changes {x, y, w} h h1" "tree_at h1 T'" unfolding T'_def by blast
    have "changes (fst ` set_tree ?T) h h1" using h1(2) by (auto simp: changes_def s B)
    moreover have "bw = side e * (int (height P) - int (height Q))" "\<bar>bw\<bar> \<le> 1" "avl P" "avl Q" using bx(4) by (auto simp: B)
    then have av: "avl T'" "height T' = height S + 2" using h bx(3) assms(2,4) unfolding T'_def by (cases e; auto simp: s B side_def)+
    have i: "ids T' = ids ?T" unfolding T'_def by (cases e) (simp_all add: nd_def s B)
    have "ptr T' = Some w" unfolding T'_def by simp
    moreover have "distinct (ids T')" using t(2) unfolding i .
    ultimately obtain h2 where
      h2: "set_link (place C) (dir_of C) (Some w) h1 = Inr h2" "holds h2 (plug C T')" "touches (fst ` set_tree (plug C ?T)) h h2"
      using holds_relink [OF hT _ h1(3) _ equalityD1 [OF ids_same [OF i]]] by metis
    have "remove_rotate d y (stack_of C) h = Inr (True, h2)"
      using x h1(1) h2(1) True by (simp add: remove_rotate_def d set_top_eq deref_def get_balance_def del: rbind_Inr_iff)
    then show ?thesis using h2(2,3) av i unfolding e_def [symmetric] by (intro exI [of _ h2] exI [of _ T'] exI [of _ True]) simp
  next
    case False
    then have h: "height A = (if bx = 0 then height B else Suc (height B))" using bx(1,2) side_cases [of e] by (auto split: if_splits)
    let ?T1 = "nd e A x bx (nd e B y b S)"
    from single_rotation_ok [OF t [unfolded s]] obtain h1 where
      h1: "single_rotation e y x h = Inr h1" "tree_at h1 ?T1" "changes {x, y} h h1" by blast
    have "changes (fst ` set_tree ?T) h h1" using h1(3) by (auto simp: changes_def s)
    have i: "ids ?T1 = ids ?T" by (cases e) (simp_all add: nd_def s)
    have ch: "changes (fst ` set_tree ?T) h h1" using h1(3) by (auto simp: changes_def s)
    have "distinct (ids ?T1)" using t(2) unfolding i .
    from holds_relink [OF hT ch h1(2) this equalityD1 [OF ids_same [OF i]]] obtain h2 where
      h2: "set_link (place C) (dir_of C) (Some x) h1 = Inr h2" "holds h2 (plug C ?T1)" "touches (fst ` set_tree (plug C ?T)) h h2"
      unfolding nd_simps(1) by blast
    have same: "fst ` set_tree (plug C ?T1) = fst ` set_tree (plug C ?T)" by (simp add: s) blast
    have run: "remove_rotate d y (stack_of C) h =
        (if bx = 0 then rbind (set_balance x (side d) h2) (\<lambda>t. rbind (set_balance y (- side d) t) (\<lambda>t. Inr (False, t)))
         else rbind (set_balance y 0 h2) (\<lambda>t. rbind (set_balance x 0 t) (\<lambda>t. Inr (True, t))))"
      using x h1(1) h2(1) False by (simp add: remove_rotate_def d set_top_eq deref_def get_balance_def del: rbind_Inr_iff)
    show ?thesis
    proof (cases "bx = 0")
      case True
      from holds_set_balance [OF h2(2)] obtain h3 where
        h3: "set_balance x (side d) h2 = Inr h3" "holds h3 (plug C (nd e A x (side d) (nd e B y b S)))" "touches (fst ` set_tree (plug C ?T1)) h2 h3" by blast
      from holds_set_inner_balance [OF h3(2)] obtain h4 where
        h4: "set_balance y (- side d) h3 = Inr h4" "holds h4 (plug C (nd e A x (side d) (nd e B y (- side d) S)))"
          "touches (fst ` set_tree (plug C (nd e A x (side d) (nd e B y b S)))) h3 h4" by blast
      let ?T' = "nd e A x (side d) (nd e B y (- side d) S)"
      have "remove_rotate d y (stack_of C) h = Inr (False, h4)" using run True h3(1) h4(1) by (simp del: rbind_Inr_iff)
      moreover have "avl ?T' \<and> height ?T' = height S + 3" using h True bx(3,4) assms(2,4) side_cases [of e] by (auto simp: d s)
      moreover have "ids ?T' = ids ?T" by (cases e) (simp_all add: nd_def s)
      moreover have "touches (fst ` set_tree (plug C ?T)) h h4"
        by (rule touches_trans [OF h2(3) touches_trans [OF h3(3) h4(3) order_refl]]) (auto simp: s)
      ultimately show ?thesis using h4(2) unfolding e_def [symmetric] by (intro exI [of _ h4] exI [of _ ?T'] exI [of _ False] conjI) auto
    next
      case nz: False
      from holds_set_inner_balance [OF h2(2)] obtain h3 where
        h3: "set_balance y 0 h2 = Inr h3" "holds h3 (plug C (nd e A x bx (nd e B y 0 S)))" "touches (fst ` set_tree (plug C ?T1)) h2 h3" by blast
      from holds_set_balance [OF h3(2)] obtain h4 where
        h4: "set_balance x 0 h3 = Inr h4" "holds h4 (plug C (nd e A x 0 (nd e B y 0 S)))"
          "touches (fst ` set_tree (plug C (nd e A x bx (nd e B y 0 S)))) h3 h4" by blast
      let ?T' = "nd e A x 0 (nd e B y 0 S)"
      have "remove_rotate d y (stack_of C) h = Inr (True, h4)" using run nz h3(1) h4(1) by (simp del: rbind_Inr_iff)
      moreover have "avl ?T' \<and> height ?T' = height S + 2" using h nz bx(3,4) assms(2,4) by (auto simp: s)
      moreover have "ids ?T' = ids ?T" by (cases e) (simp_all add: nd_def s)
      moreover have "touches (fst ` set_tree (plug C ?T)) h h4"
        by (rule touches_trans [OF h2(3) touches_trans [OF h3(3) h4(3) order_refl]]) (auto simp: s)
      ultimately show ?thesis using h4(2) unfolding e_def [symmetric] by (intro exI [of _ h4] exI [of _ ?T'] exI [of _ True] conjI) auto
    qed
  qed
qed

lemma remove_rebalance_ok:
  assumes "holds h (plug C S)" and "lowered C S"
  shows "\<exists>h' t'. remove_rebalance (stack_of C) h = Inr h' \<and> holds h' t' \<and> avl t' \<and> ids t' = ids (plug C S) \<and>
    touches (fst ` set_tree (plug C S)) h h'"
  using assms
proof (induction C arbitrary: S h)
  case Nil
  then show ?case by (auto simp: lowered_def)
next
  case (Cons f C)
  obtain d y b s where f: "f = (d, y, b, s)" by (cases f)
  obtain q pa where st: "stack_of C = q # pa" by (cases C rule: place.cases) auto
  from Cons.prems(2) obtain G where G: "avl S" "avl (plug C (nd d G y b s))" "height G = Suc (height S)" by (auto simp: lowered_def f)
  have "avl (nd d G y b s)" using G(2) by (rule avl_plug_sub)
  then have b: "b = side d * (int (height G) - int (height s))" "\<bar>b\<bar> \<le> 1" "avl s" by auto
  let ?T = "nd d S y (b - side d) s" and ?all = "fst ` set_tree (plug C (nd d S y b s))"
  have hT: "holds h (plug C (nd d S y b s))" using Cons.prems(1) by (simp add: f)
  from holds_set_balance [OF this] obtain h1 where
    h1: "set_balance y (b - side d) h = Inr h1" "holds h1 (plug C ?T)" "touches ?all h h1" by blast
  have ids: "ids (plug C ?T) = ids (plug C (nd d S y b s))" by (simp add: plug_inorder nd_def)
  have run: "remove_rebalance (stack_of (f # C)) h =
      (if b = 0 then Inr h1
       else if b = - side d then rbind (remove_rotate d y (stack_of C) h1) (\<lambda>(lower, t). if lower then remove_rebalance (stack_of C) t else Inr t)
       else remove_rebalance (stack_of C) h1)"
    using hT h1(1) side_cases [of d] unfolding f stack_of.simps st by (auto simp: holds_plug get_balance_def element_of_def simp del: rbind_Inr_iff)
  have up: "\<exists>h' t'. remove_rebalance (stack_of C) h2 = Inr h' \<and> holds h' t' \<and> avl t' \<and> ids t' = ids (plug C (nd d S y b s)) \<and> touches ?all h h'"
    if "holds h2 (plug C T')" "avl T'" "height (nd d G y b s) = Suc (height T')" "ids T' = ids ?T" "touches ?all h h2" for h2 T'
  proof -
    have i: "ids (plug C T') = ids (plug C (nd d S y b s))" using ids that(4) by (simp add: plug_inorder)
    have "lowered C T'" using that(2,3) G(2) by (auto simp: lowered_def)
    from Cons.IH [OF that(1) this] show ?thesis using touches_trans [OF that(5)] unfolding i ids_same [OF i] by blast
  qed
  consider "b = 0" | "b = side d" | "b = - side d" using b(2) side_cases [of d] by linarith
  then show ?case
  proof cases
    case 1
    have "height G = height s" using 1 b(1) by simp
    then have "avl ?T" "height ?T = height (nd d G y b s)" using G(1,3) b(3) 1 side_cases [of d] by auto
    then have "avl (plug C ?T)" using avl_plug_same [OF G(2)] by blast
    then show ?thesis using run 1 h1(2,3) ids by (intro exI [of _ h1] exI [of _ "plug C ?T"]) (simp add: f)
  next
    case 2
    then have "height G = Suc (height s)" using b(1) side_cases [of d] by auto
    then have "avl ?T" "height (nd d G y b s) = Suc (height ?T)" using G(1,3) b(3) 2 by auto
    from up [OF h1(2) this refl h1(3)] show ?thesis using run 2 side_cases [of d] by (auto simp: f)
  next
    case 3
    then have hs: "height s = Suc (height G)" using b(1) side_cases [of d] by auto
    then have "height s = height S + 2" using G(3) by simp
    moreover have "holds h1 (plug C (nd (\<not> d) s y (b - side d) S))" using h1(2) by (simp only: nd_not)
    ultimately obtain h2 T' lower where
      h2: "remove_rotate d y (stack_of C) h1 = Inr (lower, h2)" "holds h2 (plug C T')" "avl T'"
        "height T' = (if lower then height S + 2 else height S + 3)" "ids T' = ids ?T" "touches (fst ` set_tree (plug C ?T)) h1 h2"
      using remove_rotate_ok [of h1 C d s y "b - side d" S] G(1) b(3) unfolding nd_not by blast
    have t2: "touches ?all h h2" using touches_trans [OF h1(3) h2(6), of ?all] unfolding ids_same [OF ids] by simp
    show ?thesis
    proof (cases lower)
      case True
      then have "height (nd d G y b s) = Suc (height T')" using h2(4) hs G(3) by simp
      from up [OF h2(2,3) this h2(5) t2] show ?thesis using run 3 h2(1) True by (simp add: f del: rbind_Inr_iff)
    next
      case False
      then have "height T' = height (nd d G y b s)" using h2(4) hs G(3) by simp
      then have "avl (plug C T')" using avl_plug_same [OF G(2) h2(3)] by blast
      moreover have "ids (plug C T') = ids (plug C (nd d S y b s))" using ids h2(5) by (simp add: plug_inorder)
      ultimately show ?thesis using run 3 h2(1,2) t2 False by (intro exI [of _ h2] exI [of _ "plug C T'"]) (simp add: f del: rbind_Inr_iff)
    qed
  qed
qed

lemma avl_remove_found:
  assumes "search_tree key h t" and "orders key compar" and "height t \<le> 91" and "height t < fuel" and "p \<in> set (ids t)" and "key p = key item"
  shows "\<exists>h' t'. avl_remove fuel compar item h = Inr (Some p, h') \<and> search_tree key h' t' \<and> ids t' = remove1 p (ids t) \<and> touches (set (ids t)) h h'"
proof -
  have s: "holds h t" "avl t" "increasing key (ids t)" using assms(1) by (simp_all add: search_tree_def)
  have st: "stack_of [] = (Root_Cell, 0 < (- 1 :: int)) # []" by simp
  from remove_descend_ok [of h "[]" t key compar item fuel, OF _ assms(2) _ _ assms(4) _ st] s assms(3,5,6) obtain D l q b r where
    D: "plug D (Node l (q, b) r) = t" "key q = key item" "remove_descend fuel compar item h Root_Cell (- 1) [] = Inr (Some (stack_of D, q))"
    by auto
  have "q \<in> set (ids t)" unfolding D(1) [symmetric] by simp
  then have q: "q = p" using increasing_inj [OF s(3) _ assms(5)] D(2) assms(6) by simp
  have "length D + height (Node l (q, b) r) \<le> height t" using plug_height [of D "Node l (q, b) r"] D(1) by simp
  then have "height r \<le> fuel" "length D + height r \<le> 90" using assms(3,4) by auto
  from remove_unlink_ok [of h D l q b r, unfolded D(1), OF s(1,2) this] obtain h1 E S where
    u: "remove_unlink fuel (stack_of D) q h = Inr (stack_of E, h1)" "holds h1 (plug E S)" "lowered E S"
      "ids (plug E S) = lefts D @ ids l @ ids r @ rights D" "touches (fst ` set_tree t) h h1" by blast
  from remove_rebalance_ok [OF u(2,3)] obtain h2 t' where
    r: "remove_rebalance (stack_of E) h1 = Inr h2" "holds h2 t'" "avl t'" "ids t' = ids (plug E S)" "touches (fst ` set_tree (plug E S)) h1 h2" by blast
  have t: "ids t = (lefts D @ ids l) @ p # ids r @ rights D" using plug_inorder [of D "Node l (q, b) r"] D(1) q by simp
  have "p \<notin> set (lefts D @ ids l)" using s(1) t by (simp add: holds_def)
  then have i: "ids t' = remove1 p (ids t)" unfolding r(4) u(4) t by (simp add: remove1_append)
  have "increasing key (ids t')" using s(3) t u(4) r(4) by (auto simp: increasing_def sorted_wrt_append)
  moreover have "avl_remove fuel compar item h = Inr (Some p, h2)" using D(3) u(1) r(1) q by (simp add: avl_remove_def del: rbind_Inr_iff)
  moreover have "set (ids (plug E S)) \<subseteq> set (ids t)" unfolding u(4) t by auto
  then have "touches (set (ids t)) h h2" using touches_trans [OF u(5) r(5), of "set (ids t)"] by (simp only: set_map set_inorder Un_subset_iff) simp
  ultimately show ?thesis using r(2,3) i unfolding search_tree_def by blast
qed

lemma avl_remove_missing:
  assumes "search_tree key h t" and "orders key compar" and "height t \<le> 91" and "height t < fuel" and "\<forall>p \<in> set (ids t). key p \<noteq> key item"
  shows "avl_remove fuel compar item h = Inr (None, h)"
proof -
  have s: "holds h t" "increasing key (ids t)" using assms(1) by (simp_all add: search_tree_def)
  have st: "stack_of [] = (Root_Cell, 0 < (- 1 :: int)) # []" by simp
  from remove_descend_ok [of h "[]" t key compar item fuel, OF _ assms(2) _ _ assms(4) _ st] s assms(3) consider
    D l q b r where "plug D (Node l (q, b) r) = t" "key q = key item"
  | "remove_descend fuel compar item h Root_Cell (- 1) [] = Inr None" by auto
  then show ?thesis
  proof cases
    case 1
    have "q \<in> set (ids t)" unfolding 1(1) [symmetric] by simp
    then show ?thesis using assms(5) 1(2) by blast
  qed (simp add: avl_remove_def)
qed

end
