(* ===== verification/Avl_Index.thy ===== *)
theory Avl_Index
  imports Avl_Remove
begin

text \<open>
  Trees as their clients see them: the order in which a traversal visits the elements, the operations
  with a lock, and the contract of an index of elements, which every history of operations meets.
\<close>

section \<open>Visiting the elements\<close>

text \<open>What a traversal amounts to on a list of elements, with the total so far.\<close>

fun visit :: "(nat \<Rightarrow> 's \<Rightarrow> (int \<times> 's) res) \<Rightarrow> nat list \<Rightarrow> int \<Rightarrow> 's \<Rightarrow> (int \<times> 's) res" where
  "visit callback [] tot s = Inr (tot, s)"
| "visit callback (x # xs) tot s =
     rbind (callback x s) (\<lambda>(ret, s). if ret < 0 then Inr (ret, s) else rbind (int_add tot ret) (\<lambda>tot. visit callback xs tot s))"

definition walk :: "nat \<Rightarrow> (nat \<Rightarrow> 's \<Rightarrow> (int \<times> 's) res) \<Rightarrow> nat option \<Rightarrow> avl_tree_type \<Rightarrow> 's \<Rightarrow> (int \<times> 's) res" where
  "walk fuel callback p h s = (case p of None \<Rightarrow> Inr (0, s) | Some a \<Rightarrow> avl_walker fuel callback a h s)"

lemma int_add_nat: "0 \<le> a \<Longrightarrow> 0 \<le> b \<Longrightarrow> a + b < 2 ^ 31 \<Longrightarrow> int_add a b = Inr (a + b)"
  by (simp add: int_add_def)

lemma walk_visits:
  assumes "tree_at h t" and "height t \<le> fuel" and "0 \<le> tot" "tot < 2 ^ 31" and "visit callback (ids t @ xs) tot s = Inr res"
  shows "\<exists>r s'. walk fuel callback (ptr t) h s = Inr (r, s') \<and>
    (if r < 0 then res = (r, s') else tot + r < 2 ^ 31 \<and> visit callback xs (tot + r) s' = Inr res)"
  using assms
proof (induction t arbitrary: fuel tot xs s)
  case Leaf
  then show ?case by (simp add: walk_def)
next
  case (Node l ab r)
  obtain n where n: "fuel = Suc n" using Node.prems(2) by (cases fuel) auto
  let ?xs = "fst ab # ids r @ xs"
  have "visit callback (ids l @ ?xs) tot s = Inr res" using Node.prems(5) by simp
  from Node.IH(1) [of n tot ?xs s, OF _ _ Node.prems(3,4) this] Node.prems(1,2) n obtain r1 s1 where
    l: "walk n callback (ptr l) h s = Inr (r1, s1)" "if r1 < 0 then res = (r1, s1) else tot + r1 < 2 ^ 31 \<and> visit callback ?xs (tot + r1) s1 = Inr res"
    by auto
  have e: "avl_elements h (fst ab) = Some \<lparr>avl_link0 = ptr l, avl_link1 = ptr r, avl_balance = snd ab\<rparr>" using Node.prems(1) by simp
  show ?case
  proof (cases "r1 < 0")
    case True
    then show ?thesis using l e by (intro exI [of _ r1] exI [of _ s1]) (simp add: n walk_def del: rbind_Inr_iff)
  next
    case pos: False
    then obtain ret s2 where c: "callback (fst ab) s1 = Inr (ret, s2)"
      "if ret < 0 then res = (ret, s2) else rbind (int_add (tot + r1) ret) (\<lambda>tot. visit callback (ids r @ xs) tot s2) = Inr res"
      using l(2) by (auto split: if_splits)
    have t1: "int_add 0 r1 = Inr r1" using pos l(2) Node.prems(3) by (simp add: int_add_def)
    show ?thesis
    proof (cases "ret < 0")
      case True
      then show ?thesis using l c e pos t1 by (intro exI [of _ ret] exI [of _ s2]) (simp add: n walk_def del: rbind_Inr_iff)
    next
      case pos2: False
      then have sum: "tot + r1 + ret < 2 ^ 31" "visit callback (ids r @ xs) (tot + r1 + ret) s2 = Inr res" using c(2) by (auto simp: int_add_def split: if_splits)
      from Node.IH(2) [of n "tot + r1 + ret" xs s2, OF _ _ _ sum] Node.prems(1-3) n pos pos2 obtain r2 s3 where
        r: "walk n callback (ptr r) h s2 = Inr (r2, s3)"
          "if r2 < 0 then res = (r2, s3) else tot + r1 + ret + r2 < 2 ^ 31 \<and> visit callback xs (tot + r1 + ret + r2) s3 = Inr res"
        by auto
      let ?fin = "\<lambda>x. case x of (q, s) \<Rightarrow> if q < 0 then Inr (q, s) else rbind (int_add (r1 + ret) q) (\<lambda>tot. Inr (tot, s))"
      have "int_add r1 ret = Inr (r1 + ret)" using sum(1) pos pos2 Node.prems(3) by (intro int_add_nat) simp_all
      then have run: "walk fuel callback (ptr (Node l ab r)) h s = (if ptr r = None then Inr (r1 + ret, s2) else ?fin (r2, s3))"
        using l(1) c(1) e pos pos2 t1 r(1) by (cases "ptr r") (simp_all add: n walk_def del: rbind_Inr_iff)
      show ?thesis
      proof (cases "ptr r")
        case None
        then have "r2 = 0" "s3 = s2" using r(1) by (simp_all add: walk_def)
        then show ?thesis using run None r(2) pos pos2 by (intro exI [of _ "r1 + ret"] exI [of _ s2]) (simp add: add.assoc)
      next
        case (Some a)
        show ?thesis
        proof (cases "r2 < 0")
          case True
          then show ?thesis using run Some r(2) by (intro exI [of _ r2] exI [of _ s3]) simp
        next
          case False
          then have "int_add (r1 + ret) r2 = Inr (r1 + ret + r2)" using r(2) pos pos2 Node.prems(3) by (intro int_add_nat) simp_all
          then show ?thesis using False Some run r(2) pos pos2 by (intro exI [of _ "r1 + ret + r2"] exI [of _ s3]) (simp add: add.assoc)
        qed
      qed
    qed
  qed
qed

section \<open>Locks\<close>

lemma fresh_lock_cycle:
  "rw_spinlock_write_lock tid rw_spinlock_init = Inr \<lparr>rw_counter = WRITER_BIT, rw_writer = tid\<rparr>"
  "rw_spinlock_write_unlock \<lparr>rw_counter = WRITER_BIT, rw_writer = tid\<rparr> = rw_spinlock_init"
  "rw_spinlock_read_lock rw_spinlock_init = Inr \<lparr>rw_counter = 1, rw_writer = 0\<rparr>"
  "rw_spinlock_read_unlock \<lparr>rw_counter = 1, rw_writer = 0\<rparr> = rw_spinlock_init"
  by (simp_all add: rw_spinlock_write_lock_def rw_spinlock_init_def rw_spinlock_write_unlock_def rw_spinlock_read_lock_def
      rw_spinlock_read_unlock_def and_WRITER_BIT)

text \<open>On a lock that nobody holds, the operations with a lock do what those without do, and release it.\<close>

lemma locked_operations:
  assumes "lk_rwlock t = rw_spinlock_init"
  shows "avl_search_lock fuel compar item t = rbind (avl_search fuel compar item (lk_tree t)) (\<lambda>r. Inr (r, t))"
    "avl_insert_lock tid fuel compar item t = rbind (avl_insert fuel compar item (lk_tree t)) (\<lambda>(r, tree). Inr (r, t\<lparr>lk_tree := tree\<rparr>))"
    "avl_remove_lock tid fuel compar item t = rbind (avl_remove fuel compar item (lk_tree t)) (\<lambda>(q, tree). Inr (q, t\<lparr>lk_tree := tree\<rparr>))"
    "avl_traverse_lock fuel callback t s = rbind (avl_traverse fuel callback (lk_tree t) s) (\<lambda>(r, s). Inr (r, s, t))"
  using assms
  by (auto simp: avl_search_lock_def avl_insert_lock_def avl_remove_lock_def avl_traverse_lock_def avl_read_lock_def avl_write_lock_def
      avl_read_unlock_def avl_write_unlock_def fresh_lock_cycle simp del: rbind_Inr_iff intro!: rbind_cong)

section \<open>An index of elements\<close>

text \<open>
  What a client of an index relies on: each operation answers as a finite map from keys to elements
  does.  The number is that of operations for which there is room.
\<close>

datatype avl_command = Insert nat | Remove nat | Search nat

fun subject :: "avl_command \<Rightarrow> nat" where
  "subject (Insert a) = a"
| "subject (Remove a) = a"
| "subject (Search a) = a"

fun index_step :: "(nat \<Rightarrow> 'k) \<Rightarrow> avl_command \<Rightarrow> ('k \<Rightarrow> nat option) \<Rightarrow> nat option \<times> ('k \<Rightarrow> nat option)" where
  "index_step key (Insert a) m = (case m (key a) of Some x \<Rightarrow> (Some x, m) | None \<Rightarrow> (Some a, m(key a := Some a)))"
| "index_step key (Remove a) m = (m (key a), m(key a := None))"
| "index_step key (Search a) m = (m (key a), m)"

fun run_index :: "(nat \<Rightarrow> 'k) \<Rightarrow> avl_command list \<Rightarrow> ('k \<Rightarrow> nat option) \<Rightarrow> nat option list \<times> ('k \<Rightarrow> nat option)" where
  "run_index key [] m = ([], m)"
| "run_index key (c # cs) m = (case index_step key c m of (r, m) \<Rightarrow> case run_index key cs m of (rs, m) \<Rightarrow> (r # rs, m))"

fun run_commands :: "(avl_command \<Rightarrow> 's \<Rightarrow> (nat option \<times> 's) res) \<Rightarrow> avl_command list \<Rightarrow> 's \<Rightarrow> (nat option list \<times> 's) res" where
  "run_commands step [] s = Inr ([], s)"
| "run_commands step (c # cs) s = rbind (step c s) (\<lambda>(r, s). rbind (run_commands step cs s) (\<lambda>(rs, s). Inr (r # rs, s)))"

locale element_index =
  fixes key :: "nat \<Rightarrow> 'k" and objects :: "nat set" and stands :: "nat \<Rightarrow> 's \<Rightarrow> ('k \<Rightarrow> nat option) \<Rightarrow> bool"
    and step :: "avl_command \<Rightarrow> 's \<Rightarrow> (nat option \<times> 's) res"
  assumes step_stands: "stands (Suc n) s m \<Longrightarrow> subject c \<in> objects \<Longrightarrow>
    \<exists>s'. step c s = Inr (fst (index_step key c m), s') \<and> stands n s' (snd (index_step key c m))"
begin

lemma run_stands:
  "stands (length cs + n) s m \<Longrightarrow> subject ` set cs \<subseteq> objects \<Longrightarrow>
   \<exists>s'. run_commands step cs s = Inr (fst (run_index key cs m), s') \<and> stands n s' (snd (run_index key cs m))"
proof (induction cs arbitrary: s m)
  case (Cons c cs)
  from Cons.prems step_stands [of "length cs + n" s m c] obtain s1 where
    1: "step c s = Inr (fst (index_step key c m), s1)" "stands (length cs + n) s1 (snd (index_step key c m))" by auto
  from Cons.IH [OF 1(2)] Cons.prems(2) show ?case using 1(1) by (auto simp: case_prod_beta)
qed simp

end

fun avl_step :: "nat \<Rightarrow> compar \<Rightarrow> avl_command \<Rightarrow> avl_tree_type \<Rightarrow> (nat option \<times> avl_tree_type) res" where
  "avl_step fuel compar (Insert a) t = rbind (avl_insert fuel compar a t) (\<lambda>(p, t). Inr (Some p, t))"
| "avl_step fuel compar (Remove a) t = avl_remove fuel compar a t"
| "avl_step fuel compar (Search a) t = rbind (avl_search fuel compar a t) (\<lambda>p. Inr (p, t))"

definition indexes :: "(nat \<Rightarrow> 'k) \<Rightarrow> ('k \<Rightarrow> nat option) \<Rightarrow> nat list \<Rightarrow> bool" where
  "indexes key m xs \<longleftrightarrow> (\<forall>k a. m k = Some a \<longleftrightarrow> a \<in> set xs \<and> key a = k)"

definition avl_stands ::
  "nat \<Rightarrow> compar \<Rightarrow> (nat \<Rightarrow> 'k :: linorder) \<Rightarrow> nat set \<Rightarrow> nat \<Rightarrow> avl_tree_type \<Rightarrow> ('k \<Rightarrow> nat option) \<Rightarrow> bool" where
  "avl_stands fuel compar key objects n h m \<longleftrightarrow>
     orders key compar \<and> 91 < fuel \<and> (\<forall>a \<in> objects. avl_elements h a \<noteq> None) \<and>
     (\<exists>t. search_tree key h t \<and> size t + n < 2 ^ 45 \<and> indexes key m (ids t))"

lemma indexes_None: "indexes key m xs \<Longrightarrow> m k = None \<longleftrightarrow> (\<forall>a \<in> set xs. key a \<noteq> k)"
  unfolding indexes_def by (metis option.distinct(1) option.exhaust)

lemma touches_objects: "touches A h h' \<Longrightarrow> \<forall>a \<in> S. avl_elements h a \<noteq> None \<Longrightarrow> \<forall>a \<in> S. avl_elements h' a \<noteq> None"
  by (simp add: touches_def)

lemma search_tree_size: "search_tree key h t \<Longrightarrow> size t = card (set (ids t))"
  by (simp only: search_tree_def holds_def distinct_card length_map length_inorder)

lemma insert_stands:
  assumes "avl_stands fuel compar key S (Suc n) h m" and "a \<in> S"
  shows "\<exists>h'. avl_step fuel compar (Insert a) h = Inr (fst (index_step key (Insert a) m), h') \<and>
    avl_stands fuel compar key S n h' (snd (index_step key (Insert a) m))"
proof -
  from assms(1) obtain t where s: "orders key compar" "91 < fuel" "\<forall>a \<in> S. avl_elements h a \<noteq> None" "search_tree key h t" "size t + Suc n < 2 ^ 45"
    "indexes key m (ids t)" by (auto simp: avl_stands_def)
  have "height t \<le> 91" using s(4,5) avl_height [of t] by (simp add: search_tree_def)
  then have ht: "height t \<le> 91" "height t \<le> fuel" using s(2) by simp_all
  show ?thesis
  proof (cases "m (key a)")
    case (Some x)
    then have "x \<in> set (ids t)" "key x = key a" using s(6) by (simp_all add: indexes_def)
    from avl_insert_found [OF s(4,1) ht this] show ?thesis using assms(1) Some by (auto simp: avl_stands_def)
  next
    case None
    then have "\<forall>p \<in> set (ids t). key p \<noteq> key a" using indexes_None [OF s(6)] by simp
    from avl_insert_new [OF s(4,1) ht this] s(3) assms(2) obtain h' t' where
      r: "avl_insert fuel compar a h = Inr (a, h')" "search_tree key h' t'" "set (ids t') = insert a (set (ids t))" "touches (insert a (set (ids t))) h h'" by blast
    have "size t' \<le> Suc (size t)" unfolding search_tree_size [OF r(2)] search_tree_size [OF s(4)] r(3) by (rule card_insert_le_m1) auto
    moreover have "indexes key (m(key a := Some a)) (ids t')" using s(6) \<open>\<forall>p \<in> set (ids t). key p \<noteq> key a\<close> r(3)
      unfolding indexes_def by (metis fun_upd_apply insert_iff option.inject)
    ultimately have "avl_stands fuel compar key S n h' (m(key a := Some a))"
      using s r(2) touches_objects [OF r(4) s(3)] by (auto simp: avl_stands_def intro!: exI [of _ t'])
    then show ?thesis using r(1) None by simp
  qed
qed

lemma remove_stands:
  assumes "avl_stands fuel compar key S (Suc n) h m"
  shows "\<exists>h'. avl_step fuel compar (Remove a) h = Inr (fst (index_step key (Remove a) m), h') \<and>
    avl_stands fuel compar key S n h' (snd (index_step key (Remove a) m))"
proof -
  from assms(1) obtain t where s: "orders key compar" "91 < fuel" "\<forall>a \<in> S. avl_elements h a \<noteq> None" "search_tree key h t" "size t + Suc n < 2 ^ 45"
    "indexes key m (ids t)" by (auto simp: avl_stands_def)
  have "height t \<le> 91" using s(4,5) avl_height [of t] by (simp add: search_tree_def)
  then have ht: "height t \<le> 91" "height t < fuel" using s(2) by simp_all
  have inc: "increasing key (ids t)" "distinct (ids t)" using s(4) by (simp_all add: search_tree_def holds_def)
  show ?thesis
  proof (cases "m (key a)")
    case None
    then have "\<forall>p \<in> set (ids t). key p \<noteq> key a" using indexes_None [OF s(6)] by simp
    from avl_remove_missing [OF s(4,1) ht this] show ?thesis using assms None by (auto simp: avl_stands_def fun_upd_idem)
  next
    case (Some x)
    then have x: "x \<in> set (ids t)" "key x = key a" using s(6) by (simp_all add: indexes_def)
    from avl_remove_found [OF s(4,1) ht x] obtain h' t' where
      r: "avl_remove fuel compar a h = Inr (Some x, h')" "search_tree key h' t'" "ids t' = remove1 x (ids t)" "touches (set (ids t)) h h'" by blast
    have ids: "set (ids t') = set (ids t) - {x}" unfolding r(3) using inc(2) by (rule set_remove1_eq)
    have "size t' \<le> size t" unfolding search_tree_size [OF r(2)] search_tree_size [OF s(4)] ids by (rule card_mono) auto
    moreover have "indexes key (m(key a := None)) (ids t')" using s(6) x increasing_inj [OF inc(1) x(1)]
      unfolding indexes_def ids by (metis Diff_iff fun_upd_apply insert_iff option.distinct(1) singletonD)
    ultimately have "avl_stands fuel compar key S n h' (m(key a := None))"
      using s r(2) touches_objects [OF r(4) s(3)] by (auto simp: avl_stands_def intro!: exI [of _ t'])
    then show ?thesis using r(1) Some by simp
  qed
qed

lemma search_stands:
  assumes "avl_stands fuel compar key S (Suc n) h m"
  shows "\<exists>h'. avl_step fuel compar (Search a) h = Inr (fst (index_step key (Search a) m), h') \<and>
    avl_stands fuel compar key S n h' (snd (index_step key (Search a) m))"
proof -
  from assms(1) obtain t where s: "orders key compar" "91 < fuel" "search_tree key h t" "size t + Suc n < 2 ^ 45" "indexes key m (ids t)"
    by (auto simp: avl_stands_def)
  have tr: "tree_at h t" "increasing key (ids t)" "avl_root h = ptr t" using s(3) by (simp_all add: search_tree_def holds_def)
  have "height t \<le> 91" using s(3,4) avl_height [of t] by (simp add: search_tree_def)
  then have "height t \<le> fuel" using s(2) by simp
  from search_loop_ok [OF tr(1) s(1) tr(2) this, of a] obtain r where
    r: "search_loop fuel compar a (ptr t) h = Inr r"
      "case r of None \<Rightarrow> \<forall>p \<in> set (ids t). key p \<noteq> key a | Some p \<Rightarrow> p \<in> set (ids t) \<and> key p = key a" by blast
  have "m (key a) = r" using r(2) s(5) indexes_None [OF s(5)] by (cases r) (simp_all add: indexes_def)
  then show ?thesis using r(1) tr(3) assms by (auto simp: avl_search_def avl_stands_def)
qed

interpretation index: element_index key objects "avl_stands fuel compar key objects" "avl_step fuel compar" for key :: "nat \<Rightarrow> 'k :: linorder" and objects fuel compar
proof
  fix n h m c
  assume "avl_stands fuel compar key objects (Suc n) h m" "subject c \<in> objects"
  then show "\<exists>h'. avl_step fuel compar c h = Inr (fst (index_step key c m), h') \<and> avl_stands fuel compar key objects n h' (snd (index_step key c m))"
    using insert_stands remove_stands search_stands by (cases c) (simp_all del: avl_step.simps index_step.simps)
qed

text \<open>
  C5 (a balanced tree is an index)  From an empty tree, every sequence of fewer than \<open>2 ^ 45\<close> insertions,
  removals and searches runs without an error, for a comparison that orders the elements by a key.  Each
  answer is that of a finite map from keys to elements: an insertion keeps an equal element and returns
  it, and a removal returns what it takes out.  At the end the elements are in order, every balance is
  the difference of the heights of its subtrees, and the height is at most twice the logarithm of the
  number of elements; the stacks of the code are never full.
\<close>

theorem avl_is_index:
  assumes "orders key compar" and "91 < fuel" and "\<forall>c \<in> set cs. avl_elements h (subject c) \<noteq> None" and "length cs < 2 ^ 45"
  shows "\<exists>h' t. run_commands (avl_step fuel compar) cs (avl_init h) = Inr (fst (run_index key cs (\<lambda>_. None)), h') \<and>
    search_tree key h' t \<and> indexes key (snd (run_index key cs (\<lambda>_. None))) (ids t) \<and> 2 ^ (height t div 2) \<le> size t + 1"
proof -
  have "search_tree key (avl_init h) Leaf" by (simp add: search_tree_def holds_def increasing_def avl_init_def)
  then have "avl_stands fuel compar key (subject ` set cs) (length cs + 0) (avl_init h) (\<lambda>_. None)"
    using assms by (auto simp: avl_stands_def indexes_def avl_init_def intro!: exI [of _ Leaf])
  from index.run_stands [OF this order_refl] obtain h' where
    r: "run_commands (avl_step fuel compar) cs (avl_init h) = Inr (fst (run_index key cs (\<lambda>_. None)), h')"
      "avl_stands fuel compar key (subject ` set cs) 0 h' (snd (run_index key cs (\<lambda>_. None)))" by blast
  from r(2) obtain t where t: "search_tree key h' t" "indexes key (snd (run_index key cs (\<lambda>_. None))) (ids t)" by (auto simp: avl_stands_def)
  then have "2 ^ (height t div 2) \<le> size t + 1" using avl_size [of t] by (simp add: search_tree_def)
  then show ?thesis using r(1) t by blast
qed

theorem avl_is_index_witness:
  "\<exists>h' t. run_commands (avl_step 92 (\<lambda>a b. int a - int b)) [Insert 3, Insert 2, Insert 1, Insert 3, Remove 2, Search 2, Search 1]
      (avl_init \<lparr>avl_root = None, avl_elements = (\<lambda>_. Some \<lparr>avl_link0 = None, avl_link1 = None, avl_balance = 0\<rparr>)\<rparr>) =
      Inr ([Some 3, Some 2, Some 1, Some 3, Some 2, None, Some 1], h') \<and> search_tree id h' t"
proof -
  let ?h = "\<lparr>avl_root = None, avl_elements = (\<lambda>_. Some \<lparr>avl_link0 = None, avl_link1 = None, avl_balance = 0\<rparr>)\<rparr>"
  have "orders id (\<lambda>a b. int a - int b)" by (auto simp: orders_def)
  from avl_is_index [OF this, of 92 "[Insert 3, Insert 2, Insert 1, Insert 3, Remove 2, Search 2, Search 1]" ?h] show ?thesis by auto
qed

text \<open>
  A traversal calls back for the elements of the tree in their order, up
  to the first negative answer, which it returns; without one it returns the sum of the answers.
\<close>

theorem avl_traverse_in_order:
  assumes "search_tree key h t" and "height t \<le> fuel" and "visit callback (ids t) 0 s = Inr res"
  shows "avl_traverse fuel callback h s = Inr res"
proof -
  have t: "tree_at h t" "avl_root h = ptr t" using assms(1) by (simp_all add: search_tree_def holds_def)
  from walk_visits [OF t(1) assms(2), of 0 callback "[]" s res] assms(3) show ?thesis
    by (auto simp: t(2) avl_traverse_def walk_def split: if_splits option.splits)
qed

theorem avl_traverse_in_order_witness:
  "avl_traverse 2 (\<lambda>a s. Inr (1, s @ [a]))
     \<lparr>avl_root = Some 2, avl_elements =
       (\<lambda>_. Some \<lparr>avl_link0 = None, avl_link1 = None, avl_balance = 0\<rparr>)(2 := Some \<lparr>avl_link0 = Some 1, avl_link1 = Some 3, avl_balance = 0\<rparr>)\<rparr> [] =
   Inr (3, [1, 2, 3])"
proof -
  let ?h = "\<lparr>avl_root = Some 2, avl_elements =
       (\<lambda>_. Some \<lparr>avl_link0 = None, avl_link1 = None, avl_balance = 0\<rparr>)(2 := Some \<lparr>avl_link0 = Some 1, avl_link1 = Some 3, avl_balance = 0\<rparr>)\<rparr>"
    and ?t = "Node (Node Leaf (1, 0) Leaf) (2, 0) (Node Leaf (3, 0) Leaf) :: atree"
  have t: "search_tree id ?h ?t" by (simp add: search_tree_def holds_def increasing_def)
  show ?thesis by (rule avl_traverse_in_order [OF t]) (simp_all add: int_add_def)
qed

end
