(* ===== verification/Upsd_Status.thy ===== *)
theory Upsd_Status
  imports Inlined_Strings
begin

text \<open>
  The parser of the NUT variable \<^verbatim>\<open>ups.status\<close> in \<^verbatim>\<open>upsd_plugin.c\<close>, the loop of
  \<^verbatim>\<open>send_metric_ups_status\<close>.  The pointer \<^verbatim>\<open>c\<close> is the suffix it points at; moving it past the
  terminator is \<open>OutOfBounds\<close>, and the null result of \<^verbatim>\<open>strchr\<close> that the loop increments is
  \<open>NullDeref\<close>.

  The lemmas show what the parser makes of every sequence of status words the code knows, of
  words it does not know, and which strings make it leave the buffer.
\<close>

section \<open>The parser\<close>

record nut_ups_status =
  OL :: bool
  OB :: bool
  LB :: bool
  HB :: bool
  RB :: bool
  CHRG :: bool
  DISCHRG :: bool
  BYPASS :: bool
  CAL :: bool
  OFF :: bool
  OVER :: bool
  TRIM :: bool
  BOOST :: bool
  FSD :: bool
  OTHER :: bool

definition zero_status :: nut_ups_status where
  "zero_status =
     \<lparr> OL = False, OB = False, LB = False, HB = False, RB = False, CHRG = False, DISCHRG = False,
       BYPASS = False, CAL = False, OFF = False, OVER = False, TRIM = False, BOOST = False,
       FSD = False, OTHER = False \<rparr>"

definition advance :: "nat \<Rightarrow> string \<Rightarrow> string res" where
  "advance n c = (if n \<le> length c then Inr (drop n c) else Inl OutOfBounds)"

lemma advance_Inr: "n \<le> length c \<Longrightarrow> advance n c = Inr (drop n c)"
  by (simp add: advance_def)

lemma advance_append: "advance (length xs) (xs @ ys) = Inr ys"
  by (simp add: advance_def)

definition skip :: "nat \<Rightarrow> string \<Rightarrow> nut_ups_status \<Rightarrow> (nut_ups_status \<times> string option) res" where
  "skip n c status = rbind (advance n c) (\<lambda>c. Inr (status, Some c))"

text \<open>The \<^verbatim>\<open>switch\<close> of the loop body: the status and the pointer before the loop's \<^verbatim>\<open>c++\<close>.\<close>

definition status_switch :: "nut_ups_status \<Rightarrow> string \<Rightarrow> (nut_ups_status \<times> string option) res" where
  "status_switch status c =
     (if peek c = SPACE then Inr (status, Some c)
      else if peek c = CHR ''L'' then skip 1 c (status\<lparr>LB := True\<rparr>)
      else if peek c = CHR ''H'' then skip 1 c (status\<lparr>HB := True\<rparr>)
      else if peek c = CHR ''R'' then skip 1 c (status\<lparr>RB := True\<rparr>)
      else if peek c = CHR ''D'' then skip 6 c (status\<lparr>DISCHRG := True\<rparr>)
      else if peek c = CHR ''T'' then skip 3 c (status\<lparr>TRIM := True\<rparr>)
      else if peek c = CHR ''F'' then skip 2 c (status\<lparr>FSD := True\<rparr>)
      else if peek c = CHR ''B'' then
        rbind (advance 1 c) (\<lambda>c.
          if peek c = CHR ''O'' then skip 3 c (status\<lparr>BOOST := True\<rparr>)
          else if peek c = CHR ''Y'' then skip 4 c (status\<lparr>BYPASS := True\<rparr>)
          else Inr (status\<lparr>OTHER := True\<rparr>, strchr c SPACE))
      else if peek c = CHR ''C'' then
        rbind (advance 1 c) (\<lambda>c.
          if peek c = CHR ''H'' then skip 2 c (status\<lparr>CHRG := True\<rparr>)
          else if peek c = CHR ''A'' then skip 1 c (status\<lparr>CAL := True\<rparr>)
          else Inr (status\<lparr>OTHER := True\<rparr>, strchr c SPACE))
      else if peek c = CHR ''O'' then
        rbind (advance 1 c) (\<lambda>c.
          if peek c = CHR ''B'' then Inr (status\<lparr>OB := True\<rparr>, Some c)
          else if peek c = CHR ''F'' then Inr (status\<lparr>OFF := True\<rparr>, Some c)
          else if peek c = CHR ''L'' then Inr (status\<lparr>OL := True\<rparr>, Some c)
          else if peek c = CHR ''V'' then skip 2 c (status\<lparr>OVER := True\<rparr>)
          else Inr (status\<lparr>OTHER := True\<rparr>, strchr c SPACE))
      else Inr (status\<lparr>OTHER := True\<rparr>, strchr c SPACE))"

lemma strchr_shorter: "strchr s c = Some t \<Longrightarrow> length t \<le> length s"
  by (induction s) (auto split: if_splits)

lemma advance_shorter: "advance n c = Inr d \<Longrightarrow> length d + n = length c"
  by (auto simp: advance_def split: if_splits)

lemma skip_shorter: "skip n c status = Inr (st, Some d) \<Longrightarrow> length d \<le> length c"
  by (auto simp: skip_def dest: advance_shorter)

lemma status_switch_shorter: "status_switch status c = Inr (st, Some d) \<Longrightarrow> length d \<le> length c"
  by (auto simp: status_switch_def split: if_splits
      dest!: advance_shorter skip_shorter strchr_shorter)

function status_loop :: "nut_ups_status \<Rightarrow> string \<Rightarrow> nut_ups_status res" where
  "status_loop status c =
     (if peek c = NUL then Inr status
      else rbind (status_switch status c) (\<lambda>(status, c).
        case c of
          None \<Rightarrow> Inl NullDeref
        | Some c \<Rightarrow> rbind (advance 1 c) (\<lambda>c. status_loop status c)))"
  by pat_completeness auto
termination
  by (relation "measure (\<lambda>(status, c). length c)")
    (auto dest!: status_switch_shorter advance_shorter)

declare status_loop.simps [simp del]

text \<open>A null \<^verbatim>\<open>ups_status_string\<close> leaves every bit clear.\<close>

definition parse_ups_status :: "string option \<Rightarrow> nut_ups_status res" where
  "parse_ups_status ups_status_string =
     (case ups_status_string of None \<Rightarrow> Inr zero_status | Some s \<Rightarrow> status_loop zero_status s)"

section \<open>Status words\<close>

text \<open>
  The words of the NUT documentation that the parser recognises and skips as a whole, and the bit each
  stands for.  \<^verbatim>\<open>OFF\<close> is not among them, since the parser does not skip its last letter.
\<close>

definition word_update :: "string \<Rightarrow> nut_ups_status \<Rightarrow> nut_ups_status" where
  "word_update w st =
     (if w = ''OL'' then st\<lparr>OL := True\<rparr>
      else if w = ''OB'' then st\<lparr>OB := True\<rparr>
      else if w = ''LB'' then st\<lparr>LB := True\<rparr>
      else if w = ''HB'' then st\<lparr>HB := True\<rparr>
      else if w = ''RB'' then st\<lparr>RB := True\<rparr>
      else if w = ''CHRG'' then st\<lparr>CHRG := True\<rparr>
      else if w = ''DISCHRG'' then st\<lparr>DISCHRG := True\<rparr>
      else if w = ''BYPASS'' then st\<lparr>BYPASS := True\<rparr>
      else if w = ''CAL'' then st\<lparr>CAL := True\<rparr>
      else if w = ''OVER'' then st\<lparr>OVER := True\<rparr>
      else if w = ''TRIM'' then st\<lparr>TRIM := True\<rparr>
      else if w = ''BOOST'' then st\<lparr>BOOST := True\<rparr>
      else if w = ''FSD'' then st\<lparr>FSD := True\<rparr>
      else st\<lparr>OTHER := True\<rparr>)"

definition known_words :: "string list" where
  "known_words =
     [''OL'', ''OB'', ''LB'', ''HB'', ''RB'', ''CHRG'', ''DISCHRG'', ''BYPASS'', ''CAL'', ''OVER'',
      ''TRIM'', ''BOOST'', ''FSD'']"

text \<open>
  A word the parser takes for \<open>OTHER\<close>: it starts with none of the letters of a known word, or its
  second letter gives it away.
\<close>

definition other_word :: "string \<Rightarrow> bool" where
  "other_word w \<longleftrightarrow>
     w \<noteq> [] \<and> SPACE \<notin> set w \<and> NUL \<notin> set w \<and>
     hd w \<notin> set ''LHRDTF'' \<and>
     (hd w = CHR ''B'' \<longrightarrow> peek (tl w) \<notin> set ''OY'') \<and>
     (hd w = CHR ''C'' \<longrightarrow> peek (tl w) \<notin> set ''HA'') \<and>
     (hd w = CHR ''O'' \<longrightarrow> peek (tl w) \<notin> set ''BFLV'')"

text \<open>The status a set of words stands for.\<close>

definition status_of_words :: "string set \<Rightarrow> nut_ups_status" where
  "status_of_words W =
     \<lparr> OL = ''OL'' \<in> W, OB = ''OB'' \<in> W, LB = ''LB'' \<in> W, HB = ''HB'' \<in> W, RB = ''RB'' \<in> W,
       CHRG = ''CHRG'' \<in> W, DISCHRG = ''DISCHRG'' \<in> W, BYPASS = ''BYPASS'' \<in> W, CAL = ''CAL'' \<in> W,
       OFF = False, OVER = ''OVER'' \<in> W, TRIM = ''TRIM'' \<in> W, BOOST = ''BOOST'' \<in> W, FSD = ''FSD'' \<in> W,
       OTHER = (\<exists>w \<in> W. w \<notin> set known_words) \<rparr>"

section \<open>What the parser computes\<close>

lemmas status_step = status_loop.simps status_switch_def skip_def advance_Inr

lemma status_loop_space: "status_loop st (SPACE # r) = status_loop st r"
  by (simp add: status_loop.simps [of st "SPACE # r"] status_switch_def advance_Inr)

lemma status_loop_known:
  "w \<in> set known_words \<Longrightarrow> status_loop st (w @ r) = status_loop (word_update w st) r"
  unfolding known_words_def
  by (auto simp: status_loop.simps [of st "a # b" for a b] status_switch_def skip_def advance_Inr word_update_def)

lemma status_switch_other:
  assumes "other_word w" and "r = [] \<or> hd r = SPACE"
  shows "status_switch st (w @ r) = Inr (st\<lparr>OTHER := True\<rparr>, strchr r SPACE)"
proof -
  obtain a v where w: "w = a # v" using assms by (cases w) (auto simp: other_word_def)
  have pk: "peek (v @ r) = (if v = [] then peek r else peek v)" by (cases v) auto
  have r: "peek r \<noteq> CHR ''O''" "peek r \<noteq> CHR ''Y''" "peek r \<noteq> CHR ''H''" "peek r \<noteq> CHR ''A''"
    "peek r \<noteq> CHR ''B''" "peek r \<noteq> CHR ''F''" "peek r \<noteq> CHR ''L''" "peek r \<noteq> CHR ''V''"
    using assms(2) by (cases r; auto)+
  have sp: "SPACE \<notin> set v" "a \<noteq> SPACE" using assms(1) by (auto simp: other_word_def w)
  then show ?thesis
    using assms(1) r
    by (auto simp: status_switch_def other_word_def w pk advance_Inr strchr_skip)
qed

lemma peek_other: "other_word w \<Longrightarrow> peek (w @ r) \<noteq> NUL"
  by (cases w) (auto simp: other_word_def)

lemma status_loop_other:
  "other_word w \<Longrightarrow> status_loop st (w @ SPACE # r) = status_loop (st\<lparr>OTHER := True\<rparr>) r"
  using status_switch_other [of w "SPACE # r" st] peek_other [of w "SPACE # r"]
  by (simp add: status_loop.simps [of st "w @ SPACE # r"] advance_Inr)

lemma status_loop_other_last: "other_word w \<Longrightarrow> status_loop st w = Inl NullDeref"
  using status_switch_other [of w "[]" st] peek_other [of w "[]"]
  by (simp add: status_loop.simps [of st w])

lemma other_word_not_known: "other_word w \<Longrightarrow> w \<notin> set known_words"
  by (auto simp: other_word_def known_words_def)

lemma other_word_update: "other_word w \<Longrightarrow> word_update w st = st\<lparr>OTHER := True\<rparr>"
  using other_word_not_known [of w] by (simp add: word_update_def known_words_def)

definition words_update :: "string list \<Rightarrow> nut_ups_status \<Rightarrow> nut_ups_status" where
  "words_update ws st = foldl (\<lambda>st w. word_update w st) st ws"

lemma status_loop_word:
  "w \<in> set known_words \<or> other_word w \<Longrightarrow> status_loop st (w @ SPACE # r) = status_loop (word_update w st) r"
  by (auto simp: status_loop_known status_loop_space status_loop_other other_word_update)

lemma status_loop_Nil [simp]: "status_loop st [] = Inr st"
  by (simp add: status_loop.simps)

lemma status_loop_words:
  assumes "\<forall>w \<in> set ws. w \<in> set known_words \<or> other_word w"
  shows "status_loop st (concat (map (\<lambda>w. w @ [SPACE]) ws) @ r) = status_loop (words_update ws st) r"
  using assms by (induction ws arbitrary: st) (simp_all add: words_update_def status_loop_word)

lemma join_words_snoc: "join_words (ws @ [w]) = concat (map (\<lambda>w. w @ [SPACE]) ws) @ w"
proof (induction ws)
  case Nil
  then show ?case by simp
next
  case (Cons v ws)
  then show ?case by (simp add: join_words_Cons)
qed

lemma status_of_words_insert:
  "w \<in> set known_words \<or> other_word w \<Longrightarrow> status_of_words (insert w W) = word_update w (status_of_words W)"
proof (elim disjE)
  assume w: "w \<in> set known_words"
  then have o: "(\<exists>v \<in> insert w W. v \<notin> set known_words) = (\<exists>v \<in> W. v \<notin> set known_words)" by blast
  from w show ?thesis
    unfolding status_of_words_def o word_update_def
    unfolding known_words_def set_simps by (elim insertE emptyE; simp)
next
  assume w: "other_word w"
  then have nk: "w \<notin> set known_words" by (rule other_word_not_known)
  then have o: "(\<exists>v \<in> insert w W. v \<notin> set known_words) = True" by blast
  show ?thesis
    unfolding other_word_update [OF w] status_of_words_def o
    using nk by (simp add: known_words_def eq_commute [of _ w])
qed

lemma words_update_zero:
  "\<forall>w \<in> set ws. w \<in> set known_words \<or> other_word w \<Longrightarrow> words_update ws zero_status = status_of_words (set ws)"
proof (induction ws rule: rev_induct)
  case Nil
  then show ?case by (simp add: words_update_def status_of_words_def zero_status_def)
next
  case (snoc w ws)
  then show ?case by (simp add: words_update_def status_of_words_insert)
qed

text \<open>C10 (status words)  This is about statuses made of two kinds of words: the thirteen words \<^verbatim>\<open>OL\<close>,
  \<^verbatim>\<open>OB\<close>, \<^verbatim>\<open>LB\<close>, \<^verbatim>\<open>HB\<close>, \<^verbatim>\<open>RB\<close>, \<^verbatim>\<open>CHRG\<close>, \<^verbatim>\<open>DISCHRG\<close>, \<^verbatim>\<open>BYPASS\<close>, \<^verbatim>\<open>CAL\<close>, \<^verbatim>\<open>OVER\<close>, \<^verbatim>\<open>TRIM\<close>, \<^verbatim>\<open>BOOST\<close> and \<^verbatim>\<open>FSD\<close>, and
  unknown words that do not begin with \<^verbatim>\<open>L\<close>, \<^verbatim>\<open>H\<close>, \<^verbatim>\<open>R\<close>, \<^verbatim>\<open>D\<close>, \<^verbatim>\<open>T\<close>, \<^verbatim>\<open>F\<close>, \<^verbatim>\<open>BO\<close>, \<^verbatim>\<open>BY\<close>, \<^verbatim>\<open>CH\<close>, \<^verbatim>\<open>CA\<close>, \<^verbatim>\<open>OB\<close>, \<^verbatim>\<open>OF\<close>,
  \<^verbatim>\<open>OL\<close> or \<^verbatim>\<open>OV\<close>.  When the last word is one of the thirteen, such a status is parsed without leaving the
  buffer: the bit of each of the thirteen words is set exactly when the word occurs, \<^verbatim>\<open>OTHER\<close> exactly
  when an unknown word occurs, and \<^verbatim>\<open>OFF\<close> is not set.  The word \<^verbatim>\<open>OFF\<close>, and unknown words that begin like
  one of the words above, are not covered.\<close>

theorem parse_ups_status_words:
  assumes "\<forall>w \<in> set ws. w \<in> set known_words \<or> other_word w"
    and "ws \<noteq> [] \<longrightarrow> last ws \<in> set known_words"
  shows "parse_ups_status (Some (join_words ws)) = Inr (status_of_words (set ws))"
proof (cases ws rule: rev_exhaust)
  case Nil
  then show ?thesis by (simp add: parse_ups_status_def status_of_words_def zero_status_def)
next
  case (snoc us u)
  have "status_loop zero_status (join_words ws) = status_loop (words_update us zero_status) (u @ [])"
    using assms(1) snoc by (simp add: join_words_snoc status_loop_words)
  also have "\<dots> = Inr (words_update ws zero_status)"
    using assms(2) snoc by (subst status_loop_known) (simp_all add: words_update_def)
  finally show ?thesis
    using words_update_zero [OF assms(1)] by (simp add: parse_ups_status_def)
qed

theorem parse_ups_status_words_witness:
  "parse_ups_status (Some ''OL ALARM CHRG'') = Inr (status_of_words {''OL'', ''ALARM'', ''CHRG''})"
proof -
  have "other_word ''ALARM''" by (simp add: other_word_def)
  then show ?thesis
    using parse_ups_status_words [of "[''OL'', ''ALARM'', ''CHRG'']"] by (simp add: known_words_def)
qed

text \<open>
  What the parser skips when a word begins like one of the thirteen: it decides by the first letter, or
  by the first two after \<^verbatim>\<open>B\<close>, \<^verbatim>\<open>C\<close> and \<^verbatim>\<open>O\<close>.  A stub is a word that is shorter than what is skipped.
\<close>

definition skipped :: "string \<Rightarrow> nat" where
  "skipped u =
     (if peek u \<in> set ''LHR'' then 2
      else if peek u = CHR ''D'' then 7
      else if peek u = CHR ''T'' then 4
      else if peek u = CHR ''F'' then 3
      else if take 2 u = ''BO'' then 5
      else if take 2 u = ''BY'' then 6
      else if take 2 u = ''CH'' then 4
      else if take 2 u = ''CA'' then 3
      else if take 2 u = ''OV'' then 4
      else 0)"

definition stub :: "string \<Rightarrow> bool" where
  "stub u \<longleftrightarrow> length u < skipped u \<and> SPACE \<notin> set u \<and> NUL \<notin> set u"

lemma skipped_known: "w \<in> set known_words \<Longrightarrow> skipped w = (if take 2 w \<in> {''OL'', ''OB''} then 0 else length w)"
  unfolding known_words_def set_simps by (elim insertE emptyE; simp add: skipped_def)

lemma stub_cases:
  assumes "stub u"
  obtains v where "u = CHR ''L'' # v" "length v < 1" | v where "u = CHR ''H'' # v" "length v < 1" | v where "u = CHR ''R'' # v" "length v < 1"
  | v where "u = CHR ''D'' # v" "length v < 6" | v where "u = CHR ''T'' # v" "length v < 3" | v where "u = CHR ''F'' # v" "length v < 2"
  | v where "u = CHR ''B'' # CHR ''O'' # v" "length v < 3" | v where "u = CHR ''B'' # CHR ''Y'' # v" "length v < 4"
  | v where "u = CHR ''C'' # CHR ''H'' # v" "length v < 2" | v where "u = CHR ''C'' # CHR ''A'' # v" "length v < 1"
  | v where "u = CHR ''O'' # CHR ''V'' # v" "length v < 2"
proof -
  obtain a v where u: "u = a # v" using assms by (cases u) (auto simp: stub_def skipped_def)
  show thesis
    using that assms unfolding stub_def skipped_def u by (cases v) (auto simp: numeral_2_eq_2 split: if_splits)
qed

text \<open>Skipping as many characters as are left, or more, leaves the buffer now or at the next step.\<close>

lemma status_loop_skip:
  assumes "status_switch st c = skip n d st'" and "length d \<le> n" and "peek c \<noteq> NUL"
  shows "status_loop st c = Inl OutOfBounds"
  using assms by (simp add: status_loop.simps [of st c] skip_def advance_def)

lemma status_loop_stub:
  assumes "stub u"
  shows "status_loop st u = Inl OutOfBounds"
  by (cases rule: stub_cases [OF assms]) (rule status_loop_skip, simp add: status_switch_def advance_Inr, simp, simp)+

text \<open>C11 (statuses that leave the buffer)  Three kinds of last words, after any number of words as in the
  previous property, take the parser out of its buffer.  After an unknown word, the missing space
  makes the loop increment a null pointer.  After the word \<^verbatim>\<open>OFF\<close>, whose second \<^verbatim>\<open>F\<close> the parser takes for
  the start of \<^verbatim>\<open>FSD\<close>, and after a word that begins like one of the thirteen and is shorter, the
  pointer moves past the terminator.  There are other such statuses, in which \<^verbatim>\<open>OFF\<close> or such a word
  comes before the last one.\<close>

theorem parse_ups_status_errors:
  assumes "\<forall>w \<in> set ws. w \<in> set known_words \<or> other_word w" and "other_word u" and "stub v"
  shows "parse_ups_status (Some (join_words (ws @ [u]))) = Inl NullDeref \<and>
    parse_ups_status (Some (join_words (ws @ [''OFF'']))) = Inl OutOfBounds \<and>
    parse_ups_status (Some (join_words (ws @ [v]))) = Inl OutOfBounds"
proof (intro conjI)
  note words = parse_ups_status_def join_words_snoc status_loop_words [OF assms(1)]
  show "parse_ups_status (Some (join_words (ws @ [u]))) = Inl NullDeref"
    using status_loop_other_last [OF assms(2)] by (simp add: words)
  show "parse_ups_status (Some (join_words (ws @ [v]))) = Inl OutOfBounds"
    using status_loop_stub [OF assms(3)] by (simp add: words)
  have "status_loop st ''OFF'' = Inl OutOfBounds" for st
    by (simp add: status_loop.simps [of _ "a # b" for a b] status_switch_def skip_def advance_def)
  then show "parse_ups_status (Some (join_words (ws @ [''OFF'']))) = Inl OutOfBounds" by (simp add: words)
qed

theorem parse_ups_status_errors_witness:
  "parse_ups_status (Some ''OL ALARM'') = Inl NullDeref \<and> parse_ups_status (Some ''OL OFF'') = Inl OutOfBounds \<and>
   parse_ups_status (Some ''OL DOWN'') = Inl OutOfBounds"
proof -
  have "other_word ''ALARM''" "stub ''DOWN''" by (simp_all add: other_word_def stub_def skipped_def)
  then show ?thesis
    using parse_ups_status_errors [of "[''OL'']" "''ALARM''" "''DOWN''"] by (simp add: known_words_def)
qed

text \<open>Unknown words that begin like a known one are taken for it.\<close>

lemma status_prefix_word: "parse_ups_status (Some ''TEST'') = Inr (zero_status\<lparr>TRIM := True\<rparr>)"
  by (simp add: parse_ups_status_def status_loop.simps [of _ "a # b" for a b] status_switch_def skip_def advance_def)

end
