(* ===== verification/Line_Splitter.thy ===== *)
theory Line_Splitter
  imports Inlined_Strings
begin

text \<open>
  The word splitter of \<^verbatim>\<open>libnetdata/line_splitter\<close>, with which the daemon reads the lines the
  plugin prints.  The code cuts the line in place and stores pointers into it; here a word is
  the text its pointer reads when the splitter has returned.

  The lemmas show that the splitter finds the words of every line made of bare and quoted words,
  and that it inverts \<^verbatim>\<open>line_splitter_reconstruct_line\<close>.
\<close>

section \<open>Separators\<close>

definition isspace_whitespace :: "char \<Rightarrow> bool" where
  "isspace_whitespace c \<longleftrightarrow> c \<in> {SPACE, CHR 0x09, CHR 0x0D, NEWLINE, CHR 0x0C, CHR 0x0B}"

definition isspace_pluginsd :: "char \<Rightarrow> bool" where
  "isspace_pluginsd c \<longleftrightarrow> c \<in> {SPACE, CHR 0x09, CHR 0x0D, NEWLINE, CHR 0x0C, CHR 0x0B, CHR ''=''}"

definition isspace_config :: "char \<Rightarrow> bool" where
  "isspace_config c \<longleftrightarrow> c \<in> {SPACE, CHR 0x09, CHR 0x0D, NEWLINE, CHR 0x0C, CHR 0x0B, CHR '',''}"

definition isspace_group_by_label :: "char \<Rightarrow> bool" where
  "isspace_group_by_label c \<longleftrightarrow> c = CHR '','' \<or> c = CHR ''|''"

definition isspace_dyncfg_id :: "char \<Rightarrow> bool" where
  "isspace_dyncfg_id c \<longleftrightarrow> c = CHR '':''"

section \<open>The splitter\<close>

definition PLUGINSD_MAX_WORDS :: nat where
  "PLUGINSD_MAX_WORDS = 30"

text \<open>Remember a quote at the pointer and step over it; no quote is \<open>None\<close>.\<close>

definition check_quote :: "string \<Rightarrow> char option \<times> string" where
  "check_quote s = (if peek s = SQUOTE \<or> peek s = DQUOTE then (Some (peek s), tl s) else (None, s))"

lemma check_quote_shorter: "check_quote s = (q, t) \<Longrightarrow> length t \<le> length s"
  by (auto simp: check_quote_def split: if_splits)

text \<open>
  The main loop: the words already terminated, the word being read, what is left of the line.
\<close>

function splitter_loop :: "(char \<Rightarrow> bool) \<Rightarrow> nat \<Rightarrow> char option \<Rightarrow> string list \<Rightarrow> string \<Rightarrow> string \<Rightarrow> string list"
where
  "splitter_loop sp max_words qt ws w [] = ws @ [w]"
| "splitter_loop sp max_words qt ws w (c # s) =
     (if c = BACKSLASH \<and> s \<noteq> [] then splitter_loop sp max_words qt ws (w @ [c, hd s]) (tl s)
      else if qt = Some c then splitter_loop sp max_words None ws w (SPACE # s)
      else if qt = None \<and> sp c then
        let (qt, s) = check_quote (dropWhile sp s)
        in if s = [] then ws @ [w]
           else if length (ws @ [w]) < max_words then splitter_loop sp max_words qt (ws @ [w]) [] s
           else ws @ [w]
      else splitter_loop sp max_words qt ws (w @ [c]) s)"
  by pat_completeness auto

termination
proof (relation "measure (\<lambda>(sp, m, qt, ws, w, s). 2 * length s + (if qt = None then 0 else 1))", goal_cases)
  case (4 sp m qt ws w c s x q t)
  then have "check_quote (dropWhile sp s) = (q, t)" by simp
  then have "length t \<le> length (dropWhile sp s)" by (rule check_quote_shorter)
  also have "\<dots> \<le> length s" by (rule length_dropWhile_le)
  finally show ?case by simp
qed auto

text \<open>The words found in a line; the code returns their number.\<close>

definition quoted_strings_splitter :: "string \<Rightarrow> nat \<Rightarrow> (char \<Rightarrow> bool) \<Rightarrow> string list" where
  "quoted_strings_splitter str max_words sp =
     (let s = dropWhile sp str
      in if s = [] then []
         else let (qt, s) = check_quote s in splitter_loop sp max_words qt [] [] s)"

definition get_word :: "string list \<Rightarrow> nat \<Rightarrow> string option" where
  "get_word ws index = (if index \<ge> length ws then None else Some (ws ! index))"

definition line_splitter_reconstruct_line :: "string list \<Rightarrow> string" where
  "line_splitter_reconstruct_line ws =
     concat (map (\<lambda>i. (if i \<noteq> 0 then [SPACE] else []) @ [SQUOTE]
        @ (case get_word ws i of None \<Rightarrow> [] | Some s \<Rightarrow> s) @ [SQUOTE]) [0 ..< length ws])"

section \<open>Lines of bare and quoted words\<close>

datatype token = Bare string | Quoted string

fun token_word :: "token \<Rightarrow> string" where
  "token_word (Bare w) = w"
| "token_word (Quoted w) = w"

fun token_text :: "token \<Rightarrow> string" where
  "token_text (Bare w) = w"
| "token_text (Quoted w) = [SQUOTE] @ w @ [SQUOTE]"

text \<open>What a word may contain for the splitter to find it again.\<close>

fun token_ok :: "(char \<Rightarrow> bool) \<Rightarrow> token \<Rightarrow> bool" where
  "token_ok sp (Bare w) =
     (w \<noteq> [] \<and> (\<forall>c \<in> set w. \<not> sp c) \<and> BACKSLASH \<notin> set w \<and> hd w \<noteq> SQUOTE \<and> hd w \<noteq> DQUOTE)"
| "token_ok sp (Quoted w) = (SQUOTE \<notin> set w \<and> BACKSLASH \<notin> set w)"

fun is_quoted :: "token \<Rightarrow> bool" where
  "is_quoted (Bare w) = False"
| "is_quoted (Quoted w) = True"

definition render_line :: "(token \<times> string) list \<Rightarrow> string" where
  "render_line ts = concat (map (\<lambda>(t, sep). token_text t @ sep) ts)"

definition line_ok :: "(char \<Rightarrow> bool) \<Rightarrow> (token \<times> string) list \<Rightarrow> bool" where
  "line_ok sp ts \<longleftrightarrow>
     sp SPACE \<and> \<not> sp SQUOTE \<and> \<not> sp DQUOTE \<and> \<not> sp BACKSLASH \<and>
     (\<forall>(t, sep) \<in> set ts. token_ok sp t \<and> (is_quoted t \<or> sep \<noteq> []) \<and> (\<forall>c \<in> set sep. sp c))"

lemma dropWhile_prefix: "\<forall>c \<in> set xs. P c \<Longrightarrow> dropWhile P (xs @ ys) = dropWhile P ys"
  by (induction xs) auto

lemma splitter_loop_word:
  assumes "\<forall>c \<in> set v. c \<noteq> BACKSLASH \<and> qt \<noteq> Some c \<and> (qt = None \<longrightarrow> \<not> sp c)"
  shows "splitter_loop sp m qt ws w (v @ s) = splitter_loop sp m qt ws (w @ v) s"
  using assms by (induction v arbitrary: w) auto

text \<open>What the splitter does where the next word may start.\<close>

definition start_token :: "(char \<Rightarrow> bool) \<Rightarrow> nat \<Rightarrow> string list \<Rightarrow> string \<Rightarrow> string list" where
  "start_token sp m ws s =
     (let (qt, s) = check_quote (dropWhile sp s)
      in if s = [] then ws
         else if length ws < m then splitter_loop sp m qt ws [] s else ws)"

lemma splitter_loop_sep:
  assumes "sep \<noteq> []" and "\<forall>c \<in> set sep. sp c" and "\<not> sp BACKSLASH"
  shows "splitter_loop sp m None ws w (sep @ s) = start_token sp m (ws @ [w]) s"
proof -
  obtain c cs where c: "sep = c # cs" using assms(1) by (cases sep) auto
  then have "c \<noteq> BACKSLASH" "sp c" "\<forall>c \<in> set cs. sp c" using assms(2,3) by auto
  then show ?thesis by (simp add: c dropWhile_prefix start_token_def)
qed

lemma splitter_loop_quoted:
  assumes "SQUOTE \<notin> set v" and "BACKSLASH \<notin> set v" and "sp SPACE"
  shows "splitter_loop sp m (Some SQUOTE) ws w (v @ SQUOTE # s) = splitter_loop sp m None ws (w @ v) (SPACE # s)"
proof -
  have "splitter_loop sp m (Some SQUOTE) ws w (v @ SQUOTE # s) = splitter_loop sp m (Some SQUOTE) ws (w @ v) (SQUOTE # s)"
    using assms(1,2) by (intro splitter_loop_word) auto
  then show ?thesis by simp
qed

lemma start_token_token:
  assumes "token_ok sp t" and "is_quoted t \<or> sep \<noteq> []" and "\<forall>c \<in> set sep. sp c"
    and "sp SPACE" and "\<not> sp SQUOTE" and "\<not> sp BACKSLASH" and "length ws < m"
  shows "start_token sp m ws (token_text t @ sep @ s) = start_token sp m (ws @ [token_word t]) s"
proof (cases t)
  case (Bare v)
  then obtain a b where v: "v = a # b" "\<not> sp a" "a \<noteq> SQUOTE" "a \<noteq> DQUOTE"
    using assms(1) by (cases v) auto
  then have "check_quote (dropWhile sp (v @ sep @ s)) = (None, v @ sep @ s)" by (simp add: check_quote_def)
  moreover have "splitter_loop sp m None ws [] (v @ sep @ s) = splitter_loop sp m None ws v (sep @ s)"
    using splitter_loop_word [of v None sp m ws "[]"] assms(1) Bare by auto
  ultimately show ?thesis
    using Bare v(1) assms by (simp add: start_token_def splitter_loop_sep)
next
  case (Quoted v)
  have "check_quote (dropWhile sp (token_text t @ sep @ s)) = (Some SQUOTE, v @ SQUOTE # sep @ s)"
    using assms(5) Quoted by (simp add: check_quote_def)
  moreover have "splitter_loop sp m (Some SQUOTE) ws [] (v @ SQUOTE # sep @ s) = splitter_loop sp m None ws v ((SPACE # sep) @ s)"
    using assms(1,4) Quoted by (simp add: splitter_loop_quoted)
  ultimately show ?thesis
    using Quoted assms splitter_loop_sep [of "SPACE # sep" sp m ws v s]
    by (simp add: start_token_def [of _ _ _ "token_text t @ sep @ s"] start_token_def [of _ _ ws])
qed

lemma start_token_line:
  assumes "line_ok sp ts" and "length ws + length ts \<le> m"
  shows "start_token sp m ws (render_line ts) = ws @ map (\<lambda>(t, _). token_word t) ts"
  using assms
proof (induction ts arbitrary: ws)
  case Nil
  then show ?case by (simp add: render_line_def start_token_def check_quote_def)
next
  case (Cons x ts)
  obtain t sep where x: "x = (t, sep)" by (cases x)
  have ok: "token_ok sp t" "is_quoted t \<or> sep \<noteq> []" "\<forall>c \<in> set sep. sp c" "sp SPACE" "\<not> sp SQUOTE" "\<not> sp BACKSLASH"
    using Cons.prems(1) by (auto simp: line_ok_def x)
  have "start_token sp m ws (render_line (x # ts)) = start_token sp m (ws @ [token_word t]) (render_line ts)"
    using start_token_token [OF ok] Cons.prems(2) by (simp add: render_line_def x)
  also have "\<dots> = ws @ map (\<lambda>(t, _). token_word t) (x # ts)"
    using Cons.IH [of "ws @ [token_word t]"] Cons.prems by (simp add: line_ok_def x)
  finally show ?case .
qed

lemma token_starts:
  assumes "token_ok sp t" and "\<not> sp SQUOTE"
  shows "dropWhile sp (token_text t @ r) = token_text t @ r" and "snd (check_quote (token_text t @ r)) \<noteq> []"
proof -
  show "dropWhile sp (token_text t @ r) = token_text t @ r"
    using assms by (cases t) (auto simp: neq_Nil_conv)
  show "snd (check_quote (token_text t @ r)) \<noteq> []"
    using assms(1) by (cases t) (auto simp: check_quote_def neq_Nil_conv)
qed

lemma splitter_eq_start:
  assumes "token_ok sp t" and "\<not> sp SQUOTE" and "0 < m"
  shows "quoted_strings_splitter (token_text t @ r) m sp = start_token sp m [] (token_text t @ r)"
proof -
  obtain q s where qs: "check_quote (token_text t @ r) = (q, s)" by (cases "check_quote (token_text t @ r)")
  have "s \<noteq> []" using token_starts(2) [OF assms(1,2), of r] qs by simp
  moreover have "token_text t \<noteq> []" using assms(1) by (cases t) auto
  ultimately show ?thesis
    using assms(3) by (simp add: quoted_strings_splitter_def start_token_def token_starts(1) [OF assms(1,2)] qs)
qed

text \<open>Every line of bare and single-quoted words is split into exactly those words.\<close>

lemma splitter_words:
  assumes "line_ok sp ts" and "length ts \<le> max_words"
  shows "quoted_strings_splitter (render_line ts) max_words sp = map (\<lambda>(t, _). token_word t) ts"
proof (cases ts)
  case Nil
  then show ?thesis by (simp add: quoted_strings_splitter_def render_line_def)
next
  case (Cons x us)
  obtain t sep where x: "x = (t, sep)" by (cases x)
  have "token_ok sp t" "\<not> sp SQUOTE" using assms(1) Cons by (auto simp: line_ok_def x)
  moreover have "render_line ts = token_text t @ sep @ render_line us"
    by (simp add: render_line_def Cons x)
  ultimately have "quoted_strings_splitter (render_line ts) max_words sp = start_token sp max_words [] (render_line ts)"
    using assms(2) Cons by (simp add: splitter_eq_start)
  then show ?thesis using start_token_line [OF assms(1), of "[]" max_words] assms(2) by simp
qed

lemma pluginsd_separators [simp]:
  "isspace_pluginsd SPACE" "isspace_pluginsd NEWLINE" "isspace_pluginsd (CHR ''='')"
  "\<not> isspace_pluginsd SQUOTE" "\<not> isspace_pluginsd DQUOTE" "\<not> isspace_pluginsd BACKSLASH"
  by (simp_all add: isspace_pluginsd_def)

lemma reconstruct_eq_render:
  assumes "ws \<noteq> []"
  shows "line_splitter_reconstruct_line ws =
    render_line (map (\<lambda>w. (Quoted w, [SPACE])) (butlast ws) @ [(Quoted (last ws), [])])"
proof -
  define part where "part = (\<lambda>i :: nat. (if i \<noteq> 0 then [SPACE] else []) @ token_text (Quoted (ws ! i)))"
  have all: "line_splitter_reconstruct_line ws = concat (map part [0 ..< length ws])"
    unfolding line_splitter_reconstruct_line_def part_def
    by (intro arg_cong [where f = concat] map_cong) (auto simp: get_word_def)
  have pre: "concat (map part [0 ..< n]) @ (if n \<noteq> 0 then [SPACE] else []) =
      render_line (map (\<lambda>w. (Quoted w, [SPACE])) (take n ws))" if "n \<le> length ws" for n
    using that
  proof (induction n)
    case 0
    then show ?case by (simp add: render_line_def)
  next
    case (Suc n)
    then show ?case by (simp add: render_line_def take_Suc_conv_app_nth part_def)
  qed
  obtain n where n: "length ws = Suc n" using assms by (cases ws) auto
  then have "concat (map part [0 ..< length ws]) =
      (concat (map part [0 ..< n]) @ (if n \<noteq> 0 then [SPACE] else [])) @ token_text (Quoted (ws ! n))"
    by (simp add: part_def)
  moreover have "ws ! n = last ws" "take n ws = butlast ws"
    using n assms by (simp_all add: last_conv_nth butlast_conv_take)
  ultimately show ?thesis
    unfolding all using pre [of n] n by (simp add: render_line_def)
qed

text \<open>C19 (splitter)  The splitter inverts \<^verbatim>\<open>line_splitter_reconstruct_line\<close>: any words without
  quotes and backslashes, no more of them than the splitter has room for, come back from the
  line in which they are quoted.\<close>

theorem splitter_inverts_reconstruct:
  assumes "\<forall>w \<in> set ws. SQUOTE \<notin> set w \<and> BACKSLASH \<notin> set w" and "length ws \<le> max_words"
  shows "quoted_strings_splitter (line_splitter_reconstruct_line ws) max_words isspace_pluginsd = ws"
proof (cases "ws = []")
  case True
  then show ?thesis by (simp add: line_splitter_reconstruct_line_def quoted_strings_splitter_def)
next
  case False
  define ts where "ts = map (\<lambda>w. (Quoted w, [SPACE])) (butlast ws) @ [(Quoted (last ws), [])]"
  have "set ws = set (butlast ws @ [last ws])" using False by simp
  then have "line_ok isspace_pluginsd ts" using assms(1) by (auto simp: line_ok_def ts_def)
  moreover have "length ts \<le> max_words" using assms(2) False by (simp add: ts_def)
  moreover have "map (\<lambda>(t, _). token_word t) ts = ws" using False by (simp add: ts_def comp_def)
  ultimately show ?thesis
    using splitter_words [of isspace_pluginsd ts max_words] False by (simp add: reconstruct_eq_render ts_def)
qed

theorem splitter_inverts_reconstruct_witness:
  "quoted_strings_splitter (line_splitter_reconstruct_line [''CHART'', [], ''UPS load'']) 30 isspace_pluginsd =
   [''CHART'', [], ''UPS load'']"
  using splitter_inverts_reconstruct [of "[''CHART'', [], ''UPS load'']" 30] by simp

text \<open>
  With a separator set that has no space in it, the space written over a closing quote becomes
  part of the word.
\<close>

lemma splitter_group_by_label_quoted:
  "quoted_strings_splitter ([SQUOTE] @ ''a'' @ [SQUOTE] @ '',b'') 30 isspace_group_by_label = [''a '', ''b'']"
  by (simp add: quoted_strings_splitter_def check_quote_def isspace_group_by_label_def)

end
