(* ===== verification/Upsd_Protocol.thy ===== *)
theory Upsd_Protocol
  imports Upsd_Status Line_Splitter
begin

text \<open>
  The parts of \<^verbatim>\<open>upsd_plugin.c\<close> that do not touch the dictionaries: the table of charts, the lines
  of the external plugin protocol that are printed, the command line, the normalisation of a UPS
  name and the conversion of a NUT reading to the integer of a \<^verbatim>\<open>SET\<close> line.  What is printed is
  the string appended to standard output.
\<close>

section \<open>Constants\<close>

definition PLUGIN_UPSD_NAME :: string where
  "PLUGIN_UPSD_NAME = ''upsd.plugin''"

definition NETDATA_PLUGIN_EXIT_AND_RESTART :: int where
  "NETDATA_PLUGIN_EXIT_AND_RESTART = 0"

definition NETDATA_PLUGIN_EXIT_AND_DISABLE :: int where
  "NETDATA_PLUGIN_EXIT_AND_DISABLE = 1"

definition NETDATA_CLABEL_SOURCE_AUTO :: nat where
  "NETDATA_CLABEL_SOURCE_AUTO = 1"

definition NETDATA_PLUGIN_PRECISION :: nat where
  "NETDATA_PLUGIN_PRECISION = 100"

definition NETDATA_CHART_PRIO_UPSD_UPS_LOAD :: nat where
  "NETDATA_CHART_PRIO_UPSD_UPS_LOAD = 70000"

definition NETDATA_CHART_PRIO_UPSD_UPS_LOADUSAGE :: nat where
  "NETDATA_CHART_PRIO_UPSD_UPS_LOADUSAGE = 70001"

definition NETDATA_CHART_PRIO_UPSD_UPS_STATUS :: nat where
  "NETDATA_CHART_PRIO_UPSD_UPS_STATUS = 70002"

definition NETDATA_CHART_PRIO_UPSD_UPS_TEMP :: nat where
  "NETDATA_CHART_PRIO_UPSD_UPS_TEMP = 70003"

definition NETDATA_CHART_PRIO_UPSD_BATT_CHARGE :: nat where
  "NETDATA_CHART_PRIO_UPSD_BATT_CHARGE = 70004"

definition NETDATA_CHART_PRIO_UPSD_BATT_RUNTIME :: nat where
  "NETDATA_CHART_PRIO_UPSD_BATT_RUNTIME = 70005"

definition NETDATA_CHART_PRIO_UPSD_BATT_VOLTAGE :: nat where
  "NETDATA_CHART_PRIO_UPSD_BATT_VOLTAGE = 70006"

definition NETDATA_CHART_PRIO_UPSD_BATT_VOLTAGE_NOM :: nat where
  "NETDATA_CHART_PRIO_UPSD_BATT_VOLTAGE_NOM = 70007"

definition NETDATA_CHART_PRIO_UPSD_INPT_VOLTAGE :: nat where
  "NETDATA_CHART_PRIO_UPSD_INPT_VOLTAGE = 70008"

definition NETDATA_CHART_PRIO_UPSD_INPT_VOLTAGE_NOM :: nat where
  "NETDATA_CHART_PRIO_UPSD_INPT_VOLTAGE_NOM = 70009"

definition NETDATA_CHART_PRIO_UPSD_INPT_CURRENT :: nat where
  "NETDATA_CHART_PRIO_UPSD_INPT_CURRENT = 70010"

definition NETDATA_CHART_PRIO_UPSD_INPT_CURRENT_NOM :: nat where
  "NETDATA_CHART_PRIO_UPSD_INPT_CURRENT_NOM = 70011"

definition NETDATA_CHART_PRIO_UPSD_INPT_FREQUENCY :: nat where
  "NETDATA_CHART_PRIO_UPSD_INPT_FREQUENCY = 70012"

definition NETDATA_CHART_PRIO_UPSD_INPT_FREQUENCY_NOM :: nat where
  "NETDATA_CHART_PRIO_UPSD_INPT_FREQUENCY_NOM = 70013"

definition NETDATA_CHART_PRIO_UPSD_OUPT_VOLTAGE :: nat where
  "NETDATA_CHART_PRIO_UPSD_OUPT_VOLTAGE = 70014"

definition NETDATA_CHART_PRIO_UPSD_OUPT_VOLTAGE_NOM :: nat where
  "NETDATA_CHART_PRIO_UPSD_OUPT_VOLTAGE_NOM = 70015"

definition NETDATA_CHART_PRIO_UPSD_OUPT_CURRENT :: nat where
  "NETDATA_CHART_PRIO_UPSD_OUPT_CURRENT = 70016"

definition NETDATA_CHART_PRIO_UPSD_OUPT_CURRENT_NOM :: nat where
  "NETDATA_CHART_PRIO_UPSD_OUPT_CURRENT_NOM = 70017"

definition NETDATA_CHART_PRIO_UPSD_OUPT_FREQUENCY :: nat where
  "NETDATA_CHART_PRIO_UPSD_OUPT_FREQUENCY = 70018"

definition NETDATA_CHART_PRIO_UPSD_OUPT_FREQUENCY_NOM :: nat where
  "NETDATA_CHART_PRIO_UPSD_OUPT_FREQUENCY_NOM = 70019"

section \<open>The charts\<close>

record nd_chart =
  nut_variable :: string
  chart_id :: string
  chart_name :: "string option"
  chart_title :: string
  chart_units :: string
  chart_family :: string
  chart_context :: string
  chart_type :: string
  chart_priority :: nat
  chart_dimension :: string

definition mk_chart :: "string \<Rightarrow> string \<Rightarrow> string \<Rightarrow> string \<Rightarrow> string \<Rightarrow> string \<Rightarrow> string \<Rightarrow> nat \<Rightarrow> string \<Rightarrow> nd_chart" where
  "mk_chart var cid title units family ctx ty prio dmn =
     \<lparr> nut_variable = var, chart_id = cid, chart_name = None, chart_title = title, chart_units = units,
       chart_family = family, chart_context = ctx, chart_type = ty, chart_priority = prio,
       chart_dimension = dmn \<rparr>"

text \<open>The table without its terminating entry.\<close>

definition nd_charts :: "nd_chart list" where
  "nd_charts = [
     mk_chart ''ups.load'' ''load_percentage''
       ''UPS load'' ''percentage'' ''ups''
       ''upsd.ups_load'' ''area'' NETDATA_CHART_PRIO_UPSD_UPS_LOAD ''load'',
     mk_chart ''ups.realpower'' ''load_usage''
       ''UPS load usage (power output)'' ''Watts'' ''ups''
       ''upsd.ups_load_usage'' ''line'' NETDATA_CHART_PRIO_UPSD_UPS_LOADUSAGE ''load_usage'',
     mk_chart ''ups.temperature'' ''temperature''
       ''UPS temperature'' ''Celsius'' ''ups''
       ''upsd.ups_temperature'' ''line'' NETDATA_CHART_PRIO_UPSD_UPS_TEMP ''temperature'',
     mk_chart ''battery.charge'' ''battery_charge_percentage''
       ''UPS Battery charge'' ''percentage'' ''battery''
       ''upsd.ups_battery_charge'' ''area'' NETDATA_CHART_PRIO_UPSD_BATT_CHARGE ''charge'',
     mk_chart ''battery.runtime'' ''battery_estimated_runtime''
       ''UPS Battery estimated runtime'' ''seconds'' ''battery''
       ''upsd.ups_battery_estimated_runtime'' ''line'' NETDATA_CHART_PRIO_UPSD_BATT_RUNTIME ''runtime'',
     mk_chart ''battery.voltage'' ''battery_voltage''
       ''UPS Battery voltage'' ''Volts'' ''battery''
       ''upsd.ups_battery_voltage'' ''line'' NETDATA_CHART_PRIO_UPSD_BATT_VOLTAGE ''voltage'',
     mk_chart ''battery.voltage.nominal'' ''battery_voltage_nominal''
       ''UPS Battery voltage nominal'' ''Volts'' ''battery''
       ''upsd.ups_battery_voltage_nominal'' ''line'' NETDATA_CHART_PRIO_UPSD_BATT_VOLTAGE_NOM ''nominal_voltage'',
     mk_chart ''input.voltage'' ''input_voltage''
       ''UPS Input voltage'' ''Volts'' ''input''
       ''upsd.ups_input_voltage'' ''line'' NETDATA_CHART_PRIO_UPSD_INPT_VOLTAGE ''voltage'',
     mk_chart ''input.voltage.nominal'' ''input_voltage_nominal''
       ''UPS Input voltage nominal'' ''Volts'' ''input''
       ''upsd.ups_input_voltage_nominal'' ''line'' NETDATA_CHART_PRIO_UPSD_INPT_VOLTAGE_NOM ''nominal_voltage'',
     mk_chart ''input.current'' ''input_current''
       ''UPS Input current'' ''Ampere'' ''input''
       ''upsd.ups_input_current'' ''line'' NETDATA_CHART_PRIO_UPSD_INPT_CURRENT ''current'',
     mk_chart ''input.current.nominal'' ''input_current_nominal''
       ''UPS Input current nominal'' ''Ampere'' ''input''
       ''upsd.ups_input_current_nominal'' ''line'' NETDATA_CHART_PRIO_UPSD_INPT_CURRENT_NOM ''nominal_current'',
     mk_chart ''input.frequency'' ''input_frequency''
       ''UPS Input frequency'' ''Hz'' ''input''
       ''upsd.ups_input_frequency'' ''line'' NETDATA_CHART_PRIO_UPSD_INPT_FREQUENCY ''frequency'',
     mk_chart ''input.frequency.nominal'' ''input_frequency_nominal''
       ''UPS Input frequency nominal'' ''Hz'' ''input''
       ''upsd.ups_input_frequency_nominal'' ''line'' NETDATA_CHART_PRIO_UPSD_INPT_FREQUENCY_NOM ''nominal_frequency'',
     mk_chart ''output.voltage'' ''output_voltage''
       ''UPS Output voltage'' ''Volts'' ''output''
       ''upsd.ups_output_voltage'' ''line'' NETDATA_CHART_PRIO_UPSD_OUPT_VOLTAGE ''voltage'',
     mk_chart ''output.voltage.nominal'' ''output_voltage_nominal''
       ''UPS Output voltage nominal'' ''Volts'' ''output''
       ''upsd.ups_output_voltage_nominal'' ''line'' NETDATA_CHART_PRIO_UPSD_OUPT_VOLTAGE_NOM ''nominal_voltage'',
     mk_chart ''output.current'' ''output_current''
       ''UPS Output current'' ''Ampere'' ''output''
       ''upsd.ups_output_current'' ''line'' NETDATA_CHART_PRIO_UPSD_OUPT_CURRENT ''current'',
     mk_chart ''output.current.nominal'' ''output_current_nominal''
       ''UPS Output current nominal'' ''Ampere'' ''output''
       ''upsd.ups_output_current_nominal'' ''line'' NETDATA_CHART_PRIO_UPSD_OUPT_CURRENT_NOM ''nominal_current'',
     mk_chart ''output.frequency'' ''output_frequency''
       ''UPS Output frequency'' ''Hz'' ''output''
       ''upsd.ups_output_frequency'' ''line'' NETDATA_CHART_PRIO_UPSD_OUPT_FREQUENCY ''frequency'',
     mk_chart ''output.frequency.nominal'' ''output_frequency_nominal''
       ''UPS Output frequency nominal'' ''Hz'' ''output''
       ''upsd.ups_output_frequency_nominal'' ''line'' NETDATA_CHART_PRIO_UPSD_OUPT_FREQUENCY_NOM ''nominal_frequency''
   ]"

section \<open>Printed lines\<close>

definition sq :: "string \<Rightarrow> string" where
  "sq s = [SQUOTE] @ s @ [SQUOTE]"

definition send_BEGIN :: "string \<Rightarrow> string \<Rightarrow> nat \<Rightarrow> string" where
  "send_BEGIN ty name usec = ''BEGIN upsd_'' @ ty @ ''.'' @ name @ '' '' @ show_nat usec @ [NEWLINE]"

definition send_SET :: "string \<Rightarrow> int \<Rightarrow> string" where
  "send_SET name val = ''SET '' @ name @ '' = '' @ show_int val @ [NEWLINE]"

definition send_END :: string where
  "send_END = ''END'' @ [NEWLINE]"

text \<open>The name under which each bit of the status is sent, in the order of the code.\<close>

definition status_dimensions :: "(string \<times> (nut_ups_status \<Rightarrow> bool)) list" where
  "status_dimensions =
     [(''on_line'', OL), (''on_battery'', OB), (''low_battery'', LB), (''high_battery'', HB),
      (''replace_battery'', RB), (''charging'', CHRG), (''discharging'', DISCHRG), (''bypass'', BYPASS),
      (''calibration'', CAL), (''offline'', OFF), (''overloaded'', OVER), (''trim_input_voltage'', TRIM),
      (''boost_input_voltage'', BOOST), (''forced_shutdown'', FSD), (''other'', OTHER)]"

definition status_lines :: "string \<Rightarrow> nut_ups_status \<Rightarrow> nat \<Rightarrow> string" where
  "status_lines clean_ups_name status dt =
     send_BEGIN clean_ups_name ''status'' dt
     @ concat (map (\<lambda>(name, bit). send_SET name (of_bool (bit status))) status_dimensions)
     @ send_END"

definition chart_status_line :: "string \<Rightarrow> nat \<Rightarrow> string" where
  "chart_status_line clean_ups_name update_every =
     ''CHART '' @ sq (''upsd_'' @ clean_ups_name @ ''.status'') @ '' '' @ sq [] @ '' '' @ sq ''UPS status''
     @ '' '' @ sq ''status'' @ '' '' @ sq ''ups'' @ '' '' @ sq ''upsd.ups_status'' @ '' '' @ sq ''line''
     @ '' '' @ show_nat NETDATA_CHART_PRIO_UPSD_UPS_STATUS @ '' '' @ show_nat update_every @ [NEWLINE]"

definition chart_line :: "string \<Rightarrow> nd_chart \<Rightarrow> nat \<Rightarrow> string" where
  "chart_line clean_ups_name chart update_every =
     ''CHART '' @ sq (''upsd_'' @ clean_ups_name @ ''.'' @ chart_id chart) @ '' '' @ sq []
     @ '' '' @ sq (chart_title chart) @ '' '' @ sq (chart_units chart) @ '' '' @ sq (chart_family chart)
     @ '' '' @ sq (chart_context chart) @ '' '' @ sq (chart_type chart)
     @ '' '' @ sq (show_nat (chart_priority chart)) @ '' '' @ sq (show_nat update_every)
     @ '' '' @ sq [] @ '' '' @ sq PLUGIN_UPSD_NAME @ [NEWLINE]"

text \<open>The labels of the status chart are printed bare, those of the other charts quoted.\<close>

definition clabel_status_line :: "string \<Rightarrow> string \<Rightarrow> string" where
  "clabel_status_line label val =
     ''CLABEL '' @ label @ '' '' @ sq val @ '' '' @ show_nat NETDATA_CLABEL_SOURCE_AUTO @ [NEWLINE]"

definition clabel_line :: "string \<Rightarrow> string \<Rightarrow> string" where
  "clabel_line label val =
     ''CLABEL '' @ sq label @ '' '' @ sq val @ '' '' @ sq (show_nat NETDATA_CLABEL_SOURCE_AUTO) @ [NEWLINE]"

definition clabel_commit_status :: "string \<Rightarrow> string" where
  "clabel_commit_status ups_name = clabel_status_line ''ups_name'' ups_name @ ''CLABEL_COMMIT'' @ [NEWLINE]"

definition clabel_commit :: "string \<Rightarrow> string" where
  "clabel_commit ups_name =
     ''CLABEL '' @ sq ''ups_name'' @ '' '' @ sq ups_name @ '' '' @ show_nat NETDATA_CLABEL_SOURCE_AUTO
     @ [NEWLINE] @ ''CLABEL_COMMIT'' @ [NEWLINE]"

definition dimension_status_line :: "string \<Rightarrow> string" where
  "dimension_status_line name =
     ''DIMENSION '' @ name @ '' '' @ sq [] @ '' '' @ sq [] @ '' '' @ sq [] @ '' ''
     @ show_nat NETDATA_PLUGIN_PRECISION @ [NEWLINE]"

definition dimension_line :: "nd_chart \<Rightarrow> string" where
  "dimension_line chart =
     ''DIMENSION '' @ sq (chart_dimension chart) @ '' '' @ sq [] @ '' '' @ sq [] @ '' '' @ sq [] @ '' ''
     @ show_nat NETDATA_PLUGIN_PRECISION @ [NEWLINE]"

section \<open>Names\<close>

definition clean_name :: "string \<Rightarrow> string" where
  "clean_name name = map (\<lambda>c. if c = SPACE \<or> c = CHR ''.'' then CHR ''_'' else c) name"

section \<open>The command line\<close>

definition print_version :: "string \<Rightarrow> string" where
  "print_version netdata_version =
     ''netdata '' @ PLUGIN_UPSD_NAME @ '' '' @ netdata_version @ [NEWLINE]
     @ [NEWLINE]
     @ ''Copyright 2025 Netdata Inc.'' @ [NEWLINE]
     @ ''Original Author: Mario Campos <mario.andres.campos@gmail.com>'' @ [NEWLINE]
     @ ''Released under GNU General Public License v3+.'' @ [NEWLINE]
     @ [NEWLINE]
     @ ''This program is a data collector plugin for netdata.'' @ [NEWLINE]"

definition print_help :: string where
  "print_help =
     ''usage: '' @ PLUGIN_UPSD_NAME @ '' [COLLECTION_FREQUENCY]'' @ [NEWLINE]
     @ ''       '' @ PLUGIN_UPSD_NAME @ '' -v'' @ [NEWLINE]
     @ ''       '' @ PLUGIN_UPSD_NAME @ '' -h'' @ [NEWLINE]
     @ [NEWLINE]
     @ ''options:'' @ [NEWLINE]
     @ ''  COLLECTION_FREQUENCY    data collection frequency in seconds (default: 1)'' @ [NEWLINE]
     @ ''  -v                      print version and exit'' @ [NEWLINE]
     @ ''  -h                      print this message and exit'' @ [NEWLINE]"

text \<open>The outcome: the process exits with a status and a message, or runs with an interval.\<close>

datatype cmdline = Exit int string | Run u64

text \<open>
  \<^verbatim>\<open>getopt\<close> of the C library with the option string \<^verbatim>\<open>hv\<close>: the first option met decides, arguments
  that are no options are passed over and come first afterwards, and \<^verbatim>\<open>--\<close> ends the options.
\<close>

fun getopt_scan :: "string list \<Rightarrow> string list \<Rightarrow> char option \<times> string list" where
  "getopt_scan operands [] = (None, operands)"
| "getopt_scan operands (arg # args) =
     (if arg = ''--'' then (None, operands @ args)
      else if peek arg = CHR ''-'' \<and> tl arg \<noteq> [] then (Some (hd (tl arg)), [])
      else getopt_scan (operands @ [arg]) args)"

definition parse_command_line :: "string \<Rightarrow> string list \<Rightarrow> cmdline" where
  "parse_command_line netdata_version args =
     (case getopt_scan [] args of
        (Some opt, _) \<Rightarrow>
          (if opt = CHR ''h'' then Exit 0 print_help
           else if opt = CHR ''v'' then Exit 0 (print_version netdata_version)
           else Exit 1 print_help)
      | (None, []) \<Rightarrow> Run 1
      | (None, arg # _) \<Rightarrow>
          if \<not> isdigit (peek arg) then Exit 1 print_help
          else
            let netdata_update_every = of_int (sint (str2i arg)) :: u64
            in if netdata_update_every \<le> 0 \<or> 86400 \<le> netdata_update_every
               then Exit 1 ''COLLECTION_FREQUENCY argument must be between [1,86400)''
               else Run netdata_update_every)"

section \<open>Readings\<close>

text \<open>
  The integer of a \<^verbatim>\<open>SET\<close> line: the reading times the precision, converted to \<^verbatim>\<open>int64_t\<close>.
\<close>

definition scaled_reading :: "string \<Rightarrow> int res" where
  "scaled_reading s =
     ndd_to_int64 (ndd_mult (fst (str2ndd s)) (ndd_of_nat NETDATA_PLUGIN_PRECISION))"

definition load_usage_reading :: "string \<Rightarrow> string \<Rightarrow> int res" where
  "load_usage_reading load nominal =
     ndd_to_int64
       (ndd_mult (ndd_div (fst (str2ndd load)) (ndd_of_nat 100))
         (ndd_mult (fst (str2ndd nominal)) (ndd_of_nat NETDATA_PLUGIN_PRECISION)))"

section \<open>The daemon reads back what is printed\<close>

text \<open>Text that survives between single quotes, and text that survives bare.\<close>

definition quotable :: "string \<Rightarrow> bool" where
  "quotable s \<longleftrightarrow> SQUOTE \<notin> set s \<and> BACKSLASH \<notin> set s"

definition bare_ok :: "string \<Rightarrow> bool" where
  "bare_ok s \<longleftrightarrow> BACKSLASH \<notin> set s \<and> (\<forall>c \<in> set s. \<not> isspace_pluginsd c)"

lemma bare_ok_Cons [simp]: "bare_ok (c # s) \<longleftrightarrow> c \<noteq> BACKSLASH \<and> \<not> isspace_pluginsd c \<and> bare_ok s" "bare_ok []"
  by (auto simp: bare_ok_def)

lemma quotable_Cons [simp]: "quotable (c # s) \<longleftrightarrow> c \<noteq> SQUOTE \<and> c \<noteq> BACKSLASH \<and> quotable s" "quotable []"
  by (auto simp: quotable_def)

lemma bare_ok_append [simp]: "bare_ok (s @ t) \<longleftrightarrow> bare_ok s \<and> bare_ok t"
  by (auto simp: bare_ok_def)

lemma quotable_append [simp]: "quotable (s @ t) \<longleftrightarrow> quotable s \<and> quotable t"
  by (auto simp: quotable_def)

lemma digits_ok:
  assumes "\<forall>c \<in> set ds. isdigit c"
  shows "bare_ok ds" and "quotable ds"
proof -
  have "c \<noteq> BACKSLASH \<and> c \<noteq> SQUOTE \<and> \<not> isspace_pluginsd c" if "isdigit c" for c
    using that by (auto simp: isdigit_def code_def isspace_pluginsd_def)
  then show "bare_ok ds" "quotable ds" using assms by (auto simp: bare_ok_def quotable_def)
qed

lemma show_nat_ok [simp]: "bare_ok (show_nat n)" "quotable (show_nat n)"
  by (rule digits_ok, rule show_nat_digits)+

lemma show_int_ok [simp]: "bare_ok (show_int i)"
  using show_nat_ok by (simp add: show_int_def bare_ok_def isspace_pluginsd_def)

lemma show_nat_hd [simp]: "hd (show_nat n) \<noteq> SQUOTE" "hd (show_nat n) \<noteq> DQUOTE"
  by (rule show_nat_ConsE [of n]; auto simp: isdigit_def code_def)+

lemma show_int_hd [simp]: "hd (show_int i) \<noteq> SQUOTE" "hd (show_int i) \<noteq> DQUOTE" "show_int i \<noteq> []"
  by (auto simp: show_int_def)

lemma token_ok_bare: "w \<noteq> [] \<Longrightarrow> bare_ok w \<Longrightarrow> hd w \<noteq> SQUOTE \<Longrightarrow> hd w \<noteq> DQUOTE \<Longrightarrow> token_ok isspace_pluginsd (Bare w)"
  by (simp add: bare_ok_def)

lemma token_ok_quoted: "token_ok isspace_pluginsd (Quoted w) \<longleftrightarrow> quotable w"
  by (simp add: quotable_def)

lemma split_pluginsd:
  assumes "line = render_line ts" and "\<forall>(t, sep) \<in> set ts. token_ok isspace_pluginsd t \<and> sep \<noteq> [] \<and> (\<forall>c \<in> set sep. isspace_pluginsd c)"
    and "length ts \<le> PLUGINSD_MAX_WORDS"
  shows "quoted_strings_splitter line PLUGINSD_MAX_WORDS isspace_pluginsd = map (\<lambda>(t, _). token_word t) ts"
  unfolding assms(1) using assms(2,3) by (intro splitter_words) (auto simp: line_ok_def)

lemma split_BEGIN:
  assumes "bare_ok ty" and "bare_ok name"
  shows "quoted_strings_splitter (send_BEGIN ty name usec) PLUGINSD_MAX_WORDS isspace_pluginsd =
    [''BEGIN'', ''upsd_'' @ ty @ ''.'' @ name, show_nat usec]"
proof -
  define ts where "ts = [(Bare ''BEGIN'', '' ''), (Bare (''upsd_'' @ ty @ ''.'' @ name), '' ''), (Bare (show_nat usec), [NEWLINE])]"
  have "send_BEGIN ty name usec = render_line ts" by (simp add: send_BEGIN_def ts_def render_line_def)
  moreover have "bare_ok ''BEGIN''" "bare_ok (''upsd_'' @ ty @ ''.'' @ name)" using assms by (simp_all add: isspace_pluginsd_def)
  then have "\<forall>(t, sep) \<in> set ts. token_ok isspace_pluginsd t \<and> sep \<noteq> [] \<and> (\<forall>c \<in> set sep. isspace_pluginsd c)"
    unfolding ts_def by (auto simp del: token_ok.simps intro!: token_ok_bare)
  ultimately show ?thesis using split_pluginsd [of "send_BEGIN ty name usec" ts] by (simp add: ts_def PLUGINSD_MAX_WORDS_def)
qed

lemma split_SET:
  assumes "bare_ok name" and "name \<noteq> []" and "hd name \<noteq> SQUOTE" and "hd name \<noteq> DQUOTE"
  shows "quoted_strings_splitter (send_SET name val) PLUGINSD_MAX_WORDS isspace_pluginsd =
    [''SET'', name, show_int val]"
proof -
  define ts where "ts = [(Bare ''SET'', '' ''), (Bare name, '' = ''), (Bare (show_int val), [NEWLINE])]"
  have "send_SET name val = render_line ts" by (simp add: send_SET_def ts_def render_line_def)
  moreover have "bare_ok ''SET''" by (simp add: isspace_pluginsd_def)
  then have "\<forall>(t, sep) \<in> set ts. token_ok isspace_pluginsd t \<and> sep \<noteq> [] \<and> (\<forall>c \<in> set sep. isspace_pluginsd c)"
    unfolding ts_def using assms by (auto simp del: token_ok.simps intro!: token_ok_bare)
  ultimately show ?thesis using split_pluginsd [of "send_SET name val" ts] by (simp add: ts_def PLUGINSD_MAX_WORDS_def)
qed

lemma split_chart_line:
  assumes "chart \<in> set nd_charts" and "quotable name"
  shows "quoted_strings_splitter (chart_line name chart update_every) PLUGINSD_MAX_WORDS isspace_pluginsd =
    [''CHART'', ''upsd_'' @ name @ ''.'' @ chart_id chart, [], chart_title chart, chart_units chart,
     chart_family chart, chart_context chart, chart_type chart, show_nat (chart_priority chart),
     show_nat update_every, [], PLUGIN_UPSD_NAME]"
proof -
  define ts where "ts = (Bare ''CHART'', '' '') # map (\<lambda>w. (Quoted w, '' ''))
    [''upsd_'' @ name @ ''.'' @ chart_id chart, [], chart_title chart, chart_units chart,
     chart_family chart, chart_context chart, chart_type chart, show_nat (chart_priority chart),
     show_nat update_every, []] @ [(Quoted PLUGIN_UPSD_NAME, [NEWLINE])]"
  have "chart_line name chart update_every = render_line ts"
    by (simp add: chart_line_def ts_def render_line_def sq_def)
  moreover have "quotable (chart_id chart) \<and> quotable (chart_title chart) \<and> quotable (chart_units chart) \<and>
      quotable (chart_family chart) \<and> quotable (chart_context chart) \<and> quotable (chart_type chart)"
    using assms(1) by (auto simp: nd_charts_def mk_chart_def)
  then have "\<forall>(t, sep) \<in> set ts. token_ok isspace_pluginsd t \<and> sep \<noteq> [] \<and> (\<forall>c \<in> set sep. isspace_pluginsd c)"
    unfolding ts_def using assms(2)
    by (auto simp del: token_ok.simps simp: token_ok_quoted PLUGIN_UPSD_NAME_def isspace_pluginsd_def intro!: token_ok_bare)
  ultimately show ?thesis
    using split_pluginsd [of "chart_line name chart update_every" ts] by (simp add: ts_def PLUGINSD_MAX_WORDS_def)
qed

text \<open>The names of the dimensions that are sent.\<close>

definition dimension_names :: "string list" where
  "dimension_names = map fst status_dimensions @ ''load_usage'' # map chart_dimension nd_charts"

lemma dimension_names_ok:
  "name \<in> set dimension_names \<Longrightarrow> bare_ok name \<and> name \<noteq> [] \<and> hd name \<noteq> SQUOTE \<and> hd name \<noteq> DQUOTE"
  by (auto simp: dimension_names_def status_dimensions_def nd_charts_def mk_chart_def isspace_pluginsd_def)

text \<open>C13 (protocol)  The daemon reads back what the plugin sends: a \<^verbatim>\<open>BEGIN\<close> line names the chart
  and the time, and a \<^verbatim>\<open>SET\<close> line the dimension and, for every 64-bit value, that value.  The name of the
  device has no separator and no backslash.\<close>

theorem metric_lines_round_trip:
  assumes "bare_ok ups" and "chart \<in> set nd_charts" and "name \<in> set dimension_names"
    and "- (2 ^ 63) \<le> val" and "val < 2 ^ 63"
  shows "quoted_strings_splitter (send_BEGIN ups (chart_id chart) dt) PLUGINSD_MAX_WORDS isspace_pluginsd =
      [''BEGIN'', ''upsd_'' @ ups @ ''.'' @ chart_id chart, show_nat dt] \<and>
    (\<exists>v. quoted_strings_splitter (send_SET name val) PLUGINSD_MAX_WORDS isspace_pluginsd = [''SET'', name, v] \<and>
         sint (str2ll_encoded v) = val)"
proof
  have "bare_ok (chart_id chart)"
    using assms(2) by (auto simp: nd_charts_def mk_chart_def isspace_pluginsd_def)
  then show "quoted_strings_splitter (send_BEGIN ups (chart_id chart) dt) PLUGINSD_MAX_WORDS isspace_pluginsd =
      [''BEGIN'', ''upsd_'' @ ups @ ''.'' @ chart_id chart, show_nat dt]"
    using assms(1) by (rule split_BEGIN [rotated])
  have "sint (of_int val :: u64) = val"
    using assms(4,5) by (simp add: signed_of_int signed_take_bit_int_eq_self)
  then show "\<exists>v. quoted_strings_splitter (send_SET name val) PLUGINSD_MAX_WORDS isspace_pluginsd = [''SET'', name, v] \<and>
         sint (str2ll_encoded v) = val"
    using split_SET [of name val] dimension_names_ok [OF assms(3)] by (auto simp: str2ll_encoded_show_int)
qed

theorem metric_lines_round_trip_witness:
  "\<exists>v. quoted_strings_splitter (send_SET ''load_usage'' (- 5)) PLUGINSD_MAX_WORDS isspace_pluginsd =
      [''SET'', ''load_usage'', v] \<and> sint (str2ll_encoded v) = - 5"
  using metric_lines_round_trip [of "''ups1''" "hd nd_charts" "''load_usage''" "- 5" 1]
  by (simp add: dimension_names_def nd_charts_def isspace_pluginsd_def)

text \<open>C14 (charts)  The chart definitions are read back word for word whatever the update interval,
  for a device name without single quotes and backslashes, and the table has no two charts for one
  variable, with one identifier or with one priority.\<close>

theorem chart_lines_round_trip:
  "(\<forall>chart \<in> set nd_charts. quotable ups \<longrightarrow>
     quoted_strings_splitter (chart_line ups chart update_every) PLUGINSD_MAX_WORDS isspace_pluginsd =
       [''CHART'', ''upsd_'' @ ups @ ''.'' @ chart_id chart, [], chart_title chart, chart_units chart,
        chart_family chart, chart_context chart, chart_type chart, show_nat (chart_priority chart),
        show_nat update_every, [], PLUGIN_UPSD_NAME]) \<and>
   distinct (map nut_variable nd_charts) \<and> distinct (map chart_id nd_charts) \<and>
   distinct (map chart_priority nd_charts)"
proof (intro conjI)
  show "distinct (map nut_variable nd_charts)" "distinct (map chart_id nd_charts)" "distinct (map chart_priority nd_charts)"
    by (simp_all add: nd_charts_def mk_chart_def NETDATA_CHART_PRIO_UPSD_UPS_LOAD_def
      NETDATA_CHART_PRIO_UPSD_UPS_LOADUSAGE_def NETDATA_CHART_PRIO_UPSD_UPS_TEMP_def
      NETDATA_CHART_PRIO_UPSD_BATT_CHARGE_def NETDATA_CHART_PRIO_UPSD_BATT_RUNTIME_def
      NETDATA_CHART_PRIO_UPSD_BATT_VOLTAGE_def NETDATA_CHART_PRIO_UPSD_BATT_VOLTAGE_NOM_def
      NETDATA_CHART_PRIO_UPSD_INPT_VOLTAGE_def NETDATA_CHART_PRIO_UPSD_INPT_VOLTAGE_NOM_def
      NETDATA_CHART_PRIO_UPSD_INPT_CURRENT_def NETDATA_CHART_PRIO_UPSD_INPT_CURRENT_NOM_def
      NETDATA_CHART_PRIO_UPSD_INPT_FREQUENCY_def NETDATA_CHART_PRIO_UPSD_INPT_FREQUENCY_NOM_def
      NETDATA_CHART_PRIO_UPSD_OUPT_VOLTAGE_def NETDATA_CHART_PRIO_UPSD_OUPT_VOLTAGE_NOM_def
      NETDATA_CHART_PRIO_UPSD_OUPT_CURRENT_def NETDATA_CHART_PRIO_UPSD_OUPT_CURRENT_NOM_def
      NETDATA_CHART_PRIO_UPSD_OUPT_FREQUENCY_def NETDATA_CHART_PRIO_UPSD_OUPT_FREQUENCY_NOM_def)
qed (use split_chart_line in blast)

theorem chart_lines_round_trip_witness:
  "quoted_strings_splitter (chart_line ''ups1'' (hd nd_charts) 1) PLUGINSD_MAX_WORDS isspace_pluginsd =
     [''CHART'', ''upsd_ups1.load_percentage'', [], ''UPS load'', ''percentage'', ''ups'', ''upsd.ups_load'',
      ''area'', show_nat 70000, show_nat 1, [], ''upsd.plugin'']"
proof -
  have "hd nd_charts \<in> set nd_charts" by (simp add: nd_charts_def)
  then show ?thesis
    using chart_lines_round_trip [of "''ups1''" 1]
    by (auto simp: PLUGIN_UPSD_NAME_def nd_charts_def mk_chart_def NETDATA_CHART_PRIO_UPSD_UPS_LOAD_def)
qed

section \<open>Readings are scaled and truncated\<close>

lemma ndd_precision: "ndd_of_nat NETDATA_PLUGIN_PRECISION = Fin 100"
  using ndd_of_nat_small [of 100] by (simp add: NETDATA_PLUGIN_PRECISION_def)

lemma rat_trunc_bounds: "\<bar>of_int (rat_trunc q) - q\<bar> < 1" "\<bar>of_int (rat_trunc q)\<bar> \<le> \<bar>q\<bar>"
proof -
  have "\<bar>of_int (rat_trunc q) - q\<bar> < 1 \<and> \<bar>of_int (rat_trunc q)\<bar> \<le> \<bar>q\<bar>"
  proof (cases "q < 0")
    case True
    have "q \<le> of_int \<lceil>q\<rceil>" "of_int \<lceil>q\<rceil> < q + 1" by linarith+
    moreover have "(of_int \<lceil>q\<rceil> :: rat) \<le> 0" using True by simp
    ultimately show ?thesis using True by (simp add: rat_trunc_def)
  next
    case False
    have "of_int \<lfloor>q\<rfloor> \<le> q" "q < of_int \<lfloor>q\<rfloor> + 1" by linarith+
    moreover have "(0 :: rat) \<le> of_int \<lfloor>q\<rfloor>" using False by simp
    ultimately show ?thesis using False by (simp add: rat_trunc_def)
  qed
  then show "\<bar>of_int (rat_trunc q) - q\<bar> < 1" "\<bar>of_int (rat_trunc q)\<bar> \<le> \<bar>q\<bar>" by blast+
qed

lemma rat_trunc_of_int [simp]: "rat_trunc (of_int n) = n"
  by (simp add: rat_trunc_def)

lemma scaled_reading_dec:
  assumes "wf_dec ip fp"
  shows "scaled_reading (dec_text neg ip fp) =
    ndd_to_int64 (ndd_of_rat ((if neg then - 1 else 1) * decimal_sum (dec_value ip) (dec_value fp) (length fp) * 100))"
  using str2ndd_dec [OF assms, of "[]" neg] by (simp add: scaled_reading_def ndd_precision number_ends_def)

text \<open>One rounding of a value that is zero or at least a thousandth of a millionth of a millionth.\<close>

lemma fp_round_error_small:
  assumes "x = 0 \<or> 1 / 10 ^ 15 \<le> \<bar>x\<bar>"
  shows "\<bar>fp_round x - x\<bar> \<le> \<bar>x\<bar> / 2 ^ 53"
proof (cases "x = 0")
  case True
  then show ?thesis by (simp add: fp_round_def)
next
  case False
  then have "2 powi (- 1022) \<le> \<bar>x\<bar>" using assms ten_pow_ge_min_normal [of 15] by linarith
  then show ?thesis by (rule fp_round_error)
qed

text \<open>The double that is truncated is within a tenth of a hundred times the reading.\<close>

lemma scaled_double_error:
  assumes "\<bar>d - v\<bar> \<le> 3 * v / 2 ^ 53" and "v = 0 \<or> 1 / 10 ^ 15 \<le> v" and "v \<le> 10 ^ 12" and "s = 1 \<or> s = - 1"
  shows "\<bar>fp_round (s * d * 100) - s * v * 100\<bar> < 1 / 10 \<and> \<bar>s * d * 100\<bar> \<le> 10 ^ 16"
proof -
  have v0: "0 \<le> v" using assms(2) by (auto intro: order_trans [rotated])
  then have c: "3 * v / 2 ^ 53 \<le> v / 2" by simp
  have d: "v / 2 \<le> d" "d \<le> 2 * v" using assms(1) c v0 by linarith+
  have ab: "\<bar>s * d * 100\<bar> = 100 * d" using assms(4) d v0 by (auto simp: abs_mult)
  have "s * d * 100 = 0 \<or> 1 / 10 ^ 15 \<le> \<bar>s * d * 100\<bar>"
  proof (cases "v = 0")
    case True
    then show ?thesis using d by simp
  next
    case False
    then have "1 / 10 ^ 15 \<le> v" using assms(2) by blast
    then show ?thesis unfolding ab using d by linarith
  qed
  then have "\<bar>fp_round (s * d * 100) - s * d * 100\<bar> \<le> 100 * d / 2 ^ 53"
    using fp_round_error_small ab by metis
  moreover have "s * d * 100 - s * v * 100 = s * 100 * (d - v)" by (simp add: algebra_simps)
  then have "\<bar>s * d * 100 - s * v * 100\<bar> = 100 * \<bar>d - v\<bar>" using assms(4) by (auto simp: abs_mult)
  moreover have "100 * \<bar>d - v\<bar> \<le> 100 * (3 * v / 2 ^ 53)" using assms(1) by (intro mult_left_mono) simp_all
  ultimately have "\<bar>fp_round (s * d * 100) - s * v * 100\<bar> \<le> 100 * d / 2 ^ 53 + 100 * (3 * v / 2 ^ 53)"
    by linarith
  also have "\<dots> \<le> 500 * v / 2 ^ 53" using d(2) by (simp add: field_simps)
  also have "\<dots> < 1 / 10" using assms(3) by simp
  finally show ?thesis unfolding ab using d(2) assms(3) by simp
qed

lemma ndd_to_int64_small: "\<bar>q\<bar> \<le> 10 ^ 17 \<Longrightarrow> ndd_to_int64 (Fin q) = Inr (rat_trunc q)"
proof -
  assume "\<bar>q\<bar> \<le> 10 ^ 17"
  then have "of_int \<bar>rat_trunc q\<bar> \<le> (of_int (10 ^ 17) :: rat)" using rat_trunc_bounds(2) [of q] by simp
  then have "\<bar>rat_trunc q\<bar> \<le> 10 ^ 17" by (simp only: of_int_le_iff)
  then have "- (2 ^ 63) \<le> rat_trunc q \<and> rat_trunc q < 2 ^ 63" unfolding abs_le_iff by simp
  then show ?thesis by simp
qed

lemma decimal_value_range:
  assumes "i < 10 ^ 12" and "f < 10 ^ k" and "k \<le> 15"
  shows "(of_nat i + of_nat f / 10 ^ k = (0 :: rat) \<or> 1 / 10 ^ 15 \<le> of_nat i + (of_nat f / 10 ^ k :: rat)) \<and>
    of_nat i + (of_nat f / 10 ^ k :: rat) \<le> 10 ^ 12"
proof
  have k: "(1 :: rat) / 10 ^ 15 \<le> 1 / 10 ^ k" using assms(3) by (intro divide_left_mono power_increasing) auto
  have g0: "0 \<le> (of_nat f / 10 ^ k :: rat)" by simp
  show "of_nat i + of_nat f / 10 ^ k = (0 :: rat) \<or> 1 / 10 ^ 15 \<le> of_nat i + (of_nat f / 10 ^ k :: rat)"
  proof (cases "i = 0 \<and> f = 0")
    case True
    then show ?thesis by simp
  next
    case False
    then consider "1 \<le> (of_nat i :: rat)" | "1 \<le> (of_nat f :: rat)" by (cases "i = 0") auto
    then show ?thesis
    proof cases
      case 1
      moreover have "(1 :: rat) / 10 ^ 15 \<le> 1" by simp
      ultimately show ?thesis using g0 by linarith
    next
      case 2
      then have "1 / 10 ^ k \<le> (of_nat f / 10 ^ k :: rat)" by (intro divide_right_mono) auto
      moreover have "0 \<le> (of_nat i :: rat)" by simp
      ultimately show ?thesis using k by linarith
    qed
  qed
  have "(of_nat f :: rat) < of_nat (10 ^ k)" using assms(2) by (simp only: of_nat_less_iff)
  then have "(of_nat f / 10 ^ k :: rat) < 1" by simp
  moreover have "(of_nat (i + 1) :: rat) \<le> of_nat (10 ^ 12)" using assms(1) by (simp only: of_nat_le_iff)
  ultimately show "of_nat i + (of_nat f / 10 ^ k :: rat) \<le> 10 ^ 12"
    unfolding of_nat_add of_nat_1 of_nat_power of_nat_numeral by linarith
qed

lemma trunc_near_int:
  assumes "\<bar>y - of_int m\<bar> < 1 / 10"
  shows "\<bar>rat_trunc y - m\<bar> \<le> 1 \<and> \<bar>rat_trunc y\<bar> \<le> \<bar>m\<bar>"
proof -
  note t = rat_trunc_bounds [of y]
  have "\<bar>of_int (rat_trunc y) - of_int m :: rat\<bar> < 2" using t(1) assms by linarith
  then have "of_int \<bar>rat_trunc y - m\<bar> < (of_int 2 :: rat)" by simp
  then have "\<bar>rat_trunc y - m\<bar> < 2" by (simp only: of_int_less_iff)
  moreover have "\<bar>of_int (rat_trunc y) :: rat\<bar> < \<bar>of_int m\<bar> + 1" using t(2) assms by linarith
  then have "of_int \<bar>rat_trunc y\<bar> < (of_int (\<bar>m\<bar> + 1) :: rat)" by simp
  then have "\<bar>rat_trunc y\<bar> < \<bar>m\<bar> + 1" by (simp only: of_int_less_iff)
  ultimately show ?thesis by simp
qed

text \<open>C12 (scaling)  A reading of at most fifteen digits, twelve of them before the point, is sent as
  an integer within two of a hundred times the reading.  When that product is an integer, the
  integer sent is it or the next one towards zero; without a fraction it is exact.\<close>

theorem scaled_reading_error:
  assumes "wf_dec ip fp" and "length ip \<le> 12"
  shows "\<exists>k. scaled_reading (dec_text neg ip fp) = Inr k \<and>
    \<bar>of_int k - 100 * dec_rat neg ip fp\<bar> < 2 \<and>
    (\<forall>m. 100 * dec_rat neg ip fp = of_int m \<longrightarrow> \<bar>k - m\<bar> \<le> 1 \<and> \<bar>k\<bar> \<le> \<bar>m\<bar>) \<and>
    (fp = [] \<longrightarrow> of_int k = 100 * dec_rat neg ip fp)"
proof -
  define sg :: rat where "sg = (if neg then - 1 else 1)"
  define v :: rat where "v = of_nat (dec_value ip) + of_nat (dec_value fp) / 10 ^ length fp"
  define d where "d = decimal_sum (dec_value ip) (dec_value fp) (length fp)"
  define y where "y = fp_round (sg * d * 100)"
  have dr: "100 * dec_rat neg ip fp = sg * v * 100" by (simp add: dec_rat_def sg_def v_def)
  note b = wf_dec_bounds [OF assms(1)]
  have "dec_value ip < 10 ^ length ip" using assms(1) by (intro dec_value_less) (simp add: wf_dec_def)
  also have "(10 :: nat) ^ length ip \<le> 10 ^ 12" using assms(2) by (intro power_increasing) simp_all
  finally have ip: "dec_value ip < 10 ^ 12" .
  have "v = 0 \<or> 1 / 10 ^ 15 \<le> v" and "v \<le> 10 ^ 12"
    unfolding v_def using decimal_value_range [OF ip b(2,3)] by blast+
  moreover have "\<bar>d - v\<bar> \<le> 3 * v / 2 ^ 53" unfolding d_def v_def using b by (rule decimal_sum_error)
  ultimately have y: "\<bar>y - sg * v * 100\<bar> < 1 / 10" and x: "\<bar>sg * d * 100\<bar> \<le> 10 ^ 16"
    using scaled_double_error [of d v sg] by (auto simp: y_def sg_def)
  have "\<bar>sg * v * 100\<bar> \<le> 10 ^ 14" using \<open>v \<le> 10 ^ 12\<close> v_def by (auto simp: sg_def abs_mult)
  then have "\<bar>y\<bar> \<le> 10 ^ 14 + 1" using y by linarith
  then have yb: "\<bar>y\<bar> \<le> 10 ^ 17" by simp
  define k where "k = rat_trunc y"
  have res: "scaled_reading (dec_text neg ip fp) = Inr k"
    unfolding scaled_reading_dec [OF assms(1)] d_def [symmetric] sg_def [symmetric]
      ndd_of_rat_finite [OF small_le_huge [OF x]] y_def [symmetric] k_def
    using yb by (rule ndd_to_int64_small)
  note t = rat_trunc_bounds [of y, folded k_def]
  have near: "\<bar>of_int k - 100 * dec_rat neg ip fp\<bar> < 2" unfolding dr using y t(1) by linarith
  have exact: "\<bar>k - m\<bar> \<le> 1 \<and> \<bar>k\<bar> \<le> \<bar>m\<bar>" if "100 * dec_rat neg ip fp = of_int m" for m
    unfolding k_def using y that dr by (intro trunc_near_int) simp
  have "of_int k = 100 * dec_rat neg ip fp" if "fp = []"
  proof -
    define n :: int where "n = (if neg then - 1 else 1) * int (dec_value ip) * 100"
    have "sg * d * 100 = of_int n" "100 * dec_rat neg ip fp = of_int n"
      using that b(1) unfolding dr by (simp_all add: d_def decimal_sum_int sg_def n_def v_def)
    moreover have "\<bar>n\<bar> < 2 ^ 53" using ip by (simp add: n_def abs_mult)
    ultimately show ?thesis by (simp add: k_def y_def)
  qed
  then show ?thesis using res near exact by blast
qed

theorem scaled_reading_error_witness:
  "\<exists>k. scaled_reading ''2.3'' = Inr k \<and> \<bar>k - 230\<bar> \<le> 1 \<and> \<bar>k\<bar> \<le> 230"
proof -
  have "wf_dec ''2'' ''3''" by (simp add: wf_dec_def isdigit_def code_def)
  moreover have "100 * dec_rat False ''2'' ''3'' = of_int 230"
    by (simp add: dec_rat_def dec_value_def digit_val_def code_def)
  moreover have "dec_text False ''2'' ''3'' = ''2.3''" by (simp add: dec_text_def)
  ultimately show ?thesis using scaled_reading_error [of "''2''" "''3''" False] by auto
qed

text \<open>The unit lost to truncation does occur: a reading of 2.3 is sent as 229.\<close>

theorem scaled_reading_loses_unit: "scaled_reading ''2.3'' = Inr 229"
proof -
  have wf: "wf_dec ''2'' ''3''" by (simp add: wf_dec_def isdigit_def code_def)
  have text_eq: "dec_text False ''2'' ''3'' = ''2.3''" by (simp add: dec_text_def)
  have vals: "dec_value ''2'' = 2" "dec_value ''3'' = 3" by (simp_all add: dec_value_def digit_val_def code_def)
  have f: "fp_round (3 / 10) = 5404319552844595 / 2 ^ 54"
    using fp_round_eqI [of "- 2" "3 / 10" 5404319552844595] by (simp add: power_int_def power_divide)
  have "fp_round (2 + 5404319552844595 / 2 ^ 54) = 5179139571476070 / 2 ^ 51"
    using fp_round_eqI [of "1" "2 + 5404319552844595 / 2 ^ 54" 5179139571476070]
    by (simp add: power_int_def power_divide)
  moreover have "decimal_sum 2 3 1 = fp_round (2 + fp_round (3 / 10))" by (simp add: decimal_sum_def)
  ultimately have d: "decimal_sum 2 3 1 = 5179139571476070 / 2 ^ 51" by (simp only: f)
  have y: "fp_round (5179139571476070 / 2 ^ 51 * 100) = 8092405580431359 / 2 ^ 45"
    using fp_round_eqI [of "7" "5179139571476070 / 2 ^ 51 * 100" 8092405580431359]
    by (simp add: power_int_def power_divide)
  have fl: "\<lfloor>8092405580431359 / 2 ^ 45 :: rat\<rfloor> = 229" by (simp add: floor_unique)
  have "ndd_of_rat (5179139571476070 / 2 ^ 51 * 100) = Fin (8092405580431359 / 2 ^ 45)"
    using ndd_of_rat_finite [OF small_le_huge, of "5179139571476070 / 2 ^ 51 * 100"] y by simp
  then have "scaled_reading (dec_text False ''2'' ''3'') = ndd_to_int64 (Fin (8092405580431359 / 2 ^ 45))"
    unfolding scaled_reading_dec [OF wf] vals using d by (simp only: list.size add_0 if_False mult_1 One_nat_def)
  also have "\<dots> = Inr 229" using fl by (simp add: rat_trunc_def)
  finally show ?thesis by (simp only: text_eq)
qed

section \<open>What the command line accepts\<close>

lemma uint_of_int_mod: "uint (of_int k :: u64) = k mod 2 ^ 64" "uint (of_int k :: u32) = k mod 2 ^ 32"
  by (simp_all add: unsigned_of_int take_bit_eq_mod)

lemma u32_sint_cases:
  fixes w :: u32
  obtains "0 \<le> sint w" "sint w < 2 ^ 31" "uint w = sint w" | "sint w < 0" "- (2 ^ 31) \<le> sint w" "uint w = sint w + 2 ^ 32"
proof -
  have m: "uint w = sint w mod 2 ^ 32" using uint_of_int_mod(2) [of "sint w"] by simp
  have r: "- (2 ^ 31) \<le> sint w" "sint w < 2 ^ 31" using sint_greater_eq [of w] sint_less [of w] by simp_all
  show thesis
  proof (cases "0 \<le> sint w")
    case True
    then show ?thesis using m r that(1) by (simp add: mod_pos_pos_trivial)
  next
    case False
    have "sint w mod 2 ^ 32 = (sint w + 2 ^ 32) mod 2 ^ 32" by simp
    also have "\<dots> = sint w + 2 ^ 32" using False r by (intro mod_pos_pos_trivial) simp_all
    finally show ?thesis using m r False that(2) by simp
  qed
qed

lemma interval_range:
  fixes w :: u32
  defines "u \<equiv> of_int (sint w) :: u64"
  shows "u \<le> 0 \<or> 86400 \<le> u \<longleftrightarrow> \<not> (1 \<le> unat w \<and> unat w < 86400)"
    and "unat w < 86400 \<Longrightarrow> unat u = unat w"
proof -
  have u: "uint u = sint w mod 2 ^ 64" unfolding u_def by (rule uint_of_int_mod)
  have le: "u \<le> 0 \<or> 86400 \<le> u \<longleftrightarrow> uint u \<le> 0 \<or> 86400 \<le> uint u" by (simp add: word_le_def)
  have n: "int (unat w) = uint w" "int (unat u) = uint u" by simp_all
  show "u \<le> 0 \<or> 86400 \<le> u \<longleftrightarrow> \<not> (1 \<le> unat w \<and> unat w < 86400)"
    and "unat w < 86400 \<Longrightarrow> unat u = unat w"
  proof -
    consider "0 \<le> sint w" "sint w < 2 ^ 31" "uint w = sint w" | "sint w < 0" "- (2 ^ 31) \<le> sint w" "uint w = sint w + 2 ^ 32"
      by (rule u32_sint_cases)
    then have "(uint u \<le> 0 \<or> 86400 \<le> uint u \<longleftrightarrow> \<not> (1 \<le> uint w \<and> uint w < 86400)) \<and> (uint w < 86400 \<longrightarrow> uint u = uint w)"
    proof cases
      case 1
      then have "uint u = uint w" using u by (simp add: mod_pos_pos_trivial)
      then show ?thesis using 1 by arith
    next
      case 2
      have "sint w mod 2 ^ 64 = (sint w + 2 ^ 64) mod 2 ^ 64" by simp
      also have "\<dots> = sint w + 2 ^ 64" using 2 by (intro mod_pos_pos_trivial) simp_all
      finally have "uint u = sint w + 2 ^ 64" using u by simp
      then show ?thesis using 2 by simp
    qed
    then have c: "uint u \<le> 0 \<or> 86400 \<le> uint u \<longleftrightarrow> \<not> (1 \<le> uint w \<and> uint w < 86400)"
      "uint w < 86400 \<longrightarrow> uint u = uint w" by blast+
    show "u \<le> 0 \<or> 86400 \<le> u \<longleftrightarrow> \<not> (1 \<le> unat w \<and> unat w < 86400)" using le c(1) n by linarith
    show "unat w < 86400 \<Longrightarrow> unat u = unat w" using c(2) n by linarith
  qed
qed

lemma str2i_digits:
  assumes "ds \<noteq> []" and "\<forall>c \<in> set ds. isdigit c"
  shows "unat (str2i ds) = dec_value ds mod 2 ^ 32"
proof -
  obtain c cs where c: "ds = c # cs" "isdigit c" using assms by (cases ds) auto
  then have "\<not> isspace c" using isspace_not_isdigit by blast
  moreover have "c \<noteq> CHR ''-''" "c \<noteq> CHR ''+''" using c(2) by (auto simp: isdigit_def code_def)
  ultimately have "str2i ds = of_nat (dec_value ds)"
    using assms(2) c by (simp add: str2i_def str2u_def dec_loop_eq takeWhile_eq_all_conv [THEN iffD2])
  then show ?thesis by (simp add: unat_of_nat take_bit_eq_mod)
qed

text \<open>C15 (command line)  The plugin runs only with an interval of 1 to 86399 seconds, and with 1
  when no argument is given.  A numeral is accepted by its value modulo \<open>2\<^sup>3\<^sup>2\<close>: one second and
  \<open>2\<^sup>3\<^sup>2 + 1\<close> seconds are the same argument.\<close>

theorem parse_command_line_interval:
  "(parse_command_line ver args = Run u \<longrightarrow> 1 \<le> unat u \<and> unat u < 86400) \<and>
   parse_command_line ver [] = Run 1 \<and>
   (ds \<noteq> [] \<and> (\<forall>c \<in> set ds. isdigit c) \<longrightarrow>
     (let n = dec_value ds mod 2 ^ 32
      in if 1 \<le> n \<and> n < 86400 then \<exists>w. parse_command_line ver [ds] = Run w \<and> unat w = n
         else \<exists>msg. parse_command_line ver [ds] = Exit 1 msg))"
proof (intro conjI impI)
  assume "parse_command_line ver args = Run u"
  then consider "u = 1" | w where "u = (of_int (sint (w :: u32)) :: u64)" "\<not> (u \<le> 0 \<or> 86400 \<le> u)"
    by (auto simp: parse_command_line_def Let_def split: prod.splits option.splits list.splits if_splits)
  then have "1 \<le> unat u \<and> unat u < 86400"
  proof cases
    case 1
    then show ?thesis by simp
  next
    case 2
    then show ?thesis by (simp add: word_le_nat_alt)
  qed
  then show "1 \<le> unat u" "unat u < 86400" by blast+
next
  show "parse_command_line ver [] = Run 1" by (simp add: parse_command_line_def)
next
  assume ds: "ds \<noteq> [] \<and> (\<forall>c \<in> set ds. isdigit c)"
  then obtain c cs where c: "ds = c # cs" "isdigit c" by (cases ds) auto
  then have "c \<noteq> CHR ''-''" by (auto simp: isdigit_def code_def)
  then have "getopt_scan [] [ds] = (None, [ds])" using c by simp
  moreover note str2i_digits [of ds] interval_range [of "str2i ds"]
  ultimately show "let n = dec_value ds mod 2 ^ 32
      in if 1 \<le> n \<and> n < 86400 then \<exists>w. parse_command_line ver [ds] = Run w \<and> unat w = n
         else \<exists>msg. parse_command_line ver [ds] = Exit 1 msg"
    using ds c by (simp add: parse_command_line_def Let_def)
qed

theorem parse_command_line_interval_witness:
  "\<exists>w. parse_command_line [] [''4294967297''] = Run w \<and> unat w = 1"
proof -
  have "dec_value ''4294967297'' = 4294967297" by (simp add: dec_value_def digit_val_def code_def)
  moreover have "\<forall>c \<in> set ''4294967297''. isdigit c" by (simp add: isdigit_def code_def)
  ultimately show ?thesis
    using parse_command_line_interval [of "[]" "[]" 1 "''4294967297''"] by (simp add: Let_def)
qed

end
