(* ===== verification/Refcount.thy ===== *)
theory Refcount
  imports C_Prelude
begin

text \<open>
  The reference counter of \<^verbatim>\<open>libnetdata/atomics/refcount.h\<close>.  Each operation is a loop around a
  compare-and-exchange.  The body of a loop, given the value it expects, is a pure decision: stop
  with a fatal error, return, or try to write a new value.  The sequential meaning of an operation
  is that decision on the current value.  For threads that run concurrently, a step relation
  interleaves the loads, the exchanges and the waiting of any number of threads on one counter.

  The counter is an \<open>int\<close>; that it stays within 32 bits is part of what is shown.
\<close>

section \<open>The operations\<close>

definition REFCOUNT_MAX :: int where "REFCOUNT_MAX = 1 * 1000 * 1000 * 1000"

definition REFCOUNT_DELETED :: int where "REFCOUNT_DELETED = - 2 * 1000 * 1000 * 1000"

definition REFCOUNT_ERROR :: int where "REFCOUNT_ERROR = - (2 ^ 31)"

lemmas refcount_consts = REFCOUNT_MAX_def REFCOUNT_DELETED_def REFCOUNT_ERROR_def

definition REFCOUNT_ACQUIRED :: "int \<Rightarrow> bool" where
  "REFCOUNT_ACQUIRED r \<longleftrightarrow> r > 0"

definition REFCOUNT_VALID :: "int \<Rightarrow> bool" where
  "REFCOUNT_VALID r \<longleftrightarrow> (r \<ge> 0 \<and> r \<le> REFCOUNT_MAX) \<or> (r \<ge> REFCOUNT_DELETED \<and> r \<le> - REFCOUNT_MAX)"

datatype decision = Stop | Return int | Exchange int

text \<open>The loop bodies, by the expected value.\<close>

definition acquire_body :: "int \<Rightarrow> decision" where
  "acquire_body expected =
     (if \<not> REFCOUNT_VALID expected then Stop
      else if expected \<ge> REFCOUNT_MAX then Return REFCOUNT_ERROR
      else if expected < 0 then Return expected
      else Exchange (expected + 1))"

definition release_body :: "int \<Rightarrow> decision" where
  "release_body expected = (if \<not> REFCOUNT_VALID expected then Stop else Exchange (expected - 1))"

definition release_and_acquire_for_deletion_body :: "int \<Rightarrow> decision" where
  "release_and_acquire_for_deletion_body expected =
     (if \<not> REFCOUNT_VALID expected then Stop
      else if expected = 1 then Exchange REFCOUNT_DELETED
      else Exchange (expected - 1))"

definition acquire_for_deletion_and_wait_body :: "int \<Rightarrow> decision" where
  "acquire_for_deletion_and_wait_body expected =
     (if \<not> REFCOUNT_VALID expected then Stop
      else if expected < 0 then Return 0
      else Exchange (REFCOUNT_DELETED + expected))"

text \<open>A body run on the current value with nobody interfering: what is returned and the new value.\<close>

fun alone :: "decision \<Rightarrow> int \<Rightarrow> (int \<times> int) res" where
  "alone Stop r = Inl Fatal"
| "alone (Return v) r = Inr (v, r)"
| "alone (Exchange d) r = Inr (d, d)"

definition refcount_acquire_advanced_with_trace :: "int \<Rightarrow> (int \<times> int) res" where
  "refcount_acquire_advanced_with_trace r = alone (acquire_body r) r"

definition refcount_acquire_with_trace :: "int \<Rightarrow> (bool \<times> int) res" where
  "refcount_acquire_with_trace r =
     rbind (refcount_acquire_advanced_with_trace r) (\<lambda>(v, r). Inr (REFCOUNT_ACQUIRED v, r))"

definition refcount_release_with_trace :: "int \<Rightarrow> (int \<times> int) res" where
  "refcount_release_with_trace r = alone (release_body r) r"

definition refcount_acquire_for_deletion_with_trace :: "int \<Rightarrow> (bool \<times> int) res" where
  "refcount_acquire_for_deletion_with_trace r =
     (if r = 0 then Inr (True, REFCOUNT_DELETED)
      else if \<not> REFCOUNT_VALID r then Inl Fatal
      else Inr (False, r))"

definition refcount_release_and_acquire_for_deletion_advanced_with_trace :: "int \<Rightarrow> (int \<times> int) res" where
  "refcount_release_and_acquire_for_deletion_advanced_with_trace r =
     alone (release_and_acquire_for_deletion_body r) r"

definition refcount_release_and_acquire_for_deletion_with_trace :: "int \<Rightarrow> (bool \<times> int) res" where
  "refcount_release_and_acquire_for_deletion_with_trace r =
     rbind (refcount_release_and_acquire_for_deletion_advanced_with_trace r)
       (\<lambda>(v, r). Inr (v = REFCOUNT_DELETED, r))"

section \<open>Threads\<close>

datatype refop = Acquire | Release | AcquireForDeletion | ReleaseAndAcquireForDeletion | AcquireForDeletionAndWait

text \<open>Where a thread is: between calls, about to load, holding the value it expects, in the second
  loop of the waiting operation, or stopped by a fatal error.\<close>

datatype phase = Idle | Load refop | Body refop int | Waiting | Stopped

text \<open>A thread, the references it holds, and how often an operation has granted it the deletion.\<close>

record thread =
  t_phase :: phase
  t_refs :: nat
  t_owns :: nat

fun refop_body :: "refop \<Rightarrow> int \<Rightarrow> decision" where
  "refop_body Acquire e = acquire_body e"
| "refop_body Release e = release_body e"
| "refop_body AcquireForDeletion e = Exchange REFCOUNT_DELETED"
| "refop_body ReleaseAndAcquireForDeletion e = release_and_acquire_for_deletion_body e"
| "refop_body AcquireForDeletionAndWait e = acquire_for_deletion_and_wait_body e"

text \<open>The deletion attempt expects 0 without a load.\<close>

fun first_phase :: "refop \<Rightarrow> phase" where
  "first_phase AcquireForDeletion = Body AcquireForDeletion 0"
| "first_phase op = Load op"

text \<open>After a successful exchange to \<open>d\<close>.\<close>

fun exchanged :: "refop \<Rightarrow> int \<Rightarrow> thread \<Rightarrow> thread" where
  "exchanged Acquire d t = t\<lparr>t_phase := Idle, t_refs := t_refs t + 1\<rparr>"
| "exchanged Release d t = t\<lparr>t_phase := Idle, t_refs := t_refs t - 1\<rparr>"
| "exchanged AcquireForDeletion d t = t\<lparr>t_phase := Idle, t_owns := t_owns t + 1\<rparr>"
| "exchanged ReleaseAndAcquireForDeletion d t =
     t\<lparr>t_phase := Idle, t_refs := t_refs t - 1,
       t_owns := t_owns t + (if d = REFCOUNT_DELETED then 1 else 0)\<rparr>"
| "exchanged AcquireForDeletionAndWait d t = t\<lparr>t_phase := Waiting\<rparr>"

text \<open>After a failed exchange, which has loaded the current value into the expected one.\<close>

fun not_exchanged :: "refop \<Rightarrow> int \<Rightarrow> phase" where
  "not_exchanged Acquire r = Body Acquire r"
| "not_exchanged AcquireForDeletionAndWait r = Body AcquireForDeletionAndWait r"
| "not_exchanged AcquireForDeletion r = (if REFCOUNT_VALID r then Idle else Stopped)"
| "not_exchanged op r = Load op"

text \<open>One atomic step of a thread that is inside an operation.\<close>

fun thread_step :: "int \<Rightarrow> thread \<Rightarrow> int \<times> thread" where
  "thread_step r t =
     (case t_phase t of
        Idle \<Rightarrow> (r, t)
      | Stopped \<Rightarrow> (r, t)
      | Load op \<Rightarrow> (r, t\<lparr>t_phase := Body op r\<rparr>)
      | Waiting \<Rightarrow> if r = REFCOUNT_DELETED then (r, t\<lparr>t_phase := Idle, t_owns := t_owns t + 1\<rparr>) else (r, t)
      | Body op e \<Rightarrow>
          (case refop_body op e of
             Stop \<Rightarrow> (r, t\<lparr>t_phase := Stopped\<rparr>)
           | Return v \<Rightarrow> (r, t\<lparr>t_phase := Idle\<rparr>)
           | Exchange d \<Rightarrow>
               if r = e then (d, exchanged op d t) else (r, t\<lparr>t_phase := not_exchanged op r\<rparr>)))"

definition releases :: "refop \<Rightarrow> bool" where
  "releases op \<longleftrightarrow> op = Release \<or> op = ReleaseAndAcquireForDeletion"

text \<open>Any thread takes a step, or begins one of the permitted operations; it releases only what it holds.\<close>

inductive rc_step :: "refop set \<Rightarrow> int \<times> thread list \<Rightarrow> int \<times> thread list \<Rightarrow> bool" for ops where
  begin_op: "t_phase t = Idle \<Longrightarrow> op \<in> ops \<Longrightarrow> (releases op \<longrightarrow> t_refs t > 0) \<Longrightarrow>
    rc_step ops (r, as @ t # bs) (r, as @ t\<lparr>t_phase := first_phase op\<rparr> # bs)"
| move: "thread_step r t = (r', t') \<Longrightarrow> rc_step ops (r, as @ t # bs) (r', as @ t' # bs)"

definition fresh_thread :: thread where
  "fresh_thread = \<lparr>t_phase = Idle, t_refs = 0, t_owns = 0\<rparr>"

definition rc_reachable :: "refop set \<Rightarrow> nat \<Rightarrow> int \<times> thread list \<Rightarrow> bool" where
  "rc_reachable ops n s \<longleftrightarrow> (rc_step ops)\<^sup>*\<^sup>* (0, replicate n fresh_thread) s"

abbreviation total :: "(thread \<Rightarrow> nat) \<Rightarrow> thread list \<Rightarrow> nat" where
  "total f ts \<equiv> sum_list (map f ts)"

definition waits :: "thread \<Rightarrow> nat" where
  "waits t = (if t_phase t = Waiting then 1 else 0)"

text \<open>What is known of one thread.\<close>

fun phase_ok :: "refop set \<Rightarrow> thread \<Rightarrow> bool" where
  "phase_ok ops t =
     (case t_phase t of
        Idle \<Rightarrow> True
      | Stopped \<Rightarrow> False
      | Waiting \<Rightarrow> AcquireForDeletionAndWait \<in> ops
      | Load op \<Rightarrow> op \<in> ops \<and> op \<noteq> AcquireForDeletion \<and> (releases op \<longrightarrow> t_refs t > 0)
      | Body op e \<Rightarrow> op \<in> ops \<and> REFCOUNT_VALID e \<and> (op = AcquireForDeletion \<longrightarrow> e = 0) \<and>
          (releases op \<longrightarrow> t_refs t > 0))"

text \<open>The counter against the totals: live, being waited for, or deleted.\<close>

definition counts_ok :: "int \<Rightarrow> nat \<Rightarrow> nat \<Rightarrow> nat \<Rightarrow> bool" where
  "counts_ok r refs owns waiting \<longleftrightarrow>
     (owns = 0 \<and> waiting = 0 \<and> r = int refs \<and> int refs \<le> REFCOUNT_MAX) \<or>
     (owns = 0 \<and> waiting = 1 \<and> r = REFCOUNT_DELETED + int refs \<and> int refs \<le> REFCOUNT_MAX) \<or>
     (owns = 1 \<and> waiting = 0 \<and> r = REFCOUNT_DELETED \<and> refs = 0)"

definition rc_inv :: "refop set \<Rightarrow> int \<times> thread list \<Rightarrow> bool" where
  "rc_inv ops s \<longleftrightarrow>
     list_all (phase_ok ops) (snd s) \<and>
     counts_ok (fst s) (total t_refs (snd s)) (total t_owns (snd s)) (total waits (snd s))"

lemma counts_ok_valid: "counts_ok r refs owns waiting \<Longrightarrow> REFCOUNT_VALID r"
  by (auto simp: counts_ok_def REFCOUNT_VALID_def refcount_consts)

lemma counts_ok_bounds:
  "counts_ok r refs owns waiting \<Longrightarrow>
   owns \<le> 1 \<and> (owns = 1 \<longrightarrow> refs = 0 \<and> r = REFCOUNT_DELETED) \<and>
   (owns = 0 \<longrightarrow> r = int refs \<or> waiting = 1 \<and> r = REFCOUNT_DELETED + int refs) \<and>
   - (2 ^ 31) \<le> r \<and> r < 2 ^ 31"
  by (auto simp: counts_ok_def refcount_consts)

definition disciplined :: "refop set \<Rightarrow> bool" where
  "disciplined ops \<longleftrightarrow> \<not> (ReleaseAndAcquireForDeletion \<in> ops \<and> AcquireForDeletionAndWait \<in> ops)"

text \<open>A step of one thread among others whose totals are \<open>R\<close>, \<open>O'\<close> and \<open>W\<close>.\<close>

lemma thread_step_ok:
  assumes "disciplined ops" and "phase_ok ops t" and "thread_step r t = (r', t')"
    and "counts_ok r (R + t_refs t) (O' + t_owns t) (W + waits t)"
    and "AcquireForDeletionAndWait \<notin> ops \<longrightarrow> W = 0"
  shows "phase_ok ops t' \<and> counts_ok r' (R + t_refs t') (O' + t_owns t') (W + waits t')"
proof -
  note v = counts_ok_valid [OF assms(4)]
  show ?thesis
  proof (cases "t_phase t")
    case (Body op e)
    show ?thesis
    proof (cases op)
      case Acquire
      then show ?thesis using assms Body v
        by (auto simp: acquire_body_def waits_def releases_def split: if_splits)
          (auto simp: counts_ok_def refcount_consts)
    next
      case Release
      then show ?thesis using assms Body v
        by (auto simp: release_body_def waits_def releases_def split: if_splits)
          (auto simp: counts_ok_def refcount_consts)
    next
      case AcquireForDeletion
      then show ?thesis using assms Body v
        by (auto simp: waits_def releases_def split: if_splits)
          (auto simp: counts_ok_def refcount_consts)
    next
      case ReleaseAndAcquireForDeletion
      then show ?thesis using assms Body v
        by (auto simp: release_and_acquire_for_deletion_body_def waits_def releases_def disciplined_def split: if_splits)
          (auto simp: counts_ok_def refcount_consts)
    next
      case AcquireForDeletionAndWait
      then show ?thesis using assms Body v
        by (auto simp: acquire_for_deletion_and_wait_body_def waits_def releases_def split: if_splits)
          (auto simp: counts_ok_def refcount_consts)
    qed
  next
    case Waiting
    then show ?thesis using assms
      by (auto simp: waits_def split: if_splits) (auto simp: counts_ok_def refcount_consts)
  qed (use assms v in \<open>auto simp: waits_def\<close>)
qed

lemma waits_zero: "list_all (phase_ok ops) ts \<Longrightarrow> AcquireForDeletionAndWait \<notin> ops \<Longrightarrow> total waits ts = 0"
  by (induction ts) (auto simp: waits_def)

lemma rc_step_inv:
  assumes "disciplined ops" and "rc_step ops s s'" and "rc_inv ops s"
  shows "rc_inv ops s'"
  using assms(2)
proof cases
  case (begin_op t op r as bs)
  have "phase_ok ops (t\<lparr>t_phase := first_phase op\<rparr>)"
    using begin_op by (cases op) (auto simp: releases_def REFCOUNT_VALID_def refcount_consts)
  moreover have "waits (t\<lparr>t_phase := first_phase op\<rparr>) = waits t"
    using begin_op by (cases op) (auto simp: waits_def)
  ultimately show ?thesis using assms(3) begin_op by (auto simp: rc_inv_def)
next
  case (move r t r' t' as bs)
  have "phase_ok ops t' \<and> counts_ok r' (total t_refs (as @ bs) + t_refs t')
      (total t_owns (as @ bs) + t_owns t') (total waits (as @ bs) + waits t')"
    using assms(3) move waits_zero [of ops "as @ bs"]
    by (intro thread_step_ok [OF assms(1) _ move(3)]) (auto simp: rc_inv_def algebra_simps)
  then show ?thesis using assms(3) move by (auto simp: rc_inv_def algebra_simps)
qed

lemma rc_reachable_inv:
  assumes "disciplined ops" and "rc_reachable ops n s"
  shows "rc_inv ops s"
  using assms(2) unfolding rc_reachable_def
proof (induction rule: rtranclp_induct)
  case base
  have "list_all (phase_ok ops) (replicate n fresh_thread)" by (simp add: list_all_iff fresh_thread_def)
  moreover have "total f (replicate n fresh_thread) = n * f fresh_thread" for f
    by (simp add: sum_list_replicate)
  moreover have "counts_ok 0 (n * 0) (n * 0) (n * 0)" by (simp add: counts_ok_def refcount_consts)
  ultimately show ?case by (simp only: rc_inv_def fst_conv snd_conv) (simp add: fresh_thread_def waits_def)
next
  case (step s s')
  then show ?case using rc_step_inv [OF assms(1)] by blast
qed

text \<open>C34 (reference counter)  Any number of threads acquire, release and try to delete, interleaved in
  any way, and do not combine the waiting deletion with the release that may delete.  Then the
  deletion is granted at most once; once it is, nobody holds a reference and the counter keeps its
  deleted value; before that, the counter is the number of references held, or that number above
  the deleted value while a thread waits; no check of the counter fails; it fits 32 bits.\<close>

theorem refcount_deletion_is_exclusive:
  assumes "rc_reachable ops n (r, ts)"
    and "\<not> (ReleaseAndAcquireForDeletion \<in> ops \<and> AcquireForDeletionAndWait \<in> ops)"
  shows "total t_owns ts \<le> 1 \<and>
    (total t_owns ts = 1 \<longrightarrow> total t_refs ts = 0 \<and> r = REFCOUNT_DELETED) \<and>
    (total t_owns ts = 0 \<longrightarrow> r = int (total t_refs ts) \<or>
       Waiting \<in> t_phase ` set ts \<and> r = REFCOUNT_DELETED + int (total t_refs ts)) \<and>
    Stopped \<notin> t_phase ` set ts \<and> - (2 ^ 31) \<le> r \<and> r < 2 ^ 31"
proof -
  have inv: "rc_inv ops (r, ts)"
    using rc_reachable_inv assms by (simp add: disciplined_def)
  have "Stopped \<notin> t_phase ` set ts"
    using inv by (auto simp: rc_inv_def list_all_iff split: phase.splits)
  moreover have "total waits ts = 1 \<Longrightarrow> Waiting \<in> t_phase ` set ts"
    by (induction ts) (auto simp: waits_def split: if_splits)
  moreover have "counts_ok r (total t_refs ts) (total t_owns ts) (total waits ts)"
    using inv by (simp add: rc_inv_def)
  ultimately show ?thesis
    using counts_ok_bounds by blast
qed

lemma rc_path: "(rc_step ops)\<^sup>*\<^sup>* s (r, as @ t # bs) \<Longrightarrow> thread_step r t = (r', t') \<Longrightarrow> (rc_step ops)\<^sup>*\<^sup>* s (r', as @ t' # bs)"
  by (rule rtranclp.rtrancl_into_rtrancl, assumption, rule move)

lemma rc_path_begin:
  "(rc_step ops)\<^sup>*\<^sup>* s (r, as @ t # bs) \<Longrightarrow> t_phase t = Idle \<Longrightarrow> op \<in> ops \<Longrightarrow> (releases op \<longrightarrow> t_refs t > 0) \<Longrightarrow>
   (rc_step ops)\<^sup>*\<^sup>* s (r, as @ t\<lparr>t_phase := first_phase op\<rparr> # bs)"
  by (rule rtranclp.rtrancl_into_rtrancl, assumption, rule begin_op)

text \<open>One thread runs an operation to its end while the others rest.\<close>

lemma rc_path_acquired:
  assumes "Acquire \<in> ops"
  shows "rc_reachable ops 2 (1, [\<lparr>t_phase = Idle, t_refs = 1, t_owns = 0\<rparr>, fresh_thread])"
proof -
  let ?s = "(0, replicate 2 fresh_thread)"
  have 0: "(rc_step ops)\<^sup>*\<^sup>* ?s (0, [] @ fresh_thread # [fresh_thread])" by (simp add: eval_nat_numeral)
  note 1 = rc_path_begin [OF 0, where op = Acquire]
  have 2: "(rc_step ops)\<^sup>*\<^sup>* ?s (0, [] @ \<lparr>t_phase = Load Acquire, t_refs = 0, t_owns = 0\<rparr> # [fresh_thread])"
    using 1 assms by (simp add: fresh_thread_def releases_def)
  have 3: "(rc_step ops)\<^sup>*\<^sup>* ?s (0, [] @ \<lparr>t_phase = Body Acquire 0, t_refs = 0, t_owns = 0\<rparr> # [fresh_thread])"
    by (rule rc_path [OF 2]) simp
  have "(rc_step ops)\<^sup>*\<^sup>* ?s (1, [] @ \<lparr>t_phase = Idle, t_refs = 1, t_owns = 0\<rparr> # [fresh_thread])"
    by (rule rc_path [OF 3]) (simp add: acquire_body_def REFCOUNT_VALID_def refcount_consts)
  then show ?thesis by (simp add: rc_reachable_def)
qed

theorem refcount_deletion_is_exclusive_witness:
  "rc_reachable {Acquire} 2 (1, [\<lparr>t_phase = Idle, t_refs = 1, t_owns = 0\<rparr>, fresh_thread]) \<and>
   total t_owns [\<lparr>t_phase = Idle, t_refs = 1, t_owns = 0\<rparr>, fresh_thread] \<le> 1"
  using refcount_deletion_is_exclusive [OF rc_path_acquired [of "{Acquire}"]] rc_path_acquired [of "{Acquire}"]
  by (simp add: fresh_thread_def)

text \<open>C38 (two deletions)  When one thread waits to delete and another gives up the last reference with
  the release that may delete, both are told that the deletion is theirs.\<close>

theorem refcount_deletion_granted_twice:
  "\<exists>ts. rc_reachable {Acquire, ReleaseAndAcquireForDeletion, AcquireForDeletionAndWait} 2 (REFCOUNT_DELETED, ts) \<and>
    map t_owns ts = [1, 1]"
proof -
  let ?ops = "{Acquire, ReleaseAndAcquireForDeletion, AcquireForDeletionAndWait}"
  let ?s = "(0, replicate 2 fresh_thread)" and ?D = REFCOUNT_DELETED
  let ?h = "\<lparr>t_phase = Idle, t_refs = 1, t_owns = 0\<rparr>" and ?w = "\<lparr>t_phase = Waiting, t_refs = 0, t_owns = 0\<rparr>"
  note defs = releases_def acquire_for_deletion_and_wait_body_def release_and_acquire_for_deletion_body_def
    REFCOUNT_VALID_def refcount_consts
  have 0: "(rc_step ?ops)\<^sup>*\<^sup>* ?s (1, [?h] @ fresh_thread # [])"
    using rc_path_acquired [of ?ops] by (simp add: rc_reachable_def)
  have 1: "(rc_step ?ops)\<^sup>*\<^sup>* ?s (1, [?h] @ \<lparr>t_phase = Load AcquireForDeletionAndWait, t_refs = 0, t_owns = 0\<rparr> # [])"
    using rc_path_begin [OF 0, where op = AcquireForDeletionAndWait] by (simp add: fresh_thread_def releases_def)
  have 2: "(rc_step ?ops)\<^sup>*\<^sup>* ?s (1, [?h] @ \<lparr>t_phase = Body AcquireForDeletionAndWait 1, t_refs = 0, t_owns = 0\<rparr> # [])"
    by (rule rc_path [OF 1]) simp
  have 3: "(rc_step ?ops)\<^sup>*\<^sup>* ?s (?D + 1, [?h] @ ?w # [])"
    by (rule rc_path [OF 2]) (simp add: defs)
  have 4: "(rc_step ?ops)\<^sup>*\<^sup>* ?s (?D + 1, [] @ \<lparr>t_phase = Load ReleaseAndAcquireForDeletion, t_refs = 1, t_owns = 0\<rparr> # [?w])"
    using rc_path_begin [of ?ops ?s "?D + 1" "[]" ?h "[?w]" ReleaseAndAcquireForDeletion] 3 by simp
  have 5: "(rc_step ?ops)\<^sup>*\<^sup>* ?s (?D + 1, [] @ \<lparr>t_phase = Body ReleaseAndAcquireForDeletion (?D + 1), t_refs = 1, t_owns = 0\<rparr> # [?w])"
    by (rule rc_path [OF 4]) simp
  have 6: "(rc_step ?ops)\<^sup>*\<^sup>* ?s (?D, [] @ \<lparr>t_phase = Idle, t_refs = 0, t_owns = 1\<rparr> # [?w])"
    by (rule rc_path [OF 5]) (simp add: defs)
  have 7: "(rc_step ?ops)\<^sup>*\<^sup>* ?s (?D, [\<lparr>t_phase = Idle, t_refs = 0, t_owns = 1\<rparr>] @ \<lparr>t_phase = Idle, t_refs = 0, t_owns = 1\<rparr> # [])"
    by (rule rc_path [where t = ?w]) (use 6 in simp_all)
  then show ?thesis unfolding rc_reachable_def by force
qed

end
