(* ===== verification/Dictionary.thy ===== *)
theory Dictionary
  imports Refcount Rw_Spinlock
begin

text \<open>
  The dictionary of \<^verbatim>\<open>libnetdata/dictionary\<close>: an index from names to items, and the list of the
  items in the order of insertion.

  The objects that the C code allocates live in a world: dictionaries, items, the structures that
  items share with the items of views, callback registrations, and the blocks that hold cloned
  values.  A pointer is an identifier in one of these maps; following one that is not there is
  \<open>UseAfterFree\<close>.  The list of a dictionary is the list of its items' identifiers, which is what
  the macros of \<^verbatim>\<open>linked_lists.h\<close> maintain; the JudyHS index is a map from keys to items.

  A world belongs to one thread.  The loops around a compare-and-exchange are therefore taken once,
  and a lock that cannot be taken is \<open>Deadlock\<close>.  Callbacks are recorded as events, in order; they
  do not call back into the dictionary.  A linked name is taken not to change while it is linked.
  Reference counts, links, versions and the numbers of entries are numbers without bounds: the 32 or
  64 bits of the code are enough for fewer than \<open>2 ^ 31\<close> references and items at a time.
  Memory statistics and the counters of \<^verbatim>\<open>struct dictionary_stats\<close> are not kept.
\<close>

section \<open>Data\<close>

type_synonym did = nat
type_synonym iid = nat

text \<open>A \<^verbatim>\<open>void *\<close>: null, an address the dictionary never follows, or a block it allocated.\<close>

datatype vptr = Null | Addr nat | Mem nat

text \<open>What the caller passes as a value: a pointer, or a pointer to memory holding the given bytes.\<close>

datatype vsrc = SPtr vptr | SBytes string

record dict_options =
  OPTION_SINGLE_THREADED :: bool
  OPTION_VALUE_LINK_DONT_CLONE :: bool
  OPTION_NAME_LINK_DONT_CLONE :: bool
  OPTION_DONT_OVERWRITE_VALUE :: bool
  OPTION_ADD_IN_FRONT :: bool
  OPTION_FIXED_SIZE :: bool
  OPTION_INDEX_JUDY :: bool

record dictionary_item_shared =
  s_value :: vptr
  s_links :: int
  s_value_len :: nat
  s_deleted :: bool

record dictionary_item =
  i_shared :: nat
  i_name :: string
  i_allocated_name :: bool
  i_refcount :: int
  i_key_len :: nat
  i_deleted :: bool
  i_being_created :: bool

record dictionary_hooks =
  h_links :: int
  h_last_master_deletion_us :: nat
  h_insert :: "vptr option"
  h_conflict :: "((iid \<Rightarrow> vptr \<Rightarrow> vsrc \<Rightarrow> vptr \<Rightarrow> bool) \<times> vptr) option"
  h_react :: "vptr option"
  h_delete :: "vptr option"

record dictionary =
  d_last_gc_run_us :: nat
  d_options :: dict_options
  d_destroyed :: bool
  d_value_aral :: "nat option"
  d_index :: "string \<Rightarrow> iid option"
  d_index_lock :: rw_spinlock
  d_list :: "iid list"
  d_list_lock :: rw_spinlock
  d_writer_pid :: nat
  d_writer_depth :: u32
  d_hooks :: "nat option"
  d_master :: "did option"
  d_version :: u32
  d_entries :: int
  d_referenced_items :: int
  d_pending_deletion_items :: int

text \<open>Callbacks that have run: the item, its value, and the data passed along.\<close>

datatype event =
    Inserted iid vptr vptr
  | Conflicted iid vptr vsrc vptr
  | Reacted iid vptr vptr
  | Deleted iid vptr vptr

record world =
  w_dicts :: "did \<Rightarrow> dictionary option"
  w_items :: "iid \<Rightarrow> dictionary_item option"
  w_shareds :: "nat \<Rightarrow> dictionary_item_shared option"
  w_hooks :: "nat \<Rightarrow> dictionary_hooks option"
  w_mem :: "nat \<Rightarrow> string option"
  w_fresh :: nat
  w_clock :: "nat \<Rightarrow> nat"
  w_reads :: nat
  w_tid :: nat
  w_waiting :: "did list"
  w_events :: "event list"

section \<open>Following and updating pointers\<close>

definition find :: "('a \<Rightarrow> 'b option) \<Rightarrow> 'a \<Rightarrow> 'b res" where
  "find m p = (case m p of None \<Rightarrow> Inl UseAfterFree | Some x \<Rightarrow> Inr x)"

definition dict_at :: "world \<Rightarrow> did \<Rightarrow> dictionary res" where
  "dict_at w d = find (w_dicts w) d"

definition item_at :: "world \<Rightarrow> iid \<Rightarrow> dictionary_item res" where
  "item_at w i = find (w_items w) i"

definition shared_at :: "world \<Rightarrow> nat \<Rightarrow> dictionary_item_shared res" where
  "shared_at w s = find (w_shareds w) s"

definition hooks_at :: "world \<Rightarrow> nat \<Rightarrow> dictionary_hooks res" where
  "hooks_at w h = find (w_hooks w) h"

definition set_dict :: "did \<Rightarrow> (dictionary \<Rightarrow> dictionary) \<Rightarrow> world \<Rightarrow> world res" where
  "set_dict d f w = rbind (dict_at w d) (\<lambda>x. Inr (w\<lparr>w_dicts := (w_dicts w)(d \<mapsto> f x)\<rparr>))"

definition set_item :: "iid \<Rightarrow> (dictionary_item \<Rightarrow> dictionary_item) \<Rightarrow> world \<Rightarrow> world res" where
  "set_item i f w = rbind (item_at w i) (\<lambda>x. Inr (w\<lparr>w_items := (w_items w)(i \<mapsto> f x)\<rparr>))"

definition set_shared :: "nat \<Rightarrow> (dictionary_item_shared \<Rightarrow> dictionary_item_shared) \<Rightarrow> world \<Rightarrow> world res" where
  "set_shared s f w = rbind (shared_at w s) (\<lambda>x. Inr (w\<lparr>w_shareds := (w_shareds w)(s \<mapsto> f x)\<rparr>))"

definition set_hooks :: "nat \<Rightarrow> (dictionary_hooks \<Rightarrow> dictionary_hooks) \<Rightarrow> world \<Rightarrow> world res" where
  "set_hooks h f w = rbind (hooks_at w h) (\<lambda>x. Inr (w\<lparr>w_hooks := (w_hooks w)(h \<mapsto> f x)\<rparr>))"

definition now_realtime_usec :: "world \<Rightarrow> nat \<times> world" where
  "now_realtime_usec w = (w_clock w (w_reads w), w\<lparr>w_reads := w_reads w + 1\<rparr>)"

definition run_event :: "event \<Rightarrow> world \<Rightarrow> world" where
  "run_event e w = w\<lparr>w_events := w_events w @ [e]\<rparr>"

definition is_view_dictionary :: "dictionary \<Rightarrow> bool" where
  "is_view_dictionary x \<longleftrightarrow> d_master x \<noteq> None"

definition is_master_dictionary :: "dictionary \<Rightarrow> bool" where
  "is_master_dictionary x \<longleftrightarrow> \<not> is_view_dictionary x"

definition is_dictionary_single_threaded :: "dictionary \<Rightarrow> bool" where
  "is_dictionary_single_threaded x \<longleftrightarrow> OPTION_SINGLE_THREADED (d_options x)"

definition KEY_LEN_MAX :: nat where "KEY_LEN_MAX = 2 ^ 23 - 1"

definition VALUE_LEN_MAX :: nat where "VALUE_LEN_MAX = 2 ^ 24 - 1"

text \<open>The items after an item in the list; an item that has been unlinked points nowhere.\<close>

definition rest_after :: "iid list \<Rightarrow> iid \<Rightarrow> iid list" where
  "rest_after xs i = tl (dropWhile (\<lambda>x. x \<noteq> i) xs)"

definition head_of :: "'a list \<Rightarrow> 'a option" where
  "head_of xs = (case xs of [] \<Rightarrow> None | x # ys \<Rightarrow> Some x)"

definition item_next :: "world \<Rightarrow> did \<Rightarrow> iid \<Rightarrow> iid option res" where
  "item_next w d i =
     rbind (item_at w i) (\<lambda>_. rbind (dict_at w d) (\<lambda>x. Inr (head_of (rest_after (d_list x) i))))"

definition list_head :: "world \<Rightarrow> did \<Rightarrow> iid option res" where
  "list_head w d = rbind (dict_at w d) (\<lambda>x. Inr (head_of (d_list x)))"

section \<open>Counters\<close>

definition DICTIONARY_ENTRIES_PLUS1 :: "did \<Rightarrow> world \<Rightarrow> world res" where
  "DICTIONARY_ENTRIES_PLUS1 d =
     set_dict d (\<lambda>x. x\<lparr>d_version := d_version x + 1, d_entries := d_entries x + 1,
       d_referenced_items := d_referenced_items x + 1\<rparr>)"

definition DICTIONARY_ENTRIES_MINUS1 :: "did \<Rightarrow> world \<Rightarrow> world res" where
  "DICTIONARY_ENTRIES_MINUS1 d =
     set_dict d (\<lambda>x. x\<lparr>d_version := d_version x + 1, d_entries := d_entries x - 1\<rparr>)"

definition DICTIONARY_VALUE_RESETS_PLUS1 :: "did \<Rightarrow> world \<Rightarrow> world res" where
  "DICTIONARY_VALUE_RESETS_PLUS1 d = set_dict d (\<lambda>x. x\<lparr>d_version := d_version x + 1\<rparr>)"

definition DICTIONARY_REFERENCED_ITEMS_PLUS1 :: "did \<Rightarrow> world \<Rightarrow> world res" where
  "DICTIONARY_REFERENCED_ITEMS_PLUS1 d =
     set_dict d (\<lambda>x. x\<lparr>d_referenced_items := d_referenced_items x + 1\<rparr>)"

definition DICTIONARY_REFERENCED_ITEMS_MINUS1 :: "did \<Rightarrow> world \<Rightarrow> world res" where
  "DICTIONARY_REFERENCED_ITEMS_MINUS1 d =
     set_dict d (\<lambda>x. x\<lparr>d_referenced_items := d_referenced_items x - 1\<rparr>)"

definition DICTIONARY_PENDING_DELETES_PLUS1 :: "did \<Rightarrow> world \<Rightarrow> world res" where
  "DICTIONARY_PENDING_DELETES_PLUS1 d =
     set_dict d (\<lambda>x. x\<lparr>d_pending_deletion_items := d_pending_deletion_items x + 1\<rparr>)"

definition DICTIONARY_PENDING_DELETES_MINUS1 :: "did \<Rightarrow> world \<Rightarrow> world res" where
  "DICTIONARY_PENDING_DELETES_MINUS1 d =
     set_dict d (\<lambda>x. x\<lparr>d_pending_deletion_items := d_pending_deletion_items x - 1\<rparr>)"

definition DICTIONARY_PENDING_DELETES_GET :: "did \<Rightarrow> world \<Rightarrow> int res" where
  "DICTIONARY_PENDING_DELETES_GET d w = rbind (dict_at w d) (\<lambda>x. Inr (d_pending_deletion_items x))"

text \<open>The public counters of \<^verbatim>\<open>dictionary.c\<close>; a null dictionary has none.\<close>

fun dictionary_version :: "world \<Rightarrow> did option \<Rightarrow> u32 res" where
  "dictionary_version w None = Inr 0"
| "dictionary_version w (Some d) = rbind (dict_at w d) (\<lambda>x. Inr (d_version x))"

fun dictionary_entries :: "world \<Rightarrow> did option \<Rightarrow> int res" where
  "dictionary_entries w None = Inr 0"
| "dictionary_entries w (Some d) = rbind (dict_at w d) (\<lambda>x. Inr (d_entries x))"

fun dictionary_referenced_items :: "world \<Rightarrow> did option \<Rightarrow> int res" where
  "dictionary_referenced_items w None = Inr 0"
| "dictionary_referenced_items w (Some d) =
     rbind (dict_at w d) (\<lambda>x. if d_referenced_items x < 0 then Inl Fatal else Inr (d_referenced_items x))"

definition dictionary_version_increment :: "did \<Rightarrow> world \<Rightarrow> world res" where
  "dictionary_version_increment d = set_dict d (\<lambda>x. x\<lparr>d_version := d_version x + 1\<rparr>)"

section \<open>Locks\<close>

datatype lock_mode = LOCK_READ | LOCK_WRITE | LOCK_REENTRANT

definition ll_recursive_lock_set_thread_as_writer :: "did \<Rightarrow> world \<Rightarrow> world res" where
  "ll_recursive_lock_set_thread_as_writer d w =
     rbind (dict_at w d) (\<lambda>x.
       if d_writer_pid x \<noteq> 0 then Inl Fatal
       else set_dict d (\<lambda>x. x\<lparr>d_writer_pid := w_tid w\<rparr>) w)"

definition ll_recursive_unlock_unset_thread_writer :: "did \<Rightarrow> world \<Rightarrow> world res" where
  "ll_recursive_unlock_unset_thread_writer d w =
     rbind (dict_at w d) (\<lambda>x.
       if d_writer_pid x \<noteq> w_tid w then Inl Fatal
       else set_dict d (\<lambda>x. x\<lparr>d_writer_pid := 0\<rparr>) w)"

definition ll_recursive_lock_is_thread_the_writer :: "world \<Rightarrow> dictionary \<Rightarrow> bool" where
  "ll_recursive_lock_is_thread_the_writer w x \<longleftrightarrow> w_tid w > 0 \<and> w_tid w = d_writer_pid x"

definition ll_recursive_lock :: "did \<Rightarrow> lock_mode \<Rightarrow> world \<Rightarrow> world res" where
  "ll_recursive_lock d rw w =
     rbind (dict_at w d) (\<lambda>x.
       if is_dictionary_single_threaded x then Inr w
       else if ll_recursive_lock_is_thread_the_writer w x then
         set_dict d (\<lambda>x. x\<lparr>d_writer_depth := d_writer_depth x + 1\<rparr>) w
       else if rw \<noteq> LOCK_WRITE then
         rbind (rw_spinlock_read_lock (d_list_lock x)) (\<lambda>l. set_dict d (\<lambda>x. x\<lparr>d_list_lock := l\<rparr>) w)
       else
         rbind (rw_spinlock_write_lock (w_tid w) (d_list_lock x)) (\<lambda>l.
         rbind (set_dict d (\<lambda>x. x\<lparr>d_list_lock := l\<rparr>) w)
           (ll_recursive_lock_set_thread_as_writer d)))"

definition ll_recursive_unlock :: "did \<Rightarrow> lock_mode \<Rightarrow> world \<Rightarrow> world res" where
  "ll_recursive_unlock d rw w =
     rbind (dict_at w d) (\<lambda>x.
       if is_dictionary_single_threaded x then Inr w
       else if ll_recursive_lock_is_thread_the_writer w x \<and> d_writer_depth x > 0 then
         set_dict d (\<lambda>x. x\<lparr>d_writer_depth := d_writer_depth x - 1\<rparr>) w
       else if rw \<noteq> LOCK_WRITE then
         set_dict d (\<lambda>x. x\<lparr>d_list_lock := rw_spinlock_read_unlock (d_list_lock x)\<rparr>) w
       else
         rbind (ll_recursive_unlock_unset_thread_writer d w)
           (set_dict d (\<lambda>x. x\<lparr>d_list_lock := rw_spinlock_write_unlock (d_list_lock x)\<rparr>)))"

definition dictionary_index_lock_rdlock :: "did \<Rightarrow> world \<Rightarrow> world res" where
  "dictionary_index_lock_rdlock d w =
     rbind (dict_at w d) (\<lambda>x.
       if is_dictionary_single_threaded x then Inr w
       else rbind (rw_spinlock_read_lock (d_index_lock x)) (\<lambda>l. set_dict d (\<lambda>x. x\<lparr>d_index_lock := l\<rparr>) w))"

definition dictionary_index_rdlock_unlock :: "did \<Rightarrow> world \<Rightarrow> world res" where
  "dictionary_index_rdlock_unlock d w =
     rbind (dict_at w d) (\<lambda>x.
       if is_dictionary_single_threaded x then Inr w
       else set_dict d (\<lambda>x. x\<lparr>d_index_lock := rw_spinlock_read_unlock (d_index_lock x)\<rparr>) w)"

definition dictionary_index_lock_wrlock :: "did \<Rightarrow> world \<Rightarrow> world res" where
  "dictionary_index_lock_wrlock d w =
     rbind (dict_at w d) (\<lambda>x.
       if is_dictionary_single_threaded x then Inr w
       else rbind (rw_spinlock_write_lock (w_tid w) (d_index_lock x)) (\<lambda>l. set_dict d (\<lambda>x. x\<lparr>d_index_lock := l\<rparr>) w))"

definition dictionary_index_wrlock_unlock :: "did \<Rightarrow> world \<Rightarrow> world res" where
  "dictionary_index_wrlock_unlock d w =
     rbind (dict_at w d) (\<lambda>x.
       if is_dictionary_single_threaded x then Inr w
       else set_dict d (\<lambda>x. x\<lparr>d_index_lock := rw_spinlock_write_unlock (d_index_lock x)\<rparr>) w)"

definition dictionary_write_lock :: "did \<Rightarrow> world \<Rightarrow> world res" where
  "dictionary_write_lock d = ll_recursive_lock d LOCK_WRITE"

definition dictionary_write_unlock :: "did \<Rightarrow> world \<Rightarrow> world res" where
  "dictionary_write_unlock d = ll_recursive_unlock d LOCK_WRITE"

section \<open>Callbacks\<close>

definition dictionary_hooks_allocate :: "did \<Rightarrow> world \<Rightarrow> world res" where
  "dictionary_hooks_allocate d w =
     rbind (dict_at w d) (\<lambda>x.
       if d_hooks x \<noteq> None then Inr w
       else
         let h = w_fresh w;
           w = w\<lparr>w_fresh := w_fresh w + 1,
             w_hooks := (w_hooks w)(h \<mapsto> \<lparr>h_links = 1, h_last_master_deletion_us = 0, h_insert = None,
               h_conflict = None, h_react = None, h_delete = None\<rparr>)\<rparr>
         in set_dict d (\<lambda>x. x\<lparr>d_hooks := Some h\<rparr>) w)"

definition dictionary_hooks_free :: "did \<Rightarrow> world \<Rightarrow> world res" where
  "dictionary_hooks_free d w =
     rbind (dict_at w d) (\<lambda>x.
       case d_hooks x of
         None \<Rightarrow> Inr w
       | Some h \<Rightarrow>
           rbind (set_hooks h (\<lambda>k. k\<lparr>h_links := h_links k - 1\<rparr>) w) (\<lambda>w.
           rbind (hooks_at w h) (\<lambda>k.
             if h_links k = 0 then
               set_dict d (\<lambda>x. x\<lparr>d_hooks := None\<rparr>) (w\<lparr>w_hooks := (w_hooks w)(h := None)\<rparr>)
             else Inr w)))"

definition register_hook :: "(dictionary_hooks \<Rightarrow> dictionary_hooks) \<Rightarrow> did \<Rightarrow> world \<Rightarrow> world res" where
  "register_hook f d w =
     rbind (dictionary_hooks_allocate d w) (\<lambda>w.
     rbind (dict_at w d) (\<lambda>x.
       case d_hooks x of None \<Rightarrow> Inl NullDeref | Some h \<Rightarrow> set_hooks h f w))"

definition dictionary_register_insert_callback :: "did \<Rightarrow> vptr \<Rightarrow> world \<Rightarrow> world res" where
  "dictionary_register_insert_callback d data w =
     rbind (dict_at w d) (\<lambda>x.
       if is_view_dictionary x then Inl Fatal else register_hook (\<lambda>k. k\<lparr>h_insert := Some data\<rparr>) d w)"

definition dictionary_register_conflict_callback ::
  "did \<Rightarrow> (iid \<Rightarrow> vptr \<Rightarrow> vsrc \<Rightarrow> vptr \<Rightarrow> bool) \<Rightarrow> vptr \<Rightarrow> world \<Rightarrow> world res" where
  "dictionary_register_conflict_callback d f data w =
     rbind (dict_at w d) (\<lambda>x.
       if is_view_dictionary x then Inl Fatal
       else
         rbind (set_dict d (\<lambda>x. x\<lparr>d_options := (d_options x)\<lparr>OPTION_DONT_OVERWRITE_VALUE := True\<rparr>\<rparr>) w)
           (register_hook (\<lambda>k. k\<lparr>h_conflict := Some (f, data)\<rparr>) d))"

definition dictionary_register_react_callback :: "did \<Rightarrow> vptr \<Rightarrow> world \<Rightarrow> world res" where
  "dictionary_register_react_callback d data w =
     rbind (dict_at w d) (\<lambda>x.
       if is_view_dictionary x then Inl Fatal else register_hook (\<lambda>k. k\<lparr>h_react := Some data\<rparr>) d w)"

definition dictionary_register_delete_callback :: "did \<Rightarrow> vptr \<Rightarrow> world \<Rightarrow> world res" where
  "dictionary_register_delete_callback d data w =
     rbind (dict_at w d) (\<lambda>x.
       if is_view_dictionary x then Inl Fatal else register_hook (\<lambda>k. k\<lparr>h_delete := Some data\<rparr>) d w)"

text \<open>The hooks of a dictionary, none if it has registered nothing.\<close>

definition hooks_of :: "world \<Rightarrow> did \<Rightarrow> dictionary_hooks option res" where
  "hooks_of w d =
     rbind (dict_at w d) (\<lambda>x.
       case d_hooks x of None \<Rightarrow> Inr None | Some h \<Rightarrow> rbind (hooks_at w h) (\<lambda>k. Inr (Some k)))"

text \<open>The value an item points at.\<close>

definition item_value :: "world \<Rightarrow> iid \<Rightarrow> vptr res" where
  "item_value w i = rbind (item_at w i) (\<lambda>it. rbind (shared_at w (i_shared it)) (\<lambda>s. Inr (s_value s)))"

definition or_data :: "vptr \<Rightarrow> vptr \<Rightarrow> vptr" where
  "or_data constructor_data data = (if constructor_data \<noteq> Null then constructor_data else data)"

definition dictionary_execute_insert_callback :: "did \<Rightarrow> iid \<Rightarrow> vptr \<Rightarrow> world \<Rightarrow> world res" where
  "dictionary_execute_insert_callback d i cdata w =
     rbind (hooks_of w d) (\<lambda>k.
       case Option.bind k h_insert of
         None \<Rightarrow> Inr w
       | Some data \<Rightarrow>
           rbind (dict_at w d) (\<lambda>x.
             if is_view_dictionary x then Inl Fatal
             else rbind (item_value w i) (\<lambda>v. Inr (run_event (Inserted i v (or_data cdata data)) w))))"

definition dictionary_execute_conflict_callback :: "did \<Rightarrow> iid \<Rightarrow> vsrc \<Rightarrow> vptr \<Rightarrow> world \<Rightarrow> (bool \<times> world) res" where
  "dictionary_execute_conflict_callback d i new_value cdata w =
     rbind (hooks_of w d) (\<lambda>k.
       case Option.bind k h_conflict of
         None \<Rightarrow> Inr (False, w)
       | Some (f, data) \<Rightarrow>
           rbind (dict_at w d) (\<lambda>x.
             if is_view_dictionary x then Inl Fatal
             else
               rbind (item_value w i) (\<lambda>v.
                 Inr (f i v new_value (or_data cdata data),
                      run_event (Conflicted i v new_value (or_data cdata data)) w))))"

definition dictionary_execute_react_callback :: "did \<Rightarrow> iid \<Rightarrow> vptr \<Rightarrow> world \<Rightarrow> world res" where
  "dictionary_execute_react_callback d i cdata w =
     rbind (hooks_of w d) (\<lambda>k.
       case Option.bind k h_react of
         None \<Rightarrow> Inr w
       | Some data \<Rightarrow>
           rbind (dict_at w d) (\<lambda>x.
             if is_view_dictionary x then Inl Fatal
             else rbind (item_value w i) (\<lambda>v. Inr (run_event (Reacted i v (or_data cdata data)) w))))"

definition dictionary_execute_delete_callback :: "did \<Rightarrow> iid \<Rightarrow> world \<Rightarrow> world res" where
  "dictionary_execute_delete_callback d i w =
     rbind (hooks_of w d) (\<lambda>k.
       case Option.bind k h_delete of
         None \<Rightarrow> Inr w
       | Some data \<Rightarrow> rbind (item_value w i) (\<lambda>v. Inr (run_event (Deleted i v data) w)))"

section \<open>The index\<close>

text \<open>The bytes a name and a name length make a key of; \<open>None\<close> is the length -1.\<close>

definition key_of :: "string \<Rightarrow> nat option \<Rightarrow> string res" where
  "key_of name name_len =
     (case name_len of
        None \<Rightarrow> Inr name
      | Some n \<Rightarrow> if n \<le> length name + 1 then Inr (take n (name @ [NUL])) else Inl OutOfBounds)"

definition hashtable_init_unsafe :: "string \<Rightarrow> iid option" where
  "hashtable_init_unsafe = Map.empty"

definition hashtable_destroy_unsafe :: "did \<Rightarrow> world \<Rightarrow> world res" where
  "hashtable_destroy_unsafe d = set_dict d (\<lambda>x. x\<lparr>d_index := Map.empty\<rparr>)"

text \<open>The item in the slot of a key, none when the slot is new; the key is the handle of the slot.\<close>

definition hashtable_insert_handle_to_item_unsafe :: "did \<Rightarrow> string \<Rightarrow> world \<Rightarrow> iid option res" where
  "hashtable_insert_handle_to_item_unsafe d key w = rbind (dict_at w d) (\<lambda>x. Inr (d_index x key))"

definition hashtable_set_item_unsafe :: "did \<Rightarrow> string \<Rightarrow> iid \<Rightarrow> world \<Rightarrow> world res" where
  "hashtable_set_item_unsafe d key i = set_dict d (\<lambda>x. x\<lparr>d_index := (d_index x)(key \<mapsto> i)\<rparr>)"

definition hashtable_delete_unsafe :: "did \<Rightarrow> string \<Rightarrow> world \<Rightarrow> (bool \<times> world) res" where
  "hashtable_delete_unsafe d key w =
     rbind (dict_at w d) (\<lambda>x.
     rbind (set_dict d (\<lambda>x. x\<lparr>d_index := (d_index x)(key := None)\<rparr>) w) (\<lambda>w.
       Inr (d_index x key \<noteq> None, w)))"

definition hashtable_get_unsafe :: "did \<Rightarrow> string \<Rightarrow> world \<Rightarrow> iid option res" where
  "hashtable_get_unsafe d key w = rbind (dict_at w d) (\<lambda>x. Inr (d_index x key))"

section \<open>Reference counters\<close>

datatype rc_item =
    RC_ITEM_OK
  | RC_ITEM_MARKED_FOR_DELETION
  | RC_ITEM_IS_CURRENTLY_BEING_DELETED
  | RC_ITEM_IS_CURRENTLY_BEING_CREATED
  | RC_ITEM_IS_REFERENCED

definition item_acquire :: "did \<Rightarrow> iid \<Rightarrow> world \<Rightarrow> world res" where
  "item_acquire d i w =
     rbind (dict_at w d) (\<lambda>_.
     rbind (set_item i (\<lambda>it. it\<lparr>i_refcount := i_refcount it + 1\<rparr>) w) (\<lambda>w.
     rbind (item_at w i) (\<lambda>it.
       if i_refcount it \<le> 0 then Inl Fatal
       else if i_refcount it = 1 then
         rbind (DICTIONARY_REFERENCED_ITEMS_PLUS1 d w) (\<lambda>w.
           if i_deleted it then DICTIONARY_PENDING_DELETES_MINUS1 d w else Inr w)
       else Inr w)))"

definition item_release :: "did \<Rightarrow> iid \<Rightarrow> world \<Rightarrow> world res" where
  "item_release d i w =
     rbind (dict_at w d) (\<lambda>_.
     rbind (item_at w i) (\<lambda>it.
     let is_deleted = i_deleted it; refcount = i_refcount it - 1 in
     rbind (set_item i (\<lambda>it. it\<lparr>i_refcount := refcount\<rparr>) w) (\<lambda>w.
       if refcount < 0 then Inl Fatal
       else if refcount = 0 then
         rbind (if is_deleted then DICTIONARY_PENDING_DELETES_PLUS1 d w else Inr w)
           (DICTIONARY_REFERENCED_ITEMS_MINUS1 d)
       else Inr w)))"

text \<open>Whether this call set the deleted flag.\<close>

definition dict_item_set_deleted :: "did \<Rightarrow> iid \<Rightarrow> world \<Rightarrow> (bool \<times> world) res" where
  "dict_item_set_deleted d i w =
     rbind (item_at w i) (\<lambda>it.
       if i_deleted it then Inr (False, w)
       else
         rbind (set_item i (\<lambda>it. it\<lparr>i_deleted := True\<rparr>) w) (\<lambda>w.
         rbind (DICTIONARY_ENTRIES_MINUS1 d w) (\<lambda>w. Inr (True, w))))"

text \<open>What happens once an item of a view has been acquired whose master item is deleted.\<close>

definition give_up_stale_item :: "did \<Rightarrow> iid \<Rightarrow> bool \<Rightarrow> world \<Rightarrow> world res" where
  "give_up_stale_item d i having_index_lock w =
     (if having_index_lock then
        rbind (item_at w i) (\<lambda>it.
        rbind (hashtable_delete_unsafe d (take (i_key_len it) (i_name it)) w) (\<lambda>(_, w).
        rbind (dict_item_set_deleted d i w) (\<lambda>(_, w).
        rbind (set_item i (\<lambda>it. it\<lparr>i_refcount := i_refcount it - 1\<rparr>) w) (\<lambda>w.
        rbind (item_at w i) (\<lambda>it.
          if i_refcount it = 0 then DICTIONARY_PENDING_DELETES_PLUS1 d w else Inr w)))))
      else set_item i (\<lambda>it. it\<lparr>i_refcount := i_refcount it - 1\<rparr>) w)"

definition item_check_and_acquire_advanced :: "did \<Rightarrow> iid \<Rightarrow> bool \<Rightarrow> world \<Rightarrow> (rc_item \<times> world) res" where
  "item_check_and_acquire_advanced d i having_index_lock w =
     rbind (dict_at w d) (\<lambda>x.
     rbind (item_at w i) (\<lambda>it.
       if i_refcount it < 0 then Inr (RC_ITEM_IS_CURRENTLY_BEING_DELETED, w)
       else if i_deleted it then Inr (RC_ITEM_MARKED_FOR_DELETION, w)
       else
         let desired = i_refcount it + 1 in
         rbind (set_item i (\<lambda>it. it\<lparr>i_refcount := desired\<rparr>) w) (\<lambda>w.
         rbind (if is_view_dictionary x then rbind (shared_at w (i_shared it)) (\<lambda>s. Inr (s_deleted s)) else Inr False) (\<lambda>stale.
           if stale then
             rbind (give_up_stale_item d i having_index_lock w) (\<lambda>w. Inr (RC_ITEM_MARKED_FOR_DELETION, w))
           else if desired = 1 then
             rbind (DICTIONARY_REFERENCED_ITEMS_PLUS1 d w) (\<lambda>w. Inr (RC_ITEM_OK, w))
           else Inr (RC_ITEM_OK, w)))))"

definition item_check_and_acquire :: "did \<Rightarrow> iid \<Rightarrow> world \<Rightarrow> (bool \<times> world) res" where
  "item_check_and_acquire d i w =
     rbind (item_check_and_acquire_advanced d i False w) (\<lambda>(rc, w). Inr (rc = RC_ITEM_OK, w))"

definition item_is_not_referenced_and_can_be_removed_advanced :: "iid \<Rightarrow> world \<Rightarrow> (rc_item \<times> world) res" where
  "item_is_not_referenced_and_can_be_removed_advanced i w =
     rbind (item_at w i) (\<lambda>it.
       if i_refcount it < 0 then Inr (RC_ITEM_IS_CURRENTLY_BEING_DELETED, w)
       else if i_refcount it > 0 then Inr (RC_ITEM_IS_REFERENCED, w)
       else if i_being_created it then Inr (RC_ITEM_IS_CURRENTLY_BEING_CREATED, w)
       else rbind (set_item i (\<lambda>it. it\<lparr>i_refcount := REFCOUNT_DELETED\<rparr>) w) (\<lambda>w. Inr (RC_ITEM_OK, w)))"

definition item_is_not_referenced_and_can_be_removed :: "iid \<Rightarrow> world \<Rightarrow> (bool \<times> world) res" where
  "item_is_not_referenced_and_can_be_removed i w =
     rbind (item_is_not_referenced_and_can_be_removed_advanced i w) (\<lambda>(rc, w). Inr (rc = RC_ITEM_OK, w))"

definition item_shared_release_and_check_if_it_can_be_freed :: "iid \<Rightarrow> world \<Rightarrow> (bool \<times> world) res" where
  "item_shared_release_and_check_if_it_can_be_freed i w =
     rbind (item_at w i) (\<lambda>it.
     rbind (shared_at w (i_shared it)) (\<lambda>s.
     let links = s_links s - 1 in
     rbind (set_shared (i_shared it) (\<lambda>s. s\<lparr>s_links := (if links = 0 then REFCOUNT_DELETED else links)\<rparr>) w) (\<lambda>w.
       Inr (links = 0, w))))"

section \<open>Items\<close>

definition item_set_name :: "dictionary \<Rightarrow> string \<Rightarrow> nat \<Rightarrow> dictionary_item \<Rightarrow> dictionary_item" where
  "item_set_name x name name_len it =
     (if OPTION_NAME_LINK_DONT_CLONE (d_options x) then
        it\<lparr>i_name := name, i_key_len := name_len mod (KEY_LEN_MAX + 1)\<rparr>
      else
        it\<lparr>i_name := name, i_key_len := length name mod (KEY_LEN_MAX + 1), i_allocated_name := True\<rparr>)"

definition item_get_name :: "world \<Rightarrow> iid \<Rightarrow> string res" where
  "item_get_name w i = rbind (item_at w i) (\<lambda>it. Inr (i_name it))"

definition dict_item_create :: "iid option \<Rightarrow> world \<Rightarrow> (iid \<times> world) res" where
  "dict_item_create master_item w =
     rbind
       (case master_item of
          Some m \<Rightarrow>
            rbind (item_at w m) (\<lambda>mit.
            rbind (set_shared (i_shared mit) (\<lambda>s. s\<lparr>s_links := s_links s + 1\<rparr>) w) (\<lambda>w.
            rbind (shared_at w (i_shared mit)) (\<lambda>s.
              if s_links s \<le> 1 then Inl Fatal else Inr (i_shared mit, w))))
        | None \<Rightarrow>
            Inr (w_fresh w,
              w\<lparr>w_fresh := w_fresh w + 1,
                w_shareds := (w_shareds w)(w_fresh w \<mapsto>
                  \<lparr>s_value = Null, s_links = 1, s_value_len = 0, s_deleted = False\<rparr>)\<rparr>)) (\<lambda>(s, w).
     Inr (w_fresh w,
       w\<lparr>w_fresh := w_fresh w + 1,
         w_items := (w_items w)(w_fresh w \<mapsto>
           \<lparr>i_shared = s, i_name = [], i_allocated_name = False, i_refcount = 1, i_key_len = 0,
             i_deleted = False, i_being_created = True\<rparr>)\<rparr>))"

text \<open>A new block with the given bytes; a block of a fixed size dictionary has room for that size.\<close>

definition dict_item_value_mallocz :: "did \<Rightarrow> string \<Rightarrow> world \<Rightarrow> (vptr \<times> world) res" where
  "dict_item_value_mallocz d bytes w =
     rbind (dict_at w d) (\<lambda>x.
       if (case d_value_aral x of None \<Rightarrow> False | Some fixed \<Rightarrow> fixed < length bytes) then Inl OutOfBounds
       else
         Inr (Mem (w_fresh w),
           w\<lparr>w_fresh := w_fresh w + 1, w_mem := (w_mem w)(w_fresh w \<mapsto> bytes)\<rparr>))"

fun dict_item_value_freez :: "vptr \<Rightarrow> world \<Rightarrow> world res" where
  "dict_item_value_freez Null w = Inr w"
| "dict_item_value_freez (Addr a) w = Inl Opaque"
| "dict_item_value_freez (Mem m) w = rbind (find (w_mem w) m) (\<lambda>_. Inr (w\<lparr>w_mem := (w_mem w)(m := None)\<rparr>))"

text \<open>The bytes that the copy of a value starts with.\<close>

fun source_bytes :: "world \<Rightarrow> vsrc \<Rightarrow> nat \<Rightarrow> string res" where
  "source_bytes w (SPtr Null) len = Inr (replicate len NUL)"
| "source_bytes w (SPtr (Addr a)) len = Inl Opaque"
| "source_bytes w (SPtr (Mem m)) len =
     rbind (find (w_mem w) m) (\<lambda>bs. if len \<le> length bs then Inr (take len bs) else Inl OutOfBounds)"
| "source_bytes w (SBytes bs) len = (if len \<le> length bs then Inr (take len bs) else Inl OutOfBounds)"

definition dict_item_value_create :: "did \<Rightarrow> vsrc \<Rightarrow> nat \<Rightarrow> world \<Rightarrow> (vptr \<times> world) res" where
  "dict_item_value_create d value value_len w =
     (if value_len \<noteq> 0 then
        rbind (source_bytes w value value_len) (\<lambda>bs. dict_item_value_mallocz d bs w)
      else Inr (Null, w))"

text \<open>A linked value is the pointer itself.\<close>

fun source_pointer :: "vsrc \<Rightarrow> vptr res" where
  "source_pointer (SPtr p) = Inr p"
| "source_pointer (SBytes bs) = Inl Opaque"

definition store_value :: "iid \<Rightarrow> vptr \<Rightarrow> nat \<Rightarrow> world \<Rightarrow> world res" where
  "store_value i v value_len w =
     rbind (item_at w i) (\<lambda>it.
       set_shared (i_shared it) (\<lambda>s. s\<lparr>s_value := v, s_value_len := value_len mod (VALUE_LEN_MAX + 1)\<rparr>) w)"

definition dict_item_create_with_hooks ::
  "did \<Rightarrow> string \<Rightarrow> nat \<Rightarrow> vsrc \<Rightarrow> nat \<Rightarrow> vptr \<Rightarrow> iid option \<Rightarrow> world \<Rightarrow> (iid \<times> world) res" where
  "dict_item_create_with_hooks d name name_len value value_len cdata master_item w =
     rbind (dict_at w d) (\<lambda>x.
     rbind (dict_item_create master_item w) (\<lambda>(i, w).
     rbind (set_item i (item_set_name x name name_len) w) (\<lambda>w.
     rbind
       (if is_view_dictionary x then Inr w
        else
          rbind
            (if OPTION_VALUE_LINK_DONT_CLONE (d_options x) then
               rbind (source_pointer value) (\<lambda>v. Inr (v, w))
             else dict_item_value_create d value value_len w) (\<lambda>(v, w).
          rbind (store_value i v value_len w)
            (dictionary_execute_insert_callback d i cdata))) (\<lambda>w.
     rbind (DICTIONARY_ENTRIES_PLUS1 d w) (\<lambda>w.
       Inr (i, w))))))"

definition dict_item_reset_value_with_hooks ::
  "did \<Rightarrow> iid \<Rightarrow> vsrc \<Rightarrow> nat \<Rightarrow> vptr \<Rightarrow> world \<Rightarrow> world res" where
  "dict_item_reset_value_with_hooks d i value value_len cdata w =
     rbind (dict_at w d) (\<lambda>x.
       if is_view_dictionary x then Inl Fatal
       else
         rbind (DICTIONARY_VALUE_RESETS_PLUS1 d w) (\<lambda>w.
         rbind (dictionary_execute_delete_callback d i w) (\<lambda>w.
         rbind
           (if OPTION_VALUE_LINK_DONT_CLONE (d_options x) then
              rbind (source_pointer value) (\<lambda>v. store_value i v value_len w)
            else
              rbind (item_value w i) (\<lambda>old_value.
              rbind (dict_item_value_create d value value_len w) (\<lambda>(new_value, w).
              rbind (store_value i new_value value_len w)
                (dict_item_value_freez old_value)))) (\<lambda>w.
         dictionary_execute_insert_callback d i cdata w))))"

definition dict_item_free_with_hooks :: "did \<Rightarrow> iid \<Rightarrow> world \<Rightarrow> world res" where
  "dict_item_free_with_hooks d i w =
     rbind (dict_at w d) (\<lambda>x.
     rbind (item_at w i) (\<lambda>it.
     rbind (if \<not> i_deleted it then DICTIONARY_ENTRIES_MINUS1 d w else Inr w) (\<lambda>w.
     rbind (item_shared_release_and_check_if_it_can_be_freed i w) (\<lambda>(last, w).
     rbind
       (if last then
          rbind (dictionary_execute_delete_callback d i w) (\<lambda>w.
          rbind
            (if \<not> OPTION_VALUE_LINK_DONT_CLONE (d_options x) then
               rbind (item_value w i) (\<lambda>v. dict_item_value_freez v w)
             else Inr w) (\<lambda>w.
          Inr (w\<lparr>w_shareds := (w_shareds w)(i_shared it := None)\<rparr>)))
        else Inr w) (\<lambda>w.
     Inr (w\<lparr>w_items := (w_items w)(i := None)\<rparr>))))))"

section \<open>The garbage collector\<close>

definition unlink_item :: "did \<Rightarrow> iid \<Rightarrow> world \<Rightarrow> world res" where
  "unlink_item d i = set_dict d (\<lambda>x. x\<lparr>d_list := remove1 i (d_list x)\<rparr>)"

text \<open>
  The loop over the list.  It reads the next item before it unlinks one and unlinks nothing else,
  so that it goes over the items the list had at the start.
\<close>

fun gc_loop :: "did \<Rightarrow> bool \<Rightarrow> iid list \<Rightarrow> world \<Rightarrow> world res" where
  "gc_loop d is_view [] w = Inr w"
| "gc_loop d is_view (i # is) w =
     rbind (item_check_and_acquire_advanced d i is_view w) (\<lambda>(rc, w).
       case rc of
         RC_ITEM_MARKED_FOR_DELETION \<Rightarrow>
           rbind (item_is_not_referenced_and_can_be_removed i w) (\<lambda>(can, w).
             if can then
               rbind (unlink_item d i w) (\<lambda>w.
               rbind (dict_item_free_with_hooks d i w) (\<lambda>w.
               rbind (DICTIONARY_PENDING_DELETES_MINUS1 d w) (\<lambda>w.
               rbind (DICTIONARY_PENDING_DELETES_GET d w) (\<lambda>pending.
                 if pending = 0 then Inr w else gc_loop d is_view is w))))
             else gc_loop d is_view is w)
       | RC_ITEM_OK \<Rightarrow> rbind (item_release d i w) (gc_loop d is_view is)
       | _ \<Rightarrow> gc_loop d is_view is w)"

definition garbage_collect_pending_deletes :: "did \<Rightarrow> world \<Rightarrow> world res" where
  "garbage_collect_pending_deletes d w =
     rbind (dict_at w d) (\<lambda>x.
     rbind (hooks_of w d) (\<lambda>k.
     let last_master_deletion_us = (case k of None \<Rightarrow> 0 | Some k \<Rightarrow> h_last_master_deletion_us k);
       is_view = is_view_dictionary x
     in
       if \<not> (d_pending_deletion_items x > 0 \<or> (is_view \<and> last_master_deletion_us > d_last_gc_run_us x)) then Inr w
       else
         rbind (ll_recursive_lock d LOCK_WRITE w) (\<lambda>w.
         let (now, w) = now_realtime_usec w in
         rbind (set_dict d (\<lambda>x. x\<lparr>d_last_gc_run_us := now\<rparr>) w) (\<lambda>w.
         rbind (if is_view then dictionary_index_lock_wrlock d w else Inr w) (\<lambda>w.
         rbind (dict_at w d) (\<lambda>x.
         rbind (gc_loop d is_view (d_list x) w) (\<lambda>w.
         rbind (if is_view then dictionary_index_wrlock_unlock d w else Inr w)
           (ll_recursive_unlock d LOCK_WRITE))))))))"

fun dictionary_garbage_collect :: "did option \<Rightarrow> world \<Rightarrow> world res" where
  "dictionary_garbage_collect None w = Inr w"
| "dictionary_garbage_collect (Some d) w = garbage_collect_pending_deletes d w"

section \<open>Operations on items\<close>

definition item_linked_list_add :: "did \<Rightarrow> iid \<Rightarrow> world \<Rightarrow> world res" where
  "item_linked_list_add d i w =
     rbind (ll_recursive_lock d LOCK_WRITE w) (\<lambda>w.
     rbind (set_dict d (\<lambda>x. x\<lparr>d_list := (if OPTION_ADD_IN_FRONT (d_options x) then i # d_list x else d_list x @ [i])\<rparr>) w) (\<lambda>w.
     rbind (set_item i (\<lambda>it. it\<lparr>i_being_created := False\<rparr>) w) (\<lambda>w.
     rbind (garbage_collect_pending_deletes d w)
       (ll_recursive_unlock d LOCK_WRITE))))"

definition item_linked_list_remove :: "did \<Rightarrow> iid \<Rightarrow> world \<Rightarrow> world res" where
  "item_linked_list_remove d i w =
     rbind (ll_recursive_lock d LOCK_WRITE w) (\<lambda>w.
     rbind (unlink_item d i w) (\<lambda>w.
     rbind (garbage_collect_pending_deletes d w)
       (ll_recursive_unlock d LOCK_WRITE)))"

definition dict_item_shared_set_deleted :: "did \<Rightarrow> iid \<Rightarrow> world \<Rightarrow> world res" where
  "dict_item_shared_set_deleted d i w =
     rbind (dict_at w d) (\<lambda>x.
       if is_master_dictionary x then
         rbind (item_at w i) (\<lambda>it.
         rbind (set_shared (i_shared it) (\<lambda>s. s\<lparr>s_deleted := True\<rparr>) w) (\<lambda>w.
           case d_hooks x of
             None \<Rightarrow> Inr w
           | Some h \<Rightarrow>
               let (now, w) = now_realtime_usec w in
               set_hooks h (\<lambda>k. k\<lparr>h_last_master_deletion_us := now\<rparr>) w))
       else Inr w)"

definition dict_item_free_or_mark_deleted :: "did \<Rightarrow> iid \<Rightarrow> world \<Rightarrow> world res" where
  "dict_item_free_or_mark_deleted d i w =
     rbind (item_is_not_referenced_and_can_be_removed_advanced i w) (\<lambda>(rc, w).
       case rc of
         RC_ITEM_OK \<Rightarrow>
           rbind (dict_item_shared_set_deleted d i w) (\<lambda>w.
           rbind (item_linked_list_remove d i w)
             (dict_item_free_with_hooks d i))
       | RC_ITEM_IS_REFERENCED \<Rightarrow>
           rbind (dict_item_shared_set_deleted d i w) (\<lambda>w.
           rbind (dict_item_set_deleted d i w) (\<lambda>(_, w). Inr w))
       | RC_ITEM_IS_CURRENTLY_BEING_CREATED \<Rightarrow>
           rbind (dict_item_shared_set_deleted d i w) (\<lambda>w.
           rbind (dict_item_set_deleted d i w) (\<lambda>(_, w). Inr w))
       | _ \<Rightarrow> Inr w)"

definition dict_item_release_and_check_if_it_is_deleted ::
  "did \<Rightarrow> iid \<Rightarrow> lock_mode \<Rightarrow> world \<Rightarrow> world res" where
  "dict_item_release_and_check_if_it_is_deleted d i rw w =
     (if rw = LOCK_WRITE then
        rbind (item_at w i) (\<lambda>it.
        rbind (item_release d i w) (\<lambda>w.
        rbind (if i_deleted it then item_is_not_referenced_and_can_be_removed i w else Inr (False, w)) (\<lambda>(remove, w).
          if remove then
            rbind (DICTIONARY_PENDING_DELETES_MINUS1 d w) (\<lambda>w.
            rbind (item_linked_list_remove d i w)
              (dict_item_free_with_hooks d i))
          else Inr w)))
      else item_release d i w)"

definition dict_item_del :: "did \<Rightarrow> string \<Rightarrow> nat option \<Rightarrow> world \<Rightarrow> (bool \<times> world) res" where
  "dict_item_del d name name_len w =
     rbind (key_of name name_len) (\<lambda>key.
     rbind (dictionary_index_lock_wrlock d w) (\<lambda>w.
     rbind (hashtable_get_unsafe d key w) (\<lambda>found.
       case found of
         None \<Rightarrow> rbind (dictionary_index_wrlock_unlock d w) (\<lambda>w. Inr (False, w))
       | Some i \<Rightarrow>
           rbind (hashtable_delete_unsafe d key w) (\<lambda>(_, w).
           rbind (dictionary_index_wrlock_unlock d w) (\<lambda>w.
           rbind (dict_item_free_or_mark_deleted d i w) (\<lambda>w.
             Inr (True, w)))))))"

text \<open>
  Setting an item that the index already holds.  When the item cannot be acquired, the
  \<^verbatim>\<open>continue\<close> of the loop goes to its condition, which ends it, as the item is not null: the
  index stays locked and the item is returned without a reference.
\<close>

definition dict_item_reset_found ::
  "did \<Rightarrow> iid \<Rightarrow> vsrc \<Rightarrow> nat \<Rightarrow> vptr \<Rightarrow> iid option \<Rightarrow> world \<Rightarrow> (bool \<times> world) res" where
  "dict_item_reset_found d i value value_len cdata master_item w =
     rbind (item_check_and_acquire_advanced d i True w) (\<lambda>(rc, w).
       if rc \<noteq> RC_ITEM_OK then Inr (False, w)
       else
         rbind (dict_at w d) (\<lambda>x.
         rbind
           (if is_view_dictionary x then
              (case master_item of None \<Rightarrow> Inl NullDeref | Some m \<Rightarrow> rbind (item_at w m) (\<lambda>_. Inr (False, w)))
            else if \<not> OPTION_DONT_OVERWRITE_VALUE (d_options x) then
              rbind (dict_item_reset_value_with_hooks d i value value_len cdata w) (\<lambda>w. Inr (True, w))
            else
              rbind (dictionary_execute_conflict_callback d i value cdata w) (\<lambda>(changed, w).
                if changed then rbind (dictionary_version_increment d w) (\<lambda>w. Inr (True, w))
                else Inr (False, w))) (\<lambda>(updated, w).
         rbind (dictionary_index_wrlock_unlock d w) (\<lambda>w.
           Inr (updated, w)))))"

definition dict_item_add_or_reset_value_and_acquire ::
  "did \<Rightarrow> string option \<Rightarrow> nat option \<Rightarrow> vsrc \<Rightarrow> nat \<Rightarrow> vptr \<Rightarrow> iid option \<Rightarrow> world \<Rightarrow> (iid option \<times> world) res" where
  "dict_item_add_or_reset_value_and_acquire d name name_len value value_len cdata master_item w =
     (if name = None \<or> name = Some [] then Inr (None, w)
      else
        rbind (dict_at w d) (\<lambda>x.
          if d_destroyed x then Inr (None, w)
          else
            rbind (key_of (the name) name_len) (\<lambda>key.
            rbind (dictionary_index_lock_wrlock d w) (\<lambda>w.
            rbind (hashtable_insert_handle_to_item_unsafe d key w) (\<lambda>found.
            rbind
              (case found of
                 None \<Rightarrow>
                   rbind (dict_item_create_with_hooks d (the name) (length key) value value_len cdata master_item w) (\<lambda>(i, w).
                   rbind (hashtable_set_item_unsafe d key i w) (\<lambda>w.
                   rbind (dictionary_index_wrlock_unlock d w) (\<lambda>w.
                   rbind (item_linked_list_add d i w) (\<lambda>w.
                     Inr (i, True, w)))))
               | Some i \<Rightarrow>
                   rbind (dict_item_reset_found d i value value_len cdata master_item w) (\<lambda>(updated, w).
                     Inr (i, updated, w))) (\<lambda>(i, added_or_updated, w).
            rbind
              (if is_master_dictionary x \<and> added_or_updated
               then dictionary_execute_react_callback d i cdata w else Inr w) (\<lambda>w.
            Inr (Some i, w))))))))"

definition dict_item_find_and_acquire ::
  "did \<Rightarrow> string option \<Rightarrow> nat option \<Rightarrow> world \<Rightarrow> (iid option \<times> world) res" where
  "dict_item_find_and_acquire d name name_len w =
     (if name = None \<or> name = Some [] then Inr (None, w)
      else
        rbind (dict_at w d) (\<lambda>x.
          if d_destroyed x then Inr (None, w)
          else
            rbind (key_of (the name) name_len) (\<lambda>key.
            rbind (dictionary_index_lock_rdlock d w) (\<lambda>w.
            rbind (hashtable_get_unsafe d key w) (\<lambda>found.
            rbind
              (case found of
                 None \<Rightarrow> Inr (None, w)
               | Some i \<Rightarrow>
                   rbind (item_check_and_acquire d i w) (\<lambda>(ok, w). Inr (if ok then Some i else None, w))) (\<lambda>(item, w).
            rbind (dictionary_index_rdlock_unlock d w) (\<lambda>w.
              Inr (item, w))))))))"

section \<open>Destruction\<close>

definition dictionary_free_all_resources :: "did \<Rightarrow> bool \<Rightarrow> world \<Rightarrow> (bool \<times> world) res" where
  "dictionary_free_all_resources d force w =
     rbind (if force then Inr 0 else dictionary_referenced_items w (Some d)) (\<lambda>referenced.
       if referenced \<noteq> 0 then Inr (False, w)
       else
         rbind (dictionary_index_lock_wrlock d w) (\<lambda>w.
         rbind (hashtable_destroy_unsafe d w) (\<lambda>w.
         rbind (dictionary_index_wrlock_unlock d w) (\<lambda>w.
         rbind (ll_recursive_lock d LOCK_WRITE w) (\<lambda>w.
         rbind (dict_at w d) (\<lambda>x.
         rbind (rfold (dict_item_free_with_hooks d) (d_list x) w) (\<lambda>w.
         rbind (set_dict d (\<lambda>x. x\<lparr>d_list := []\<rparr>) w) (\<lambda>w.
         rbind (ll_recursive_unlock d LOCK_WRITE w) (\<lambda>w.
         rbind (dictionary_hooks_free d w) (\<lambda>w.
           Inr (True, w\<lparr>w_dicts := (w_dicts w)(d := None)\<rparr>)))))))))))"

definition dictionary_queue_for_destruction :: "did \<Rightarrow> world \<Rightarrow> world res" where
  "dictionary_queue_for_destruction d w =
     rbind (dict_at w d) (\<lambda>x.
       if d_destroyed x then Inr w
       else
         rbind (set_dict d (\<lambda>x. x\<lparr>d_destroyed := True\<rparr>) w) (\<lambda>w.
           Inr (w\<lparr>w_waiting := d # w_waiting w\<rparr>)))"

definition dictionary_destroy_delayed_count :: "world \<Rightarrow> nat" where
  "dictionary_destroy_delayed_count w = length (w_waiting w)"

text \<open>The dictionaries of the waiting list that have to stay.\<close>

fun cleanup_loop :: "did list \<Rightarrow> world \<Rightarrow> (did list \<times> world) res" where
  "cleanup_loop [] w = Inr ([], w)"
| "cleanup_loop (d # ds) w =
     rbind (dictionary_free_all_resources d False w) (\<lambda>(freed, w).
     rbind (cleanup_loop ds w) (\<lambda>(stay, w).
       Inr (if freed then stay else d # stay, w)))"

definition cleanup_destroyed_dictionaries :: "world \<Rightarrow> (nat \<times> world) res" where
  "cleanup_destroyed_dictionaries w =
     rbind (cleanup_loop (w_waiting w) w) (\<lambda>(stay, w).
       Inr (length stay, w\<lparr>w_waiting := stay\<rparr>))"

section \<open>Creation\<close>

definition dictionary_create_internal :: "dict_options \<Rightarrow> nat \<Rightarrow> world \<Rightarrow> (did \<times> world) res" where
  "dictionary_create_internal options fixed_size w =
     rbind (cleanup_destroyed_dictionaries w) (\<lambda>(_, w).
     let fixed = (fixed_size \<noteq> 0);
       options = options\<lparr>OPTION_FIXED_SIZE := fixed, OPTION_INDEX_JUDY := True\<rparr>;
       d = w_fresh w
     in Inr (d,
       w\<lparr>w_fresh := w_fresh w + 1,
         w_dicts := (w_dicts w)(d \<mapsto>
           \<lparr>d_last_gc_run_us = 0, d_options = options, d_destroyed = False,
             d_value_aral = (if fixed then Some fixed_size else None),
             d_index = hashtable_init_unsafe, d_index_lock = rw_spinlock_init,
             d_list = [], d_list_lock = rw_spinlock_init, d_writer_pid = 0, d_writer_depth = 0,
             d_hooks = None, d_master = None, d_version = 0, d_entries = 0, d_referenced_items = 0,
             d_pending_deletion_items = 0\<rparr>)\<rparr>))"

definition dictionary_create_advanced :: "dict_options \<Rightarrow> nat \<Rightarrow> world \<Rightarrow> (did \<times> world) res" where
  "dictionary_create_advanced = dictionary_create_internal"

definition dictionary_create :: "dict_options \<Rightarrow> world \<Rightarrow> (did \<times> world) res" where
  "dictionary_create options w = dictionary_create_advanced options 0 w"

text \<open>The check of the links compares a truth value, so that it only catches zero links.\<close>

definition dictionary_create_view :: "did \<Rightarrow> world \<Rightarrow> (did \<times> world) res" where
  "dictionary_create_view m w =
     rbind (dict_at w m) (\<lambda>x.
     rbind (dictionary_create_internal (d_options x) (case d_value_aral x of None \<Rightarrow> 0 | Some n \<Rightarrow> n) w) (\<lambda>(d, w).
     rbind (set_dict d (\<lambda>y. y\<lparr>d_master := Some m\<rparr>) w) (\<lambda>w.
     rbind (dictionary_hooks_allocate m w) (\<lambda>w.
     rbind (dict_at w m) (\<lambda>x.
       case d_hooks x of
         None \<Rightarrow> Inl NullDeref
       | Some h \<Rightarrow>
           rbind (hooks_at w h) (\<lambda>k.
             if h_links k = 0 then Inl Fatal
             else
               rbind (set_dict d (\<lambda>y. y\<lparr>d_hooks := Some h\<rparr>) w) (\<lambda>w.
               rbind (set_hooks h (\<lambda>k. k\<lparr>h_links := h_links k + 1\<rparr>) w) (\<lambda>w.
                 Inr (d, w)))))))))"

text \<open>
  Emptying a dictionary follows the next pointer that it has read before it deletes an item.  An
  item is deleted by its name.  The rounds are at most as many as there are items.
\<close>

fun flush_loop :: "nat \<Rightarrow> did \<Rightarrow> iid option \<Rightarrow> world \<Rightarrow> world res" where
  "flush_loop fuel d None w = Inr w"
| "flush_loop 0 d (Some i) w = Inl Unfinished"
| "flush_loop (Suc fuel) d (Some i) w =
     rbind (item_next w d i) (\<lambda>next_item.
     rbind (item_get_name w i) (\<lambda>name.
     rbind (dict_item_del d name (Some (length name)) w) (\<lambda>(_, w).
       flush_loop fuel d next_item w)))"

fun dictionary_flush :: "did option \<Rightarrow> world \<Rightarrow> world res" where
  "dictionary_flush None w = Inr w"
| "dictionary_flush (Some d) w =
     rbind (ll_recursive_lock d LOCK_WRITE w) (\<lambda>w.
     rbind (dict_at w d) (\<lambda>x.
     rbind (flush_loop (length (d_list x)) d (head_of (d_list x)) w) (\<lambda>w.
     rbind (ll_recursive_unlock d LOCK_WRITE w) (\<lambda>w.
       dictionary_garbage_collect (Some d) w))))"

fun dictionary_destroy :: "did option \<Rightarrow> world \<Rightarrow> world res" where
  "dictionary_destroy None w = rbind (cleanup_destroyed_dictionaries w) (\<lambda>(_, w). Inr w)"
| "dictionary_destroy (Some d) w =
     rbind (cleanup_destroyed_dictionaries w) (\<lambda>(_, w).
     rbind (ll_recursive_lock d LOCK_WRITE w) (\<lambda>w.
     rbind (dictionary_referenced_items w (Some d)) (\<lambda>referenced_items.
       if referenced_items \<noteq> 0 then
         rbind (dictionary_flush (Some d) w) (\<lambda>w.
         rbind (dictionary_queue_for_destruction d w)
           (ll_recursive_unlock d LOCK_WRITE))
       else
         rbind (ll_recursive_unlock d LOCK_WRITE w) (\<lambda>w.
         rbind (dictionary_free_all_resources d True w) (\<lambda>(_, w). Inr w)))))"

section \<open>The public interface\<close>

definition api_is_name_good :: "string option \<Rightarrow> bool" where
  "api_is_name_good name \<longleftrightarrow> name \<noteq> None \<and> name \<noteq> Some []"

definition dictionary_set_and_acquire_item_advanced ::
  "did \<Rightarrow> string option \<Rightarrow> nat option \<Rightarrow> vsrc \<Rightarrow> nat \<Rightarrow> vptr \<Rightarrow> world \<Rightarrow> (iid option \<times> world) res" where
  "dictionary_set_and_acquire_item_advanced d name name_len value value_len cdata w =
     (if \<not> api_is_name_good name then Inr (None, w)
      else
        rbind (dict_at w d) (\<lambda>x.
          if is_view_dictionary x then Inl Fatal
          else dict_item_add_or_reset_value_and_acquire d name name_len value value_len cdata None w))"

text \<open>The value of an item and the release of the reference to it; a null item has a null value.\<close>

fun value_and_release :: "did \<Rightarrow> iid option \<Rightarrow> world \<Rightarrow> (vptr \<times> world) res" where
  "value_and_release d None w = Inr (Null, w)"
| "value_and_release d (Some i) w =
     rbind (item_value w i) (\<lambda>v. rbind (item_release d i w) (\<lambda>w. Inr (v, w)))"

definition dictionary_set_advanced ::
  "did \<Rightarrow> string option \<Rightarrow> nat option \<Rightarrow> vsrc \<Rightarrow> nat \<Rightarrow> vptr \<Rightarrow> world \<Rightarrow> (vptr \<times> world) res" where
  "dictionary_set_advanced d name name_len value value_len cdata w =
     rbind (dictionary_set_and_acquire_item_advanced d name name_len value value_len cdata w) (\<lambda>(item, w).
       value_and_release d item w)"

definition dictionary_set :: "did \<Rightarrow> string option \<Rightarrow> vsrc \<Rightarrow> nat \<Rightarrow> world \<Rightarrow> (vptr \<times> world) res" where
  "dictionary_set d name value value_len w = dictionary_set_advanced d name None value value_len Null w"

definition dictionary_acquired_item_dup :: "did \<Rightarrow> iid option \<Rightarrow> world \<Rightarrow> (iid option \<times> world) res" where
  "dictionary_acquired_item_dup d item w =
     (case item of None \<Rightarrow> Inr (None, w) | Some i \<Rightarrow> rbind (item_acquire d i w) (\<lambda>w. Inr (Some i, w)))"

definition dictionary_acquired_item_release :: "did \<Rightarrow> iid option \<Rightarrow> world \<Rightarrow> world res" where
  "dictionary_acquired_item_release d item w =
     (case item of None \<Rightarrow> Inr w | Some i \<Rightarrow> item_release d i w)"

definition dictionary_view_set_and_acquire_item_advanced ::
  "did \<Rightarrow> string option \<Rightarrow> nat option \<Rightarrow> iid option \<Rightarrow> world \<Rightarrow> (iid option \<times> world) res" where
  "dictionary_view_set_and_acquire_item_advanced d name name_len master_item w =
     (if \<not> api_is_name_good name then Inr (None, w)
      else
        rbind (dict_at w d) (\<lambda>x.
          case d_master x of
            None \<Rightarrow> Inl Fatal
          | Some m \<Rightarrow>
              rbind (garbage_collect_pending_deletes d w) (\<lambda>w.
              rbind (dictionary_acquired_item_dup m master_item w) (\<lambda>(_, w).
              rbind (dict_item_add_or_reset_value_and_acquire d name name_len (SPtr Null) 0 Null master_item w) (\<lambda>(item, w).
              rbind (dictionary_acquired_item_release m master_item w) (\<lambda>w.
                Inr (item, w)))))))"

definition dictionary_view_set_advanced ::
  "did \<Rightarrow> string option \<Rightarrow> nat option \<Rightarrow> iid option \<Rightarrow> world \<Rightarrow> (vptr \<times> world) res" where
  "dictionary_view_set_advanced d name name_len master_item w =
     rbind (dictionary_view_set_and_acquire_item_advanced d name name_len master_item w) (\<lambda>(item, w).
       value_and_release d item w)"

definition dictionary_get_and_acquire_item_advanced ::
  "did \<Rightarrow> string option \<Rightarrow> nat option \<Rightarrow> world \<Rightarrow> (iid option \<times> world) res" where
  "dictionary_get_and_acquire_item_advanced d name name_len w =
     (if \<not> api_is_name_good name then Inr (None, w) else dict_item_find_and_acquire d name name_len w)"

definition dictionary_get_advanced ::
  "did \<Rightarrow> string option \<Rightarrow> nat option \<Rightarrow> world \<Rightarrow> (vptr \<times> world) res" where
  "dictionary_get_advanced d name name_len w =
     rbind (dictionary_get_and_acquire_item_advanced d name name_len w) (\<lambda>(item, w).
       value_and_release d item w)"

definition dictionary_get :: "did \<Rightarrow> string option \<Rightarrow> world \<Rightarrow> (vptr \<times> world) res" where
  "dictionary_get d name w = dictionary_get_advanced d name None w"

definition dictionary_acquired_item_name :: "world \<Rightarrow> iid \<Rightarrow> string res" where
  "dictionary_acquired_item_name = item_get_name"

definition dictionary_acquired_item_value :: "world \<Rightarrow> iid option \<Rightarrow> vptr res" where
  "dictionary_acquired_item_value w item = (case item of None \<Rightarrow> Inr Null | Some i \<Rightarrow> item_value w i)"

definition dictionary_acquired_item_references :: "world \<Rightarrow> iid option \<Rightarrow> int res" where
  "dictionary_acquired_item_references w item =
     (case item of None \<Rightarrow> Inr 0 | Some i \<Rightarrow> rbind (item_at w i) (\<lambda>it. Inr (i_refcount it)))"

definition dictionary_del_advanced :: "did \<Rightarrow> string option \<Rightarrow> nat option \<Rightarrow> world \<Rightarrow> (bool \<times> world) res" where
  "dictionary_del_advanced d name name_len w =
     (case name of
        None \<Rightarrow> Inr (False, w)
      | Some n \<Rightarrow>
          if \<not> api_is_name_good name then Inr (False, w)
          else
            rbind (dict_at w d) (\<lambda>x.
              if d_destroyed x then Inr (False, w) else dict_item_del d n name_len w))"

definition dictionary_del :: "did \<Rightarrow> string option \<Rightarrow> world \<Rightarrow> (bool \<times> world) res" where
  "dictionary_del d name w = dictionary_del_advanced d name None w"

section \<open>Traversal\<close>

record dictionary_foreach =
  fe_dict :: "did option"
  fe_item :: "iid option"
  fe_name :: "string option"
  fe_value :: vptr
  fe_counter :: nat
  fe_rw :: lock_mode
  fe_locked :: bool

definition dfe_init :: "did option \<Rightarrow> lock_mode \<Rightarrow> dictionary_foreach" where
  "dfe_init d mode =
     \<lparr>fe_dict = d, fe_item = None, fe_name = None, fe_value = Null, fe_counter = 0, fe_rw = mode, fe_locked = False\<rparr>"

text \<open>The first item that can be acquired; acquiring does not change the list.\<close>

fun skip_deleted :: "did \<Rightarrow> iid list \<Rightarrow> world \<Rightarrow> (iid option \<times> world) res" where
  "skip_deleted d [] w = Inr (None, w)"
| "skip_deleted d (i # is) w =
     rbind (item_check_and_acquire d i w) (\<lambda>(ok, w).
       if ok then Inr (Some i, w) else skip_deleted d is w)"

text \<open>The position on an item, or the end.\<close>

definition dfe_at :: "iid option \<Rightarrow> dictionary_foreach \<Rightarrow> world \<Rightarrow> dictionary_foreach res" where
  "dfe_at item dfe w =
     (case item of
        None \<Rightarrow> Inr (dfe\<lparr>fe_item := None, fe_name := None, fe_value := Null\<rparr>)
      | Some i \<Rightarrow>
          rbind (item_get_name w i) (\<lambda>name.
          rbind (item_value w i) (\<lambda>v.
            Inr (dfe\<lparr>fe_item := Some i, fe_name := Some name, fe_value := v\<rparr>))))"

definition dictionary_foreach_start_rw :: "dictionary_foreach \<Rightarrow> world \<Rightarrow> (dictionary_foreach \<times> world) res" where
  "dictionary_foreach_start_rw dfe w =
     (case fe_dict dfe of
        None \<Rightarrow> Inr (dfe, w)
      | Some d \<Rightarrow>
          rbind (dict_at w d) (\<lambda>x.
            if d_destroyed x then
              Inr (dfe\<lparr>fe_dict := None, fe_item := None, fe_name := None, fe_value := Null, fe_counter := 0\<rparr>, w)
            else
              rbind (ll_recursive_lock d (fe_rw dfe) w) (\<lambda>w.
              rbind (skip_deleted d (d_list x) w) (\<lambda>(item, w).
              rbind (dfe_at item (dfe\<lparr>fe_counter := 0, fe_locked := True\<rparr>) w) (\<lambda>dfe.
                if fe_rw dfe = LOCK_REENTRANT then
                  rbind (ll_recursive_unlock d (fe_rw dfe) w) (\<lambda>w. Inr (dfe\<lparr>fe_locked := False\<rparr>, w))
                else Inr (dfe, w))))))"

definition dictionary_foreach_done :: "dictionary_foreach \<Rightarrow> world \<Rightarrow> (dictionary_foreach \<times> world) res" where
  "dictionary_foreach_done dfe w =
     (case fe_dict dfe of
        None \<Rightarrow> Inr (dfe, w)
      | Some d \<Rightarrow>
          rbind
            (case fe_item dfe of
               None \<Rightarrow> Inr w
             | Some i \<Rightarrow> dict_item_release_and_check_if_it_is_deleted d i (fe_rw dfe) w) (\<lambda>w.
          rbind
            (if fe_rw dfe \<noteq> LOCK_REENTRANT \<and> fe_locked dfe then
               rbind (ll_recursive_unlock d (fe_rw dfe) w) (\<lambda>w. Inr (dfe\<lparr>fe_locked := False\<rparr>, w))
             else Inr (dfe, w)) (\<lambda>(dfe, w).
          Inr (dfe\<lparr>fe_dict := None, fe_item := None, fe_name := None, fe_value := Null, fe_counter := 0\<rparr>, w))))"

definition dictionary_foreach_next :: "dictionary_foreach \<Rightarrow> world \<Rightarrow> (dictionary_foreach \<times> world) res" where
  "dictionary_foreach_next dfe w =
     (case fe_dict dfe of
        None \<Rightarrow> Inr (dfe, w)
      | Some d \<Rightarrow>
          rbind (dict_at w d) (\<lambda>x.
            if d_destroyed x then dictionary_foreach_done dfe w
            else
              rbind
                (if fe_rw dfe = LOCK_REENTRANT \<or> \<not> fe_locked dfe then
                   rbind (ll_recursive_lock d (fe_rw dfe) w) (\<lambda>w. Inr (dfe\<lparr>fe_locked := True\<rparr>, w))
                 else Inr (dfe, w)) (\<lambda>(dfe, w).
              rbind
                (case fe_item dfe of
                   None \<Rightarrow> Inr []
                 | Some i \<Rightarrow> rbind (item_at w i) (\<lambda>_. Inr (rest_after (d_list x) i))) (\<lambda>rest.
              rbind (skip_deleted d rest w) (\<lambda>(item, w).
              rbind
                (case fe_item dfe of
                   None \<Rightarrow> Inr w
                 | Some i \<Rightarrow> dict_item_release_and_check_if_it_is_deleted d i (fe_rw dfe) w) (\<lambda>w.
              rbind (dfe_at item dfe w) (\<lambda>dfe.
              let dfe = (if item = None then dfe else dfe\<lparr>fe_counter := fe_counter dfe + 1\<rparr>) in
                if fe_rw dfe = LOCK_REENTRANT then
                  rbind (ll_recursive_unlock d (fe_rw dfe) w) (\<lambda>w. Inr (dfe\<lparr>fe_locked := False\<rparr>, w))
                else Inr (dfe, w))))))))"

definition dictionary_foreach_unlock :: "dictionary_foreach \<Rightarrow> world \<Rightarrow> (dictionary_foreach \<times> world) res" where
  "dictionary_foreach_unlock dfe w =
     (if fe_locked dfe then
        (case fe_dict dfe of
           None \<Rightarrow> Inl NullDeref
         | Some d \<Rightarrow> rbind (ll_recursive_unlock d (fe_rw dfe) w) (\<lambda>w. Inr (dfe\<lparr>fe_locked := False\<rparr>, w)))
      else Inr (dfe, w))"

text \<open>
  A loop between \<^verbatim>\<open>dfe_start_rw\<close> and \<^verbatim>\<open>dfe_done\<close>: the body runs on the state of the caller, which
  contains the world.  The rounds are given.
\<close>

fun dfe_loop ::
  "nat \<Rightarrow> (dictionary_foreach \<Rightarrow> world \<times> 's \<Rightarrow> (world \<times> 's) res) \<Rightarrow> dictionary_foreach \<Rightarrow> world \<times> 's \<Rightarrow>
   (dictionary_foreach \<times> world \<times> 's) res" where
  "dfe_loop fuel body dfe (w, s) =
     (if fe_item dfe = None \<and> fe_value dfe = Null then Inr (dfe, w, s)
      else
        case fuel of
          0 \<Rightarrow> Inl Unfinished
        | Suc fuel \<Rightarrow>
            rbind (body dfe (w, s)) (\<lambda>(w, s).
            rbind (dictionary_foreach_next dfe w) (\<lambda>(dfe, w).
              dfe_loop fuel body dfe (w, s))))"

definition dfe_foreach ::
  "nat \<Rightarrow> did option \<Rightarrow> lock_mode \<Rightarrow> (dictionary_foreach \<Rightarrow> world \<times> 's \<Rightarrow> (world \<times> 's) res) \<Rightarrow> world \<times> 's \<Rightarrow>
   (world \<times> 's) res" where
  "dfe_foreach fuel d mode body ws =
     rbind (dictionary_foreach_start_rw (dfe_init d mode) (fst ws)) (\<lambda>(dfe, w).
     rbind (dfe_loop fuel body dfe (w, snd ws)) (\<lambda>(dfe, w, s).
     rbind (dictionary_foreach_done dfe w) (\<lambda>(_, w).
       Inr (w, s))))"

text \<open>
  Walking through a dictionary with a callback, which gets an item and its value and answers a
  number; a negative number ends the walk.
\<close>

fun walkthrough_loop ::
  "nat \<Rightarrow> did \<Rightarrow> lock_mode \<Rightarrow> (iid \<Rightarrow> vptr \<Rightarrow> world \<Rightarrow> (int \<times> world) res) \<Rightarrow> iid option \<Rightarrow> int \<Rightarrow> world \<Rightarrow> (int \<times> world) res" where
  "walkthrough_loop fuel d rw cb None ret w = Inr (ret, w)"
| "walkthrough_loop 0 d rw cb (Some i) ret w = Inl Unfinished"
| "walkthrough_loop (Suc fuel) d rw cb (Some i) ret w =
     rbind (item_check_and_acquire d i w) (\<lambda>(ok, w).
       if \<not> ok then rbind (item_next w d i) (\<lambda>item. walkthrough_loop fuel d rw cb item ret w)
       else
         rbind (if rw = LOCK_REENTRANT then ll_recursive_unlock d rw w else Inr w) (\<lambda>w.
         rbind (item_value w i) (\<lambda>v.
         rbind (cb i v w) (\<lambda>(r, w).
         rbind (if rw = LOCK_REENTRANT then ll_recursive_lock d rw w else Inr w) (\<lambda>w.
         rbind (item_next w d i) (\<lambda>item.
         rbind (dict_item_release_and_check_if_it_is_deleted d i rw w) (\<lambda>w.
           if r < 0 then Inr (r, w) else walkthrough_loop fuel d rw cb item (ret + r) w)))))))"

fun dictionary_walkthrough_rw ::
  "nat \<Rightarrow> did option \<Rightarrow> lock_mode \<Rightarrow> (iid \<Rightarrow> vptr \<Rightarrow> world \<Rightarrow> (int \<times> world) res) \<Rightarrow> world \<Rightarrow> (int \<times> world) res" where
  "dictionary_walkthrough_rw fuel None rw cb w = Inr (0, w)"
| "dictionary_walkthrough_rw fuel (Some d) rw cb w =
     rbind (dict_at w d) (\<lambda>x.
       if d_destroyed x then Inr (0, w)
       else
         rbind (ll_recursive_lock d rw w) (\<lambda>w.
         rbind (list_head w d) (\<lambda>item.
         rbind (walkthrough_loop fuel d rw cb item 0 w) (\<lambda>(ret, w).
         rbind (ll_recursive_unlock d rw w) (\<lambda>w. Inr (ret, w))))))"

text \<open>Walking in the order of the names: the items are acquired first, then visited.\<close>

fun strcmp_le :: "string \<Rightarrow> string \<Rightarrow> bool" where
  "strcmp_le [] t = True"
| "strcmp_le (c # s) [] = False"
| "strcmp_le (c # s) (e # t) = (code c < code e \<or> (c = e \<and> strcmp_le s t))"

fun insert_by_name :: "world \<Rightarrow> iid \<Rightarrow> iid list \<Rightarrow> iid list res" where
  "insert_by_name w i [] = Inr [i]"
| "insert_by_name w i (j # js) =
     rbind (item_get_name w i) (\<lambda>a.
     rbind (item_get_name w j) (\<lambda>b.
       if strcmp_le a b then Inr (i # j # js)
       else rbind (insert_by_name w i js) (\<lambda>ks. Inr (j # ks))))"

definition sort_by_name :: "world \<Rightarrow> iid list \<Rightarrow> iid list res" where
  "sort_by_name w is = rfold (insert_by_name w) is []"

fun acquire_listed :: "did \<Rightarrow> iid list \<Rightarrow> nat \<Rightarrow> world \<Rightarrow> (iid list \<times> world) res" where
  "acquire_listed d [] n w = Inr ([], w)"
| "acquire_listed d (i # is) 0 w = Inr ([], w)"
| "acquire_listed d (i # is) (Suc n) w =
     rbind (item_check_and_acquire d i w) (\<lambda>(ok, w).
     rbind (acquire_listed d is (if ok then n else Suc n) w) (\<lambda>(js, w).
       Inr (if ok then i # js else js, w)))"

fun sorted_walkthrough_loop ::
  "did \<Rightarrow> lock_mode \<Rightarrow> (iid \<Rightarrow> vptr \<Rightarrow> world \<Rightarrow> (int \<times> world) res) \<Rightarrow> iid list \<Rightarrow> bool \<Rightarrow> int \<Rightarrow> world \<Rightarrow> (int \<times> world) res" where
  "sorted_walkthrough_loop d rw cb [] callit ret w = Inr (ret, w)"
| "sorted_walkthrough_loop d rw cb (i # is) callit ret w =
     rbind (if callit then rbind (item_value w i) (\<lambda>v. cb i v w) else Inr (0, w)) (\<lambda>(r, w).
     rbind (dict_item_release_and_check_if_it_is_deleted d i rw w) (\<lambda>w.
       if r < 0 then sorted_walkthrough_loop d rw cb is False r w
       else sorted_walkthrough_loop d rw cb is callit (ret + r) w))"

fun dictionary_sorted_walkthrough_rw ::
  "did option \<Rightarrow> lock_mode \<Rightarrow> (iid \<Rightarrow> vptr \<Rightarrow> world \<Rightarrow> (int \<times> world) res) \<Rightarrow> world \<Rightarrow> (int \<times> world) res" where
  "dictionary_sorted_walkthrough_rw None rw cb w = Inr (0, w)"
| "dictionary_sorted_walkthrough_rw (Some d) rw cb w =
     rbind (dict_at w d) (\<lambda>x.
       if d_destroyed x then Inr (0, w)
       else
         rbind (ll_recursive_lock d rw w) (\<lambda>w.
         rbind (acquire_listed d (d_list x) (nat (d_entries x)) w) (\<lambda>(array, w).
         rbind (ll_recursive_unlock d rw w) (\<lambda>w.
         rbind (sort_by_name w array) (\<lambda>array.
           sorted_walkthrough_loop d rw cb array True 0 w)))))"

end
