(* ===== verification/Clocks.thy ===== *)
theory Clocks
  imports C_Prelude
begin

text \<open>
  The clock functions of \<^verbatim>\<open>libnetdata/clocks\<close>: conversions between seconds and microseconds, the
  heartbeat that paces a collector, and the sleep it uses.  Times are 64 bit words that wrap.  What
  the operating system answers is an argument: the readings of the clocks, and the results of
  \<^verbatim>\<open>nanosleep\<close>.

  The lemmas show when the next beat is due, that the reported intervals add up to the time that
  has passed, and when a sleep that is interrupted ends too early.
\<close>

section \<open>Times\<close>

type_synonym usec = u64

record timespec =
  tv_sec :: u64
  tv_nsec :: u64

record timeval =
  tval_sec :: u64
  tval_usec :: u64

definition NSEC_PER_SEC :: u64 where "NSEC_PER_SEC = 1000000000"
definition NSEC_PER_USEC :: u64 where "NSEC_PER_USEC = 1000"
definition USEC_PER_SEC :: u64 where "USEC_PER_SEC = 1000000"
definition MSEC_PER_SEC :: u64 where "MSEC_PER_SEC = 1000"
definition USEC_PER_MS :: u64 where "USEC_PER_MS = 1000"

definition DEFAULT_CLOCK_RESOLUTION_UT :: usec where
  "DEFAULT_CLOCK_RESOLUTION_UT = 0 * USEC_PER_SEC + 1 * USEC_PER_MS"

definition MAX_CLOCK_RESOLUTION_UT :: usec where
  "MAX_CLOCK_RESOLUTION_UT = 0 * USEC_PER_SEC + 10 * USEC_PER_MS"

text \<open>The answer of \<^verbatim>\<open>clock_getres\<close> or \<^verbatim>\<open>clock_gettime\<close> is \<open>None\<close> when the call fails.\<close>

definition get_clock_resolution :: "timespec option \<Rightarrow> usec" where
  "get_clock_resolution answer =
     (case answer of
        None \<Rightarrow> DEFAULT_CLOCK_RESOLUTION_UT
      | Some ts \<Rightarrow>
          let ret = tv_sec ts * USEC_PER_SEC + tv_nsec ts div NSEC_PER_USEC in
          if ret = 0 \<and> 0 <s tv_nsec ts \<and> tv_nsec ts <s NSEC_PER_USEC then 1
          else if ret > MAX_CLOCK_RESOLUTION_UT then DEFAULT_CLOCK_RESOLUTION_UT
          else ret)"

definition now_sec :: "timespec option \<Rightarrow> u64" where
  "now_sec answer = (case answer of None \<Rightarrow> 0 | Some ts \<Rightarrow> tv_sec ts)"

definition now_usec :: "timespec option \<Rightarrow> usec" where
  "now_usec answer =
     (case answer of
        None \<Rightarrow> 0
      | Some ts \<Rightarrow> tv_sec ts * USEC_PER_SEC + (tv_nsec ts mod NSEC_PER_SEC) div NSEC_PER_USEC)"

definition now_timeval :: "timespec option \<Rightarrow> timeval \<times> int" where
  "now_timeval answer =
     (case answer of
        None \<Rightarrow> (\<lparr>tval_sec = 0, tval_usec = 0\<rparr>, - 1)
      | Some ts \<Rightarrow> (\<lparr>tval_sec = tv_sec ts, tval_usec = (tv_nsec ts mod NSEC_PER_SEC) div NSEC_PER_USEC\<rparr>, 0))"

definition now_realtime_msec :: "timespec option \<Rightarrow> u64" where
  "now_realtime_msec answer = now_usec answer div USEC_PER_MS"

definition timeval_usec :: "timeval \<Rightarrow> usec" where
  "timeval_usec tv = tval_sec tv * USEC_PER_SEC + (tval_usec tv mod USEC_PER_SEC)"

definition timeval_msec :: "timeval \<Rightarrow> u64" where
  "timeval_msec tv = tval_sec tv * MSEC_PER_SEC + ((tval_usec tv mod USEC_PER_SEC) div MSEC_PER_SEC)"

text \<open>The signed difference is a word to be read as a two's complement number.\<close>

definition dt_usec_signed :: "timeval \<Rightarrow> timeval \<Rightarrow> u64" where
  "dt_usec_signed now old =
     (let ts1 = timeval_usec now; ts2 = timeval_usec old
      in if ts1 \<ge> ts2 then ts1 - ts2 else - (ts2 - ts1))"

definition dt_usec :: "timeval \<Rightarrow> timeval \<Rightarrow> usec" where
  "dt_usec now old =
     (let ts1 = timeval_usec now; ts2 = timeval_usec old
      in if ts1 > ts2 then ts1 - ts2 else ts2 - ts1)"

section \<open>The heartbeat\<close>

definition HEARTBEAT_MIN_OFFSET_UT :: usec where "HEARTBEAT_MIN_OFFSET_UT = 150 * USEC_PER_MS"
definition HEARTBEAT_RANDOM_OFFSET_UT :: usec where "HEARTBEAT_RANDOM_OFFSET_UT = 350 * USEC_PER_MS"
definition HEARTBEAT_ALIGNMENT_STATISTICS_SIZE :: nat where "HEARTBEAT_ALIGNMENT_STATISTICS_SIZE = 20"

record heartbeat =
  hb_step :: usec
  hb_realtime :: usec
  hb_randomness :: usec
  hb_statistics_id :: nat
  hb_hash :: u64

record heartbeat_thread_statistics =
  st_tid :: nat
  st_sequence :: nat
  st_dt :: usec
  st_randomness :: usec

text \<open>The division by the frequency of the scheduler fails when that is not known.\<close>

definition heartbeat_randomness :: "u64 \<Rightarrow> u64 \<Rightarrow> usec res" where
  "heartbeat_randomness system_hz hash =
     (let offset_ut = HEARTBEAT_MIN_OFFSET_UT + (hash mod HEARTBEAT_RANDOM_OFFSET_UT) in
      if system_hz = 0 then Inl DivByZero
      else
        let scheduler_step_ut = USEC_PER_SEC div system_hz;
          scheduler_step_ut = (if scheduler_step_ut > 10 * USEC_PER_MS then 10 * USEC_PER_MS else scheduler_step_ut)
        in if scheduler_step_ut = 0 then Inl DivByZero
           else if offset_ut mod scheduler_step_ut < scheduler_step_ut div 4
           then Inr (offset_ut + scheduler_step_ut div 4) else Inr offset_ut)"

text \<open>
  \<open>hash\<close> is what \<^verbatim>\<open>heartbeat_hash\<close> answers for the step and the number of the heartbeat; the global
  state is the next number and the table of statistics.
\<close>

definition heartbeat_init ::
  "u64 \<Rightarrow> (usec \<Rightarrow> nat \<Rightarrow> u64) \<Rightarrow> nat \<Rightarrow> usec \<Rightarrow> nat \<times> heartbeat_thread_statistics list \<Rightarrow>
   (heartbeat \<times> nat \<times> heartbeat_thread_statistics list) res" where
  "heartbeat_init system_hz heartbeat_hash tid step g =
     (case g of (heartbeat_alignment_id, values) \<Rightarrow>
        let step = (if step = 0 then USEC_PER_SEC else step); hash = heartbeat_hash step heartbeat_alignment_id in
        rbind (heartbeat_randomness system_hz hash) (\<lambda>randomness.
          Inr (\<lparr>hb_step = step, hb_realtime = 0, hb_randomness = randomness, hb_statistics_id = heartbeat_alignment_id,
                hb_hash = hash\<rparr>,
               heartbeat_alignment_id + 1,
               (if heartbeat_alignment_id < HEARTBEAT_ALIGNMENT_STATISTICS_SIZE
                then values[heartbeat_alignment_id :=
                  \<lparr>st_tid = tid, st_sequence = 0, st_dt = 0, st_randomness = randomness\<rparr>]
                else values))))"

text \<open>The time a beat is due, when it is asked for at \<open>now\<close>.\<close>

definition heartbeat_due :: "usec \<Rightarrow> heartbeat \<Rightarrow> usec \<Rightarrow> usec" where
  "heartbeat_due clock_realtime_resolution hb now =
     (let tick = hb_step hb; due = now - (now mod tick) + tick + hb_randomness hb in
      if due mod clock_realtime_resolution \<noteq> 0
      then due - (due mod clock_realtime_resolution) + clock_realtime_resolution else due)"

text \<open>
  The beat: asked for at \<open>now\<close>, it sleeps for \<open>heartbeat_due - now\<close> and wakes up when the clock
  shows \<open>woke\<close>; the sleep itself (\<open>sleep_usec_with_now\<close>) touches none of the state here, and the messages
  about a beat that is early or late are left out.  It returns the time since it last woke up.  The
  remainders fail for a step or a resolution of zero.
\<close>

definition heartbeat_next ::
  "usec \<Rightarrow> usec \<Rightarrow> usec \<Rightarrow> heartbeat \<Rightarrow> heartbeat_thread_statistics list \<Rightarrow>
   (usec \<times> heartbeat \<times> heartbeat_thread_statistics list) res" where
  "heartbeat_next clock_realtime_resolution now woke hb values =
     (if hb_step hb = 0 \<or> clock_realtime_resolution = 0 then Inl DivByZero else
      let due = heartbeat_due clock_realtime_resolution hb now;
        dt = woke - hb_realtime hb;
        i = hb_statistics_id hb;
        values = (if i < HEARTBEAT_ALIGNMENT_STATISTICS_SIZE
          then values[i := (values ! i)\<lparr>st_dt := st_dt (values ! i) + (woke - due),
            st_sequence := st_sequence (values ! i) + 1\<rparr>]
          else values);
        dt = (if hb_realtime hb = 0 then 0 else dt)
      in Inr (dt, hb\<lparr>hb_realtime := woke\<rparr>, values))"

text \<open>The statistics over the heartbeats that have beaten since the last call.\<close>

definition heartbeat_statistics_step ::
  "heartbeat_thread_statistics \<times> heartbeat_thread_statistics \<Rightarrow> usec \<times> usec \<times> usec \<times> nat \<Rightarrow> usec \<times> usec \<times> usec \<times> nat" where
  "heartbeat_statistics_step = (\<lambda>(current, old) (mn, mx, tot, n).
     if st_sequence current = st_sequence old then (mn, mx, tot, n)
     else
       let val = st_dt current - st_dt old in
       if n = 0 then (val, val, val, 1)
       else (if val < mn then val else mn, if val > mx then val else mx, tot + val, n + 1))"

definition heartbeat_statistics ::
  "heartbeat_thread_statistics list \<Rightarrow> heartbeat_thread_statistics list \<Rightarrow>
   (usec \<times> usec \<times> usec \<times> nat) \<times> heartbeat_thread_statistics list" where
  "heartbeat_statistics current old =
     (case fold heartbeat_statistics_step (zip current old) (0, 0, 0, 0) of
        (mn, mx, tot, n) \<Rightarrow> ((mn, mx, if n \<noteq> 0 then tot div of_nat n else 0, n), current))"

section \<open>Sleeping\<close>

text \<open>
  What \<^verbatim>\<open>nanosleep\<close> does: it sleeps to the end, it is interrupted with some time remaining, and then
  the clock is read, or it fails.
\<close>

datatype nanosleep = Slept | Interrupted timespec usec | Failed

text \<open>
  The requests that are made of \<^verbatim>\<open>nanosleep\<close>, given what it answers.  The comparison in the
  computation of \<^verbatim>\<open>remaining_ut\<close> makes it a truth value.
\<close>

fun sleep_loop :: "usec \<Rightarrow> usec \<Rightarrow> timespec \<Rightarrow> nanosleep list \<Rightarrow> timespec list res" where
  "sleep_loop usec started_ut req [] = Inl Unfinished"
| "sleep_loop usec started_ut req (Slept # os) = Inr [req]"
| "sleep_loop usec started_ut req (Failed # os) = Inr [req]"
| "sleep_loop usec started_ut req (Interrupted rem now_ut # os) =
     (if tv_sec rem = 0 \<and> tv_nsec rem = 0 then Inr [req]
      else if now_ut \<ge> started_ut + usec then Inr [req]
      else
        let remaining_ut = of_bool (tv_sec rem * USEC_PER_SEC + tv_nsec rem * NSEC_PER_USEC > usec) :: usec;
          check_ut = now_ut - started_ut;
          req' = (if remaining_ut > check_ut
            then \<lparr>tv_sec = check_ut div USEC_PER_SEC, tv_nsec = (check_ut mod USEC_PER_SEC) * NSEC_PER_USEC\<rparr> else rem)
        in rbind (sleep_loop usec started_ut req' os) (\<lambda>reqs. Inr (req # reqs)))"

definition timespec_of_usec :: "usec \<Rightarrow> timespec" where
  "timespec_of_usec u = \<lparr>tv_sec = u div USEC_PER_SEC, tv_nsec = (u mod USEC_PER_SEC) * NSEC_PER_USEC\<rparr>"

text \<open>\<open>now\<close> is the reading of the clock that is made when no start is given.\<close>

definition sleep_usec_with_now :: "usec \<Rightarrow> usec \<Rightarrow> usec \<Rightarrow> nanosleep list \<Rightarrow> timespec list res" where
  "sleep_usec_with_now usec started_ut now os =
     sleep_loop usec (if started_ut = 0 then now else started_ut) (timespec_of_usec usec) os"

section \<open>Conversions\<close>

lemma timespec_of_usec_exact: "unat (tv_sec (timespec_of_usec u)) * 1000000000 + unat (tv_nsec (timespec_of_usec u)) = unat u * 1000"
proof -
  have "unat u mod 1000000 < 1000000" by simp
  then have "unat u mod 1000000 * 1000 < 2 ^ 64" by simp
  then have "unat (tv_nsec (timespec_of_usec u)) = unat u mod 1000000 * 1000"
    by (simp add: timespec_of_usec_def USEC_PER_SEC_def NSEC_PER_USEC_def unat_mult_lem [THEN iffD1] unat_mod_distrib)
  moreover have "unat (tv_sec (timespec_of_usec u)) = unat u div 1000000"
    by (simp add: timespec_of_usec_def USEC_PER_SEC_def unat_div_distrib)
  moreover have "unat u = unat u div 1000000 * 1000000 + unat u mod 1000000" by (rule div_mult_mod_eq [symmetric])
  ultimately show ?thesis by linarith
qed

section \<open>Beats\<close>

lemma heartbeat_randomness_bounds:
  assumes "heartbeat_randomness system_hz hash = Inr r"
  shows "150000 \<le> unat r" and "unat r < 502500"
proof -
  let ?o = "HEARTBEAT_MIN_OFFSET_UT + hash mod HEARTBEAT_RANDOM_OFFSET_UT"
  have m: "unat (hash mod HEARTBEAT_RANDOM_OFFSET_UT) < 350000"
    by (simp add: HEARTBEAT_RANDOM_OFFSET_UT_def USEC_PER_MS_def unat_mod_distrib)
  then have o: "unat ?o = 150000 + unat (hash mod HEARTBEAT_RANDOM_OFFSET_UT)"
    by (subst unat_add_lem [THEN iffD1]) (simp_all add: HEARTBEAT_MIN_OFFSET_UT_def USEC_PER_MS_def)
  obtain q where q: "r = ?o + q" "unat q \<le> 2500"
  proof -
    define s where "s = (if USEC_PER_SEC div system_hz > 10 * USEC_PER_MS then 10 * USEC_PER_MS else USEC_PER_SEC div system_hz)"
    have "unat s \<le> 10000"
      by (auto simp: s_def USEC_PER_MS_def word_less_nat_alt split: if_splits)
    then have "unat (s div 4) \<le> 2500" by (simp add: unat_div_distrib)
    moreover have "r = ?o + s div 4 \<or> r = ?o"
      using assms unfolding heartbeat_randomness_def Let_def s_def [symmetric] by (auto split: if_splits)
    ultimately show thesis using that [of "s div 4"] that [of 0] by auto
  qed
  have "unat r = unat ?o + unat q"
    unfolding q(1) using o m q(2) by (subst unat_add_lem [THEN iffD1]) simp_all
  then show "150000 \<le> unat r" "unat r < 502500" using o m q(2) by simp_all
qed

lemma unat_align:
  assumes "unat x + unat m < 2 ^ 64" and "m \<noteq> (0 :: u64)"
  shows "unat (x - x mod m + m) = unat x - unat x mod unat m + unat m"
proof -
  have le: "x mod m \<le> x" by (metis le_add2 mod_div_decomp mod_less_eq_dividend word_le_nat_alt unat_mod_distrib)
  have s: "unat (x - x mod m) = unat x - unat x mod unat m"
    using unat_sub [OF le] by (simp add: unat_mod_distrib)
  show ?thesis
    using assms(1) s by (subst unat_add_lem [THEN iffD1]) simp_all
qed

text \<open>The time a beat is due, in microseconds that do not wrap.\<close>

lemma heartbeat_due_spec:
  fixes now tick res' r :: u64
  assumes "hb_step hb \<noteq> 0" and "resolution \<noteq> 0"
    and "unat now + unat (hb_step hb) + unat (hb_randomness hb) + unat resolution < 2 ^ 64"
  defines "base \<equiv> unat now - unat now mod unat (hb_step hb) + unat (hb_step hb) + unat (hb_randomness hb)"
  shows "unat (heartbeat_due resolution hb now) mod unat resolution = 0"
    and "base \<le> unat (heartbeat_due resolution hb now)"
    and "unat (heartbeat_due resolution hb now) < base + unat resolution"
    and "unat now < base"
proof -
  let ?b = "now - now mod hb_step hb + hb_step hb + hb_randomness hb"
  have "unat (now - now mod hb_step hb + hb_step hb) = unat now - unat now mod unat (hb_step hb) + unat (hb_step hb)"
    using assms(1,3) by (intro unat_align) simp_all
  then have b: "unat ?b = base"
    unfolding base_def using assms(3) by (subst unat_add_lem [THEN iffD1]) simp_all
  have lt: "base + unat resolution < 2 ^ 64" using assms(3) by (simp add: base_def)
  have step: "0 < unat (hb_step hb)" "0 < unat resolution" using assms(1,2) by (simp_all add: unat_gt_0)
  define k where "k = base mod unat resolution"
  have up: "unat (heartbeat_due resolution hb now) = (if k \<noteq> 0 then base - k + unat resolution else base)"
    using unat_align [of ?b resolution] lt b assms(2)
    by (simp add: heartbeat_due_def Let_def unat_mod_distrib k_def flip: unat_eq_zero)
  have m: "k < unat resolution" "k \<le> base" using step by (simp_all add: k_def)
  have "(base - k + unat resolution) mod unat resolution = 0"
    by (simp add: minus_mod_eq_mult_div k_def)
  then show "unat (heartbeat_due resolution hb now) mod unat resolution = 0" using up by (simp add: k_def)
  show "base \<le> unat (heartbeat_due resolution hb now)" "unat (heartbeat_due resolution hb now) < base + unat resolution"
    using up m by (simp_all split: if_splits)
  have "unat now mod unat (hb_step hb) < unat (hb_step hb)" "unat now mod unat (hb_step hb) \<le> unat now" using step by simp_all
  then show "unat now < base" unfolding base_def by linarith
qed

text \<open>A sequence of beats, asked for and waking up at given times; the intervals that are returned.\<close>

fun beats :: "usec \<Rightarrow> (usec \<times> usec) list \<Rightarrow> heartbeat \<Rightarrow> heartbeat_thread_statistics list \<Rightarrow> usec list res" where
  "beats resolution [] hb values = Inr []"
| "beats resolution ((now, woke) # rest) hb values =
     rbind (heartbeat_next resolution now woke hb values) (\<lambda>(dt, hb, values).
       rbind (beats resolution rest hb values) (\<lambda>dts. Inr (dt # dts)))"

lemma beats_sum:
  assumes "hb_step hb \<noteq> 0" and "resolution \<noteq> 0" and "hb_realtime hb \<noteq> 0" and "sorted (hb_realtime hb # map snd ts)"
  shows "\<exists>dts. beats resolution ts hb vs = Inr dts \<and>
    sum_list (map unat dts) = unat (last (hb_realtime hb # map snd ts)) - unat (hb_realtime hb)"
  using assms
proof (induction ts arbitrary: hb vs)
  case (Cons t ts)
  obtain now woke where t: "t = (now, woke)" by (cases t)
  let ?hb = "hb\<lparr>hb_realtime := woke\<rparr>"
  have le: "hb_realtime hb \<le> woke" and s: "sorted (woke # map snd ts)" using Cons.prems(4) t by simp_all
  have nz: "woke \<noteq> 0" using le Cons.prems(3) by (metis word_le_0_iff)
  have last: "unat woke \<le> unat (last (woke # map snd ts))"
    using s by (metis last_in_set list.distinct(1) list.set_intros(1) list.simps(9) sorted_simps(2) word_le_nat_alt set_ConsD order_refl)
  obtain v where v: "heartbeat_next resolution now woke hb vs = Inr (woke - hb_realtime hb, ?hb, v)"
    using Cons.prems(1-3) by (simp add: heartbeat_next_def Let_def)
  obtain dts where d: "beats resolution ts ?hb v = Inr dts" "sum_list (map unat dts) = unat (last (woke # map snd ts)) - unat woke"
    using Cons.IH [of ?hb v] Cons.prems(1,2) s nz by auto
  have "unat (woke - hb_realtime hb) = unat woke - unat (hb_realtime hb)" by (rule unat_sub [OF le])
  moreover have "unat (hb_realtime hb) \<le> unat woke" using le by (simp add: word_le_nat_alt)
  ultimately show ?case using t v d last by simp
qed simp

lemma heartbeat_times:
  assumes "heartbeat_init system_hz heartbeat_hash tid step g = Inr (hb, g')" and "resolution \<noteq> 0"
    and "unat now + unat (hb_step hb) + unat (hb_randomness hb) + unat resolution < 2 ^ 64"
  defines "due \<equiv> unat (heartbeat_due resolution hb now)"
    and "base \<equiv> unat now - unat now mod unat (hb_step hb) + unat (hb_step hb) + unat (hb_randomness hb)"
  shows "unat now < due" and "due mod unat resolution = 0" and "base \<le> due" and "due < base + unat resolution"
    and "150000 \<le> unat (hb_randomness hb)" and "unat (hb_randomness hb) < 502500"
    and "due - unat now < unat (hb_step hb) + unat (hb_randomness hb) + unat resolution"
proof -
  obtain hash where r: "heartbeat_randomness system_hz hash = Inr (hb_randomness hb)" and "hb_step hb \<noteq> 0"
    using assms(1) by (auto simp: heartbeat_init_def Let_def USEC_PER_SEC_def split: prod.splits if_splits)
  note d = heartbeat_due_spec [OF this(2) assms(2,3)]
  show "due mod unat resolution = 0" "base \<le> due" "due < base + unat resolution" "unat now < due"
    using d by (simp_all add: due_def base_def)
  show "150000 \<le> unat (hb_randomness hb)" "unat (hb_randomness hb) < 502500"
    using heartbeat_randomness_bounds [OF r] by simp_all
  show "due - unat now < unat (hb_step hb) + unat (hb_randomness hb) + unat resolution"
    using d(3,4) by (simp add: due_def)
qed

lemma sample_heartbeat:
  "heartbeat_init 100 (\<lambda>_ _. 7) 1 1000000 (0, replicate 20 \<lparr>st_tid = 0, st_sequence = 0, st_dt = 0, st_randomness = 0\<rparr>) =
    Inr (\<lparr>hb_step = 1000000, hb_realtime = 0, hb_randomness = 152507, hb_statistics_id = 0, hb_hash = 7\<rparr>, 1,
      (replicate 20 \<lparr>st_tid = 0, st_sequence = 0, st_dt = 0, st_randomness = 0\<rparr>)
        [0 := \<lparr>st_tid = 1, st_sequence = 0, st_dt = 0, st_randomness = 152507\<rparr>])"
  by (simp add: heartbeat_init_def heartbeat_randomness_def Let_def HEARTBEAT_MIN_OFFSET_UT_def
      HEARTBEAT_RANDOM_OFFSET_UT_def USEC_PER_MS_def USEC_PER_SEC_def HEARTBEAT_ALIGNMENT_STATISTICS_SIZE_def)

text \<open>
  C31 (when a beat is due)  \<open>heartbeat_next\<close> sleeps until a time that is later than now: the next
  multiple of the step plus the offset of the heartbeat, rounded up to the resolution of the clock.
  For the heartbeats that \<open>heartbeat_init\<close> makes, the offset is at least 150 and less than 502.5
  milliseconds.  The sleep is therefore shorter than the step, the offset and the resolution
  together, as long as times fit in 64 bits.
\<close>

theorem heartbeat_schedule:
  assumes "heartbeat_init system_hz heartbeat_hash tid step g = Inr (hb, g')" and "resolution \<noteq> 0"
    and "unat now + unat (hb_step hb) + unat (hb_randomness hb) + unat resolution < 2 ^ 64"
  shows "let due = unat (heartbeat_due resolution hb now);
      base = unat now - unat now mod unat (hb_step hb) + unat (hb_step hb) + unat (hb_randomness hb)
    in unat now < due \<and> due mod unat resolution = 0 \<and> base \<le> due \<and> due < base + unat resolution \<and>
      150000 \<le> unat (hb_randomness hb) \<and> unat (hb_randomness hb) < 502500 \<and>
      due - unat now < unat (hb_step hb) + unat (hb_randomness hb) + unat resolution"
  using heartbeat_times [OF assms] by (simp add: Let_def)

theorem heartbeat_schedule_witness:
  "\<exists>hb g'. heartbeat_init 100 (\<lambda>_ _. 7) 1 1000000 (0, replicate 20 \<lparr>st_tid = 0, st_sequence = 0, st_dt = 0, st_randomness = 0\<rparr>) = Inr (hb, g') \<and>
    unat (5000000 :: u64) < unat (heartbeat_due 1000 hb 5000000) \<and> unat (heartbeat_due 1000 hb 5000000) mod 1000 = 0"
proof -
  let ?hb = "\<lparr>hb_step = 1000000, hb_realtime = 0, hb_randomness = 152507, hb_statistics_id = 0, hb_hash = 7\<rparr> :: heartbeat"
  have "unat (5000000 :: u64) + unat (hb_step ?hb) + unat (hb_randomness ?hb) + unat (1000 :: u64) < 2 ^ 64" by simp
  from heartbeat_schedule [OF sample_heartbeat _ this] sample_heartbeat show ?thesis by (auto simp: Let_def)
qed

text \<open>
  C32 (the intervals add up)  The first beat of a heartbeat reports no time; the times that all beats
  report together are the time from the first to the last waking up, as long as the clock is not set
  back.  Nothing is lost or counted twice, however late the beats are.
\<close>

theorem heartbeat_intervals_add_up:
  assumes "hb_step hb \<noteq> 0" and "resolution \<noteq> 0" and "hb_realtime hb = 0"
    and "ts \<noteq> []" and "snd (hd ts) \<noteq> 0" and "sorted (map snd ts)"
  shows "\<exists>dts. beats resolution ts hb vs = Inr (0 # dts) \<and>
    sum_list (map unat dts) = unat (snd (last ts)) - unat (snd (hd ts))"
proof -
  obtain now woke us where ts: "ts = (now, woke) # us" using assms(4) by (cases ts) auto
  obtain v where v: "heartbeat_next resolution now woke hb vs = Inr (0, hb\<lparr>hb_realtime := woke\<rparr>, v)"
    using assms(1-3) by (simp add: heartbeat_next_def Let_def)
  obtain dts where d: "beats resolution us (hb\<lparr>hb_realtime := woke\<rparr>) v = Inr dts"
    "sum_list (map unat dts) = unat (last (woke # map snd us)) - unat woke"
    using beats_sum [of "hb\<lparr>hb_realtime := woke\<rparr>" resolution us v] assms(1,2,5,6) ts by auto
  have "last (woke # map snd us) = snd (last ts)" using ts by (simp add: last_map)
  then show ?thesis using v d ts by simp
qed

theorem heartbeat_intervals_add_up_witness:
  "\<exists>dts. beats 1000 [(1000000, 2152507), (2152600, 3152507), (4500000, 5160000)]
      \<lparr>hb_step = 1000000, hb_realtime = 0, hb_randomness = 152507, hb_statistics_id = 30, hb_hash = 7\<rparr> [] = Inr (0 # dts) \<and>
    sum_list (map unat dts) = 3007493"
  using heartbeat_intervals_add_up [of "\<lparr>hb_step = 1000000, hb_realtime = 0, hb_randomness = 152507, hb_statistics_id = 30, hb_hash = 7\<rparr>"
      1000 "[(1000000, 2152507), (2152600, 3152507), (4500000, 5160000)]" "[]"]
  by simp

lemma sleep_requests:
  assumes "usec < 1000000" and "0 < usec" and "started_ut \<noteq> 0" and "started_ut < started_ut + usec"
  shows "sleep_usec_with_now usec started_ut now [Slept] = Inr [timespec_of_usec usec]"
    and "unat (tv_nsec (timespec_of_usec usec)) = unat usec * 1000" and "tv_sec (timespec_of_usec usec) = 0"
    and "sleep_usec_with_now usec started_ut now [Interrupted (timespec_of_usec usec) started_ut, Slept] =
      Inr [timespec_of_usec usec, \<lparr>tv_sec = 0, tv_nsec = 0\<rparr>]"
proof -
  have u: "unat usec < 1000000" "0 < unat usec" using assms(1,2) by (simp_all add: word_less_nat_alt)
  have "unat (tv_sec (timespec_of_usec usec)) = 0"
    using u by (simp add: timespec_of_usec_def USEC_PER_SEC_def unat_div_distrib)
  then show sec: "tv_sec (timespec_of_usec usec) = 0" by (simp add: unat_eq_zero)
  show nsec: "unat (tv_nsec (timespec_of_usec usec)) = unat usec * 1000"
    using timespec_of_usec_exact [of usec] sec by simp
  then have "unat (tv_nsec (timespec_of_usec usec) * NSEC_PER_USEC) = unat usec * 1000000"
    using u(1) by (subst unat_mult_lem [THEN iffD1]) (simp_all add: NSEC_PER_USEC_def)
  then have gt: "usec < tv_nsec (timespec_of_usec usec) * NSEC_PER_USEC" using u(2) by (simp add: word_less_nat_alt)
  have "tv_nsec (timespec_of_usec usec) \<noteq> 0" using nsec u(2) by (auto simp: unat_eq_zero)
  then show "sleep_usec_with_now usec started_ut now [Interrupted (timespec_of_usec usec) started_ut, Slept] =
      Inr [timespec_of_usec usec, \<lparr>tv_sec = 0, tv_nsec = 0\<rparr>]"
    using assms(3,4) sec gt by (simp add: sleep_usec_with_now_def not_le)
qed (simp add: sleep_usec_with_now_def)

text \<open>
  C33 (a sleep can be cut short)  The loop in \<open>sleep_usec_with_now\<close> is there to sleep for at least the
  time that was asked for.  For less than a second, a sleep that is not interrupted asks for exactly
  that time.  One that is interrupted before the clock has moved on is resumed with a sleep of no
  time at all, because the time that remains is compared as a truth value.
\<close>

theorem sleep_usec_cut_short:
  assumes "usec < 1000000" and "0 < usec" and "started_ut \<noteq> 0" and "started_ut < started_ut + usec"
  shows "sleep_usec_with_now usec started_ut now [Slept] = Inr [timespec_of_usec usec] \<and>
    unat (tv_nsec (timespec_of_usec usec)) = unat usec * 1000 \<and> tv_sec (timespec_of_usec usec) = 0 \<and>
    sleep_usec_with_now usec started_ut now [Interrupted (timespec_of_usec usec) started_ut, Slept] =
      Inr [timespec_of_usec usec, \<lparr>tv_sec = 0, tv_nsec = 0\<rparr>]"
  using sleep_requests [OF assms] by simp

theorem sleep_usec_cut_short_witness:
  "sleep_usec_with_now 500000 1700000000000000 0 [Interrupted (timespec_of_usec 500000) 1700000000000000, Slept] =
    Inr [timespec_of_usec 500000, \<lparr>tv_sec = 0, tv_nsec = 0\<rparr>]"
  using sleep_usec_cut_short [of 500000 1700000000000000 0] by simp

end
