(* ===== verification/Upsd_Plugin.thy ===== *)
theory Upsd_Plugin
  imports Upsd_Protocol Inlined_Strings Dictionary Clocks
begin

text \<open>
  The rest of \<^verbatim>\<open>upsd_plugin.c\<close>: the dictionaries of registered devices, the registration of a device,
  the collection of its metrics, the removal of devices that are no longer listed, the main loop and
  the shutdown.

  The state is a world of dictionaries and what the plugin keeps besides.  The library
  \<^verbatim>\<open>libupsclient\<close> is not part of the sources: what it answers is an argument.  \<open>nut k u v\<close> is the
  answer to the \<open>k\<close>-th query for a variable, for device \<open>u\<close> and variable \<open>v\<close>, and \<open>None\<close> when the
  query fails; a listing is the sequence of answers of \<^verbatim>\<open>upscli_list_next\<close>, each a list of words or
  \<open>None\<close>.  The readings of the clocks and the other answers of the operating system are arguments
  too.

  The address of a chart is its place in \<open>nd_charts\<close>, that of a dictionary its identifier; the flag
  of a device that was seen is a null pointer or not.
\<close>

section \<open>State\<close>

type_synonym nut = "nat \<Rightarrow> string \<Rightarrow> string \<Rightarrow> string option"

record plugin =
  nd_ups_vars :: did
  nd_ups_seen :: did
  nd_ups_name :: did
  netdata_update_every :: u64
  p_calls :: nat
  p_out :: string

type_synonym plugin_state = "world \<times> plugin"

definition nut_get_var :: "nut \<Rightarrow> string \<Rightarrow> string \<Rightarrow> plugin \<Rightarrow> string option \<times> plugin" where
  "nut_get_var nut ups_name var_name p = (nut (p_calls p) ups_name var_name, p\<lparr>p_calls := p_calls p + 1\<rparr>)"

definition printf :: "string \<Rightarrow> plugin \<Rightarrow> plugin" where
  "printf s p = p\<lparr>p_out := p_out p @ s\<rparr>"

text \<open>The C string at a pointer.\<close>

definition cstr_at :: "world \<Rightarrow> vptr \<Rightarrow> string res" where
  "cstr_at w v =
     (case v of
        Null \<Rightarrow> Inl NullDeref
      | Addr _ \<Rightarrow> Inl Opaque
      | Mem m \<Rightarrow>
          rbind (find (w_mem w) m) (\<lambda>b.
            if NUL \<in> set b then Inr (takeWhile (\<lambda>c. c \<noteq> NUL) b) else Inl OutOfBounds))"

text \<open>\<open>clean_name\<close> where the string is.\<close>

definition clean_name_at :: "vptr \<Rightarrow> world \<Rightarrow> world res" where
  "clean_name_at v w =
     rbind (cstr_at w v) (\<lambda>s.
       case v of
         Mem m \<Rightarrow> Inr (w\<lparr>w_mem := (w_mem w)(m := map_option (\<lambda>b. clean_name s @ drop (length s) b) (w_mem w m))\<rparr>)
       | _ \<Rightarrow> Inr w)"

definition dict_of :: "vptr \<Rightarrow> did option res" where
  "dict_of v = (case v of Null \<Rightarrow> Inr None | Addr d \<Rightarrow> Inr (Some d) | Mem _ \<Rightarrow> Inl Opaque)"

definition chart_at :: "vptr \<Rightarrow> nd_chart res" where
  "chart_at v =
     (case v of
        Null \<Rightarrow> Inl NullDeref
      | Addr i \<Rightarrow> if i < length nd_charts then Inr (nd_charts ! i) else Inl OutOfBounds
      | Mem _ \<Rightarrow> Inl Opaque)"

text \<open>As many rounds as a dictionary has items are enough for a loop that adds none.\<close>

definition rounds :: "world \<Rightarrow> did option \<Rightarrow> nat" where
  "rounds w d = (case Option.bind d (w_dicts w) of None \<Rightarrow> 0 | Some x \<Rightarrow> length (d_list x))"

definition set_seen :: "string \<Rightarrow> bool \<Rightarrow> plugin_state \<Rightarrow> plugin_state res" where
  "set_seen ups_name b s =
     (case s of (w, p) \<Rightarrow>
        rbind (dictionary_set (nd_ups_seen p) (Some ups_name) (SPtr (if b then Addr 1 else Null)) 0 w) (\<lambda>(_, w). Inr (w, p)))"

definition was_seen :: "string \<Rightarrow> plugin_state \<Rightarrow> (bool \<times> plugin_state) res" where
  "was_seen ups_name s =
     (case s of (w, p) \<Rightarrow>
        rbind (dictionary_get (nd_ups_seen p) (Some ups_name) w) (\<lambda>(v, w). Inr (v \<noteq> Null, w, p)))"

section \<open>Registering a device\<close>

definition label_variables :: "(string \<times> string) list" where
  "label_variables =
     [(''battery.type'', ''battery_type''), (''device.model'', ''device_model''), (''device.serial'', ''device_serial''),
      (''device.mfr'', ''device_manufacturer''), (''device.type'', ''device_type'')]"

definition print_label :: "nut \<Rightarrow> string \<Rightarrow> (string \<Rightarrow> string \<Rightarrow> string) \<Rightarrow> string \<times> string \<Rightarrow> plugin \<Rightarrow> plugin" where
  "print_label nut ups_name line = (\<lambda>(var, label) p.
     case nut_get_var nut ups_name var p of
       (None, p) \<Rightarrow> p
     | (Some nut_value, p) \<Rightarrow> printf (line label nut_value) p)"

definition print_labels :: "nut \<Rightarrow> string \<Rightarrow> (string \<Rightarrow> string \<Rightarrow> string) \<Rightarrow> plugin \<Rightarrow> plugin" where
  "print_labels nut ups_name line p = fold (print_label nut ups_name line) label_variables p"

text \<open>Whether a chart is shown: its variable has a value, or its value can be computed.\<close>

definition chart_supported :: "nut \<Rightarrow> string \<Rightarrow> nd_chart \<Rightarrow> plugin \<Rightarrow> bool \<times> plugin" where
  "chart_supported nut ups_name chart p =
     (case nut_get_var nut ups_name (nut_variable chart) p of
        (Some _, p) \<Rightarrow> (True, p)
      | (None, p) \<Rightarrow>
          if \<not> streq (Some (nut_variable chart)) (Some ''ups.realpower'') then (False, p)
          else
            case nut_get_var nut ups_name ''ups.load'' p of
              (None, p) \<Rightarrow> (False, p)
            | (Some _, p) \<Rightarrow>
                case nut_get_var nut ups_name ''ups.realpower.nominal'' p of
                  (None, p) \<Rightarrow> (False, p)
                | (Some _, p) \<Rightarrow> (True, p))"

definition register_chart :: "nut \<Rightarrow> string \<Rightarrow> vptr \<Rightarrow> did \<Rightarrow> nat \<times> nd_chart \<Rightarrow> plugin_state \<Rightarrow> plugin_state res" where
  "register_chart nut ups_name clean_ups_name ups_vars = (\<lambda>(i, chart) (w, p).
     case chart_supported nut ups_name chart p of
       (False, p) \<Rightarrow> Inr (w, p)
     | (True, p) \<Rightarrow>
         rbind (cstr_at w clean_ups_name) (\<lambda>name.
         let p = printf (chart_line name chart (unat (netdata_update_every p))) p;
           p = print_labels nut ups_name clabel_line p;
           p = printf (clabel_commit ups_name) p;
           p = printf (dimension_line chart) p
         in rbind (dictionary_set ups_vars (Some (nut_variable chart)) (SPtr (Addr i)) 0 w) (\<lambda>(_, w). Inr (w, p))))"

definition ups_vars_options :: dict_options where
  "ups_vars_options =
     \<lparr>OPTION_SINGLE_THREADED = True, OPTION_VALUE_LINK_DONT_CLONE = True, OPTION_NAME_LINK_DONT_CLONE = True,
       OPTION_DONT_OVERWRITE_VALUE = False, OPTION_ADD_IN_FRONT = False, OPTION_FIXED_SIZE = True, OPTION_INDEX_JUDY = False\<rparr>"

definition register_ups :: "nut \<Rightarrow> string \<Rightarrow> plugin_state \<Rightarrow> plugin_state res" where
  "register_ups nut ups_name s =
     (case s of (w, p) \<Rightarrow>
        rbind (dictionary_set (nd_ups_name p) (Some ups_name) (SBytes (ups_name @ [NUL])) (length ups_name + 1) w)
          (\<lambda>(clean_ups_name, w).
        rbind (clean_name_at clean_ups_name w) (\<lambda>w.
        rbind (cstr_at w clean_ups_name) (\<lambda>name.
        let p = printf (chart_status_line name (unat (netdata_update_every p))) p;
          p = print_labels nut ups_name clabel_status_line p;
          p = printf (clabel_commit_status ups_name) p;
          p = printf (concat (map (\<lambda>(dmn, _). dimension_status_line dmn) status_dimensions)) p
        in
        rbind (dictionary_create ups_vars_options w) (\<lambda>(ups_vars, w).
        rbind (rfold (register_chart nut ups_name clean_ups_name ups_vars) (enumerate 0 nd_charts) (w, p)) (\<lambda>(w, p).
        rbind (dictionary_set (nd_ups_vars p) (Some ups_name) (SPtr (Addr ups_vars)) 0 w) (\<lambda>(_, w).
          Inr (w, p))))))))"

section \<open>Collecting metrics\<close>

definition send_metric_ups_status :: "nut \<Rightarrow> string \<Rightarrow> vptr \<Rightarrow> usec \<Rightarrow> plugin_state \<Rightarrow> plugin_state res" where
  "send_metric_ups_status nut ups_name clean_ups_name dt = (\<lambda>(w, p).
     case nut_get_var nut ups_name ''ups.status'' p of (ups_status_string, p) \<Rightarrow>
       rbind (parse_ups_status ups_status_string) (\<lambda>status.
       rbind (cstr_at w clean_ups_name) (\<lambda>name.
         Inr (w, printf (status_lines name status (unat dt)) p))))"

definition send_metric :: "vptr \<Rightarrow> string \<Rightarrow> string \<Rightarrow> usec \<Rightarrow> int \<Rightarrow> plugin_state \<Rightarrow> plugin_state res" where
  "send_metric clean_ups_name cid dmn dt val = (\<lambda>(w, p).
     rbind (cstr_at w clean_ups_name) (\<lambda>name.
       Inr (w, printf (send_BEGIN name cid (unat dt) @ send_SET dmn val @ send_END) p)))"

definition send_metric_ups_realpower :: "nut \<Rightarrow> string \<Rightarrow> vptr \<Rightarrow> usec \<Rightarrow> plugin_state \<Rightarrow> plugin_state res" where
  "send_metric_ups_realpower nut ups_name clean_ups_name dt = (\<lambda>(w, p).
     case nut_get_var nut ups_name ''ups.realpower'' p of
       (Some realpower, p) \<Rightarrow>
         rbind (scaled_reading realpower) (\<lambda>val. send_metric clean_ups_name ''load_usage'' ''load_usage'' dt val (w, p))
     | (None, p) \<Rightarrow>
         case nut_get_var nut ups_name ''ups.load'' p of
           (None, p) \<Rightarrow> Inr (w, p)
         | (Some load, p) \<Rightarrow>
             case nut_get_var nut ups_name ''ups.realpower.nominal'' p of
               (None, p) \<Rightarrow> Inr (w, p)
             | (Some nominal, p) \<Rightarrow>
                 rbind (load_usage_reading load nominal) (\<lambda>val.
                   send_metric clean_ups_name ''load_usage'' ''load_usage'' dt val (w, p)))"

text \<open>The body of the loop over the charts of a device; \<^verbatim>\<open>str2ndd\<close> reads through its argument at once.\<close>

definition send_chart :: "nut \<Rightarrow> string \<Rightarrow> vptr \<Rightarrow> usec \<Rightarrow> dictionary_foreach \<Rightarrow> plugin_state \<Rightarrow> plugin_state res" where
  "send_chart nut ups_name clean_ups_name dt dfe = (\<lambda>(w, p).
     rbind (chart_at (fe_value dfe)) (\<lambda>chart.
       case nut_get_var nut ups_name (nut_variable chart) p of
         (None, p) \<Rightarrow> Inl NullDeref
       | (Some reading, p) \<Rightarrow>
           rbind (scaled_reading reading) (\<lambda>val.
             send_metric clean_ups_name (chart_id chart) (chart_dimension chart) dt val (w, p))))"

definition collect_ups :: "nut \<Rightarrow> usec \<Rightarrow> string \<Rightarrow> plugin_state \<Rightarrow> plugin_state res" where
  "collect_ups nut dt ups_name = (\<lambda>(w, p).
     rbind (dictionary_get (nd_ups_name p) (Some ups_name) w) (\<lambda>(clean_ups_name, w).
     rbind
       (if clean_ups_name = Null then
          rbind (register_ups nut ups_name (w, p)) (\<lambda>(w, p).
          rbind (dictionary_get (nd_ups_name p) (Some ups_name) w) (\<lambda>(clean_ups_name, w).
            Inr (clean_ups_name, w, p)))
        else Inr (clean_ups_name, w, p)) (\<lambda>(clean_ups_name, s).
     rbind (set_seen ups_name True s) (\<lambda>s.
     rbind (send_metric_ups_status nut ups_name clean_ups_name dt s) (\<lambda>s.
     rbind (send_metric_ups_realpower nut ups_name clean_ups_name dt s) (\<lambda>(w, p).
     rbind (dictionary_get (nd_ups_vars p) (Some ups_name) w) (\<lambda>(v, w).
     rbind (dict_of v) (\<lambda>ups_vars.
       dfe_foreach (rounds w ups_vars) ups_vars LOCK_READ (send_chart nut ups_name clean_ups_name dt) (w, p)))))))))"

section \<open>Listings\<close>

datatype flow = Continue | Break | Return int

definition word_at :: "string list \<Rightarrow> nat \<Rightarrow> string res" where
  "word_at ws i = (if i < length ws then Inr (ws ! i) else Inl OutOfBounds)"

text \<open>The loop over the answers of \<^verbatim>\<open>upscli_list_next\<close>, with what is done for each device.\<close>

fun list_loop :: "(string \<Rightarrow> plugin_state \<Rightarrow> plugin_state res) \<Rightarrow> string list option list \<Rightarrow> plugin_state \<Rightarrow> (flow \<times> plugin_state) res" where
  "list_loop f [] s = Inl Unfinished"
| "list_loop f (None # rows) s = Inr (Return NETDATA_PLUGIN_EXIT_AND_DISABLE, s)"
| "list_loop f (Some answer # rows) s =
     rbind (word_at answer 0) (\<lambda>word.
       if streq (Some ''END'') (Some word) then Inr (Continue, s)
       else rbind (word_at answer 1) (\<lambda>ups_name. rbind (f ups_name s) (list_loop f rows)))"

section \<open>Removing devices\<close>

text \<open>
  \<open>ups_name\<close> is the string at the value of the current item, which the loop holds and nothing
  writes.
\<close>

definition delete_ups :: "string \<Rightarrow> plugin_state \<Rightarrow> plugin_state res" where
  "delete_ups ups_name = (\<lambda>(w, p).
     rbind (dictionary_get (nd_ups_vars p) (Some ups_name) w) (\<lambda>(v, w).
     rbind (dict_of v) (\<lambda>ups_vars.
     rbind (dictionary_destroy ups_vars w) (\<lambda>w.
     rbind (dictionary_del (nd_ups_vars p) (Some ups_name) w) (\<lambda>(_, w).
     rbind (dictionary_del (nd_ups_seen p) (Some ups_name) w) (\<lambda>(_, w).
     rbind (dictionary_del (nd_ups_name p) (Some ups_name) w) (\<lambda>(_, w).
       Inr (w, p))))))))"

definition check_seen :: "dictionary_foreach \<Rightarrow> plugin_state \<Rightarrow> plugin_state res" where
  "check_seen dfe = (\<lambda>(w, p).
     rbind (cstr_at w (fe_value dfe)) (\<lambda>ups_name.
     rbind (was_seen ups_name (w, p)) (\<lambda>(seen, s).
       if seen then set_seen ups_name False s else delete_ups ups_name s)))"

definition delete_unseen :: "plugin_state \<Rightarrow> plugin_state res" where
  "delete_unseen = (\<lambda>(w, p).
     dfe_foreach (rounds w (Some (nd_ups_name p))) (Some (nd_ups_name p)) LOCK_READ check_seen (w, p))"

definition delete_each :: "dictionary_foreach \<Rightarrow> plugin_state \<Rightarrow> plugin_state res" where
  "delete_each dfe = (\<lambda>(w, p). rbind (cstr_at w (fe_value dfe)) (\<lambda>ups_name. delete_ups ups_name (w, p)))"

definition shut_down :: "plugin_state \<Rightarrow> plugin_state res" where
  "shut_down = (\<lambda>(w, p).
     rbind (dfe_foreach (rounds w (Some (nd_ups_name p))) (Some (nd_ups_name p)) LOCK_READ delete_each (w, p)) (\<lambda>(w, p).
     rbind (dictionary_destroy (Some (nd_ups_vars p)) w) (\<lambda>w.
     rbind (dictionary_destroy (Some (nd_ups_seen p)) w) (\<lambda>w.
     rbind (dictionary_destroy (Some (nd_ups_name p)) w) (\<lambda>w.
       Inr (w, p))))))"

section \<open>The main loop\<close>

text \<open>
  What one round of the loop meets: the readings of the clock before and after the heartbeat, the two
  answers of \<^verbatim>\<open>exit_initiated_get\<close>, whether the listing starts, its answers, whether the pipe is
  broken, and the seconds of the monotonic clock.
\<close>

record round_env =
  r_now :: usec
  r_woke :: usec
  r_exit :: bool
  r_list_start :: bool
  r_rows :: "string list option list"
  r_broken_pipe :: bool
  r_exit_later :: bool
  r_seconds :: int

definition main_round ::
  "nut \<Rightarrow> usec \<Rightarrow> int \<Rightarrow> round_env \<Rightarrow> heartbeat \<times> heartbeat_thread_statistics list \<times> plugin_state \<Rightarrow>
   (flow \<times> heartbeat \<times> heartbeat_thread_statistics list \<times> plugin_state) res" where
  "main_round nut clock_realtime_resolution started_t r = (\<lambda>(hb, vs, s).
     rbind (heartbeat_next clock_realtime_resolution (r_now r) (r_woke r) hb vs) (\<lambda>(dt, hb, vs).
       if r_exit r then Inr (Break, hb, vs, s)
       else if \<not> r_list_start r then Inr (Return NETDATA_PLUGIN_EXIT_AND_DISABLE, hb, vs, s)
       else
         rbind (list_loop (collect_ups nut dt) (r_rows r) s) (\<lambda>(flow, s).
           if flow \<noteq> Continue then Inr (flow, hb, vs, s)
           else if r_broken_pipe r then Inr (Return NETDATA_PLUGIN_EXIT_AND_DISABLE, hb, vs, s)
           else if r_exit_later r then Inr (Break, hb, vs, s)
           else if r_seconds r - started_t > 14400 then Inr (Break, hb, vs, s)
           else rbind (delete_unseen s) (\<lambda>s. Inr (Continue, hb, vs, s)))))"

text \<open>Each round has the answers that the server gives in it.\<close>

fun main_loop ::
  "usec \<Rightarrow> int \<Rightarrow> (nut \<times> round_env) list \<Rightarrow> heartbeat \<times> heartbeat_thread_statistics list \<times> plugin_state \<Rightarrow>
   (int \<times> plugin_state) res" where
  "main_loop resolution started_t [] st = Inl Unfinished"
| "main_loop resolution started_t ((nut, r) # rs) st =
     rbind (main_round nut resolution started_t r st) (\<lambda>(flow, hb, vs, s).
       case flow of
         Continue \<Rightarrow> main_loop resolution started_t rs (hb, vs, s)
       | Break \<Rightarrow> rbind (shut_down s) (\<lambda>s. Inr (NETDATA_PLUGIN_EXIT_AND_RESTART, s))
       | Return rc \<Rightarrow> Inr (rc, s))"

text \<open>What the start of the program meets.\<close>

record start_env =
  su_init :: bool
  su_connect1 :: bool
  su_connect2 :: bool
  su_list_start :: bool
  su_rows :: "string list option list"
  su_started :: int
  su_resolution :: usec
  su_hz :: u64
  su_hash :: "usec \<Rightarrow> nat \<Rightarrow> u64"
  su_tid :: nat
  su_statistics :: "heartbeat_thread_statistics list"

definition linked_options :: dict_options where
  "linked_options = ups_vars_options\<lparr>OPTION_NAME_LINK_DONT_CLONE := False\<rparr>"

definition name_options :: dict_options where
  "name_options = linked_options\<lparr>OPTION_VALUE_LINK_DONT_CLONE := False, OPTION_FIXED_SIZE := False\<rparr>"

definition create_plugin :: "u64 \<Rightarrow> world \<Rightarrow> plugin_state res" where
  "create_plugin update_every w =
     rbind (dictionary_create linked_options w) (\<lambda>(vars, w).
     rbind (dictionary_create linked_options w) (\<lambda>(seen, w).
     rbind (dictionary_create name_options w) (\<lambda>(names, w).
       Inr (w, \<lparr>nd_ups_vars = vars, nd_ups_seen = seen, nd_ups_name = names, netdata_update_every = update_every,
         p_calls = 0, p_out = []\<rparr>))))"

text \<open>
  From the command line to the exit status and the text on standard output; \<open>nut\<close> is what the server
  answers during the first listing.
\<close>

definition main ::
  "string \<Rightarrow> string list \<Rightarrow> nut \<Rightarrow> start_env \<Rightarrow> (nut \<times> round_env) list \<Rightarrow> world \<Rightarrow>
   (int \<times> string \<times> world) res" where
  "main netdata_version args nut e rs w =
     (case parse_command_line netdata_version args of
        Exit rc _ \<Rightarrow> Inr (rc, [], w)
      | Run update_every \<Rightarrow>
          rbind (create_plugin update_every w) (\<lambda>s.
            let stop = (\<lambda>(w, p). Inr (NETDATA_PLUGIN_EXIT_AND_DISABLE, p_out p, w)) in
            if \<not> su_init e \<or> \<not> su_connect1 e \<or> \<not> su_connect2 e \<or> \<not> su_list_start e then stop s
            else
              rbind (list_loop (register_ups nut) (su_rows e) s) (\<lambda>(flow, s).
                if flow \<noteq> Continue then stop s
                else
                  rbind (heartbeat_init (su_hz e) (su_hash e) (su_tid e) (update_every * USEC_PER_SEC) (0, su_statistics e))
                    (\<lambda>(hb, _, vs).
                  rbind (main_loop (su_resolution e) (su_started e) rs (hb, vs, s)) (\<lambda>(rc, w, p).
                    Inr (rc, p_out p, w))))))"

end
