(* ===== verification/Dictionary_Rep.thy ===== *)
theory Dictionary_Rep
  imports Dictionary
begin

text \<open>
  What the objects of a dictionary look like between calls.  An entry gathers an item with its
  shared structure; \<open>rep\<close> says that the world holds a dictionary with a list of entries; \<open>inv\<close> is
  the invariant of a dictionary that is not a view, is used by one thread and has no callbacks;
  \<open>frame\<close> says that a step has left all other objects alone.

  The steps from which the operations are made are described here one by one: acquiring and
  releasing an item, replacing its value, marking it deleted, linking a new one, unlinking and
  freeing one.
\<close>

section \<open>Entries\<close>

record entry =
  e_id :: iid
  e_item :: dictionary_item
  e_shared :: dictionary_item_shared

abbreviation e_sid :: "entry \<Rightarrow> nat" where "e_sid e \<equiv> i_shared (e_item e)"
abbreviation e_name :: "entry \<Rightarrow> string" where "e_name e \<equiv> i_name (e_item e)"
abbreviation e_refs :: "entry \<Rightarrow> int" where "e_refs e \<equiv> i_refcount (e_item e)"
abbreviation e_value :: "entry \<Rightarrow> vptr" where "e_value e \<equiv> s_value (e_shared e)"
abbreviation e_live :: "entry \<Rightarrow> bool" where "e_live e \<equiv> \<not> i_deleted (e_item e)"

definition e_held :: "entry \<Rightarrow> bool" where "e_held e \<longleftrightarrow> e_refs e > 0"

definition e_pending :: "entry \<Rightarrow> bool" where "e_pending e \<longleftrightarrow> i_deleted (e_item e) \<and> e_refs e = 0"

abbreviation clones :: "dictionary \<Rightarrow> bool" where
  "clones x \<equiv> \<not> OPTION_VALUE_LINK_DONT_CLONE (d_options x)"

text \<open>The blocks a dictionary owns: the values of its entries, if it clones them.\<close>

definition cell :: "bool \<Rightarrow> entry \<Rightarrow> nat list" where
  "cell c e = (if c then (case e_value e of Mem m \<Rightarrow> [m] | _ \<Rightarrow> []) else [])"

definition cells :: "bool \<Rightarrow> entry list \<Rightarrow> nat list" where
  "cells c es = concat (map (cell c) es)"

lemma cells_simps [simp]:
  "cells c [] = []" "cells c (e # es) = cell c e @ cells c es" "cells c (es @ fs) = cells c es @ cells c fs"
  by (auto simp: cells_def)

text \<open>The world holds dictionary \<open>x\<close> at \<open>d\<close> with the entries \<open>es\<close>.\<close>

definition rep :: "world \<Rightarrow> did \<Rightarrow> dictionary \<Rightarrow> entry list \<Rightarrow> bool" where
  "rep w d x es \<longleftrightarrow>
     w_dicts w d = Some x \<and> d_list x = map e_id es \<and>
     (\<forall>e \<in> set es. w_items w (e_id e) = Some (e_item e) \<and> w_shareds w (e_sid e) = Some (e_shared e)) \<and>
     (\<forall>m \<in> set (cells (clones x) es). w_mem w m \<noteq> None)"

section \<open>The invariant\<close>

definition plain :: "dictionary \<Rightarrow> bool" where
  "plain x \<longleftrightarrow> is_dictionary_single_threaded x \<and> d_master x = None \<and> d_hooks x = None"

definition entry_ok :: "bool \<Rightarrow> entry \<Rightarrow> bool" where
  "entry_ok c e \<longleftrightarrow>
     e_refs e \<ge> 0 \<and> \<not> i_being_created (e_item e) \<and> s_links (e_shared e) = 1 \<and> e_name e \<noteq> [] \<and>
     (c \<longrightarrow> (\<forall>a. e_value e \<noteq> Addr a))"

definition count :: "('a \<Rightarrow> bool) \<Rightarrow> 'a list \<Rightarrow> int" where
  "count P xs = int (length (filter P xs))"

lemma count_simps [simp]:
  "count P [] = 0" "count P (x # xs) = (if P x then 1 else 0) + count P xs"
  "count P (xs @ ys) = count P xs + count P ys"
  by (auto simp: count_def)

lemma count_nonneg [simp]: "0 \<le> count P xs"
  by (simp add: count_def)

lemma count_eq_0: "count P xs = 0 \<longleftrightarrow> (\<forall>x \<in> set xs. \<not> P x)"
  by (simp add: count_def filter_empty_conv)

lemma count_filter: "count P (filter Q xs) = count (\<lambda>x. P x \<and> Q x) xs"
  by (simp add: count_def conj_commute)

text \<open>The live entries by name.\<close>

definition index_of :: "entry list \<Rightarrow> string \<Rightarrow> iid option" where
  "index_of es = map_of (map (\<lambda>e. (e_name e, e_id e)) (filter e_live es))"

definition names :: "entry list \<Rightarrow> string list" where
  "names es = map e_name (filter e_live es)"

lemma names_simps [simp]:
  "names [] = []" "names (e # es) = (if e_live e then [e_name e] else []) @ names es"
  "names (es @ fs) = names es @ names fs"
  by (auto simp: names_def)

text \<open>
  The number of entries may differ from the number of live entries in the list by a slack \<open>k\<close>: an
  item is counted before it is linked, and after it is unlinked.
\<close>

definition separate :: "bool \<Rightarrow> entry list \<Rightarrow> bool" where
  "separate c es \<longleftrightarrow> distinct (map e_id es) \<and> distinct (map e_sid es) \<and> distinct (cells c es)"

definition inv :: "int \<Rightarrow> dictionary \<Rightarrow> entry list \<Rightarrow> bool" where
  "inv k x es \<longleftrightarrow>
     plain x \<and> separate (clones x) es \<and> (\<forall>e \<in> set es. entry_ok (clones x) e) \<and>
     distinct (names es) \<and> d_index x = index_of es \<and>
     d_entries x = count e_live es + k \<and>
     d_referenced_items x = count e_held es \<and>
     d_pending_deletion_items x = count e_pending es"

text \<open>Every object of the world was allocated.\<close>

definition bounded :: "world \<Rightarrow> bool" where
  "bounded w \<longleftrightarrow>
     (\<forall>p. w_dicts w p \<noteq> None \<longrightarrow> p < w_fresh w) \<and> (\<forall>p. w_items w p \<noteq> None \<longrightarrow> p < w_fresh w) \<and>
     (\<forall>p. w_shareds w p \<noteq> None \<longrightarrow> p < w_fresh w) \<and> (\<forall>p. w_mem w p \<noteq> None \<longrightarrow> p < w_fresh w)"

text \<open>The objects that belong to entries.\<close>

definition ids :: "entry list \<Rightarrow> nat set" where "ids es = e_id ` set es"
definition sids :: "entry list \<Rightarrow> nat set" where "sids es = e_sid ` set es"

text \<open>Only objects of the entries change; blocks are freed but never written.\<close>

definition frame :: "did \<Rightarrow> bool \<Rightarrow> entry list \<Rightarrow> world \<Rightarrow> world \<Rightarrow> bool" where
  "frame d c es w w' \<longleftrightarrow>
     (\<forall>p. p \<noteq> d \<longrightarrow> w_dicts w' p = w_dicts w p) \<and>
     (\<forall>p < w_fresh w. p \<notin> ids es \<longrightarrow> w_items w' p = w_items w p) \<and>
     (\<forall>p < w_fresh w. p \<notin> sids es \<longrightarrow> w_shareds w' p = w_shareds w p) \<and>
     (\<forall>p < w_fresh w. p \<notin> set (cells c es) \<longrightarrow> w_mem w' p = w_mem w p) \<and>
     (\<forall>p < w_fresh w. w_mem w' p = w_mem w p \<or> w_mem w' p = None) \<and>
     w_fresh w \<le> w_fresh w' \<and> w_hooks w' = w_hooks w \<and> w_tid w' = w_tid w \<and> w_clock w' = w_clock w \<and>
     w_waiting w' = w_waiting w \<and> w_events w' = w_events w"

text \<open>The entries \<open>fs\<close> use only objects of \<open>es\<close> and objects allocated since \<open>w\<close>.\<close>

definition within :: "bool \<Rightarrow> world \<Rightarrow> entry list \<Rightarrow> entry list \<Rightarrow> bool" where
  "within c w fs es \<longleftrightarrow>
     (\<forall>p \<in> ids fs. p < w_fresh w \<longrightarrow> p \<in> ids es) \<and> (\<forall>p \<in> sids fs. p < w_fresh w \<longrightarrow> p \<in> sids es) \<and>
     (\<forall>p \<in> set (cells c fs). p < w_fresh w \<longrightarrow> p \<in> set (cells c es))"

lemma frame_refl [simp]: "frame d c es w w"
  by (simp add: frame_def)

lemma within_refl [simp]: "within c w es es"
  by (simp add: within_def)

lemma frame_trans:
  assumes "frame d c es w w1" and "frame d c fs w1 w2" and "within c w fs es"
  shows "frame d c es w w2"
proof -
  have lt: "p < w_fresh w1" if "p < w_fresh w" for p
    using that assms(1) by (auto simp: frame_def)
  have mem: "w_mem w2 p = w_mem w p \<or> w_mem w2 p = None" if "p < w_fresh w" for p
  proof (cases "w_mem w2 p = None")
    case False
    then have "w_mem w2 p = w_mem w1 p" using lt [OF that] assms(2) by (auto simp: frame_def)
    then show ?thesis using that assms(1) by (auto simp: frame_def)
  qed simp
  show ?thesis
    unfolding frame_def
  proof (intro conjI allI impI)
    show "w_mem w2 p = w_mem w p \<or> w_mem w2 p = None" if "p < w_fresh w" for p by (rule mem [OF that])
  qed (use assms lt in \<open>auto simp: frame_def within_def\<close>)
qed

lemma within_trans:
  assumes "within c w fs es" and "within c w1 gs fs" and "w_fresh w \<le> w_fresh w1"
  shows "within c w gs es"
  using assms unfolding within_def by (meson order.strict_trans2)

section \<open>Representation under updates\<close>

lemma repD:
  assumes "rep w d x es" and "e \<in> set es"
  shows "w_items w (e_id e) = Some (e_item e)" "w_shareds w (e_sid e) = Some (e_shared e)"
  using assms by (auto simp: rep_def)

lemma rep_dict: "rep w d x es \<Longrightarrow> w_dicts w d = Some x"
  by (simp add: rep_def)

lemma separate_mid:
  assumes "separate c (as @ e # bs)" and "f \<in> set as \<union> set bs"
  shows "e_id f \<noteq> e_id e" "e_sid f \<noteq> e_sid e" "set (cell c f) \<inter> set (cell c e) = {}"
proof -
  have "e_id f \<in> e_id ` (set as \<union> set bs)" using assms(2) by (rule imageI)
  moreover have "e_id e \<notin> e_id ` (set as \<union> set bs)"
    using assms(1) by (simp add: separate_def image_Un)
  ultimately show "e_id f \<noteq> e_id e" by metis
  have "e_sid f \<in> e_sid ` (set as \<union> set bs)" using assms(2) by (rule imageI)
  moreover have "e_sid e \<notin> e_sid ` (set as \<union> set bs)"
    using assms(1) by (simp add: separate_def image_Un)
  ultimately show "e_sid f \<noteq> e_sid e" by metis
  have "set (cell c f) \<subseteq> set (cells c as) \<union> set (cells c bs)"
    using assms(2) by (auto simp: cells_def)
  moreover have "(set (cells c as) \<union> set (cells c bs)) \<inter> set (cell c e) = {}"
    using assms(1) by (auto simp: separate_def)
  ultimately show "set (cell c f) \<inter> set (cell c e) = {}" by blast
qed

text \<open>One entry is replaced by another at the same place in memory.\<close>

lemma rep_replace:
  assumes r: "rep w d x (as @ e # bs)" and sep: "separate (clones x) (as @ e # bs)"
    and "e_id e' = e_id e" "e_sid e' = e_sid e"
    and "w_dicts w' d = Some x'" "d_list x' = d_list x" "d_options x' = d_options x"
    and items: "w_items w' = (w_items w)(e_id e \<mapsto> e_item e')"
    and shareds: "w_shareds w' = (w_shareds w)(e_sid e \<mapsto> e_shared e')"
    and mem: "\<And>m. m \<notin> set (cell (clones x) e) \<Longrightarrow> w_mem w m \<noteq> None \<Longrightarrow> w_mem w' m \<noteq> None"
    and mem': "\<And>m. m \<in> set (cell (clones x) e') \<Longrightarrow> w_mem w' m \<noteq> None"
  shows "rep w' d x' (as @ e' # bs)"
proof -
  have "w_items w' (e_id f) = Some (e_item f) \<and> w_shareds w' (e_sid f) = Some (e_shared f)"
    if f: "f \<in> set (as @ e' # bs)" for f
  proof (cases "f \<in> set as \<union> set bs")
    case True
    then have "f \<in> set (as @ e # bs)" by auto
    with repD [OF r this] separate_mid [OF sep True] show ?thesis
      by (simp add: items shareds)
  next
    case False
    with f have "f = e'" by auto
    then show ?thesis using assms(3,4) by (simp add: items shareds)
  qed
  moreover have "w_mem w' m \<noteq> None" if m: "m \<in> set (cells (clones x) (as @ e' # bs))" for m
  proof (cases "m \<in> set (cell (clones x) e')")
    case False
    with m have "m \<in> set (cells (clones x) as) \<union> set (cells (clones x) bs)" by simp
    moreover from this have "m \<notin> set (cell (clones x) e)" using sep by (auto simp: separate_def)
    moreover from calculation have "w_mem w m \<noteq> None" using r by (auto simp: rep_def)
    ultimately show ?thesis using mem by blast
  qed (use mem' in blast)
  ultimately show ?thesis
    using r assms(3,5,6,7) unfolding rep_def by simp
qed

text \<open>The heap seen by the steps: what a pointer to a known object leads to.\<close>

lemmas heap_defs = dict_at_def item_at_def shared_at_def find_def set_dict_def set_item_def set_shared_def

lemma plainD:
  assumes "plain x"
  shows "is_dictionary_single_threaded x" "\<not> is_view_dictionary x" "is_master_dictionary x" "d_hooks x = None"
    "d_master x = None"
  using assms by (auto simp: plain_def is_view_dictionary_def is_master_dictionary_def)

lemma plain_cong:
  "d_options x' = d_options x \<Longrightarrow> d_master x' = d_master x \<Longrightarrow> d_hooks x' = d_hooks x \<Longrightarrow> plain x' = plain x"
  by (simp add: plain_def is_dictionary_single_threaded_def)

text \<open>Locks are not taken in a dictionary that one thread uses.\<close>

lemma locks_plain [simp]:
  assumes "w_dicts w d = Some x" "plain x"
  shows "ll_recursive_lock d rw w = Inr w" "ll_recursive_unlock d rw w = Inr w"
    "dictionary_index_lock_rdlock d w = Inr w" "dictionary_index_rdlock_unlock d w = Inr w"
    "dictionary_index_lock_wrlock d w = Inr w" "dictionary_index_wrlock_unlock d w = Inr w"
  using assms plainD(1) [OF assms(2)]
  by (auto simp: ll_recursive_lock_def ll_recursive_unlock_def dictionary_index_lock_rdlock_def
      dictionary_index_rdlock_unlock_def dictionary_index_lock_wrlock_def dictionary_index_wrlock_unlock_def heap_defs)

lemma hooks_plain [simp]:
  assumes "w_dicts w d = Some x" "d_hooks x = None"
  shows "hooks_of w d = Inr None"
    "dictionary_execute_insert_callback d i data w = Inr w"
    "dictionary_execute_conflict_callback d i v data w = Inr (False, w)"
    "dictionary_execute_react_callback d i data w = Inr w"
    "dictionary_execute_delete_callback d i w = Inr w"
  using assms
  by (auto simp: hooks_of_def dictionary_execute_insert_callback_def dictionary_execute_conflict_callback_def
      dictionary_execute_react_callback_def dictionary_execute_delete_callback_def heap_defs)

section \<open>Acquiring and releasing\<close>

definition add_refs :: "int \<Rightarrow> entry \<Rightarrow> entry" where
  "add_refs n e = e\<lparr>e_item := (e_item e)\<lparr>i_refcount := e_refs e + n\<rparr>\<rparr>"

lemma add_refs_simps [simp]:
  "e_id (add_refs n e) = e_id e" "e_sid (add_refs n e) = e_sid e" "e_shared (add_refs n e) = e_shared e"
  "e_name (add_refs n e) = e_name e" "i_deleted (e_item (add_refs n e)) = i_deleted (e_item e)"
  "e_refs (add_refs n e) = e_refs e + n" "i_being_created (e_item (add_refs n e)) = i_being_created (e_item e)"
  "cell c (add_refs n e) = cell c e"
  by (auto simp: add_refs_def cell_def)

text \<open>The counters a change in the references of an entry leads to.\<close>

definition set_counters :: "int \<Rightarrow> int \<Rightarrow> dictionary \<Rightarrow> dictionary" where
  "set_counters referenced pending x =
     x\<lparr>d_pending_deletion_items := pending, d_referenced_items := referenced\<rparr>"

lemma set_counters_simps [simp]:
  "d_options (set_counters r p x) = d_options x" "d_list (set_counters r p x) = d_list x"
  "d_index (set_counters r p x) = d_index x" "d_entries (set_counters r p x) = d_entries x"
  "d_referenced_items (set_counters r p x) = r" "d_pending_deletion_items (set_counters r p x) = p"
  "d_master (set_counters r p x) = d_master x" "d_hooks (set_counters r p x) = d_hooks x"
  "plain (set_counters r p x) = plain x" "d_destroyed (set_counters r p x) = d_destroyed x"
  "set_counters r p (set_counters r' p' x) = set_counters r p x"
  by (auto simp: set_counters_def plain_def is_dictionary_single_threaded_def)

lemma set_counters_id: "r = d_referenced_items x \<Longrightarrow> p = d_pending_deletion_items x \<Longrightarrow> set_counters r p x = x"
  by (simp add: set_counters_def)

definition with_refs :: "entry list \<Rightarrow> dictionary \<Rightarrow> dictionary" where
  "with_refs es x = set_counters (count e_held es) (count e_pending es) x"

lemma inv_add_refs:
  assumes "inv k x (as @ e # bs)" and "e_refs e + n \<ge> 0"
  shows "inv k (with_refs (as @ add_refs n e # bs) x) (as @ add_refs n e # bs)"
  using assms
  by (auto simp: inv_def with_refs_def separate_def entry_ok_def index_of_def)

text \<open>The world in which only the entry \<open>e\<close> and the dictionary have changed.\<close>

definition put_entry :: "did \<Rightarrow> dictionary \<Rightarrow> entry \<Rightarrow> world \<Rightarrow> world" where
  "put_entry d x e w =
     w\<lparr>w_dicts := (w_dicts w)(d \<mapsto> x), w_items := (w_items w)(e_id e \<mapsto> e_item e),
       w_shareds := (w_shareds w)(e_sid e \<mapsto> e_shared e)\<rparr>"

lemma put_entry_fields [simp]:
  "w_dicts (put_entry d x e w) = (w_dicts w)(d \<mapsto> x)"
  "w_items (put_entry d x e w) = (w_items w)(e_id e \<mapsto> e_item e)"
  "w_shareds (put_entry d x e w) = (w_shareds w)(e_sid e \<mapsto> e_shared e)"
  "w_mem (put_entry d x e w) = w_mem w" "w_fresh (put_entry d x e w) = w_fresh w"
  "w_hooks (put_entry d x e w) = w_hooks w" "w_tid (put_entry d x e w) = w_tid w"
  "w_clock (put_entry d x e w) = w_clock w" "w_waiting (put_entry d x e w) = w_waiting w"
  "w_events (put_entry d x e w) = w_events w" "w_reads (put_entry d x e w) = w_reads w"
  by (simp_all add: put_entry_def)

lemma put_entry_rep:
  assumes "rep w d x (as @ e # bs)" and "inv k x (as @ e # bs)"
    and "e_id e' = e_id e" "e_sid e' = e_sid e" "d_list x' = d_list x" "d_options x' = d_options x"
    and "cell (clones x) e' = cell (clones x) e"
  shows "rep (put_entry d x' e' w) d x' (as @ e' # bs)"
proof (rule rep_replace [OF assms(1)])
  show "separate (clones x) (as @ e # bs)" using assms(2) by (simp add: inv_def)
  show "w_mem (put_entry d x' e' w) m \<noteq> None" if "m \<in> set (cell (clones x) e')" for m
    using that assms(1,7) by (simp add: rep_def)
qed (use assms in simp_all)

lemma put_entry_frame:
  assumes "e \<in> set es" and "e_id e' = e_id e" "e_sid e' = e_sid e"
  shows "frame d c es w (put_entry d x' e' w)"
proof -
  have "e_id e \<in> ids es" "e_sid e \<in> sids es" using assms by (simp_all add: ids_def sids_def)
  then show ?thesis using assms by (auto simp: frame_def)
qed

lemma put_entry_bounded:
  assumes "rep w d x es" and "e \<in> set es" and "e_id e' = e_id e" "e_sid e' = e_sid e" and "bounded w"
  shows "bounded (put_entry d x' e' w)"
proof -
  have "d < w_fresh w" "e_id e < w_fresh w" "e_sid e < w_fresh w"
    using assms(5) repD [OF assms(1,2)] rep_dict [OF assms(1)] by (auto simp: bounded_def)
  then show ?thesis using assms(3-5) by (simp add: bounded_def)
qed

lemma put_entry_same: "rep w d x es \<Longrightarrow> e \<in> set es \<Longrightarrow> put_entry d x e w = w"
  by (auto simp: put_entry_def rep_def map_upd_triv)

lemma put_entry_put_entry:
  "e_id e' = e_id e \<Longrightarrow> e_sid e' = e_sid e \<Longrightarrow> put_entry d x' e' (put_entry d x e w) = put_entry d x' e' w"
  by (simp add: put_entry_def)

lemma inv_counters:
  assumes "inv k x es"
  shows "d_referenced_items x = count e_held es" "d_pending_deletion_items x = count e_pending es"
    "plain x" "\<And>e. e \<in> set es \<Longrightarrow> 0 \<le> e_refs e"
  using assms by (auto simp: inv_def entry_ok_def)

lemma with_refs_acquired:
  assumes "inv k x (as @ e # bs)" and "e_live e"
  shows "with_refs (as @ add_refs 1 e # bs) x =
    (if e_refs e = 0 then x\<lparr>d_referenced_items := d_referenced_items x + 1\<rparr> else x)"
proof -
  note c = inv_counters [OF assms(1)]
  have "0 \<le> e_refs e" using c(4) by simp
  then have "count e_pending (as @ add_refs 1 e # bs) = d_pending_deletion_items x"
    "count e_held (as @ add_refs 1 e # bs) = d_referenced_items x + (if e_refs e = 0 then 1 else 0)"
    using c(1,2) assms(2) by (simp_all add: e_pending_def e_held_def)
  then show ?thesis
    by (simp add: with_refs_def set_counters_def)
qed

lemma acquire_step:
  assumes "rep w d x (as @ e # bs)" and "inv k x (as @ e # bs)" and "e_live e"
  shows "item_check_and_acquire_advanced d (e_id e) lck w =
    Inr (RC_ITEM_OK, put_entry d (with_refs (as @ add_refs 1 e # bs) x) (add_refs 1 e) w)"
proof -
  note c = inv_counters [OF assms(2)]
  note refs = c(4) [of e, simplified] and view = plainD(2) [OF c(3)]
  have h: "w_dicts w d = Some x" "w_items w (e_id e) = Some (e_item e)" "w_shareds w (e_sid e) = Some (e_shared e)"
    using assms(1) by (auto simp: rep_def)
  show ?thesis
    unfolding with_refs_acquired [OF assms(2,3)]
    using h view assms(3) refs
    by (simp add: item_check_and_acquire_advanced_def heap_defs DICTIONARY_REFERENCED_ITEMS_PLUS1_def
        put_entry_def add_refs_def map_upd_triv)
qed

lemma not_acquired_step:
  assumes "rep w d x es" and "inv k x es" and "e \<in> set es" and "\<not> e_live e"
  shows "item_check_and_acquire_advanced d (e_id e) lck w = Inr (RC_ITEM_MARKED_FOR_DELETION, w)"
proof -
  have "0 \<le> e_refs e" using assms by (auto simp: inv_def entry_ok_def)
  then show ?thesis
    using repD [OF assms(1,3)] rep_dict [OF assms(1)] assms(4)
    by (auto simp: item_check_and_acquire_advanced_def heap_defs)
qed

lemma with_refs_released:
  assumes "inv k x (as @ e # bs)" and "e_held e"
  shows "with_refs (as @ add_refs (- 1) e # bs) x =
    (if e_refs e = 1 then
       x\<lparr>d_pending_deletion_items := d_pending_deletion_items x + (if e_live e then 0 else 1),
         d_referenced_items := d_referenced_items x - 1\<rparr>
     else x)"
proof -
  note c = inv_counters [OF assms(1)]
  have "0 < e_refs e" using assms(2) by (simp add: e_held_def)
  then have "count e_pending (as @ add_refs (- 1) e # bs) =
      d_pending_deletion_items x + (if e_refs e = 1 \<and> \<not> e_live e then 1 else 0)"
    "count e_held (as @ add_refs (- 1) e # bs) = d_referenced_items x - (if e_refs e = 1 then 1 else 0)"
    using c(1,2) by (simp_all add: e_pending_def e_held_def)
  then show ?thesis
    by (simp add: with_refs_def set_counters_def)
qed

lemma release_step:
  assumes "rep w d x (as @ e # bs)" and "inv k x (as @ e # bs)" and "e_held e"
  shows "item_release d (e_id e) w =
    Inr (put_entry d (with_refs (as @ add_refs (- 1) e # bs) x) (add_refs (- 1) e) w)"
proof -
  have h: "w_dicts w d = Some x" "w_items w (e_id e) = Some (e_item e)" "w_shareds w (e_sid e) = Some (e_shared e)"
    using assms(1) by (auto simp: rep_def)
  have refs: "e_refs e > 0" using assms(3) by (simp add: e_held_def)
  show ?thesis
    unfolding with_refs_released [OF assms(2,3)]
    using h refs
    by (simp add: item_release_def heap_defs DICTIONARY_REFERENCED_ITEMS_MINUS1_def
        DICTIONARY_PENDING_DELETES_PLUS1_def put_entry_def add_refs_def map_upd_triv)
qed

section \<open>States between steps\<close>

definition ok :: "int \<Rightarrow> world \<Rightarrow> did \<Rightarrow> dictionary \<Rightarrow> entry list \<Rightarrow> bool" where
  "ok k w d x es \<longleftrightarrow> rep w d x es \<and> inv k x es \<and> bounded w"

definition kept :: "dictionary \<Rightarrow> dictionary \<Rightarrow> bool" where
  "kept x x' \<longleftrightarrow> d_options x' = d_options x \<and> d_destroyed x' = d_destroyed x \<and> d_value_aral x' = d_value_aral x"

definition evolve :: "did \<Rightarrow> world \<Rightarrow> dictionary \<Rightarrow> entry list \<Rightarrow> world \<Rightarrow> dictionary \<Rightarrow> entry list \<Rightarrow> bool" where
  "evolve d w x es w' x' es' \<longleftrightarrow>
     frame d (clones x) es w w' \<and> within (clones x) w es' es \<and> kept x x'"

lemma evolve_refl [simp]: "evolve d w x es w x es"
  by (simp add: evolve_def kept_def)

lemma evolve_trans:
  assumes "evolve d w x es w1 x1 es1" and "evolve d w1 x1 es1 w2 x2 es2"
  shows "evolve d w x es w2 x2 es2"
proof -
  have c: "clones x1 = clones x" using assms(1) by (simp add: evolve_def kept_def)
  have "w_fresh w \<le> w_fresh w1" using assms(1) by (simp add: evolve_def frame_def)
  then show ?thesis
    using assms c frame_trans [of d "clones x" es w w1 es1 w2] within_trans [of "clones x" w es1 es w1 es2]
    by (auto simp: evolve_def kept_def)
qed

lemma okD:
  assumes "ok k w d x es"
  shows "rep w d x es" "inv k x es" "bounded w" "w_dicts w d = Some x" "plain x" "separate (clones x) es"
  using assms by (auto simp: ok_def rep_def inv_def)

lemma ok_entry:
  assumes "ok k w d x es" and "e \<in> set es"
  shows "w_items w (e_id e) = Some (e_item e)" "w_shareds w (e_sid e) = Some (e_shared e)"
    "entry_ok (clones x) e"
  using assms repD [of w d x es e] by (auto simp: ok_def inv_def)

lemma within_mid:
  assumes "e_id e' = e_id e" "e_sid e' = e_sid e" "\<forall>m \<in> set (cell c e'). m \<in> set (cell c e) \<or> w_fresh w \<le> m"
  shows "within c w (as @ e' # bs) (as @ e # bs)"
  using assms by (auto simp: within_def ids_def sids_def)

lemma within_sub: "set fs \<subseteq> set es \<Longrightarrow> within c w fs es"
  by (auto simp: within_def ids_def sids_def cells_def)

lemma put_entry_ok:
  assumes "ok k w d x (as @ e # bs)" and "inv k' x' (as @ e' # bs)"
    and "e_id e' = e_id e" "e_sid e' = e_sid e" "d_list x' = d_list x" "kept x x'"
    and "cell (clones x) e' = cell (clones x) e"
  shows "ok k' (put_entry d x' e' w) d x' (as @ e' # bs)"
    and "evolve d w x (as @ e # bs) (put_entry d x' e' w) x' (as @ e' # bs)"
proof -
  note k = okD [OF assms(1)]
  have o: "d_options x' = d_options x" using assms(6) by (simp add: kept_def)
  show "ok k' (put_entry d x' e' w) d x' (as @ e' # bs)"
    using put_entry_rep [OF k(1,2) assms(3,4,5) o assms(7)]
      put_entry_bounded [OF k(1) _ assms(3,4) k(3)] assms(2)
    by (simp add: ok_def)
  show "evolve d w x (as @ e # bs) (put_entry d x' e' w) x' (as @ e' # bs)"
    using put_entry_frame [of e "as @ e # bs" e'] within_mid [of e' e "clones x" w as bs] assms(3,4,6,7)
    by (simp add: evolve_def)
qed

lemma with_refs_simps [simp]: "kept x (with_refs es x)" "d_list (with_refs es x) = d_list x"
  by (simp_all add: kept_def with_refs_def set_counters_def)

lemma add_refs_ok:
  assumes "ok k w d x (as @ e # bs)" and "e_refs e + n \<ge> 0"
  shows "ok k (put_entry d (with_refs (as @ add_refs n e # bs) x) (add_refs n e) w) d
      (with_refs (as @ add_refs n e # bs) x) (as @ add_refs n e # bs)"
    and "evolve d w x (as @ e # bs) (put_entry d (with_refs (as @ add_refs n e # bs) x) (add_refs n e) w)
      (with_refs (as @ add_refs n e # bs) x) (as @ add_refs n e # bs)"
  using put_entry_ok [OF assms(1) inv_add_refs [OF okD(2) [OF assms(1)] assms(2)]] by simp_all

lemma acquire_ok:
  assumes "ok k w d x (as @ e # bs)" and "e_live e"
  shows "\<exists>w' x'. item_check_and_acquire_advanced d (e_id e) lck w = Inr (RC_ITEM_OK, w') \<and>
    ok k w' d x' (as @ add_refs 1 e # bs) \<and> evolve d w x (as @ e # bs) w' x' (as @ add_refs 1 e # bs)"
proof -
  note k = okD [OF assms(1)]
  have "e_refs e + 1 \<ge> 0" using inv_counters(4) [OF k(2), of e] by simp
  then show ?thesis
    using add_refs_ok [OF assms(1)] acquire_step [OF k(1,2) assms(2)] by blast
qed

lemma release_ok:
  assumes "ok k w d x (as @ e # bs)" and "e_held e"
  shows "\<exists>w' x'. item_release d (e_id e) w = Inr w' \<and>
    ok k w' d x' (as @ add_refs (- 1) e # bs) \<and> evolve d w x (as @ e # bs) w' x' (as @ add_refs (- 1) e # bs)"
proof -
  note k = okD [OF assms(1)]
  have "e_refs e + - 1 \<ge> 0" using assms(2) by (simp add: e_held_def)
  then show ?thesis
    using add_refs_ok [OF assms(1)] release_step [OF k(1,2) assms(2)] by blast
qed

section \<open>Freeing\<close>

definition drop_entry :: "did \<Rightarrow> dictionary \<Rightarrow> bool \<Rightarrow> entry \<Rightarrow> world \<Rightarrow> world" where
  "drop_entry d x c e w =
     w\<lparr>w_dicts := (w_dicts w)(d \<mapsto> x), w_mem := (w_mem w) |` (- set (cell c e)),
       w_shareds := (w_shareds w)(e_sid e := None), w_items := (w_items w)(e_id e := None)\<rparr>"

lemma drop_entry_fields [simp]:
  "w_dicts (drop_entry d x c e w) = (w_dicts w)(d \<mapsto> x)"
  "w_items (drop_entry d x c e w) = (w_items w)(e_id e := None)"
  "w_shareds (drop_entry d x c e w) = (w_shareds w)(e_sid e := None)"
  "w_mem (drop_entry d x c e w) = (w_mem w) |` (- set (cell c e))" "w_fresh (drop_entry d x c e w) = w_fresh w"
  "w_hooks (drop_entry d x c e w) = w_hooks w" "w_tid (drop_entry d x c e w) = w_tid w"
  "w_clock (drop_entry d x c e w) = w_clock w" "w_waiting (drop_entry d x c e w) = w_waiting w"
  "w_events (drop_entry d x c e w) = w_events w" "w_reads (drop_entry d x c e w) = w_reads w"
  by (simp_all add: drop_entry_def)

text \<open>An entry that is freed while it is live stops being counted.\<close>

definition uncount :: "entry \<Rightarrow> dictionary \<Rightarrow> dictionary" where
  "uncount e x = (if e_live e then x\<lparr>d_version := d_version x + 1, d_entries := d_entries x - 1\<rparr> else x)"

lemma uncount_simps [simp]:
  "d_options (uncount e x) = d_options x" "d_list (uncount e x) = d_list x" "d_index (uncount e x) = d_index x"
  "d_hooks (uncount e x) = d_hooks x" "d_master (uncount e x) = d_master x" "plain (uncount e x) = plain x"
  "d_referenced_items (uncount e x) = d_referenced_items x" "d_destroyed (uncount e x) = d_destroyed x"
  "d_pending_deletion_items (uncount e x) = d_pending_deletion_items x" "d_value_aral (uncount e x) = d_value_aral x"
  "d_entries (uncount e x) = d_entries x - (if e_live e then 1 else 0)"
  by (simp_all add: uncount_def plain_def is_dictionary_single_threaded_def)

lemma mem_minus: "(m :: 'a \<rightharpoonup> 'b)(a := None) = m |` (- {a})"
  by (simp add: restrict_map_def fun_eq_iff)

lemma restrict_all [simp]: "(m :: 'a \<rightharpoonup> 'b) |` UNIV = m"
  by (simp add: restrict_map_def)

lemma free_step:
  assumes "w_dicts w d = Some x" "plain x"
    and "w_items w (e_id e) = Some (e_item e)" "w_shareds w (e_sid e) = Some (e_shared e)"
    and "s_links (e_shared e) = 1" and "clones x \<longrightarrow> (\<forall>a. e_value e \<noteq> Addr a)"
    and "\<forall>m \<in> set (cell (clones x) e). w_mem w m \<noteq> None"
  shows "dict_item_free_with_hooks d (e_id e) w = Inr (drop_entry d (uncount e x) (clones x) e w)"
proof -
  have h: "d_hooks x = None" using assms(2) by (simp add: plain_def)
  note defs = dict_item_free_with_hooks_def heap_defs DICTIONARY_ENTRIES_MINUS1_def
    item_shared_release_and_check_if_it_can_be_freed_def Let_def uncount_def drop_entry_def cell_def
    map_upd_triv hooks_of_def dictionary_execute_delete_callback_def item_value_def mem_minus
  show ?thesis
  proof (cases "clones x")
    case False
    then show ?thesis
      using assms(1,3,4,5) h by (cases "e_live e") (simp_all add: defs del: rbind_Inr_iff)
  next
    case True
    show ?thesis
    proof (cases "e_value e")
      case Null
      then show ?thesis
        using True assms(1,3,4,5) h by (cases "e_live e") (simp_all add: defs del: rbind_Inr_iff)
    next
      case (Addr a)
      then show ?thesis using True assms(6) by simp
    next
      case (Mem m)
      then obtain b where "w_mem w m = Some b" using True assms(7) by (auto simp: cell_def)
      then show ?thesis
        using Mem True assms(1,3,4,5) h by (cases "e_live e") (simp_all add: defs del: rbind_Inr_iff)
    qed
  qed
qed

text \<open>An entry leaves the list and its objects are freed.\<close>

lemma rep_drop:
  assumes r: "rep w d x (as @ e # bs)" and sep: "separate (clones x) (as @ e # bs)"
    and "d_list x' = map e_id (as @ bs)" "d_options x' = d_options x"
  shows "rep (drop_entry d x' (clones x) e w) d x' (as @ bs)"
proof -
  have "w_items (drop_entry d x' (clones x) e w) (e_id f) = Some (e_item f) \<and>
      w_shareds (drop_entry d x' (clones x) e w) (e_sid f) = Some (e_shared f)"
    if f: "f \<in> set (as @ bs)" for f
  proof -
    have "f \<in> set (as @ e # bs)" "f \<in> set as \<union> set bs" using f by auto
    then show ?thesis using repD [OF r] separate_mid [OF sep] by simp
  qed
  moreover have "w_mem (drop_entry d x' (clones x) e w) m \<noteq> None" if m: "m \<in> set (cells (clones x) (as @ bs))" for m
  proof -
    have "m \<notin> set (cell (clones x) e)" using m sep by (auto simp: separate_def)
    then show ?thesis using m r by (auto simp: rep_def restrict_map_def)
  qed
  ultimately show ?thesis using assms(3,4) unfolding rep_def by simp
qed

lemma drop_entry_frame:
  assumes "e \<in> set es"
  shows "frame d c es w (drop_entry d x c e w)"
proof -
  have "e_id e \<in> ids es" "e_sid e \<in> sids es" "set (cell c e) \<subseteq> set (cells c es)"
    using assms by (auto simp: ids_def sids_def cells_def)
  then show ?thesis by (auto simp: frame_def restrict_map_def)
qed

lemma drop_entry_bounded: "bounded w \<Longrightarrow> w_dicts w d \<noteq> None \<Longrightarrow> bounded (drop_entry d x c e w)"
  by (auto simp: bounded_def restrict_map_def)

lemma remove1_mid: "separate c (as @ e # bs) \<Longrightarrow> remove1 (e_id e) (map e_id (as @ e # bs)) = map e_id (as @ bs)"
  by (auto simp: separate_def remove1_append)

lemma separate_drop: "separate c (as @ e # bs) \<Longrightarrow> separate c (as @ bs)"
  by (auto simp: separate_def)

end
