(* ===== verification/Dictionary_Ops.thy ===== *)
theory Dictionary_Ops
  imports Dictionary_Rep
begin

text \<open>
  The operations of a dictionary on its entries: the garbage collector, adding, replacing, finding
  and deleting items.  Each is described by the list of entries it leaves, and keeps the invariant
  and everything that does not belong to the dictionary.
\<close>

section \<open>The garbage collector\<close>

definition sweep :: "entry list \<Rightarrow> entry list" where
  "sweep es = filter (\<lambda>e. \<not> e_pending e) es"

lemma sweep_simps [simp]:
  "sweep [] = []" "sweep (e # es) = (if e_pending e then sweep es else e # sweep es)"
  "sweep (es @ fs) = sweep es @ sweep fs"
  by (auto simp: sweep_def)

lemma sweep_id: "count e_pending es = 0 \<Longrightarrow> sweep es = es"
  by (auto simp: sweep_def count_eq_0 filter_id_conv)

lemma sweep_sub: "set (sweep es) \<subseteq> set es"
  by (auto simp: sweep_def)

lemma add_refs_back [simp]: "add_refs (- 1) (add_refs 1 e) = e" "add_refs 1 (add_refs (- 1) e) = e"
  by (simp_all add: add_refs_def)

lemma with_refs_back: "inv k x es \<Longrightarrow> with_refs es (with_refs fs x) = x"
  by (simp add: with_refs_def set_counters_id inv_def)

declare gc_loop.simps(2) [simp del]

text \<open>Acquiring an item and releasing it again leaves no trace.\<close>

lemma acquire_release:
  assumes "ok k w d x (as @ e # bs)" and "e_live e"
  obtains w1 where "item_check_and_acquire_advanced d (e_id e) lck w = Inr (RC_ITEM_OK, w1)"
    "item_release d (e_id e) w1 = Inr w" "item_value w1 (e_id e) = Inr (e_value e)"
proof -
  note k = okD [OF assms(1)]
  let ?e = "add_refs 1 e" and ?x = "with_refs (as @ add_refs 1 e # bs) x"
  have refs: "0 \<le> e_refs e" using inv_counters(4) [OF k(2), of e] by simp
  then have k1: "ok k (put_entry d ?x ?e w) d ?x (as @ ?e # bs)" using add_refs_ok(1) [OF assms(1), of 1] by simp
  have "item_release d (e_id ?e) (put_entry d ?x ?e w) =
      Inr (put_entry d (with_refs (as @ add_refs (- 1) ?e # bs) ?x) (add_refs (- 1) ?e) (put_entry d ?x ?e w))"
    using release_step [OF okD(1,2) [OF k1]] refs by (simp add: e_held_def)
  also have "\<dots> = Inr w"
    using with_refs_back [OF k(2)] put_entry_same [OF k(1), of e] by (simp add: put_entry_put_entry)
  finally show thesis
    using that acquire_step [OF k(1,2) assms(2)] ok_entry(1,2) [OF k1, of ?e] by (simp add: item_value_def heap_defs)
qed

lemma gc_live:
  assumes "ok k w d x (as @ e # bs)" and "e_live e"
  shows "gc_loop d False (e_id e # is) w = gc_loop d False is w"
  by (rule acquire_release [OF assms, where lck = False]) (simp add: gc_loop.simps(2))

lemma gc_held:
  assumes "ok k w d x es" and "e \<in> set es" and "\<not> e_live e" and "\<not> e_pending e"
  shows "gc_loop d False (e_id e # is) w = gc_loop d False is w"
proof -
  note k = okD [OF assms(1)]
  have "e_refs e > 0" using inv_counters(4) [OF k(2) assms(2)] assms(3,4) by (simp add: e_pending_def)
  then show ?thesis
    using not_acquired_step [OF k(1,2) assms(2,3)] ok_entry(1) [OF assms(1,2)]
    by (simp add: gc_loop.simps(2) item_is_not_referenced_and_can_be_removed_def item_is_not_referenced_and_can_be_removed_advanced_def
        heap_defs)
qed

lemma cell_item [simp]: "cell c (e\<lparr>e_item := t\<rparr>) = cell c e"
  by (simp add: cell_def)

lemma drop_entry_dict [simp]:
  "(drop_entry d x c e w)\<lparr>w_dicts := (w_dicts w)(d \<mapsto> x')\<rparr> = drop_entry d x' c e w"
  by (simp add: drop_entry_def)

definition without_pending :: "entry list \<Rightarrow> dictionary \<Rightarrow> dictionary" where
  "without_pending es x = x\<lparr>d_list := map e_id es, d_pending_deletion_items := d_pending_deletion_items x - 1\<rparr>"

lemma inv_drop_pending:
  assumes "inv k x (as @ e # bs)" and "e_pending e"
  shows "inv k (without_pending (as @ bs) x) (as @ bs)"
  using assms
  by (auto simp: inv_def without_pending_def plain_def is_dictionary_single_threaded_def index_of_def
      e_pending_def e_held_def dest: separate_drop)

lemma gc_pending:
  assumes "ok k w d x (as @ e # bs)" and "e_pending e"
  defines "x' \<equiv> without_pending (as @ bs) x"
  shows "gc_loop d False (e_id e # is) w =
      (if d_pending_deletion_items x = 1 then Inr (drop_entry d x' (clones x) e w)
       else gc_loop d False is (drop_entry d x' (clones x) e w))"
proof -
  note k = okD [OF assms(1)] and e = ok_entry [OF assms(1), of e, simplified]
  have dead: "\<not> e_live e" "e_refs e = 0" using assms(2) by (auto simp: e_pending_def)
  have eo: "\<not> i_being_created (e_item e)" "s_links (e_shared e) = 1" "clones x \<longrightarrow> (\<forall>a. e_value e \<noteq> Addr a)"
    using e(3) by (auto simp: entry_ok_def)
  let ?e = "e\<lparr>e_item := (e_item e)\<lparr>i_refcount := REFCOUNT_DELETED\<rparr>\<rparr>"
  let ?x = "x\<lparr>d_list := map e_id (as @ bs)\<rparr>"
  let ?w = "w\<lparr>w_items := (w_items w)(e_id e \<mapsto> e_item ?e), w_dicts := (w_dicts w)(d \<mapsto> ?x)\<rparr>"
  have mem: "\<forall>m \<in> set (cell (clones x) e). w_mem w m \<noteq> None" using k(1) by (simp add: rep_def)
  have removed: "remove1 (e_id e) (d_list x) = map e_id (as @ bs)"
    using remove1_mid [OF k(6)] k(1) by (simp add: rep_def)
  have "dict_item_free_with_hooks d (e_id ?e) ?w = Inr (drop_entry d (uncount ?e ?x) (clones ?x) ?e ?w)"
  proof (rule free_step)
    show "plain ?x" using k(5) by (simp add: plain_def is_dictionary_single_threaded_def)
    show "\<forall>m \<in> set (cell (clones ?x) ?e). w_mem ?w m \<noteq> None"
      using mem by simp
  qed (use e(1,2) eo in simp_all)
  then have f: "dict_item_free_with_hooks d (e_id e) ?w = Inr (drop_entry d ?x (clones x) e w)"
    using dead by (simp add: uncount_def drop_entry_def)
  show ?thesis
    using not_acquired_step [OF k(1,2) _ dead(1)] e(1) eo(1) dead(2) k(4) f
    by (simp add: gc_loop.simps(2) item_is_not_referenced_and_can_be_removed_def item_is_not_referenced_and_can_be_removed_advanced_def
        heap_defs unlink_item_def removed DICTIONARY_PENDING_DELETES_MINUS1_def DICTIONARY_PENDING_DELETES_GET_def
        x'_def without_pending_def)
qed

text \<open>An entry leaves the dictionary.\<close>

lemma drop_entry_ok:
  assumes "ok k w d x (as @ e # bs)" and "inv k' x' (as @ bs)" and "d_list x' = map e_id (as @ bs)" and "kept x x'"
  shows "ok k' (drop_entry d x' (clones x) e w) d x' (as @ bs)"
    and "evolve d w x (as @ e # bs) (drop_entry d x' (clones x) e w) x' (as @ bs)"
proof -
  note k = okD [OF assms(1)]
  show "ok k' (drop_entry d x' (clones x) e w) d x' (as @ bs)"
    using rep_drop [OF k(1,6) assms(3)] drop_entry_bounded [OF k(3)] k(4) assms(2,4)
    by (auto simp: ok_def kept_def)
  show "evolve d w x (as @ e # bs) (drop_entry d x' (clones x) e w) x' (as @ bs)"
    using drop_entry_frame [of e "as @ e # bs"] within_sub [of "as @ bs" "as @ e # bs"] assms(4)
    by (simp add: evolve_def subset_insertI2)
qed

lemma gc_loop_ok:
  assumes "ok k w d x (as @ bs)" and "count e_pending as = 0" and "count e_pending bs > 0"
  shows "\<exists>w' x'. gc_loop d False (map e_id bs) w = Inr w' \<and> ok k w' d x' (as @ sweep bs) \<and>
    evolve d w x (as @ bs) w' x' (as @ sweep bs)"
  using assms
proof (induction bs arbitrary: as w x)
  case Nil
  then show ?case by simp
next
  case (Cons e bs)
  note k = okD [OF Cons.prems(1)]
  show ?case
  proof (cases "e_pending e")
    case True
    let ?x = "without_pending (as @ bs) x"
    let ?w = "drop_entry d ?x (clones x) e w"
    have "kept x ?x" "d_list ?x = map e_id (as @ bs)" by (auto simp: without_pending_def kept_def)
    note after = drop_entry_ok [OF Cons.prems(1) inv_drop_pending [OF k(2) True] this(2,1)]
    have p: "d_pending_deletion_items x = 1 + count e_pending bs"
      using inv_counters(2) [OF k(2)] True Cons.prems(2) by simp
    show ?thesis
    proof (cases "count e_pending bs = 0")
      case True': True
      then show ?thesis
        using gc_pending [OF Cons.prems(1) True] after True p by (auto simp: sweep_id)
    next
      case False
      then have "count e_pending bs > 0" using count_nonneg [of e_pending bs] by linarith
      from Cons.IH [OF after(1) Cons.prems(2) this] obtain w' x' where
        "gc_loop d False (map e_id bs) ?w = Inr w'" "ok k w' d x' (as @ sweep bs)"
        "evolve d ?w ?x (as @ bs) w' x' (as @ sweep bs)" by blast
      then show ?thesis
        using gc_pending [OF Cons.prems(1) True] after(2) True p False
        by (auto intro: evolve_trans)
    qed
  next
    case False
    have "gc_loop d False (e_id e # map e_id bs) w = gc_loop d False (map e_id bs) w"
      using gc_live [OF Cons.prems(1)] gc_held [OF Cons.prems(1) _ _ False] by (cases "e_live e") auto
    moreover have "ok k w d x ((as @ [e]) @ bs)" using Cons.prems(1) by simp
    from Cons.IH [OF this] have "\<exists>w' x'. gc_loop d False (map e_id bs) w = Inr w' \<and>
        ok k w' d x' ((as @ [e]) @ sweep bs) \<and> evolve d w x ((as @ [e]) @ bs) w' x' ((as @ [e]) @ sweep bs)"
      using Cons.prems(2,3) False by simp
    ultimately show ?thesis using False by simp
  qed
qed

lemma ok_stamp:
  fixes t n :: nat
  assumes "ok k w d x es"
  defines "x' \<equiv> x\<lparr>d_last_gc_run_us := t\<rparr>" and "w' \<equiv> w\<lparr>w_reads := n, w_dicts := (w_dicts w)(d \<mapsto> x\<lparr>d_last_gc_run_us := t\<rparr>)\<rparr>"
  shows "ok k w' d x' es" and "evolve d w x es w' x' es"
proof -
  have p: "plain x' = plain x" by (auto simp: x'_def plain_def is_dictionary_single_threaded_def)
  note k = okD [OF assms(1)]
  show "ok k w' d x' es"
    using k(1,2,3,4) p by (auto simp: ok_def rep_def inv_def bounded_def x'_def w'_def)
  show "evolve d w x es w' x' es"
    by (auto simp: evolve_def frame_def kept_def x'_def w'_def)
qed

lemma gc_ok:
  assumes "ok k w d x es"
  shows "\<exists>w' x'. garbage_collect_pending_deletes d w = Inr w' \<and> ok k w' d x' (sweep es) \<and>
    evolve d w x es w' x' (sweep es)"
proof -
  note k = okD [OF assms]
  note view = plainD(2) [OF k(5)] and hooks = plainD(4) [OF k(5)]
  have p: "d_pending_deletion_items x = count e_pending es" by (rule inv_counters(2) [OF k(2)])
  show ?thesis
  proof (cases "count e_pending es = 0")
    case True
    then have "garbage_collect_pending_deletes d w = Inr w"
      using k(4) hooks view p by (simp add: garbage_collect_pending_deletes_def heap_defs)
    then show ?thesis using assms True by (auto simp: sweep_id)
  next
    case False
    then have pos: "count e_pending es > 0" using count_nonneg [of e_pending es] by linarith
    let ?x = "x\<lparr>d_last_gc_run_us := w_clock w (w_reads w)\<rparr>"
    let ?w = "w\<lparr>w_reads := w_reads w + 1, w_dicts := (w_dicts w)(d \<mapsto> ?x)\<rparr>"
    note s = ok_stamp [OF assms, where t = "w_clock w (w_reads w)" and n = "w_reads w + 1"]
    have "ok k ?w d ?x ([] @ es)" using s(1) by simp
    from gc_loop_ok [OF this] pos obtain w' x' where
      g: "gc_loop d False (map e_id es) ?w = Inr w'" "ok k w' d x' (sweep es)"
      "evolve d ?w ?x es w' x' (sweep es)" by auto
    have "garbage_collect_pending_deletes d w = Inr w'"
      using k(4,5) hooks view p pos g(1) k(1) okD(4,5) [OF g(2)]
      by (simp add: garbage_collect_pending_deletes_def now_realtime_usec_def heap_defs rep_def del: rbind_Inr_iff)
    then show ?thesis using g(2) evolve_trans [OF s(2) g(3)] by blast
  qed
qed

section \<open>Looking up\<close>

definition contents :: "entry list \<Rightarrow> (string \<times> vptr) list" where
  "contents es = map (\<lambda>e. (e_name e, e_value e)) (filter e_live es)"

lemma contents_simps [simp]:
  "contents [] = []" "contents (e # es) = (if e_live e then [(e_name e, e_value e)] else []) @ contents es"
  "contents (es @ fs) = contents es @ contents fs"
  by (auto simp: contents_def)

lemma names_contents: "names es = map fst (contents es)"
  by (simp add: names_def contents_def comp_def)

lemma contents_sweep [simp]: "contents (sweep es) = contents es" "names (sweep es) = names es"
  by (induction es) (auto simp: e_pending_def)

lemma index_of_Some:
  assumes "index_of es k = Some i"
  obtains as e bs where "es = as @ e # bs" "e_live e" "e_name e = k" "e_id e = i"
proof -
  from map_of_SomeD [OF assms [unfolded index_of_def]]
  obtain e where "e \<in> set es" "e_live e" "e_name e = k" "e_id e = i" by auto
  with that show thesis by (metis split_list)
qed

lemma index_of_None: "index_of es k = None \<longleftrightarrow> k \<notin> set (names es)"
  by (simp add: index_of_def names_def map_of_eq_None_iff image_image)

lemma contents_lookup:
  assumes "distinct (names (as @ e # bs))" and "e_live e"
  shows "map_of (contents (as @ e # bs)) (e_name e) = Some (e_value e)"
  using assms by (auto simp: names_contents map_add_def map_of_eq_None_iff [symmetric] split: option.splits)

definition value_at :: "entry list \<Rightarrow> string \<Rightarrow> vptr" where
  "value_at es k = (case map_of (contents es) k of None \<Rightarrow> Null | Some v \<Rightarrow> v)"

text \<open>Reading a value and giving up the reference that was taken for it.\<close>

lemma value_and_release_ok:
  assumes "ok k w d x (as @ e # bs)" and "e_held e"
  shows "\<exists>w' x'. value_and_release d (Some (e_id e)) w = Inr (e_value e, w') \<and>
    ok k w' d x' (as @ add_refs (- 1) e # bs) \<and> evolve d w x (as @ e # bs) w' x' (as @ add_refs (- 1) e # bs)"
  using release_ok [OF assms] ok_entry(1,2) [OF assms(1), of e]
  by (auto simp: item_value_def heap_defs)

lemma find_ok:
  assumes "ok k w d x es" and "name \<noteq> []" and "\<not> d_destroyed x"
  shows "dict_item_find_and_acquire d (Some name) None w =
    (case index_of es name of
       None \<Rightarrow> Inr (None, w)
     | Some i \<Rightarrow> rbind (item_check_and_acquire_advanced d i False w) (\<lambda>(rc, w). Inr (if rc = RC_ITEM_OK then Some i else None, w)))"
proof -
  note k = okD [OF assms(1)]
  have i: "d_index x = index_of es" using k(2) by (simp add: inv_def)
  show ?thesis
  proof (cases "index_of es name")
    case None
    then show ?thesis
      using k(4,5) assms(2,3) i
      by (simp add: dict_item_find_and_acquire_def heap_defs key_of_def hashtable_get_unsafe_def del: rbind_Inr_iff)
  next
    case (Some j)
    from index_of_Some [OF this] obtain as e bs where e: "es = as @ e # bs" "e_live e" "e_id e = j" by metis
    from acquire_ok [of k w d x as e bs False] assms(1) e obtain w' x' where
      a: "item_check_and_acquire_advanced d j False w = Inr (RC_ITEM_OK, w')" "ok k w' d x' (as @ add_refs 1 e # bs)"
      by metis
    show ?thesis
      using k(4,5) assms(2,3) i Some a okD(4,5) [OF a(2)]
      by (simp add: dict_item_find_and_acquire_def heap_defs key_of_def hashtable_get_unsafe_def
          item_check_and_acquire_def del: rbind_Inr_iff)
  qed
qed

text \<open>Acquiring an item by its name.\<close>

lemma get_and_acquire_ok:
  assumes "ok k w d x (as @ e # bs)" and "e_live e" and "\<not> d_destroyed x"
  shows "\<exists>w' x'. dictionary_get_and_acquire_item_advanced d (Some (e_name e)) None w = Inr (Some (e_id e), w') \<and>
    ok k w' d x' (as @ add_refs 1 e # bs) \<and> evolve d w x (as @ e # bs) w' x' (as @ add_refs 1 e # bs)"
proof -
  note k = okD [OF assms(1)]
  have ne: "e_name e \<noteq> []" using ok_entry(3) [OF assms(1), of e] by (simp add: entry_ok_def)
  have "distinct (names (as @ e # bs))" using k(2) by (simp add: inv_def)
  then have i: "index_of (as @ e # bs) (e_name e) = Some (e_id e)"
    using assms(2) by (auto simp: index_of_def names_def map_add_def map_of_eq_None_iff split: option.splits)
      (auto dest!: map_of_SomeD)
  from acquire_ok [OF assms(1,2), of False] obtain w' x' where
    "item_check_and_acquire_advanced d (e_id e) False w = Inr (RC_ITEM_OK, w')"
    "ok k w' d x' (as @ add_refs 1 e # bs)" "evolve d w x (as @ e # bs) w' x' (as @ add_refs 1 e # bs)" by metis
  then show ?thesis
    using find_ok [OF assms(1) ne assms(3)] i ne
    by (auto simp: dictionary_get_and_acquire_item_advanced_def api_is_name_good_def)
qed

text \<open>Getting a value leaves the world as it was.\<close>

lemma get_ok:
  assumes "ok k w d x es" and "name \<noteq> []" and "\<not> d_destroyed x"
  shows "dictionary_get d (Some name) w = Inr (value_at es name, w)"
proof (cases "index_of es name")
  case None
  then have "map_of (contents es) name = None"
    by (simp add: index_of_None names_contents map_of_eq_None_iff)
  then show ?thesis
    using find_ok [OF assms] None assms(2)
    by (simp add: dictionary_get_def dictionary_get_advanced_def dictionary_get_and_acquire_item_advanced_def
        api_is_name_good_def value_at_def)
next
  case (Some i)
  from index_of_Some [OF this] obtain as e bs where e: "es = as @ e # bs" "e_live e" "e_name e = name" "e_id e = i"
    by metis
  note o = assms(1) [unfolded e(1)]
  from acquire_release [OF o e(2), where lck = False] obtain w1 where
    w1: "item_check_and_acquire_advanced d i False w = Inr (RC_ITEM_OK, w1)" "item_release d i w1 = Inr w"
    "item_value w1 i = Inr (e_value e)" using e(4) by metis
  have "distinct (names es)" using okD(2) [OF assms(1)] by (simp add: inv_def)
  then have "value_at es name = e_value e"
    using contents_lookup [of as e bs] e by (simp add: value_at_def)
  then show ?thesis
    using find_ok [OF assms] Some assms(2) w1
    by (simp add: dictionary_get_def dictionary_get_advanced_def dictionary_get_and_acquire_item_advanced_def
        api_is_name_good_def)
qed

section \<open>Deleting\<close>

lemma index_of_delete:
  assumes "distinct (names (as @ e # bs))" and "e_live e"
  shows "(index_of (as @ e # bs))(e_name e := None) = index_of (as @ bs)"
proof
  fix n
  have "index_of bs (e_name e) = None" "index_of as (e_name e) = None"
    using assms by (auto simp: index_of_None)
  then show "((index_of (as @ e # bs))(e_name e := None)) n = index_of (as @ bs) n"
    using assms(2) by (auto simp: index_of_def map_add_def split: option.splits)
qed

definition mark_deleted :: "entry \<Rightarrow> entry" where
  "mark_deleted e = e\<lparr>e_item := (e_item e)\<lparr>i_deleted := True\<rparr>, e_shared := (e_shared e)\<lparr>s_deleted := True\<rparr>\<rparr>"

lemma mark_deleted_simps [simp]:
  "e_id (mark_deleted e) = e_id e" "e_sid (mark_deleted e) = e_sid e" "e_refs (mark_deleted e) = e_refs e"
  "e_name (mark_deleted e) = e_name e" "i_deleted (e_item (mark_deleted e))" "e_value (mark_deleted e) = e_value e"
  "i_being_created (e_item (mark_deleted e)) = i_being_created (e_item e)"
  "s_links (e_shared (mark_deleted e)) = s_links (e_shared e)" "cell c (mark_deleted e) = cell c e"
  by (auto simp: mark_deleted_def cell_def)

definition marked :: "string \<Rightarrow> dictionary \<Rightarrow> dictionary" where
  "marked n x = x\<lparr>d_index := (d_index x)(n := None), d_version := d_version x + 1, d_entries := d_entries x - 1\<rparr>"

lemma marked_simps [simp]:
  "d_options (marked n x) = d_options x" "d_list (marked n x) = d_list x" "plain (marked n x) = plain x"
  "kept x (marked n x)"
  by (auto simp: marked_def plain_def is_dictionary_single_threaded_def kept_def)

lemma inv_marked:
  assumes "inv k x (as @ e # bs)" and "e_live e" and "e_held e"
  shows "inv k (marked (e_name e) x) (as @ mark_deleted e # bs)"
proof -
  have n: "distinct (names (as @ e # bs))" and i: "d_index x = index_of (as @ e # bs)"
    using assms(1) by (auto simp: inv_def)
  have "d_index (marked (e_name e) x) = index_of (as @ mark_deleted e # bs)"
    using index_of_delete [OF n assms(2)] i by (simp add: marked_def index_of_def)
  moreover have "separate (clones x) (as @ mark_deleted e # bs)"
    using assms(1) by (auto simp: inv_def separate_def)
  moreover have "d_entries (marked (e_name e) x) = count e_live (as @ mark_deleted e # bs) + k"
    "d_referenced_items (marked (e_name e) x) = count e_held (as @ mark_deleted e # bs)"
    "d_pending_deletion_items (marked (e_name e) x) = count e_pending (as @ mark_deleted e # bs)"
    using assms by (simp_all add: inv_def marked_def e_held_def e_pending_def)
  ultimately show ?thesis
    using assms(1,2) n unfolding inv_def by (auto simp: entry_ok_def)
qed

text \<open>The key of the whole name.\<close>

lemma key_of_whole [simp]: "key_of n None = Inr n" "key_of n (Some (length n)) = Inr n"
  by (simp_all add: key_of_def)

lemma inv_index_at:
  assumes "inv k x (as @ e # bs)" and "e_live e"
  shows "d_index x (e_name e) = Some (e_id e)"
proof -
  have "index_of as (e_name e) = None" "index_of bs (e_name e) = None"
    using assms by (auto simp: inv_def index_of_None)
  then show ?thesis
    using assms by (simp add: inv_def index_of_def map_add_def split: option.split)
qed

lemma del_held:
  assumes "ok k w d x (as @ e # bs)" and "e_live e" and "e_held e" and "key_of (e_name e) nl = Inr (e_name e)"
  shows "\<exists>w' x'. dict_item_del d (e_name e) nl w = Inr (True, w') \<and>
    ok k w' d x' (as @ mark_deleted e # bs) \<and> evolve d w x (as @ e # bs) w' x' (as @ mark_deleted e # bs)"
proof -
  note k = okD [OF assms(1)] and e = ok_entry [OF assms(1), of e, simplified]
  have refs: "e_refs e > 0" using assms(3) by (simp add: e_held_def)
  let ?x1 = "x\<lparr>d_index := (d_index x)(e_name e := None)\<rparr>"
  have p1: "plain ?x1" using k(5) by (simp add: plain_def is_dictionary_single_threaded_def)
  have "dict_item_del d (e_name e) nl w = Inr (True, put_entry d (marked (e_name e) x) (mark_deleted e) w)"
    using assms(2,4) k(4,5) e(1,2) refs inv_index_at [OF k(2) assms(2)] p1 plainD(3) [OF p1] plainD(4) [OF k(5)]
    by (simp add: dict_item_del_def heap_defs hashtable_get_unsafe_def hashtable_delete_unsafe_def
        dict_item_free_or_mark_deleted_def item_is_not_referenced_and_can_be_removed_advanced_def
        dict_item_shared_set_deleted_def dict_item_set_deleted_def DICTIONARY_ENTRIES_MINUS1_def
        put_entry_def marked_def mark_deleted_def del: rbind_Inr_iff)
  moreover note put_entry_ok [OF assms(1) inv_marked [OF k(2) assms(2,3)]]
  ultimately show ?thesis by (metis mark_deleted_simps(1,2,9) marked_simps(2,4))
qed

text \<open>An item that nobody holds is unlinked, then the garbage is collected, then the item is freed.\<close>

definition condemned :: "entry \<Rightarrow> entry" where
  "condemned e = e\<lparr>e_item := (e_item e)\<lparr>i_refcount := REFCOUNT_DELETED\<rparr>, e_shared := (e_shared e)\<lparr>s_deleted := True\<rparr>\<rparr>"

lemma condemned_simps [simp]:
  "e_id (condemned e) = e_id e" "e_sid (condemned e) = e_sid e" "e_name (condemned e) = e_name e"
  "i_deleted (e_item (condemned e)) = i_deleted (e_item e)" "e_value (condemned e) = e_value e"
  "s_links (e_shared (condemned e)) = s_links (e_shared e)" "cell c (condemned e) = cell c e"
  by (auto simp: condemned_def cell_def)

definition unlinked :: "string \<Rightarrow> entry list \<Rightarrow> dictionary \<Rightarrow> dictionary" where
  "unlinked n es x = x\<lparr>d_index := (d_index x)(n := None), d_list := map e_id es\<rparr>"

lemma unlinked_simps [simp]:
  "d_options (unlinked n es x) = d_options x" "d_list (unlinked n es x) = map e_id es"
  "plain (unlinked n es x) = plain x" "kept x (unlinked n es x)"
  by (auto simp: unlinked_def plain_def is_dictionary_single_threaded_def kept_def)

lemma inv_unlinked:
  assumes "inv k x (as @ e # bs)" and "e_live e" and "\<not> e_held e"
  shows "inv (k + 1) (unlinked (e_name e) (as @ bs) x) (as @ bs)"
proof -
  have n: "distinct (names (as @ e # bs))" and i: "d_index x = index_of (as @ e # bs)"
    and s: "separate (clones x) (as @ e # bs)"
    using assms(1) by (auto simp: inv_def)
  have "d_index (unlinked (e_name e) (as @ bs) x) = index_of (as @ bs)"
    using index_of_delete [OF n assms(2)] i by (simp add: unlinked_def)
  moreover have "d_entries (unlinked (e_name e) (as @ bs) x) = count e_live (as @ bs) + (k + 1)"
    "d_referenced_items (unlinked (e_name e) (as @ bs) x) = count e_held (as @ bs)"
    "d_pending_deletion_items (unlinked (e_name e) (as @ bs) x) = count e_pending (as @ bs)"
    using assms by (simp_all add: inv_def unlinked_def e_pending_def)
  moreover have "distinct (names (as @ bs))" using n by auto
  ultimately show ?thesis
    using assms(1) separate_drop [OF s] unfolding inv_def by simp
qed

lemma rep_unlink:
  assumes r: "rep w d x (as @ e # bs)" and sep: "separate (clones x) (as @ e # bs)"
    and "e_id e' = e_id e" "e_sid e' = e_sid e" "d_list x' = map e_id (as @ bs)" "d_options x' = d_options x"
  shows "rep (put_entry d x' e' w) d x' (as @ bs)"
proof -
  have "w_items (put_entry d x' e' w) (e_id f) = Some (e_item f) \<and>
      w_shareds (put_entry d x' e' w) (e_sid f) = Some (e_shared f)"
    if f: "f \<in> set (as @ bs)" for f
  proof -
    have "f \<in> set (as @ e # bs)" "f \<in> set as \<union> set bs" using f by auto
    then show ?thesis using repD [OF r] separate_mid [OF sep] assms(3,4) by simp
  qed
  then show ?thesis using r assms(5,6) unfolding rep_def by auto
qed

text \<open>Objects of an entry that is no longer in the list can be freed without harm.\<close>

lemma rep_drop_other:
  assumes r: "rep w d x es" and "e_id e \<notin> ids es" "e_sid e \<notin> sids es"
    "set (cell (clones x) e) \<inter> set (cells (clones x) es) = {}"
    and "d_list x' = d_list x" "d_options x' = d_options x"
  shows "rep (drop_entry d x' (clones x) e w) d x' es"
proof -
  have "e_id f \<noteq> e_id e \<and> e_sid f \<noteq> e_sid e" if "f \<in> set es" for f
    using assms(2,3) imageI [OF that, of e_id] imageI [OF that, of e_sid] by (auto simp: ids_def sids_def)
  moreover have "w_mem (drop_entry d x' (clones x) e w) m \<noteq> None" if "m \<in> set (cells (clones x) es)" for m
    using that r assms(4) by (auto simp: rep_def restrict_map_def)
  ultimately show ?thesis using r assms(5,6) unfolding rep_def by auto
qed

definition outside :: "bool \<Rightarrow> entry \<Rightarrow> entry list \<Rightarrow> bool" where
  "outside c e es \<longleftrightarrow> e_id e \<notin> ids es \<and> e_sid e \<notin> sids es \<and> set (cell c e) \<inter> set (cells c es) = {}"

lemma outside_mid: "separate c (as @ e # bs) \<Longrightarrow> outside c e (as @ bs)"
  by (auto simp: ids_def sids_def separate_def outside_def)

lemma outside_sub: "outside c e es \<Longrightarrow> set fs \<subseteq> set es \<Longrightarrow> outside c e fs"
  unfolding outside_def ids_def sids_def cells_def by (fastforce dest: subsetD)

definition present :: "world \<Rightarrow> bool \<Rightarrow> entry \<Rightarrow> bool" where
  "present w c e \<longleftrightarrow>
     w_items w (e_id e) = Some (e_item e) \<and> w_shareds w (e_sid e) = Some (e_shared e) \<and>
     (\<forall>m \<in> set (cell c e). w_mem w m \<noteq> None)"

text \<open>A step of a dictionary does not touch the objects of an entry outside of it.\<close>

lemma present_frame:
  assumes "present w c e" and "frame d c es w w'" and "outside c e es" and "bounded w"
  shows "present w' c e"
proof -
  have "e_id e < w_fresh w" "e_sid e < w_fresh w" "\<And>m. m \<in> set (cell c e) \<Longrightarrow> m < w_fresh w"
    using assms(1,4) by (auto simp: present_def bounded_def)
  moreover have "\<And>m. m \<in> set (cell c e) \<Longrightarrow> m \<notin> set (cells c es)" using assms(3) by (auto simp: outside_def)
  ultimately show ?thesis using assms(1,2,3) by (simp add: present_def frame_def outside_def)
qed

lemma free_outside:
  assumes "ok k w d x es" and "present w (clones x) e" and "outside (clones x) e es"
    and "s_links (e_shared e) = 1" and "clones x \<longrightarrow> (\<forall>a. e_value e \<noteq> Addr a)" and "e_live e"
  shows "dict_item_free_with_hooks d (e_id e) w = Inr (drop_entry d (uncount e x) (clones x) e w)"
    and "ok (k - 1) (drop_entry d (uncount e x) (clones x) e w) d (uncount e x) es"
proof -
  note k = okD [OF assms(1)]
  show "dict_item_free_with_hooks d (e_id e) w = Inr (drop_entry d (uncount e x) (clones x) e w)"
    using assms(2,4,5) k(4,5) by (intro free_step) (auto simp: present_def)
  have "rep (drop_entry d (uncount e x) (clones x) e w) d (uncount e x) es"
    using rep_drop_other [OF k(1)] assms(3) by (simp add: outside_def)
  moreover have "inv (k - 1) (uncount e x) es" using k(2) assms(6) by (simp add: inv_def)
  moreover have "bounded (drop_entry d (uncount e x) (clones x) e w)" using drop_entry_bounded k(3,4) by simp
  ultimately show "ok (k - 1) (drop_entry d (uncount e x) (clones x) e w) d (uncount e x) es" by (simp add: ok_def)
qed

lemma del_free_eq:
  assumes "ok k w d x (as @ e # bs)" and "e_live e" and "\<not> e_held e" and "key_of (e_name e) nl = Inr (e_name e)"
    and "garbage_collect_pending_deletes d (put_entry d (unlinked (e_name e) (as @ bs) x) (condemned e) w) = Inr w2"
    and "dict_item_free_with_hooks d (e_id e) w2 = Inr w'" and "w_dicts w2 d = Some x2" "plain x2"
  shows "dict_item_del d (e_name e) nl w = Inr (True, w')"
proof -
  note k = okD [OF assms(1)] and e = ok_entry [OF assms(1), of e, simplified]
  let ?x = "unlinked (e_name e) (as @ bs) x" and ?x1 = "x\<lparr>d_index := (d_index x)(e_name e := None)\<rparr>"
  have p1: "plain ?x1" using k(5) by (simp add: plain_def is_dictionary_single_threaded_def)
  have p2: "plain ?x" using k(5) by simp
  have "remove1 (e_id e) (d_list x) = map e_id (as @ bs)"
    using remove1_mid [OF k(6)] k(1) by (simp add: rep_def)
  moreover have "\<not> i_being_created (e_item e)" "e_refs e = 0"
    using e(3) assms(3) by (auto simp: entry_ok_def e_held_def)
  moreover have "w\<lparr>w_items := (w_items w)(e_id e \<mapsto> (e_item e)\<lparr>i_refcount := REFCOUNT_DELETED\<rparr>),
      w_shareds := (w_shareds w)(e_sid e \<mapsto> (e_shared e)\<lparr>s_deleted := True\<rparr>), w_dicts := (w_dicts w)(d \<mapsto> ?x)\<rparr> =
      put_entry d ?x (condemned e) w"
    by (simp add: put_entry_def condemned_def)
  ultimately show ?thesis
    using assms(2,4-) k(4,5) e(1,2) inv_index_at [OF k(2) assms(2)] p1 p2 plainD(3) [OF p1] plainD(4) [OF k(5)]
    by (simp add: dict_item_del_def heap_defs hashtable_get_unsafe_def hashtable_delete_unsafe_def
        dict_item_free_or_mark_deleted_def item_is_not_referenced_and_can_be_removed_advanced_def
        dict_item_shared_set_deleted_def item_linked_list_remove_def unlink_item_def unlinked_def
        del: rbind_Inr_iff)
qed

lemma del_free:
  assumes "ok k w d x (as @ e # bs)" and "e_live e" and "\<not> e_held e" and "key_of (e_name e) nl = Inr (e_name e)"
  shows "\<exists>w' x'. dict_item_del d (e_name e) nl w = Inr (True, w') \<and>
    ok k w' d x' (sweep (as @ bs)) \<and> evolve d w x (as @ e # bs) w' x' (sweep (as @ bs)) \<and> w_items w' (e_id e) = None"
proof -
  note k = okD [OF assms(1)] and e = ok_entry [OF assms(1), of e, simplified]
  let ?e = "condemned e" and ?x = "unlinked (e_name e) (as @ bs) x"
  let ?w = "put_entry d ?x ?e w"
  have k1: "ok (k + 1) ?w d ?x (as @ bs)"
    using rep_unlink [OF k(1,6), of ?e ?x] put_entry_bounded [OF k(1), of e ?e] inv_unlinked [OF k(2) assms(2,3)] k(3)
    by (simp add: ok_def)
  from gc_ok [OF this] obtain w2 x2 where
    g: "garbage_collect_pending_deletes d ?w = Inr w2" "ok (k + 1) w2 d x2 (sweep (as @ bs))"
      "evolve d ?w ?x (as @ bs) w2 x2 (sweep (as @ bs))" by metis
  have c2: "clones x2 = clones x" using g(3) by (simp add: evolve_def kept_def)
  have out: "outside (clones x) ?e (as @ bs)" using outside_mid [OF k(6)] by (simp add: outside_def)
  have "present ?w (clones x) ?e" using k(1) by (simp add: present_def rep_def)
  moreover have "frame d (clones x) (as @ bs) ?w w2" using g(3) by (simp add: evolve_def)
  ultimately have p2: "present w2 (clones x2) ?e"
    unfolding c2 using out okD(3) [OF k1] by (rule present_frame)
  let ?w' = "drop_entry d (uncount ?e x2) (clones x2) ?e w2"
  have f: "dict_item_free_with_hooks d (e_id ?e) w2 = Inr ?w'" "ok k ?w' d (uncount ?e x2) (sweep (as @ bs))"
    using free_outside [OF g(2) p2 outside_sub [OF out [folded c2] sweep_sub]] e(3) assms(2) c2
    by (simp_all add: entry_ok_def)
  have "frame d (clones x) (as @ e # bs) w ?w" by (rule put_entry_frame [where e = e]) simp_all
  moreover have "frame d (clones x) (as @ bs) ?w w2" using g(3) by (simp add: evolve_def)
  moreover have "within (clones x) w (as @ bs) (as @ e # bs)" by (rule within_sub) auto
  ultimately have "frame d (clones x) (as @ e # bs) w w2" by (rule frame_trans)
  moreover have "frame d (clones x) (as @ ?e # bs) w2 ?w'"
    unfolding c2 by (rule drop_entry_frame) simp
  moreover have "within (clones x) w (as @ ?e # bs) (as @ e # bs)" by (rule within_mid) auto
  ultimately have "frame d (clones x) (as @ e # bs) w ?w'" by (rule frame_trans)
  moreover have "within (clones x) w (sweep (as @ bs)) (as @ e # bs)"
    using sweep_sub [of "as @ bs"] by (intro within_sub) auto
  moreover have "kept x (uncount ?e x2)" using g(3) by (simp add: evolve_def kept_def unlinked_def)
  ultimately have "evolve d w x (as @ e # bs) ?w' (uncount ?e x2) (sweep (as @ bs))" by (simp add: evolve_def)
  moreover have "dict_item_del d (e_name e) nl w = Inr (True, ?w')"
    using del_free_eq [OF assms g(1)] f(1) okD(4,5) [OF g(2)] by simp
  moreover have "w_items ?w' (e_id e) = None" by simp
  ultimately show ?thesis using f(2) by blast
qed

text \<open>Deleting by name: the entry goes from the contents, and the result says whether it was there.\<close>

definition remove_name :: "string \<Rightarrow> (string \<times> 'v) list \<Rightarrow> (string \<times> 'v) list" where
  "remove_name n c = filter (\<lambda>(m, v). m \<noteq> n) c"

lemma remove_name_absent: "n \<notin> set (map fst c) \<Longrightarrow> remove_name n c = c"
  by (induction c) (auto simp: remove_name_def)

lemma remove_name_simps [simp]:
  "remove_name n [] = []" "remove_name n ((m, v) # c) = (if m = n then remove_name n c else (m, v) # remove_name n c)"
  "remove_name n (b @ c) = remove_name n b @ remove_name n c"
  by (simp_all add: remove_name_def)

lemma remove_name_mid:
  assumes "distinct (names (as @ e # bs))" and "e_live e"
  shows "remove_name (e_name e) (contents (as @ e # bs)) = contents (as @ bs)"
proof -
  have "e_name e \<notin> set (map fst (contents as))" "e_name e \<notin> set (map fst (contents bs))"
    using assms by (auto simp: names_contents)
  then show ?thesis using assms(2) by (simp add: remove_name_absent)
qed

lemma contents_marked [simp]: "contents (as @ mark_deleted e # bs) = contents (as @ bs)"
  by simp

lemma del_absent:
  assumes "ok k w d x es" and "name \<notin> set (names es)" and "key_of name nl = Inr name"
  shows "dict_item_del d name nl w = Inr (False, w)"
proof -
  note k = okD [OF assms(1)]
  have "d_index x name = None" using k(2) assms(2) index_of_None [of es name] by (simp add: inv_def)
  then show ?thesis
    using k(4,5) assms(3) by (simp add: dict_item_del_def heap_defs hashtable_get_unsafe_def del: rbind_Inr_iff)
qed

lemma names_split:
  assumes "name \<in> set (names es)"
  obtains as e bs where "es = as @ e # bs" "e_live e" "e_name e = name"
  using assms by (force simp: names_def dest: split_list)

text \<open>A dictionary is busy while a caller holds one of its items.\<close>

definition busy :: "entry list \<Rightarrow> bool" where
  "busy es \<longleftrightarrow> (\<exists>e \<in> set es. e_held e)"

lemma busy_sweep: "busy (sweep es) \<Longrightarrow> busy es"
  by (auto simp: busy_def sweep_def)

lemma dict_item_del_ok:
  assumes "ok k w d x es" and "key_of name nl = Inr name"
  shows "\<exists>w' x' es'. dict_item_del d name nl w = Inr (name \<in> set (names es), w') \<and>
    ok k w' d x' es' \<and> evolve d w x es w' x' es' \<and> contents es' = remove_name name (contents es) \<and> (busy es' \<longrightarrow> busy es)"
proof (cases "name \<in> set (names es)")
  case True
  from names_split [OF this] obtain as e bs where e: "es = as @ e # bs" "e_live e" "e_name e = name" by metis
  note o = assms(1) [unfolded e(1)]
  have "distinct (names (as @ e # bs))" using okD(2) [OF o] by (simp add: inv_def)
  note c = remove_name_mid [OF this e(2)]
  show ?thesis
  proof (cases "e_held e")
    case True
    from del_held [OF o e(2) this] assms(2) e(3) obtain w' x' where
      "dict_item_del d name nl w = Inr (True, w')" "ok k w' d x' (as @ mark_deleted e # bs)"
      "evolve d w x (as @ e # bs) w' x' (as @ mark_deleted e # bs)" by metis
    moreover have "busy es" using True e(1) by (simp add: busy_def)
    ultimately show ?thesis using c e contents_marked [of as e bs] \<open>name \<in> set (names es)\<close> by metis
  next
    case False
    from del_free [OF o e(2) this] assms(2) e(3) obtain w' x' where
      "dict_item_del d name nl w = Inr (True, w')" "ok k w' d x' (sweep (as @ bs))"
      "evolve d w x (as @ e # bs) w' x' (sweep (as @ bs))" by metis
    moreover have "busy (sweep (as @ bs)) \<longrightarrow> busy es" using busy_sweep [of "as @ bs"] e(1) by (auto simp: busy_def)
    ultimately show ?thesis using c e contents_sweep(1) [of "as @ bs"] \<open>name \<in> set (names es)\<close> by metis
  qed
next
  case False
  then have "remove_name name (contents es) = contents es" by (simp add: names_contents remove_name_absent)
  then show ?thesis using del_absent [OF assms(1) False assms(2)] assms(1) False evolve_refl by metis
qed

lemma del_ok:
  assumes "ok k w d x es" and "name \<noteq> []" and "\<not> d_destroyed x"
  shows "\<exists>w' x' es'. dictionary_del d (Some name) w = Inr (name \<in> set (names es), w') \<and>
    ok k w' d x' es' \<and> evolve d w x es w' x' es' \<and> contents es' = remove_name name (contents es) \<and> (busy es' \<longrightarrow> busy es)"
proof -
  have "dictionary_del d (Some name) w = dict_item_del d name None w"
    using okD(4) [OF assms(1)] assms(2,3)
    by (simp add: dictionary_del_def dictionary_del_advanced_def api_is_name_good_def heap_defs)
  then show ?thesis using dict_item_del_ok [OF assms(1), of name None] by simp
qed

end
