(* ===== verification/Dictionary_Set.thy ===== *)
theory Dictionary_Set
  imports Dictionary_Ops
begin

text \<open>
  Setting an item: storing a value, adding an entry, and replacing the value of an entry.
\<close>

section \<open>Setting\<close>

text \<open>
  What a value becomes when it is stored: a dictionary that links keeps the pointer, one that clones
  allocates a block for the bytes unless there are none.  \<open>placed\<close> says that the bytes can be read
  and fit.
\<close>

definition placed :: "dictionary \<Rightarrow> world \<Rightarrow> vsrc \<Rightarrow> nat \<Rightarrow> string option \<Rightarrow> bool" where
  "placed x w src len bs \<longleftrightarrow>
     (if clones x then
        (if len = 0 then bs = None
         else (\<exists>b. bs = Some b \<and> source_bytes w src len = Inr b \<and>
           (case d_value_aral x of None \<Rightarrow> True | Some n \<Rightarrow> length b \<le> n)))
      else bs = None \<and> (\<exists>p. src = SPtr p))"

definition place_ptr :: "dictionary \<Rightarrow> vsrc \<Rightarrow> string option \<Rightarrow> nat \<Rightarrow> vptr" where
  "place_ptr x src bs p =
     (case bs of Some b \<Rightarrow> Mem p | None \<Rightarrow> if clones x then Null else (case src of SPtr q \<Rightarrow> q | SBytes b \<Rightarrow> Null))"

definition place_mem :: "string option \<Rightarrow> nat \<Rightarrow> (nat \<Rightarrow> string option) \<Rightarrow> nat \<Rightarrow> string option" where
  "place_mem bs p m = (case bs of None \<Rightarrow> m | Some b \<Rightarrow> m(p \<mapsto> b))"

definition place_size :: "string option \<Rightarrow> nat" where
  "place_size bs = (case bs of None \<Rightarrow> 0 | Some b \<Rightarrow> 1)"

lemma source_bytes_cong: "w_mem w' = w_mem w \<Longrightarrow> source_bytes w' src len = source_bytes w src len"
  by (induction w src len rule: source_bytes.induct) auto

lemma placed_cong:
  "w_mem w' = w_mem w \<Longrightarrow> d_options x' = d_options x \<Longrightarrow> d_value_aral x' = d_value_aral x \<Longrightarrow>
   placed x' w' src len bs = placed x w src len bs"
  by (simp add: placed_def source_bytes_cong [of w' w])

definition with_block :: "string option \<Rightarrow> world \<Rightarrow> world" where
  "with_block bs w = w\<lparr>w_mem := place_mem bs (w_fresh w) (w_mem w), w_fresh := w_fresh w + place_size bs\<rparr>"

lemma with_block_fields [simp]:
  "w_dicts (with_block bs w) = w_dicts w" "w_items (with_block bs w) = w_items w"
  "w_shareds (with_block bs w) = w_shareds w" "w_mem (with_block bs w) = place_mem bs (w_fresh w) (w_mem w)"
  "w_fresh (with_block bs w) = w_fresh w + place_size bs" "w_hooks (with_block bs w) = w_hooks w"
  "w_tid (with_block bs w) = w_tid w" "w_clock (with_block bs w) = w_clock w" "w_reads (with_block bs w) = w_reads w"
  "w_waiting (with_block bs w) = w_waiting w" "w_events (with_block bs w) = w_events w"
  by (simp_all add: with_block_def)

lemma place_value_link:
  assumes "placed x w src len bs" and "\<not> clones x"
  shows "source_pointer src = Inr (place_ptr x src bs p)" and "with_block bs w = w"
proof -
  obtain q where q: "bs = None" "src = SPtr q" using assms by (auto simp: placed_def)
  then show "source_pointer src = Inr (place_ptr x src bs p)" using assms(2) by (simp add: place_ptr_def)
  show "with_block bs w = w" using q by (simp add: with_block_def place_mem_def place_size_def)
qed

lemma place_value_clone:
  assumes "placed x w src len bs" and "clones x" and "w_dicts w d = Some x"
  shows "dict_item_value_create d src len w = Inr (place_ptr x src bs (w_fresh w), with_block bs w)"
proof (cases "len = 0")
  case True
  then have "bs = None" using assms(1,2) by (simp add: placed_def)
  then show ?thesis
    using True assms(2) by (simp add: dict_item_value_create_def place_ptr_def with_block_def place_mem_def place_size_def)
next
  case False
  then obtain b where b: "bs = Some b" "source_bytes w src len = Inr b"
    "case d_value_aral x of None \<Rightarrow> True | Some n \<Rightarrow> length b \<le> n"
    using assms(1,2) by (auto simp: placed_def)
  then have "\<not> (case d_value_aral x of None \<Rightarrow> False | Some n \<Rightarrow> n < length b)" by (auto split: option.splits)
  then show ?thesis
    using False assms(3) b
    by (simp add: dict_item_value_create_def dict_item_value_mallocz_def heap_defs place_ptr_def with_block_def
        place_mem_def place_size_def)
qed

subsection \<open>A new entry\<close>

definition new_entry :: "dictionary \<Rightarrow> nat \<Rightarrow> string \<Rightarrow> nat \<Rightarrow> vptr \<Rightarrow> nat \<Rightarrow> bool \<Rightarrow> entry" where
  "new_entry x n name klen v len creating =
     \<lparr>e_id = Suc n,
      e_item = item_set_name x name klen
        \<lparr>i_shared = n, i_name = [], i_allocated_name = False, i_refcount = 1, i_key_len = 0,
          i_deleted = False, i_being_created = creating\<rparr>,
      e_shared = \<lparr>s_value = v, s_links = 1, s_value_len = len mod (VALUE_LEN_MAX + 1), s_deleted = False\<rparr>\<rparr>"

lemma item_set_name_shared [simp]: "i_shared (item_set_name x name klen it) = i_shared it"
  by (simp add: item_set_name_def)

lemma new_entry_simps [simp]:
  "e_id (new_entry x n name klen v len b) = Suc n" "e_sid (new_entry x n name klen v len b) = n"
  "e_name (new_entry x n name klen v len b) = name" "e_refs (new_entry x n name klen v len b) = 1"
  "e_live (new_entry x n name klen v len b)" "e_value (new_entry x n name klen v len b) = v"
  "i_being_created (e_item (new_entry x n name klen v len b)) = b"
  "s_links (e_shared (new_entry x n name klen v len b)) = 1"
  "e_held (new_entry x n name klen v len b)" "\<not> e_pending (new_entry x n name klen v len b)"
  by (simp_all add: new_entry_def item_set_name_def e_held_def e_pending_def)

definition counted :: "dictionary \<Rightarrow> dictionary" where
  "counted x = x\<lparr>d_version := d_version x + 1, d_entries := d_entries x + 1,
     d_referenced_items := d_referenced_items x + 1\<rparr>"

text \<open>Room for an item, its shared structure, and the block of its value.\<close>

definition with_room :: "string option \<Rightarrow> world \<Rightarrow> world" where
  "with_room bs w = with_block bs (w\<lparr>w_fresh := Suc (Suc (w_fresh w))\<rparr>)"

lemma with_room_fields [simp]:
  "w_dicts (with_room bs w) = w_dicts w" "w_items (with_room bs w) = w_items w"
  "w_shareds (with_room bs w) = w_shareds w" "w_mem (with_room bs w) = place_mem bs (Suc (Suc (w_fresh w))) (w_mem w)"
  "w_fresh (with_room bs w) = Suc (Suc (w_fresh w + place_size bs))" "w_hooks (with_room bs w) = w_hooks w"
  "w_tid (with_room bs w) = w_tid w" "w_clock (with_room bs w) = w_clock w" "w_reads (with_room bs w) = w_reads w"
  "w_waiting (with_room bs w) = w_waiting w" "w_events (with_room bs w) = w_events w"
  by (simp_all add: with_room_def)

lemma create_step:
  assumes "w_dicts w d = Some x" and "plain x" and "placed x w src len bs"
  shows "dict_item_create_with_hooks d name klen src len cdata None w =
    Inr (Suc (w_fresh w), put_entry d (counted x)
      (new_entry x (w_fresh w) name klen (place_ptr x src bs (Suc (Suc (w_fresh w)))) len True) (with_room bs w))"
proof -
  let ?n = "w_fresh w"
  let ?it = "item_set_name x name klen \<lparr>i_shared = ?n, i_name = [], i_allocated_name = False, i_refcount = 1,
    i_key_len = 0, i_deleted = False, i_being_created = True\<rparr>"
  let ?sh = "\<lparr>s_value = Null, s_links = 1, s_value_len = 0, s_deleted = False\<rparr>"
  let ?w1 = "w\<lparr>w_shareds := (w_shareds w)(?n \<mapsto> ?sh), w_fresh := Suc (Suc ?n), w_items := (w_items w)(Suc ?n \<mapsto> ?it)\<rparr>"
  let ?v = "place_ptr x src bs (Suc (Suc ?n))"
  note view = plainD(2) [OF assms(2)] and hooks = plainD(4) [OF assms(2)]
  have 1: "rbind (dict_item_create None w) (\<lambda>(i, w). rbind (set_item i (item_set_name x name klen) w) (\<lambda>w. f i w)) = f (Suc ?n) ?w1" for f
    by (simp add: dict_item_create_def heap_defs del: rbind_Inr_iff)
  have pl: "placed x ?w1 src len bs" using assms(3) placed_cong [of ?w1 w x x] by simp
  have 2: "(if OPTION_VALUE_LINK_DONT_CLONE (d_options x) then rbind (source_pointer src) (\<lambda>v. Inr (v, ?w1))
      else dict_item_value_create d src len ?w1) = Inr (?v, with_block bs ?w1)"
    using place_value_link(1) [OF pl, of "Suc (Suc ?n)"] place_value_link(2) [OF pl] place_value_clone [OF pl, of d] assms(1) by auto
  have 3: "store_value (Suc ?n) ?v len (with_block bs ?w1) = Inr (with_block bs ?w1
      \<lparr>w_shareds := (w_shareds w)(?n \<mapsto> ?sh\<lparr>s_value := ?v, s_value_len := len mod (VALUE_LEN_MAX + 1)\<rparr>)\<rparr>)"
    by (simp add: store_value_def heap_defs item_set_name_def)
  show ?thesis
    using assms(1) hooks view
    by (simp add: dict_item_create_with_hooks_def heap_defs(1,4) 1 2 3 del: rbind_Inr_iff)
      (simp add: DICTIONARY_ENTRIES_PLUS1_def heap_defs put_entry_def with_room_def with_block_def new_entry_def counted_def)
qed

lemma index_of_insert:
  assumes "e_name e \<notin> set (names (as @ bs))" and "e_live e"
  shows "index_of (as @ e # bs) = (index_of (as @ bs))(e_name e \<mapsto> e_id e)"
proof
  fix n
  have "index_of as (e_name e) = None" using assms by (simp add: index_of_None)
  then show "index_of (as @ e # bs) n = ((index_of (as @ bs))(e_name e \<mapsto> e_id e)) n"
    using assms(2) by (auto simp: index_of_def map_add_def split: option.splits)
qed

definition linked :: "string \<Rightarrow> nat \<Rightarrow> entry list \<Rightarrow> dictionary \<Rightarrow> dictionary" where
  "linked n i es x = (counted x)\<lparr>d_index := (d_index x)(n \<mapsto> i), d_list := map e_id es\<rparr>"

lemma linked_simps [simp]:
  "d_options (linked n i es x) = d_options x" "d_list (linked n i es x) = map e_id es"
  "plain (linked n i es x) = plain x" "kept x (linked n i es x)"
  by (auto simp: linked_def counted_def plain_def is_dictionary_single_threaded_def kept_def)

text \<open>Objects that do not exist yet.\<close>

definition unused :: "world \<Rightarrow> bool \<Rightarrow> entry \<Rightarrow> bool" where
  "unused w c e \<longleftrightarrow> w_fresh w \<le> e_id e \<and> w_fresh w \<le> e_sid e \<and> (\<forall>m \<in> set (cell c e). w_fresh w \<le> m)"

lemma ok_bounds:
  assumes "ok k w d x es"
  shows "p \<in> ids es \<Longrightarrow> p < w_fresh w" "p \<in> sids es \<Longrightarrow> p < w_fresh w" "p \<in> set (cells (clones x) es) \<Longrightarrow> p < w_fresh w"
  using okD(1,3) [OF assms] by (auto simp: ids_def sids_def rep_def bounded_def)

lemma separate_insert:
  assumes "ok k w d x (as @ bs)" and "unused w (clones x) e"
  shows "separate (clones x) (as @ e # bs)"
proof -
  have "e_id e \<notin> ids (as @ bs)" "e_sid e \<notin> sids (as @ bs)" "set (cell (clones x) e) \<inter> set (cells (clones x) (as @ bs)) = {}"
    using ok_bounds [OF assms(1)] assms(2) by (force simp: unused_def)+
  moreover have "distinct (cell (clones x) e)" by (auto simp: cell_def split: vptr.split)
  ultimately show ?thesis
    using okD(6) [OF assms(1)] by (auto simp: separate_def ids_def sids_def)
qed

lemma inv_insert:
  assumes "ok k w d x (as @ bs)" and "unused w (clones x) e" and "entry_ok (clones x) e"
    and "e_name e \<notin> set (names (as @ bs))" and "e_live e" and "e_held e"
  shows "inv k (linked (e_name e) (e_id e) (as @ e # bs) x) (as @ e # bs)"
proof -
  note i = okD(2) [OF assms(1)]
  have "d_index (linked (e_name e) (e_id e) (as @ e # bs) x) = index_of (as @ e # bs)"
    using index_of_insert [OF assms(4,5)] i by (simp add: inv_def linked_def)
  moreover have "distinct (names (as @ e # bs))" using i assms(4) by (auto simp: inv_def)
  moreover have "d_entries (linked (e_name e) (e_id e) (as @ e # bs) x) = count e_live (as @ e # bs) + k"
    "d_referenced_items (linked (e_name e) (e_id e) (as @ e # bs) x) = count e_held (as @ e # bs)"
    "d_pending_deletion_items (linked (e_name e) (e_id e) (as @ e # bs) x) = count e_pending (as @ e # bs)"
    using i assms(5,6) by (simp_all add: inv_def linked_def counted_def e_pending_def e_held_def)
  ultimately show ?thesis
    using i separate_insert [OF assms(1,2)] assms(3) unfolding inv_def by simp
qed

text \<open>The objects of a new entry are put in place.\<close>

lemma insert_ok:
  assumes "ok k w d x (as @ bs)" and "unused w (clones x) e" and "inv k x' (as @ e # bs)"
    and "d_list x' = map e_id (as @ e # bs)" and "kept x x'"
    and "e_id e < w_fresh w'" "e_sid e < w_fresh w'" "w_fresh w \<le> w_fresh w'"
    and same: "w_dicts w' = w_dicts w" "w_items w' = w_items w" "w_shareds w' = w_shareds w" "w_hooks w' = w_hooks w"
      "w_tid w' = w_tid w" "w_clock w' = w_clock w" "w_waiting w' = w_waiting w" "w_events w' = w_events w"
    and mem: "\<And>m. m < w_fresh w \<Longrightarrow> w_mem w' m = w_mem w m" "\<And>m. w_mem w' m \<noteq> None \<Longrightarrow> m < w_fresh w'"
      "\<And>m. m \<in> set (cell (clones x) e) \<Longrightarrow> w_mem w' m \<noteq> None"
  shows "ok k (put_entry d x' e w') d x' (as @ e # bs)"
    and "evolve d w x (as @ bs) (put_entry d x' e w') x' (as @ e # bs)"
proof -
  note k = okD [OF assms(1)]
  have c: "clones x' = clones x" using assms(5) by (simp add: kept_def)
  have old: "e_id f \<noteq> e_id e \<and> e_sid f \<noteq> e_sid e" if "f \<in> set (as @ bs)" for f
  proof -
    have "e_id f < w_fresh w" "e_sid f < w_fresh w"
      using ok_bounds(1,2) [OF assms(1)] that by (auto simp: ids_def sids_def)
    then show ?thesis using assms(2) by (auto simp: unused_def)
  qed
  have "w_mem w' m \<noteq> None" if "m \<in> set (cells (clones x) (as @ e # bs))" for m
  proof (cases "m \<in> set (cell (clones x) e)")
    case False
    then have m: "m \<in> set (cells (clones x) (as @ bs))" using that by auto
    then have "w_mem w m \<noteq> None" using k(1) by (auto simp: rep_def)
    then show ?thesis using mem(1) ok_bounds(3) [OF assms(1) m] by simp
  qed (rule mem(3))
  moreover have "w_items (put_entry d x' e w') (e_id f) = Some (e_item f) \<and>
      w_shareds (put_entry d x' e w') (e_sid f) = Some (e_shared f)" if "f \<in> set (as @ e # bs)" for f
  proof (cases "f = e")
    case False
    then have "f \<in> set (as @ bs)" using that by auto
    then show ?thesis using old repD [OF k(1)] same by simp
  qed simp
  ultimately have "rep (put_entry d x' e w') d x' (as @ e # bs)"
    using assms(4) c unfolding rep_def by simp
  moreover have "bounded (put_entry d x' e w')"
    using k(3,4) assms(6,7,8) mem(2) same unfolding bounded_def
    by (auto intro: order.strict_trans2)
  ultimately show "ok k (put_entry d x' e w') d x' (as @ e # bs)" using assms(3) by (simp add: ok_def)
  have "within (clones x) w (as @ e # bs) (as @ bs)"
    using assms(2) by (auto simp: within_def unused_def ids_def sids_def)
  moreover have "frame d (clones x) (as @ bs) w (put_entry d x' e w')"
    using assms(2,8) mem(1) same by (auto simp: frame_def unused_def)
  ultimately show "evolve d w x (as @ bs) (put_entry d x' e w') x' (as @ e # bs)"
    using assms(5) by (simp add: evolve_def)
qed

text \<open>The entries around a new one: it goes to the front or to the end.\<close>

definition front_of :: "dictionary \<Rightarrow> entry list \<Rightarrow> entry list" where
  "front_of x es = (if OPTION_ADD_IN_FRONT (d_options x) then [] else es)"

definition back_of :: "dictionary \<Rightarrow> entry list \<Rightarrow> entry list" where
  "back_of x es = (if OPTION_ADD_IN_FRONT (d_options x) then es else [])"

lemma front_back [simp]: "front_of x es @ back_of x es = es"
  by (simp add: front_of_def back_of_def)

lemma add_eq:
  fixes name key :: string and klen :: nat
  assumes "w_dicts w d = Some x" and "plain x" and "placed x w src len bs" and "d_list x = map e_id es"
  defines "e b \<equiv> new_entry x (w_fresh w) name klen (place_ptr x src bs (Suc (Suc (w_fresh w)))) len b"
  defines "W \<equiv> put_entry d (linked key (Suc (w_fresh w)) (front_of x es @ e False # back_of x es) x) (e False) (with_room bs w)"
  assumes "garbage_collect_pending_deletes d W = Inr w'" and "w_dicts w' d = Some x'" "plain x'"
  shows "rbind (dict_item_create_with_hooks d name klen src len cdata None w) (\<lambda>(i, w).
    rbind (hashtable_set_item_unsafe d key i w) (\<lambda>w.
    rbind (dictionary_index_wrlock_unlock d w) (\<lambda>w.
    rbind (item_linked_list_add d i w) (\<lambda>w. Inr (i, True, w))))) = Inr (Suc (w_fresh w), True, w')"
proof -
  let ?x1 = "(counted x)\<lparr>d_index := (d_index x)(key \<mapsto> Suc (w_fresh w))\<rparr>"
  let ?W1 = "put_entry d ?x1 (e True) (with_room bs w)"
  have p1: "plain ?x1" using assms(2) by (simp add: counted_def plain_def is_dictionary_single_threaded_def)
  have 1: "hashtable_set_item_unsafe d key (Suc (w_fresh w)) (put_entry d (counted x) (e True) (with_room bs w)) = Inr ?W1"
    by (simp add: hashtable_set_item_unsafe_def heap_defs) (simp add: put_entry_def counted_def)
  let ?W2 = "put_entry d (linked key (Suc (w_fresh w)) (front_of x es @ e False # back_of x es) x) (e True) (with_room bs w)"
  have 2: "set_dict d (\<lambda>x. x\<lparr>d_list := (if OPTION_ADD_IN_FRONT (d_options x) then Suc (w_fresh w) # d_list x
      else d_list x @ [Suc (w_fresh w)])\<rparr>) ?W1 = Inr ?W2"
    using assms(4)
    by (simp add: heap_defs linked_def front_of_def back_of_def e_def counted_def)
  have 3: "set_item (Suc (w_fresh w)) (\<lambda>it. it\<lparr>i_being_created := False\<rparr>) ?W2 = Inr W"
    by (simp add: heap_defs e_def W_def put_entry_def new_entry_def item_set_name_def)
  show ?thesis
    using create_step [OF assms(1,2,3)] 1 2 3 p1 assms(7-9)
    by (simp add: item_linked_list_add_def e_def [symmetric] del: rbind_Inr_iff)
qed

lemma cell_place:
  assumes "placed x w src len bs" and "e_value e = place_ptr x src bs p"
  shows "set (cell (clones x) e) = (case bs of None \<Rightarrow> {} | Some b \<Rightarrow> {p})"
proof (cases bs)
  case None
  then have "e_value e = Null" if "clones x" using assms(2) that by (simp add: place_ptr_def)
  then have "cell (clones x) e = []" by (auto simp: cell_def)
  then show ?thesis using None by simp
next
  case (Some b)
  have "clones x"
  proof (rule ccontr)
    assume "\<not> clones x"
    then show False using assms(1) Some by (simp add: placed_def)
  qed
  moreover have "e_value e = Mem p" using assms(2) Some by (simp add: place_ptr_def)
  ultimately have "cell (clones x) e = [p]" by (simp add: cell_def)
  then show ?thesis using Some by simp
qed

lemma set_new:
  assumes "ok k w d x es" and "name \<noteq> []" and "\<not> d_destroyed x" and "name \<notin> set (names es)"
    and "placed x w src len bs"
  defines "v \<equiv> place_ptr x src bs (Suc (Suc (w_fresh w)))"
  defines "e \<equiv> new_entry x (w_fresh w) name (length name) v len False"
  shows "\<exists>w' x'. dict_item_add_or_reset_value_and_acquire d (Some name) None src len cdata None w = Inr (Some (e_id e), w') \<and>
    ok k w' d x' (sweep (front_of x es) @ e # sweep (back_of x es)) \<and>
    evolve d w x es w' x' (sweep (front_of x es) @ e # sweep (back_of x es)) \<and>
    (\<forall>b. bs = Some b \<longrightarrow> w_mem w' (Suc (Suc (w_fresh w))) = Some b)"
proof -
  note k = okD [OF assms(1)]
  let ?as = "front_of x es" and ?bs = "back_of x es" and ?n = "w_fresh w"
  let ?x = "linked name (Suc ?n) (?as @ e # ?bs) x"
  let ?W = "put_entry d ?x e (with_room bs w)"
  have ok0: "ok k w d x (?as @ ?bs)" using assms(1) by simp
  have cell: "set (cell (clones x) e) = (case bs of None \<Rightarrow> {} | Some b \<Rightarrow> {Suc (Suc ?n)})"
    using cell_place [OF assms(5)] by (simp add: e_def v_def)
  have un: "unused w (clones x) e" using cell by (auto simp: unused_def e_def split: option.splits)
  have eo: "entry_ok (clones x) e"
    using assms(2,5) by (auto simp: entry_ok_def e_def v_def place_ptr_def split: option.splits)
  have inv: "inv k ?x (?as @ e # ?bs)"
    using inv_insert [OF ok0 un eo] assms(4) by (simp add: e_def)
  have w1: "ok k ?W d ?x (?as @ e # ?bs)" "evolve d w x (?as @ ?bs) ?W ?x (?as @ e # ?bs)"
    using cell k(3) by (intro insert_ok [OF ok0 un inv];
        auto simp: e_def place_mem_def place_size_def bounded_def split: option.splits if_splits)+
  from gc_ok [OF w1(1)] obtain w' x' where
    g: "garbage_collect_pending_deletes d ?W = Inr w'" "ok k w' d x' (sweep (?as @ e # ?bs))"
      "evolve d ?W ?x (?as @ e # ?bs) w' x' (sweep (?as @ e # ?bs))" by metis
  have sw: "sweep (?as @ e # ?bs) = sweep ?as @ e # sweep ?bs" by (simp add: e_def)
  have "d_index x name = None" using k(2) assms(4) index_of_None by (simp add: inv_def)
  moreover have "d_list x = map e_id es" using k(1) by (simp add: rep_def)
  note add_eq [OF k(4,5) assms(5) this, where name = name and key = name and klen = "length name" and w' = w' and x' = x' and cdata = cdata,
      folded v_def, folded e_def]
  ultimately have eq: "dict_item_add_or_reset_value_and_acquire d (Some name) None src len cdata None w = Inr (Some (e_id e), w')"
    using g(1) okD(4,5) [OF g(2)] k(4,5) assms(2,3)
    by (simp add: dict_item_add_or_reset_value_and_acquire_def heap_defs(1,4) hashtable_insert_handle_to_item_unsafe_def
        e_def plain_def del: rbind_Inr_iff)
  have mem: "w_mem w' (Suc (Suc ?n)) = Some b" if "bs = Some b" for b
  proof -
    have "Suc (Suc ?n) \<in> set (cells (clones x') (sweep (?as @ e # ?bs)))"
      using cell that g(3) w1(2) sw by (auto simp: evolve_def kept_def)
    then have present: "w_mem w' (Suc (Suc ?n)) \<noteq> None" using okD(1) [OF g(2)] by (auto simp: rep_def)
    have lt: "Suc (Suc ?n) < w_fresh ?W" and b: "w_mem ?W (Suc (Suc ?n)) = Some b"
      using that by (simp_all add: place_size_def place_mem_def)
    have "\<forall>p < w_fresh ?W. w_mem w' p = w_mem ?W p \<or> w_mem w' p = None"
      using g(3) by (simp add: evolve_def frame_def)
    from this [rule_format, OF lt] show ?thesis using present b by simp
  qed
  have "evolve d w x es w' x' (sweep ?as @ e # sweep ?bs)"
    using evolve_trans [OF w1(2) g(3)] sw by simp
  then show ?thesis using eq g(2) [unfolded sw] mem by (intro exI [of _ w'] exI [of _ x']) simp
qed

subsection \<open>An entry that is there\<close>

definition with_value :: "vptr \<Rightarrow> nat \<Rightarrow> entry \<Rightarrow> entry" where
  "with_value v len e = e\<lparr>e_shared := (e_shared e)\<lparr>s_value := v, s_value_len := len mod (VALUE_LEN_MAX + 1)\<rparr>\<rparr>"

lemma with_value_simps [simp]:
  "e_id (with_value v len e) = e_id e" "e_item (with_value v len e) = e_item e"
  "e_value (with_value v len e) = v" "s_links (e_shared (with_value v len e)) = s_links (e_shared e)"
  "e_held (with_value v len e) = e_held e" "e_pending (with_value v len e) = e_pending e"
  by (simp_all add: with_value_def e_held_def e_pending_def)

definition freeing :: "nat list \<Rightarrow> world \<Rightarrow> world" where
  "freeing ms w = w\<lparr>w_mem := (w_mem w) |` (- set ms)\<rparr>"

lemma freeing_fields [simp]:
  "w_dicts (freeing ms w) = w_dicts w" "w_items (freeing ms w) = w_items w"
  "w_shareds (freeing ms w) = w_shareds w" "w_mem (freeing ms w) = (w_mem w) |` (- set ms)"
  "w_fresh (freeing ms w) = w_fresh w" "w_hooks (freeing ms w) = w_hooks w"
  "w_tid (freeing ms w) = w_tid w" "w_clock (freeing ms w) = w_clock w" "w_reads (freeing ms w) = w_reads w"
  "w_waiting (freeing ms w) = w_waiting w" "w_events (freeing ms w) = w_events w"
  by (simp_all add: freeing_def)

definition renewed :: "dictionary \<Rightarrow> dictionary" where
  "renewed x = x\<lparr>d_version := d_version x + 1\<rparr>"

lemma renewed_simps [simp]:
  "d_options (renewed x) = d_options x" "d_list (renewed x) = d_list x" "plain (renewed x) = plain x"
  "kept x (renewed x)" "d_index (renewed x) = d_index x" "d_entries (renewed x) = d_entries x"
  "d_referenced_items (renewed x) = d_referenced_items x"
  "d_pending_deletion_items (renewed x) = d_pending_deletion_items x"
  by (auto simp: renewed_def plain_def is_dictionary_single_threaded_def kept_def)

lemma reset_step:
  assumes "ok k w d x es" and "e \<in> set es" and "placed x w src len bs"
  shows "dict_item_reset_value_with_hooks d (e_id e) src len cdata w =
    Inr (put_entry d (renewed x) (with_value (place_ptr x src bs (w_fresh w)) len e)
      (freeing (cell (clones x) e) (with_block bs w)))"
proof -
  note k = okD [OF assms(1)] and h = ok_entry [OF assms(1,2)]
  note view = plainD(2) [OF k(5)] and hooks = plainD(4) [OF k(5)]
  let ?v = "place_ptr x src bs (w_fresh w)"
  let ?w1 = "w\<lparr>w_dicts := (w_dicts w)(d \<mapsto> renewed x)\<rparr>"
  have pl: "placed (renewed x) ?w1 src len bs" using assms(3) placed_cong [of ?w1 w "renewed x" x]
    by (simp add: renewed_def)
  note defs = dict_item_reset_value_with_hooks_def DICTIONARY_VALUE_RESETS_PLUS1_def heap_defs store_value_def
    item_value_def
  have r: "x\<lparr>d_version := d_version x + 1\<rparr> = renewed x" "d_hooks (renewed x) = None" using hooks by (simp_all add: renewed_def)
  have v: "place_ptr (renewed x) src bs p = place_ptr x src bs p" for p by (simp add: place_ptr_def)
  show ?thesis
  proof (cases "clones x")
    case False
    then have "cell (clones x) e = []" by (simp add: cell_def)
    then have "freeing (cell (clones x) e) (with_block bs w) = w"
      using place_value_link(2) [OF assms(3) False] by (simp add: freeing_def)
    then show ?thesis
      using False k(4) h view r place_value_link(1) [OF assms(3) False, of "w_fresh w"]
      by (simp add: defs map_upd_triv del: rbind_Inr_iff) (simp add: put_entry_def with_value_def map_upd_triv)
  next
    case True
    note c = place_value_clone [OF pl, of d, simplified v, simplified, OF True]
    let ?w2 = "with_block bs ?w1\<lparr>w_shareds := (w_shareds w)(e_sid e \<mapsto> e_shared (with_value ?v len e))\<rparr>"
    have old: "dict_item_value_freez (e_value e) ?w2 = Inr (freeing (cell (clones x) e) ?w2)"
    proof (cases "e_value e")
      case (Mem m)
      then have "m \<in> set (cells (clones x) es)" using True assms(2) by (force simp: cells_def cell_def)
      then have "w_mem w m \<noteq> None" using k(1) by (auto simp: rep_def)
      then show ?thesis
        using Mem True by (auto simp: heap_defs cell_def freeing_def mem_minus place_mem_def split: option.splits)
    qed (use h(3) True in \<open>simp_all add: entry_ok_def cell_def freeing_def\<close>)
    show ?thesis
      using True k(4) h view r c old
      by (simp add: defs with_value_def del: rbind_Inr_iff)
        (simp add: put_entry_def with_value_def freeing_def with_block_def map_upd_triv)
  qed
qed

lemma inv_with_value:
  assumes "inv k x (as @ e # bs)" and "clones x \<longrightarrow> (\<forall>a. v \<noteq> Addr a)"
    and "set (cell (clones x) (with_value v len e)) \<inter> set (cells (clones x) (as @ bs)) = {}"
  shows "inv k (renewed x) (as @ with_value v len e # bs)"
proof -
  have "distinct (cell (clones x) (with_value v len e))" by (auto simp: cell_def split: vptr.split)
  then have "separate (clones x) (as @ with_value v len e # bs)"
    using assms(1,3) by (auto simp: inv_def separate_def)
  moreover have "index_of (as @ with_value v len e # bs) = index_of (as @ e # bs)" by (simp add: index_of_def)
  ultimately show ?thesis
    using assms(1,2) unfolding inv_def by (auto simp: entry_ok_def)
qed

text \<open>The memory after a value was stored in a new block and the old block was freed.\<close>

lemma replace_ok:
  assumes "ok k w d x (as @ e # bs)" and "inv k' x' (as @ e' # bs)"
    and "e_id e' = e_id e" "e_sid e' = e_sid e" "d_list x' = d_list x" "kept x x'"
    and cell: "set (cell (clones x) e') = (case blk of None \<Rightarrow> {} | Some b \<Rightarrow> {w_fresh w})"
  defines "w' \<equiv> put_entry d x' e' (freeing (cell (clones x) e) (with_block blk w))"
  shows "ok k' w' d x' (as @ e' # bs)" and "evolve d w x (as @ e # bs) w' x' (as @ e' # bs)"
proof -
  note k = okD [OF assms(1)]
  have o: "d_options x' = d_options x" using assms(6) by (simp add: kept_def)
  have lt: "m < w_fresh w" if "m \<in> set (cell (clones x) e)" for m
    using ok_bounds(3) [OF assms(1)] that by simp
  have mem: "w_mem w' m = (if m \<in> set (cell (clones x) e) then None else place_mem blk (w_fresh w) (w_mem w) m)" for m
    by (simp add: w'_def restrict_map_def)
  have "rep w' d x' (as @ e' # bs)"
  proof (rule rep_replace [OF k(1,6) assms(3,4) _ assms(5) o])
    show "w_mem w' m \<noteq> None" if "m \<in> set (cell (clones x) e')" for m
      using that cell lt [of m] by (auto simp: mem place_mem_def split: option.splits)
  qed (auto simp: mem place_mem_def w'_def assms(3,4) split: option.split)
  moreover have "bounded w'"
    using k(3) put_entry_bounded [OF k(1) _ assms(3,4) k(3), of x']
    by (auto simp: bounded_def w'_def restrict_map_def place_mem_def place_size_def split: option.splits if_splits)
  ultimately show "ok k' w' d x' (as @ e' # bs)" using assms(2) by (simp add: ok_def)
  have "within (clones x) w (as @ e' # bs) (as @ e # bs)"
    using cell by (intro within_mid assms(3,4)) (auto split: option.splits)
  moreover have "frame d (clones x) (as @ e # bs) w w'"
    using put_entry_frame [of e "as @ e # bs" e' d "clones x" w x'] assms(3,4) lt
    by (auto simp: frame_def mem place_mem_def split: option.splits) (auto simp: w'_def place_size_def)
  ultimately show "evolve d w x (as @ e # bs) w' x' (as @ e' # bs)" using assms(6) by (simp add: evolve_def)
qed

abbreviation keeps_values :: "dictionary \<Rightarrow> bool" where
  "keeps_values x \<equiv> OPTION_DONT_OVERWRITE_VALUE (d_options x)"

lemma reset_ok:
  assumes "ok k w d x (as @ e # bs)" and "placed x w src len blk"
  defines "e' \<equiv> with_value (place_ptr x src blk (w_fresh w)) len e"
  shows "\<exists>w' x'. dict_item_reset_value_with_hooks d (e_id e) src len cdata w = Inr w' \<and>
    ok k w' d x' (as @ e' # bs) \<and> evolve d w x (as @ e # bs) w' x' (as @ e' # bs) \<and>
    (\<forall>b. blk = Some b \<longrightarrow> w_mem w' (w_fresh w) = Some b)"
proof -
  let ?w = "put_entry d (renewed x) e' (freeing (cell (clones x) e) (with_block blk w))"
  have eq: "dict_item_reset_value_with_hooks d (e_id e) src len cdata w = Inr ?w"
    using reset_step [OF assms(1) _ assms(2)] by (simp add: e'_def)
  have cell: "set (cell (clones x) e') = (case blk of None \<Rightarrow> {} | Some b \<Rightarrow> {w_fresh w})"
    using cell_place [OF assms(2)] by (simp add: e'_def)
  have fresh: "w_fresh w \<notin> set (cells (clones x) (as @ e # bs))" using ok_bounds(3) [OF assms(1)] by blast
  then have "set (cell (clones x) e') \<inter> set (cells (clones x) (as @ bs)) = {}"
    using cell by (auto split: option.splits)
  moreover have "clones x \<longrightarrow> (\<forall>a. place_ptr x src blk (w_fresh w) \<noteq> Addr a)"
    by (auto simp: place_ptr_def split: option.splits)
  ultimately have "inv k (renewed x) (as @ e' # bs)"
    using inv_with_value [OF okD(2) [OF assms(1)]] by (simp add: e'_def)
  note r = replace_ok [OF assms(1) this _ _ _ _ cell, simplified e'_def with_value_simps renewed_simps]
  have "w_mem ?w (w_fresh w) = Some b" if "blk = Some b" for b
    using that fresh by (simp add: place_mem_def)
  then show ?thesis using eq r by (auto simp: e'_def)
qed

lemma set_existing:
  assumes "ok k w d x (as @ e # bs)" and "e_live e" and "\<not> d_destroyed x" and "placed x w src len blk"
  shows "\<exists>w' x' e'. dict_item_add_or_reset_value_and_acquire d (Some (e_name e)) None src len cdata None w = Inr (Some (e_id e), w') \<and>
    ok k w' d x' (as @ e' # bs) \<and> evolve d w x (as @ e # bs) w' x' (as @ e' # bs) \<and>
    e_id e' = e_id e \<and> e_item e' = e_item (add_refs 1 e) \<and>
    e_value e' = (if keeps_values x then e_value e else place_ptr x src blk (w_fresh w)) \<and>
    (\<not> keeps_values x \<longrightarrow> (\<forall>b. blk = Some b \<longrightarrow> w_mem w' (w_fresh w) = Some b))"
proof -
  note k = okD [OF assms(1)]
  let ?e = "add_refs 1 e" and ?x = "with_refs (as @ add_refs 1 e # bs) x"
  let ?w = "put_entry d ?x ?e w"
  have refs: "e_refs e + 1 \<ge> 0" using inv_counters(4) [OF k(2), of e] by simp
  note a = acquire_step [OF k(1,2) assms(2), of True]
  note k1 = add_refs_ok(1) [OF assms(1) refs] and v1 = add_refs_ok(2) [OF assms(1) refs]
  have x: "d_options ?x = d_options x" "d_destroyed ?x = d_destroyed x" "d_value_aral ?x = d_value_aral x"
    using with_refs_simps(1) [of x] by (auto simp: kept_def)
  have pl: "placed ?x ?w src len blk" using assms(4) placed_cong [of ?w w ?x x] x by simp
  have name: "e_name e \<noteq> []" using ok_entry(3) [OF assms(1), of e] by (simp add: entry_ok_def)
  note defs = dict_item_add_or_reset_value_and_acquire_def hashtable_insert_handle_to_item_unsafe_def
    dict_item_reset_found_def heap_defs(1,4)
  have view: "\<not> is_view_dictionary x" "is_master_dictionary x" "\<not> is_view_dictionary ?x" "d_hooks x = None" "d_hooks ?x = None"
    using plainD [OF k(5)] plainD [OF okD(5) [OF k1]] by auto
  have i: "d_index x (e_name e) = Some (e_id e)" by (rule inv_index_at [OF k(2) assms(2)])
  show ?thesis
  proof (cases "keeps_values x")
    case True
    have "dict_item_add_or_reset_value_and_acquire d (Some (e_name e)) None src len cdata None w = Inr (Some (e_id e), ?w)"
      using k(4,5) okD(4,5) [OF k1] assms(3) name i a True x view by (simp add: defs del: rbind_Inr_iff)
    then show ?thesis using True k1 v1 by (intro exI [of _ ?w] exI [of _ ?x] exI [of _ ?e]) simp
  next
    case False
    from reset_ok [OF k1 pl, of cdata] obtain w' x' where
      r: "dict_item_reset_value_with_hooks d (e_id e) src len cdata ?w = Inr w'"
        "ok k w' d x' (as @ with_value (place_ptr ?x src blk (w_fresh w)) len ?e # bs)"
        "evolve d ?w ?x (as @ ?e # bs) w' x' (as @ with_value (place_ptr ?x src blk (w_fresh w)) len ?e # bs)"
        "\<forall>b. blk = Some b \<longrightarrow> w_mem w' (w_fresh w) = Some b" by auto
    have "d_hooks x' = None" using plainD(4) [OF okD(5) [OF r(2)]] .
    then have "dict_item_add_or_reset_value_and_acquire d (Some (e_name e)) None src len cdata None w = Inr (Some (e_id e), w')"
      using k(4,5) okD(4,5) [OF k1] okD(4,5) [OF r(2)] assms(3) name i a False x view r(1)
      by (simp add: defs del: rbind_Inr_iff)
    moreover have "place_ptr ?x src blk p = place_ptr x src blk p" for p using x by (simp add: place_ptr_def)
    ultimately show ?thesis
      using False r(2,4) evolve_trans [OF v1 r(3)]
      by (intro exI [of _ w'] exI [of _ x'] exI [of _ "with_value (place_ptr ?x src blk (w_fresh w)) len ?e"]) simp
  qed
qed

subsection \<open>The public operation\<close>

text \<open>A binding is replaced where it is; a new one goes to the front or to the end.\<close>

definition put_binding :: "bool \<Rightarrow> string \<Rightarrow> 'v \<Rightarrow> (string \<times> 'v) list \<Rightarrow> (string \<times> 'v) list" where
  "put_binding front n v c =
     (if n \<in> fst ` set c then map (\<lambda>(m, u). (m, if m = n then v else u)) c
      else if front then (n, v) # c else c @ [(n, v)])"

lemma put_binding_mid:
  assumes "distinct (names (as @ e # bs))" and "e_live e" and "e_item e' = e_item (add_refs 1 e)"
  shows "contents (as @ e' # bs) = put_binding front (e_name e) (e_value e') (contents (as @ e # bs))"
proof -
  have "map (\<lambda>(m, u). (m, if m = e_name e then v else u)) (contents fs) = contents fs"
    if "e_name e \<notin> set (names fs)" for v fs
    using that by (intro map_idI) (auto simp: names_contents image_iff)
  then show ?thesis using assms by (auto simp: put_binding_def)
qed

lemma put_binding_new:
  assumes "name \<notin> set (names es)" and "e_live e" and "e_name e = name"
  shows "contents (sweep (front_of x es) @ e # sweep (back_of x es)) =
    put_binding (OPTION_ADD_IN_FRONT (d_options x)) name (e_value e) (contents es)"
  using assms by (auto simp: put_binding_def names_contents front_of_def back_of_def)

lemma contents_refs [simp]: "contents (as @ add_refs n e # bs) = contents (as @ e # bs)"
  by simp

text \<open>The value that is in the dictionary after a call.\<close>

definition stored :: "dictionary \<Rightarrow> entry list \<Rightarrow> string \<Rightarrow> vsrc \<Rightarrow> string option \<Rightarrow> nat \<Rightarrow> vptr" where
  "stored x es name src blk p =
     (if keeps_values x \<and> name \<in> set (names es) then value_at es name else place_ptr x src blk p)"

lemma set_acquired:
  assumes "ok k w d x es" and "name \<noteq> []" and "\<not> d_destroyed x" and "placed x w src len blk"
  obtains w' x' as e bs p where
    "dict_item_add_or_reset_value_and_acquire d (Some name) None src len cdata None w = Inr (Some (e_id e), w')"
    "ok k w' d x' (as @ e # bs)" "evolve d w x es w' x' (as @ e # bs)" "e_held e" "e_value e = stored x es name src blk p"
    "contents (as @ e # bs) = put_binding (OPTION_ADD_IN_FRONT (d_options x)) name (e_value e) (contents es)"
    "w_fresh w \<le> p" "keeps_values x \<and> name \<in> set (names es) \<or> (\<forall>b. blk = Some b \<longrightarrow> w_mem w' p = Some b)"
    "busy (as @ add_refs (- 1) e # bs) \<longrightarrow> busy es"
proof (cases "name \<in> set (names es)")
  case False
  let ?e = "new_entry x (w_fresh w) name (length name) (place_ptr x src blk (Suc (Suc (w_fresh w)))) len False"
  from set_new [OF assms(1-3) False assms(4), of cdata] obtain w' x' where
    r: "dict_item_add_or_reset_value_and_acquire d (Some name) None src len cdata None w = Inr (Some (e_id ?e), w')"
      "ok k w' d x' (sweep (front_of x es) @ ?e # sweep (back_of x es))"
      "evolve d w x es w' x' (sweep (front_of x es) @ ?e # sweep (back_of x es))"
      "\<forall>b. blk = Some b \<longrightarrow> w_mem w' (Suc (Suc (w_fresh w))) = Some b" by blast
  show ?thesis
  proof (rule that [OF r(1-3)])
    show "e_value ?e = stored x es name src blk (Suc (Suc (w_fresh w)))" using False by (simp add: stored_def)
    show "contents (sweep (front_of x es) @ ?e # sweep (back_of x es)) =
        put_binding (OPTION_ADD_IN_FRONT (d_options x)) name (e_value ?e) (contents es)"
      using put_binding_new [OF False, of ?e x] by simp
    show "busy (sweep (front_of x es) @ add_refs (- 1) ?e # sweep (back_of x es)) \<longrightarrow> busy es"
      by (auto simp: busy_def sweep_def front_of_def back_of_def e_held_def new_entry_def item_set_name_def split: if_splits)
  qed (use r(4) in simp_all)
next
  case True
  then obtain as e bs where e: "es = as @ e # bs" "e_live e" "e_name e = name" using names_split by metis
  have d: "distinct (names (as @ e # bs))" using okD(2) [OF assms(1)] e by (simp add: inv_def)
  then have v: "value_at es name = e_value e" using contents_lookup [of as e bs] e by (simp add: value_at_def)
  have refs: "e_refs e \<ge> 0" using inv_counters(4) [OF okD(2) [OF assms(1)], of e] e by simp
  from set_existing [OF assms(1) [unfolded e(1)] e(2) assms(3,4), of cdata] obtain w' x' e' where
    r: "dict_item_add_or_reset_value_and_acquire d (Some name) None src len cdata None w = Inr (Some (e_id e'), w')"
      "ok k w' d x' (as @ e' # bs)" "evolve d w x es w' x' (as @ e' # bs)" "e_item e' = e_item (add_refs 1 e)"
      "e_value e' = (if keeps_values x then e_value e else place_ptr x src blk (w_fresh w))"
      "\<not> keeps_values x \<longrightarrow> (\<forall>b. blk = Some b \<longrightarrow> w_mem w' (w_fresh w) = Some b)"
    using e by metis
  show ?thesis
  proof (rule that [OF r(1-3)])
    show "e_held e'" using refs r(4) by (simp add: e_held_def)
    show "e_value e' = stored x es name src blk (w_fresh w)" using r(5) True v by (simp add: stored_def)
    show "contents (as @ e' # bs) = put_binding (OPTION_ADD_IN_FRONT (d_options x)) name (e_value e') (contents es)"
      using put_binding_mid [OF d e(2) r(4)] e by simp
    show "busy (as @ add_refs (- 1) e' # bs) \<longrightarrow> busy es" using r(4) e(1) by (auto simp: busy_def e_held_def)
  qed (use True r(6) in auto)
qed

text \<open>Setting a value by name.\<close>

lemma set_from_acquired:
  assumes "ok k w d x es" and "name \<noteq> []"
    and "dict_item_add_or_reset_value_and_acquire d (Some name) None src len Null None w = Inr (Some (e_id e), w1)"
    and "ok k w1 d x1 (as @ e # bs)" and "evolve d w x es w1 x1 (as @ e # bs)" and "e_held e"
  shows "\<exists>w' x'. dictionary_set d (Some name) src len w = Inr (e_value e, w') \<and> ok k w' d x' (as @ add_refs (- 1) e # bs) \<and>
    evolve d w x es w' x' (as @ add_refs (- 1) e # bs) \<and> w_mem w' = w_mem w1"
proof -
  have "e_refs e + - 1 \<ge> 0" using assms(6) by (simp add: e_held_def)
  note r = release_step [OF okD(1,2) [OF assms(4)] assms(6)] add_refs_ok [OF assms(4) this]
  let ?w = "put_entry d (with_refs (as @ add_refs (- 1) e # bs) x1) (add_refs (- 1) e) w1"
  have "dictionary_set d (Some name) src len w = Inr (e_value e, ?w)"
    using assms(3) r(1) ok_entry(1,2) [OF assms(4), of e] okD(4) [OF assms(1)] plainD(2) [OF okD(5) [OF assms(1)]] assms(2)
    by (simp add: dictionary_set_def dictionary_set_advanced_def dictionary_set_and_acquire_item_advanced_def
        api_is_name_good_def heap_defs item_value_def del: rbind_Inr_iff)
  then show ?thesis using r(2) evolve_trans [OF assms(5) r(3)] by (intro exI) auto
qed

lemma set_ok:
  assumes "ok k w d x es" and "name \<noteq> []" and "\<not> d_destroyed x" and "placed x w src len blk"
  shows "\<exists>w' x' es' p. dictionary_set d (Some name) src len w = Inr (stored x es name src blk p, w') \<and>
    ok k w' d x' es' \<and> evolve d w x es w' x' es' \<and>
    contents es' = put_binding (OPTION_ADD_IN_FRONT (d_options x)) name (stored x es name src blk p) (contents es) \<and>
    w_fresh w \<le> p \<and> (keeps_values x \<and> name \<in> set (names es) \<or> (\<forall>b. blk = Some b \<longrightarrow> w_mem w' p = Some b)) \<and>
    (busy es' \<longrightarrow> busy es)"
proof -
  from set_acquired [OF assms, of Null] obtain w1 x1 as e bs p where
    s: "dict_item_add_or_reset_value_and_acquire d (Some name) None src len Null None w = Inr (Some (e_id e), w1)"
      "ok k w1 d x1 (as @ e # bs)" "evolve d w x es w1 x1 (as @ e # bs)" "e_held e" "e_value e = stored x es name src blk p"
      "contents (as @ e # bs) = put_binding (OPTION_ADD_IN_FRONT (d_options x)) name (e_value e) (contents es)"
      "w_fresh w \<le> p" "keeps_values x \<and> name \<in> set (names es) \<or> (\<forall>b. blk = Some b \<longrightarrow> w_mem w1 p = Some b)"
      "busy (as @ add_refs (- 1) e # bs) \<longrightarrow> busy es" .
  from set_from_acquired [OF assms(1,2) s(1-4)] obtain w' x' where
    r: "dictionary_set d (Some name) src len w = Inr (e_value e, w')" "ok k w' d x' (as @ add_refs (- 1) e # bs)"
      "evolve d w x es w' x' (as @ add_refs (- 1) e # bs)" "w_mem w' = w_mem w1" by blast
  then show ?thesis
    using s(5-9) by (intro exI [of _ w'] exI [of _ x'] exI [of _ "as @ add_refs (- 1) e # bs"] exI [of _ p]) (simp split: if_splits)
qed

text \<open>A name that is not there: the entry that is added.\<close>

lemma set_added:
  assumes "ok k w d x es" and "name \<noteq> []" and "\<not> d_destroyed x" and "name \<notin> set (names es)" and "placed x w src len blk"
  shows "\<exists>v w' x' n. dictionary_set d (Some name) src len w = Inr (v, w') \<and>
    ok k w' d x' (sweep (front_of x es) @ n # sweep (back_of x es)) \<and> e_name n = name \<and> e_live n \<and> e_refs n = 0"
proof -
  let ?e = "new_entry x (w_fresh w) name (length name) (place_ptr x src blk (Suc (Suc (w_fresh w)))) len False"
  from set_new [OF assms, of Null] obtain w1 x1 where
    r: "dict_item_add_or_reset_value_and_acquire d (Some name) None src len Null None w = Inr (Some (e_id ?e), w1)"
      "ok k w1 d x1 (sweep (front_of x es) @ ?e # sweep (back_of x es))"
      "evolve d w x es w1 x1 (sweep (front_of x es) @ ?e # sweep (back_of x es))" by blast
  have h: "e_held ?e" by (simp add: e_held_def)
  from set_from_acquired [OF assms(1,2) r h] show ?thesis
    by (elim exE conjE) (intro exI conjI, assumption, assumption, simp_all)
qed

end
