(* ===== verification/Dictionary_World.thy ===== *)
theory Dictionary_World
  imports Dictionary_Set
begin

text \<open>
  Worlds with several dictionaries.  Every dictionary satisfies its invariant, and no two share an
  object; an operation on one dictionary that keeps to its own objects leaves the others alone.
\<close>

section \<open>Well-formed worlds\<close>

definition entry_at :: "world \<Rightarrow> iid \<Rightarrow> entry" where
  "entry_at w i =
     (let it = the (w_items w i) in \<lparr>e_id = i, e_item = it, e_shared = the (w_shareds w (i_shared it))\<rparr>)"

definition entries :: "world \<Rightarrow> did \<Rightarrow> entry list" where
  "entries w d = (case w_dicts w d of None \<Rightarrow> [] | Some x \<Rightarrow> map (entry_at w) (d_list x))"

lemma rep_entries: "rep w d x es \<Longrightarrow> entries w d = es"
  by (auto simp: rep_def entries_def entry_at_def Let_def intro!: map_idI)

definition apart :: "dictionary \<Rightarrow> entry list \<Rightarrow> dictionary \<Rightarrow> entry list \<Rightarrow> bool" where
  "apart x es y fs \<longleftrightarrow>
     ids es \<inter> ids fs = {} \<and> sids es \<inter> sids fs = {} \<and>
     set (cells (clones x) es) \<inter> set (cells (clones y) fs) = {}"

lemma apart_sym: "apart x es y fs \<Longrightarrow> apart y fs x es"
  by (auto simp: apart_def)

definition world_ok :: "world \<Rightarrow> bool" where
  "world_ok w \<longleftrightarrow>
     bounded w \<and>
     (\<forall>d x. w_dicts w d = Some x \<longrightarrow> ok 0 w d x (entries w d) \<and> (d_destroyed x \<longleftrightarrow> d \<in> set (w_waiting w))) \<and>
     (\<forall>d x d' x'. w_dicts w d = Some x \<longrightarrow> w_dicts w d' = Some x' \<longrightarrow> d \<noteq> d' \<longrightarrow>
        apart x (entries w d) x' (entries w d')) \<and>
     distinct (w_waiting w) \<and> (\<forall>d \<in> set (w_waiting w). w_dicts w d \<noteq> None)"

lemma world_okD:
  assumes "world_ok w" and "w_dicts w d = Some x"
  shows "ok 0 w d x (entries w d)" "d_destroyed x \<longleftrightarrow> d \<in> set (w_waiting w)"
    "\<And>d' x'. w_dicts w d' = Some x' \<Longrightarrow> d \<noteq> d' \<Longrightarrow> apart x (entries w d) x' (entries w d')"
  using assms unfolding world_ok_def by blast+

lemma world_ok_bounded: "world_ok w \<Longrightarrow> bounded w"
  by (simp add: world_ok_def)

text \<open>What a step on dictionary \<open>d\<close> leaves of another dictionary.\<close>

definition untouched :: "world \<Rightarrow> world \<Rightarrow> did \<Rightarrow> bool" where
  "untouched w w' d \<longleftrightarrow>
     w_dicts w' d = w_dicts w d \<and> entries w' d = entries w d \<and>
     (\<forall>x. w_dicts w d = Some x \<longrightarrow> (\<forall>m \<in> set (cells (clones x) (entries w d)). w_mem w' m = w_mem w m))"

lemma untouched_refl [simp]: "untouched w w d"
  by (simp add: untouched_def)

lemma untouched_trans: "untouched w w1 d \<Longrightarrow> untouched w1 w2 d \<Longrightarrow> untouched w w2 d"
  by (simp add: untouched_def)

lemma other_entries:
  assumes "ok k w d' y fs" and "apart x es y fs" and "frame d (clones x) es w w'" and "d \<noteq> d'" and "bounded w'"
  shows "ok k w' d' y fs" "untouched w w' d'"
proof -
  note k = okD [OF assms(1)] and f = assms(3) [unfolded frame_def]
  have e: "w_items w' (e_id e) = Some (e_item e) \<and> w_shareds w' (e_sid e) = Some (e_shared e)" if "e \<in> set fs" for e
  proof -
    have "e_id e \<in> ids fs" "e_sid e \<in> sids fs" using that by (simp_all add: ids_def sids_def)
    then have "e_id e \<notin> ids es" "e_sid e \<notin> sids es" "e_id e < w_fresh w" "e_sid e < w_fresh w"
      using assms(2) ok_bounds(1,2) [OF assms(1)] by (auto simp: apart_def)
    then show ?thesis using f repD [OF k(1) that] by simp
  qed
  have m: "w_mem w' m = w_mem w m" if "m \<in> set (cells (clones y) fs)" for m
    using that f assms(2) ok_bounds(3) [OF assms(1) that] by (auto simp: apart_def)
  have d: "w_dicts w' d' = w_dicts w d'" using f assms(4) by simp
  have r: "rep w' d' y fs" using k(1) e m d by (auto simp: rep_def)
  then show "ok k w' d' y fs" using k(2) assms(5) by (simp add: ok_def)
  show "untouched w w' d'"
    using rep_entries [OF r] rep_entries [OF k(1)] d m k(4) by (auto simp: untouched_def)
qed

lemma apart_evolve:
  assumes "apart x es y fs" and "within (clones x) w es' es" and "d_options x' = d_options x" and "ok k w d' y fs"
  shows "apart x' es' y fs"
proof -
  have "p < w_fresh w" if "p \<in> ids fs \<or> p \<in> sids fs \<or> p \<in> set (cells (clones y) fs)" for p
    using that ok_bounds [OF assms(4)] by blast
  then show ?thesis using assms(1-3) unfolding apart_def within_def by fastforce
qed

lemma world_ok_step:
  assumes "world_ok w" and "w_dicts w d = Some x"
    and "ok 0 w' d x' es'" and "evolve d w x (entries w d) w' x' es'"
  shows "world_ok w'" and "entries w' d = es'" and "\<And>d'. d' \<noteq> d \<Longrightarrow> untouched w w' d'"
proof -
  note f = assms(4) [unfolded evolve_def]
  have b: "bounded w'" using assms(3) by (simp add: ok_def)
  have wait: "w_waiting w' = w_waiting w" and dicts: "\<And>p. p \<noteq> d \<Longrightarrow> w_dicts w' p = w_dicts w p"
    using f by (auto simp: frame_def)
  show es: "entries w' d = es'" using rep_entries [OF okD(1) [OF assms(3)]] .
  have other: "ok 0 w' d' y (entries w d')" "untouched w w' d'" "apart x' es' y (entries w d')"
    if "w_dicts w d' = Some y" "d' \<noteq> d" for d' y
  proof -
    have o: "ok 0 w d' y (entries w d')" by (rule world_okD(1) [OF assms(1) that(1)])
    have a: "apart x (entries w d) y (entries w d')"
      using world_okD(3) [OF assms(1,2) that(1)] that(2) by blast
    show "ok 0 w' d' y (entries w d')" "untouched w w' d'"
      using other_entries [OF o a conjunct1 [OF f] _ b] that(2) by simp_all
    show "apart x' es' y (entries w d')"
      using apart_evolve [OF a _ _ o] f by (simp add: kept_def)
  qed
  show u: "untouched w w' d'" if "d' \<noteq> d" for d'
  proof (cases "w_dicts w d'")
    case None
    then show ?thesis using dicts [OF that] by (simp add: untouched_def entries_def)
  qed (use other(2) that in blast)
  then have same: "entries w' d' = entries w d'" if "d' \<noteq> d" for d' using that by (simp add: untouched_def)
  show "world_ok w'"
    unfolding world_ok_def
  proof (intro conjI allI impI ballI)
    fix p y
    assume p: "w_dicts w' p = Some y"
    show "ok 0 w' p y (entries w' p)"
      using p okD(4) [OF assms(3)] assms(3) es other(1) dicts same by (cases "p = d") auto
    show "d_destroyed y \<longleftrightarrow> p \<in> set (w_waiting w')"
      using p okD(4) [OF assms(3)] f world_okD(2) [OF assms(1)] assms(2) dicts wait
      by (cases "p = d") (auto simp: kept_def)
  next
    fix p y q z
    assume p: "w_dicts w' p = Some y" and q: "w_dicts w' q = Some z" and ne: "p \<noteq> q"
    consider "p = d" | "q = d" | "p \<noteq> d" "q \<noteq> d" by blast
    then show "apart y (entries w' p) z (entries w' q)"
    proof cases
      case 1
      then show ?thesis using p q ne okD(4) [OF assms(3)] es same [of q] dicts [of q] other(3) [of q z] by simp
    next
      case 2
      then show ?thesis
        using p q ne okD(4) [OF assms(3)] es same [of p] dicts [of p] other(3) [of p y] apart_sym by simp
    next
      case 3
      then show ?thesis using p q ne same dicts world_okD(3) [OF assms(1)] by simp
    qed
  next
    fix p
    assume "p \<in> set (w_waiting w')"
    then show "w_dicts w' p \<noteq> None"
      using assms(1) wait dicts okD(4) [OF assms(3)] by (cases "p = d") (auto simp: world_ok_def)
  qed (use b assms(1) wait in \<open>simp_all add: world_ok_def\<close>)
qed

section \<open>What a dictionary holds\<close>

text \<open>
  The names of a dictionary with their values, in order; and with the bytes of their values, for a
  dictionary that clones them.
\<close>

definition bindings :: "world \<Rightarrow> did \<Rightarrow> (string \<times> vptr) list" where
  "bindings w d = contents (entries w d)"

definition bytes_at :: "world \<Rightarrow> vptr \<Rightarrow> string option" where
  "bytes_at w v = (case v of Mem m \<Rightarrow> w_mem w m | _ \<Rightarrow> None)"

definition texts :: "world \<Rightarrow> did \<Rightarrow> (string \<times> string option) list" where
  "texts w d = map (\<lambda>(n, v). (n, bytes_at w v)) (bindings w d)"

lemma contents_cell:
  assumes "(n, Mem m) \<in> set (contents es)"
  shows "m \<in> set (cells True es)"
proof -
  obtain e where "e \<in> set es" "e_value e = Mem m" using assms by (auto simp: contents_def)
  moreover from this have "cell True e = [m]" by (simp add: cell_def)
  ultimately show ?thesis by (force simp: cells_def)
qed

lemma evolve_bytes:
  assumes "ok k w d x es" and "ok k' w' d x' es'" and "evolve d w x es w' x' es'" and "clones x"
    and "(n, v) \<in> set (contents es)" and "(n', v) \<in> set (contents es')"
  shows "bytes_at w' v = bytes_at w v"
proof (cases v)
  case (Mem m)
  have "clones x'" using assms(3,4) by (simp add: evolve_def kept_def)
  then have "w_mem w' m \<noteq> None"
    using contents_cell [of n' m es'] assms(6) Mem okD(1) [OF assms(2)] by (simp add: rep_def)
  moreover have "m < w_fresh w"
    using contents_cell [of n m es] assms(4,5) Mem ok_bounds(3) [OF assms(1)] by simp
  then have "w_mem w' m = w_mem w m \<or> w_mem w' m = None" using assms(3) by (simp add: evolve_def frame_def)
  ultimately show ?thesis using Mem by (auto simp: bytes_at_def)
qed (simp_all add: bytes_at_def)

lemma fst_map_values:
  "fst ` set (map (\<lambda>(m, u). (m, h m u)) c) = fst ` set c" "map fst (map (\<lambda>(m, u). (m, h m u)) c) = map fst c"
  by (induction c) auto

lemma put_binding_map:
  "map (\<lambda>(m, u). (m, g u)) (put_binding front n v c) = put_binding front n (g v) (map (\<lambda>(m, u). (m, g u)) c)"
proof (cases "n \<in> fst ` set c")
  case True
  moreover from this have "n \<in> fst ` set (map (\<lambda>(m, u). (m, g u)) c)" by (simp only: fst_map_values)
  ultimately show ?thesis by (simp add: put_binding_def split_beta if_distrib [of g] del: set_map cong: if_cong)
next
  case False
  moreover from this have "n \<notin> fst ` set (map (\<lambda>(m, u). (m, g u)) c)" by (simp only: fst_map_values simp_thms)
  ultimately show ?thesis by (simp add: put_binding_def del: set_map)
qed

lemma remove_name_map: "map (\<lambda>(m, u). (m, g u)) (remove_name n c) = remove_name n (map (\<lambda>(m, u). (m, g u)) c)"
  by (induction c) (auto simp: remove_name_def)

lemma put_binding_fst: "fst ` set (put_binding front n v c) = insert n (fst ` set c)"
  by (simp add: put_binding_def fst_map_values insert_absorb del: set_map map_map)

lemma put_binding_distinct:
  assumes "distinct (map fst c)"
  shows "distinct (map fst (put_binding front n v c))"
proof (cases "n \<in> fst ` set c")
  case True
  then show ?thesis using assms by (simp add: put_binding_def fst_map_values del: map_map)
qed (use assms in \<open>auto simp: put_binding_def\<close>)

text \<open>As maps, the bindings are updated and restricted.\<close>

lemma map_of_map_values:
  "map_of (map (\<lambda>(m, u). (m, if m = n then v else u)) c) k = (if k = n then map_option (\<lambda>_. v) (map_of c k) else map_of c k)"
  by (induction c) auto

lemma map_of_put_binding: "map_of (put_binding front n v c) = (map_of c)(n \<mapsto> v)"
proof (cases "map_of c n")
  case None
  then have n: "n \<notin> fst ` set c" by (simp add: map_of_eq_None_iff)
  show ?thesis
  proof
    fix k
    show "map_of (put_binding front n v c) k = ((map_of c)(n \<mapsto> v)) k"
      using None n by (cases "map_of c k") (auto simp: put_binding_def map_add_def)
  qed
next
  case (Some u)
  then have n: "n \<in> fst ` set c" by (metis map_of_eq_None_iff option.distinct(1))
  show ?thesis
  proof
    fix k
    show "map_of (put_binding front n v c) k = ((map_of c)(n \<mapsto> v)) k"
      using Some n by (simp add: put_binding_def map_of_map_values)
  qed
qed

lemma map_of_remove_name: "map_of (remove_name n c) = (map_of c)(n := None)"
  by (induction c) (auto simp: remove_name_def fun_eq_iff)

lemma put_binding_same: "map_of c n = Some v \<Longrightarrow> distinct (map fst c) \<Longrightarrow> put_binding front n v c = c"
proof -
  assume c: "map_of c n = Some v" "distinct (map fst c)"
  have "u = v" if "(n, u) \<in> set c" for u
    using map_of_is_SomeI [OF c(2) that] c(1) by simp
  then have "map (\<lambda>(m, u). (m, if m = n then v else u)) c = c" by (intro map_idI) auto
  moreover have "n \<in> fst ` set c" using map_of_SomeD [OF c(1)] by force
  ultimately show ?thesis by (simp add: put_binding_def)
qed

section \<open>Operations\<close>

definition ready :: "world \<Rightarrow> did \<Rightarrow> dictionary \<Rightarrow> bool" where
  "ready w d x \<longleftrightarrow> world_ok w \<and> w_dicts w d = Some x \<and> \<not> d_destroyed x"

lemma readyD:
  assumes "ready w d x"
  shows "world_ok w" "w_dicts w d = Some x" "\<not> d_destroyed x" "ok 0 w d x (entries w d)" "distinct (map fst (bindings w d))"
    "names (entries w d) = map fst (bindings w d)"
proof -
  show r: "world_ok w" "w_dicts w d = Some x" "\<not> d_destroyed x" using assms by (simp_all add: ready_def)
  show o: "ok 0 w d x (entries w d)" by (rule world_okD(1) [OF r(1,2)])
  show "names (entries w d) = map fst (bindings w d)" by (simp add: names_contents bindings_def)
  then show "distinct (map fst (bindings w d))" using okD(2) [OF o] by (simp add: inv_def)
qed

lemma ready_step:
  assumes "ready w d x" and "ok 0 w' d x' es'" and "evolve d w x (entries w d) w' x' es'"
  shows "ready w' d x'" "bindings w' d = contents es'" "kept x x'" "\<And>d'. d' \<noteq> d \<Longrightarrow> untouched w w' d'"
proof -
  note r = readyD [OF assms(1)] and s = world_ok_step [OF readyD(1,2) [OF assms(1)] assms(2,3)]
  show "bindings w' d = contents es'" using s(2) by (simp add: bindings_def)
  show "kept x x'" using assms(3) by (simp add: evolve_def)
  then show "ready w' d x'" using s(1) okD(4) [OF assms(2)] r(3) by (simp add: ready_def kept_def)
  show "\<And>d'. d' \<noteq> d \<Longrightarrow> untouched w w' d'" by (rule s(3))
qed

lemma texts_step:
  assumes "ready w d x" and "clones x" and "ok 0 w' d x' es'" and "evolve d w x (entries w d) w' x' es'"
  shows "\<And>n v n'. (n, v) \<in> set (bindings w d) \<Longrightarrow> (n', v) \<in> set (contents es') \<Longrightarrow> bytes_at w' v = bytes_at w v"
  using evolve_bytes [OF readyD(4) [OF assms(1)] assms(3,4,2)] by (simp add: bindings_def)

lemma world_get:
  assumes "ready w d x" and "name \<noteq> []"
  shows "dictionary_get d (Some name) w =
    Inr (case map_of (bindings w d) name of None \<Rightarrow> Null | Some v \<Rightarrow> v, w)"
  using get_ok [OF readyD(4) [OF assms(1)] assms(2) readyD(3) [OF assms(1)]] by (simp add: value_at_def bindings_def)

lemma world_del:
  assumes "ready w d x" and "name \<noteq> []"
  shows "\<exists>w' x'. dictionary_del d (Some name) w = Inr (name \<in> fst ` set (bindings w d), w') \<and> ready w' d x' \<and> kept x x' \<and>
    bindings w' d = remove_name name (bindings w d) \<and> (clones x \<longrightarrow> texts w' d = remove_name name (texts w d)) \<and>
    (busy (entries w' d) \<longrightarrow> busy (entries w d)) \<and> (\<forall>d'. d' \<noteq> d \<longrightarrow> untouched w w' d')"
proof -
  note r = readyD [OF assms(1)]
  from del_ok [OF r(4) assms(2) r(3)] obtain w' x' es' where
    d: "dictionary_del d (Some name) w = Inr (name \<in> set (names (entries w d)), w')" "ok 0 w' d x' es'"
      "evolve d w x (entries w d) w' x' es'" "contents es' = remove_name name (contents (entries w d))"
      "busy es' \<longrightarrow> busy (entries w d)" by blast
  note s = ready_step [OF assms(1) d(2,3)]
  have b: "bindings w' d = remove_name name (bindings w d)" using s(2) d(4) by (simp add: bindings_def)
  have "texts w' d = remove_name name (texts w d)" if "clones x"
  proof -
    have "map (\<lambda>(n, v). (n, bytes_at w' v)) (remove_name name (bindings w d)) =
        map (\<lambda>(n, v). (n, bytes_at w v)) (remove_name name (bindings w d))"
      using texts_step [OF assms(1) that d(2,3)] d(4) by (auto simp: bindings_def remove_name_def)
    then show ?thesis by (simp add: texts_def b remove_name_map)
  qed
  moreover have "entries w' d = es'" by (rule rep_entries [OF okD(1) [OF d(2)]])
  ultimately show ?thesis using d(1,5) s b r(6) by (intro exI [of _ w'] exI [of _ x']) simp
qed

lemma put_binding_cong:
  assumes "\<And>n u. (n, u) \<in> set c \<Longrightarrow> n \<noteq> name \<Longrightarrow> g u = h u"
  shows "put_binding front name b (map (\<lambda>(n, u). (n, g u)) c) = put_binding front name b (map (\<lambda>(n, u). (n, h u)) c)"
proof (cases "name \<in> fst ` set c")
  case True
  then have "name \<in> fst ` set (map (\<lambda>(n, u). (n, g u)) c)" "name \<in> fst ` set (map (\<lambda>(n, u). (n, h u)) c)"
    by (simp_all only: fst_map_values)
  then show ?thesis using assms by (auto simp: put_binding_def simp del: set_map)
next
  case False
  then have "map (\<lambda>(n, u). (n, g u)) c = map (\<lambda>(n, u). (n, h u)) c"
    using assms by (auto simp: image_iff)
  then show ?thesis by (rule arg_cong)
qed

lemma put_binding_other: "(n, u) \<in> set c \<Longrightarrow> n \<noteq> name \<Longrightarrow> (n, u) \<in> set (put_binding front name v c)"
  by (force simp: put_binding_def)

lemma map_of_value_at: "name \<in> set (names (entries w d)) \<Longrightarrow> map_of (bindings w d) name = Some (value_at (entries w d) name)"
  by (cases "map_of (bindings w d) name") (auto simp: value_at_def bindings_def names_contents map_of_eq_None_iff)

text \<open>What a call that sets a value leaves: the value asked for, or the one that is there and is kept.\<close>

definition set_value :: "dictionary \<Rightarrow> vptr option \<Rightarrow> vsrc \<Rightarrow> string option \<Rightarrow> vptr \<Rightarrow> world \<Rightarrow> bool" where
  "set_value x old src blk v w' \<longleftrightarrow>
     (if keeps_values x \<and> old \<noteq> None then old = Some v
      else if clones x then bytes_at w' v = blk else src = SPtr v)"

lemma world_set:
  assumes "ready w d x" and "name \<noteq> []" and "placed x w src len blk"
  shows "\<exists>v w' x'. dictionary_set d (Some name) src len w = Inr (v, w') \<and> ready w' d x' \<and> kept x x' \<and>
    set_value x (map_of (bindings w d) name) src blk v w' \<and>
    bindings w' d = put_binding (OPTION_ADD_IN_FRONT (d_options x)) name v (bindings w d) \<and>
    (clones x \<longrightarrow> texts w' d = put_binding (OPTION_ADD_IN_FRONT (d_options x)) name (bytes_at w' v) (texts w d)) \<and>
    (busy (entries w' d) \<longrightarrow> busy (entries w d)) \<and> (\<forall>d'. d' \<noteq> d \<longrightarrow> untouched w w' d')"
proof -
  note r = readyD [OF assms(1)]
  let ?front = "OPTION_ADD_IN_FRONT (d_options x)"
  from set_ok [OF r(4) assms(2) r(3) assms(3)] obtain w' x' es' p v where
    v: "v = stored x (entries w d) name src blk p" and
    d: "dictionary_set d (Some name) src len w = Inr (v, w')" "ok 0 w' d x' es'" "evolve d w x (entries w d) w' x' es'"
      "contents es' = put_binding ?front name v (contents (entries w d))"
      "keeps_values x \<and> name \<in> set (names (entries w d)) \<or> (\<forall>b. blk = Some b \<longrightarrow> w_mem w' p = Some b)"
      "busy es' \<longrightarrow> busy (entries w d)" by blast
  note s = ready_step [OF assms(1) d(2,3)]
  have b: "bindings w' d = put_binding ?front name v (bindings w d)" using s(2) d(4) by (simp add: bindings_def)
  have known: "map_of (bindings w d) name \<noteq> None \<longleftrightarrow> name \<in> set (names (entries w d))"
    by (simp add: r(6) map_of_eq_None_iff)
  have sv: "set_value x (map_of (bindings w d) name) src blk v w'"
  proof (cases "keeps_values x \<and> name \<in> set (names (entries w d))")
    case True
    then show ?thesis using v map_of_value_at by (simp add: set_value_def stored_def)
  next
    case False
    then have "v = place_ptr x src blk p" "\<forall>b. blk = Some b \<longrightarrow> w_mem w' p = Some b"
      using v d(5) by (auto simp: stored_def)
    then show ?thesis
      using False known assms(3) by (auto simp: set_value_def place_ptr_def bytes_at_def placed_def split: option.splits)
  qed
  have "texts w' d = put_binding ?front name (bytes_at w' v) (texts w d)" if "clones x"
  proof -
    have "bytes_at w' u = bytes_at w u" if "(n, u) \<in> set (bindings w d)" "n \<noteq> name" for n u
      using texts_step [OF assms(1) \<open>clones x\<close> d(2,3) that(1)] put_binding_other [OF that] b s(2) by metis
    then have "put_binding ?front name (bytes_at w' v) (map (\<lambda>(n, u). (n, bytes_at w' u)) (bindings w d)) =
        put_binding ?front name (bytes_at w' v) (map (\<lambda>(n, u). (n, bytes_at w u)) (bindings w d))"
      by (rule put_binding_cong)
    then show ?thesis by (simp add: texts_def b put_binding_map)
  qed
  moreover have "entries w' d = es'" by (rule rep_entries [OF okD(1) [OF d(2)]])
  ultimately show ?thesis using d(1,6) s(1,3,4) sv b by (intro exI [of _ v] exI [of _ w'] exI [of _ x']) simp
qed

end
