(* ===== verification/Dictionary_Life.thy ===== *)
theory Dictionary_Life
  imports Dictionary_World
begin

text \<open>
  The life of dictionaries: freeing all resources of one, the clean-up of those that were destroyed
  while their items were in use, creation, emptying and destruction.
\<close>

section \<open>Freeing a dictionary\<close>

definition erased :: "did \<Rightarrow> dictionary option \<Rightarrow> bool \<Rightarrow> entry list \<Rightarrow> world \<Rightarrow> world" where
  "erased d x c es w =
     w\<lparr>w_dicts := (w_dicts w)(d := x), w_mem := (w_mem w) |` (- set (cells c es)),
       w_shareds := (w_shareds w) |` (- sids es), w_items := (w_items w) |` (- ids es)\<rparr>"

lemma erased_fields [simp]:
  "w_dicts (erased d x c es w) = (w_dicts w)(d := x)" "w_items (erased d x c es w) = (w_items w) |` (- ids es)"
  "w_shareds (erased d x c es w) = (w_shareds w) |` (- sids es)"
  "w_mem (erased d x c es w) = (w_mem w) |` (- set (cells c es))" "w_fresh (erased d x c es w) = w_fresh w"
  "w_hooks (erased d x c es w) = w_hooks w" "w_tid (erased d x c es w) = w_tid w"
  "w_clock (erased d x c es w) = w_clock w" "w_waiting (erased d x c es w) = w_waiting w"
  "w_events (erased d x c es w) = w_events w" "w_reads (erased d x c es w) = w_reads w"
  by (simp_all add: erased_def)

lemma restrict_restrict_Compl: "m |` (- A) |` (- B) = m |` (- (A \<union> B))"
  by (auto simp: restrict_map_def)

lemma erased_drop:
  "erased d (Some y) c es (drop_entry d x c e w) = erased d (Some y) c (e # es) w"
proof -
  have "(w_items w)(e_id e := None) |` (- ids es) = (w_items w) |` (- ids (e # es))"
    "(w_shareds w)(e_sid e := None) |` (- sids es) = (w_shareds w) |` (- sids (e # es))"
    by (auto simp: restrict_map_def ids_def sids_def)
  then show ?thesis by (simp add: erased_def drop_entry_def restrict_restrict_Compl)
qed

lemma erased_Nil [simp]: "w_dicts w d = x \<Longrightarrow> erased d x c [] w = w"
  by (auto simp: erased_def ids_def sids_def)

lemma present_drop:
  assumes "present w c f" and "outside c f [e]"
  shows "present (drop_entry d x c e w) c f"
  using assms by (auto simp: present_def outside_def ids_def sids_def restrict_map_def)

lemma free_list:
  assumes "w_dicts w d = Some x" and "plain x" and "clones x = c" and "separate c es"
    and "\<And>e. e \<in> set es \<Longrightarrow> present w c e \<and> entry_ok c e"
  shows "\<exists>y. rfold (dict_item_free_with_hooks d) (map e_id es) w = Inr (erased d (Some y) c es w) \<and> plain y \<and> clones y = c"
  using assms
proof (induction es arbitrary: w x)
  case Nil
  then show ?case by (intro exI [of _ x]) simp
next
  case (Cons e es)
  let ?w = "drop_entry d (uncount e x) c e w"
  have e: "present w c e" "entry_ok c e" using Cons.prems(5) by simp_all
  have f: "dict_item_free_with_hooks d (e_id e) w = Inr ?w"
    using free_step [of w d x e] Cons.prems(1,2,3) e by (auto simp: present_def entry_ok_def)
  have "present ?w c g \<and> entry_ok c g" if "g \<in> set es" for g
  proof -
    have s: "separate c ([] @ e # es)" using Cons.prems(4) by simp
    have "outside c g [e]" using separate_mid [OF s, of g] that by (auto simp: outside_def ids_def sids_def)
    then show ?thesis using present_drop Cons.prems(5) [of g] that by simp
  qed
  moreover have "separate c es" using Cons.prems(4) by (auto simp: separate_def)
  ultimately obtain y where
    "rfold (dict_item_free_with_hooks d) (map e_id es) ?w = Inr (erased d (Some y) c es ?w)" "plain y" "clones y = c"
    using Cons.IH [of ?w "uncount e x"] Cons.prems(2,3) by auto
  then show ?case using f erased_drop [of d y c es "uncount e x" e w] by (intro exI [of _ y]) (simp del: rbind_Inr_iff)
qed

lemma busy_count: "busy es \<longleftrightarrow> count e_held es \<noteq> 0"
  by (simp add: busy_def count_eq_0)

lemma ok_present: "ok k w d x es \<Longrightarrow> e \<in> set es \<Longrightarrow> present w (clones x) e \<and> entry_ok (clones x) e"
  using ok_entry [of k w d x es e] by (force simp: present_def ok_def rep_def cells_def)

lemma free_all_eq:
  assumes "ok k w d x es"
  shows "dictionary_free_all_resources d force w =
    Inr (if force \<or> \<not> busy es then (True, erased d None (clones x) es w) else (False, w))"
proof (cases "force \<or> \<not> busy es")
  case False
  then show ?thesis
    using okD(4) [OF assms] inv_counters(1) [OF okD(2) [OF assms]] busy_count [of es] count_nonneg [of e_held es]
    by (auto simp: dictionary_free_all_resources_def heap_defs not_less)
next
  case True
  note k = okD [OF assms]
  let ?x = "x\<lparr>d_index := Map.empty\<rparr>"
  let ?w = "w\<lparr>w_dicts := (w_dicts w)(d \<mapsto> ?x)\<rparr>"
  have p: "plain ?x" using k(5) by (simp add: plain_def is_dictionary_single_threaded_def)
  have "\<exists>y. rfold (dict_item_free_with_hooks d) (map e_id es) ?w = Inr (erased d (Some y) (clones x) es ?w) \<and> plain y \<and> clones y = clones x"
    using k(6) p ok_present [OF assms] by (intro free_list [of ?w d ?x]) (auto simp: present_def)
  then obtain y where y: "rfold (dict_item_free_with_hooks d) (map e_id es) ?w = Inr (erased d (Some y) (clones x) es ?w)"
    "plain y" by blast
  have z: "plain (y\<lparr>d_list := []\<rparr>)" "d_hooks (y\<lparr>d_list := []\<rparr>) = None"
    using y(2) by (auto simp: plain_def is_dictionary_single_threaded_def)
  have "(if force then Inr 0 else dictionary_referenced_items w (Some d)) = Inr 0"
    using True k(4) inv_counters(1) [OF k(2)] busy_count [of es] by (auto simp: heap_defs)
  then show ?thesis
    using True k(1,4,5) p y z
    by (simp add: dictionary_free_all_resources_def hashtable_destroy_unsafe_def heap_defs rep_def
        dictionary_hooks_free_def erased_def del: rbind_Inr_iff)
qed

text \<open>Worlds whose dictionaries are well-formed, whatever waits to be cleaned up.\<close>

definition sound :: "world \<Rightarrow> bool" where
  "sound w \<longleftrightarrow>
     bounded w \<and> (\<forall>d x. w_dicts w d = Some x \<longrightarrow> ok 0 w d x (entries w d)) \<and>
     (\<forall>d x d' x'. w_dicts w d = Some x \<longrightarrow> w_dicts w d' = Some x' \<longrightarrow> d \<noteq> d' \<longrightarrow>
        apart x (entries w d) x' (entries w d'))"

definition waits :: "world \<Rightarrow> bool" where
  "waits w \<longleftrightarrow>
     (\<forall>d x. w_dicts w d = Some x \<longrightarrow> (d_destroyed x \<longleftrightarrow> d \<in> set (w_waiting w))) \<and>
     distinct (w_waiting w) \<and> (\<forall>d \<in> set (w_waiting w). w_dicts w d \<noteq> None)"

lemma world_ok_iff: "world_ok w \<longleftrightarrow> sound w \<and> waits w"
  unfolding world_ok_def sound_def waits_def by blast

lemma soundD:
  assumes "sound w" and "w_dicts w d = Some x"
  shows "ok 0 w d x (entries w d)"
    "\<And>d' x'. w_dicts w d' = Some x' \<Longrightarrow> d \<noteq> d' \<Longrightarrow> apart x (entries w d) x' (entries w d')"
  using assms unfolding sound_def by blast+

lemma erased_frame: "frame d c es w (erased d x c es w)"
  by (auto simp: frame_def restrict_map_def)

text \<open>Freeing a dictionary leaves the others.\<close>

lemma erased_sound:
  assumes "sound w" and "w_dicts w d = Some x"
  defines "w' \<equiv> erased d None (clones x) (entries w d) w"
  shows "sound w'" and "\<And>p. p \<noteq> d \<Longrightarrow> untouched w w' p"
proof -
  have b: "bounded w'"
    using assms(1) by (auto simp: sound_def bounded_def w'_def restrict_map_def split: if_splits)
  have f: "frame d (clones x) (entries w d) w w'" by (simp add: w'_def erased_frame)
  have none: "w_dicts w' d = None" and dicts: "\<And>p. p \<noteq> d \<Longrightarrow> w_dicts w' p = w_dicts w p" by (simp_all add: w'_def)
  have other: "ok 0 w' p y (entries w p)" "untouched w w' p" if "p \<noteq> d" "w_dicts w p = Some y" for p y
    using other_entries [OF soundD(1) [OF assms(1) that(2)] soundD(2) [OF assms(1,2) that(2)] f _ b] that(1) by auto
  show u: "untouched w w' p" if "p \<noteq> d" for p
  proof (cases "w_dicts w p")
    case None
    then show ?thesis using that dicts by (simp add: untouched_def entries_def)
  qed (use other(2) that in blast)
  then have same: "entries w' p = entries w p" if "p \<noteq> d" for p using that by (simp add: untouched_def)
  show "sound w'"
    unfolding sound_def
  proof (intro conjI allI impI)
    fix p y
    assume "w_dicts w' p = Some y"
    moreover from this have "p \<noteq> d" using none by auto
    ultimately show "ok 0 w' p y (entries w' p)" using other(1) same dicts by simp
  next
    fix p y q z
    assume "w_dicts w' p = Some y" "w_dicts w' q = Some z" "p \<noteq> q"
    moreover from this have "p \<noteq> d" "q \<noteq> d" using none by auto
    ultimately show "apart y (entries w' p) z (entries w' q)" using soundD(2) [OF assms(1)] same dicts by simp
  qed (rule b)
qed

text \<open>A dictionary that is gone with all that it owned, and what stays gone from one world to the next.\<close>

definition freed :: "did \<Rightarrow> dictionary \<Rightarrow> world \<Rightarrow> world \<Rightarrow> bool" where
  "freed d x w w' \<longleftrightarrow>
     w_dicts w' d = None \<and>
     (\<forall>e \<in> set (entries w d). w_items w' (e_id e) = None \<and> w_shareds w' (e_sid e) = None \<and>
        (\<forall>m \<in> set (cell (clones x) e). w_mem w' m = None))"

definition stays_gone :: "world \<Rightarrow> world \<Rightarrow> bool" where
  "stays_gone w w' \<longleftrightarrow>
     w_fresh w \<le> w_fresh w' \<and>
     (\<forall>p < w_fresh w. (w_dicts w p = None \<longrightarrow> w_dicts w' p = None) \<and> (w_items w p = None \<longrightarrow> w_items w' p = None) \<and>
        (w_shareds w p = None \<longrightarrow> w_shareds w' p = None) \<and> (w_mem w p = None \<longrightarrow> w_mem w' p = None))"

lemma stays_gone_refl [simp]: "stays_gone w w"
  by (simp add: stays_gone_def)

lemma stays_gone_trans: "stays_gone w w1 \<Longrightarrow> stays_gone w1 w2 \<Longrightarrow> stays_gone w w2"
  by (simp add: stays_gone_def)

lemma erased_freed: "freed d x w (erased d None (clones x) (entries w d) w)"
  by (auto simp: freed_def restrict_map_def ids_def sids_def cells_def)

lemma erased_gone: "stays_gone w (erased d None c es w)"
  by (simp add: stays_gone_def restrict_map_def)

lemma evolve_gone:
  assumes "ok k w d x es" and "evolve d w x es w' x' es'"
  shows "stays_gone w w'"
proof -
  have r: "rep w d x es" by (rule okD(1) [OF assms(1)])
  have f: "frame d (clones x) es w w'" using assms(2) by (simp add: evolve_def)
  have "p \<noteq> d" if "w_dicts w p = None" for p using that r by (auto simp: rep_def)
  moreover have "p \<notin> ids es" if "w_items w p = None" for p using that r by (auto simp: rep_def ids_def)
  moreover have "p \<notin> sids es" if "w_shareds w p = None" for p using that r by (auto simp: rep_def sids_def)
  ultimately show ?thesis using f unfolding stays_gone_def frame_def by metis
qed

lemma freed_later:
  assumes "freed d x w w1" and "stays_gone w1 w2" and "ok k w d x (entries w d)" and "w_fresh w \<le> w_fresh w1"
  shows "freed d x w w2"
proof -
  have "d < w_fresh w" using okD(3,4) [OF assms(3)] by (simp add: bounded_def)
  moreover have "e_id e < w_fresh w" "e_sid e < w_fresh w" "\<forall>m \<in> set (cell (clones x) e). m < w_fresh w"
    if "e \<in> set (entries w d)" for e
    using ok_bounds [OF assms(3)] that by (auto simp: ids_def sids_def cells_def)
  ultimately show ?thesis using assms(1,2,4) unfolding freed_def stays_gone_def by (metis order_less_le_trans)
qed

section \<open>The clean-up\<close>

text \<open>The dictionaries among \<open>ds\<close> whose items are in use stay, the others are freed.\<close>

definition cleaned :: "did list \<Rightarrow> world \<Rightarrow> world \<Rightarrow> bool" where
  "cleaned ds w w' \<longleftrightarrow>
     (\<forall>p. if p \<in> set ds \<and> \<not> busy (entries w p) then w_dicts w' p = None else untouched w w' p) \<and>
     (\<forall>p x. p \<in> set ds \<longrightarrow> \<not> busy (entries w p) \<longrightarrow> w_dicts w p = Some x \<longrightarrow> freed p x w w') \<and> stays_gone w w' \<and>
     w_waiting w' = w_waiting w \<and> w_fresh w' = w_fresh w \<and> w_events w' = w_events w"

lemma cleanup_loop_ok:
  assumes "sound w" and "distinct ds" and "\<And>d. d \<in> set ds \<Longrightarrow> w_dicts w d \<noteq> None"
  shows "\<exists>w'. cleanup_loop ds w = Inr (filter (\<lambda>d. busy (entries w d)) ds, w') \<and> sound w' \<and> cleaned ds w w'"
  using assms
proof (induction ds arbitrary: w)
  case Nil
  then show ?case by (auto simp: cleaned_def)
next
  case (Cons d ds)
  then obtain x where x: "w_dicts w d = Some x" by auto
  note o = soundD(1) [OF Cons.prems(1) x]
  let ?w = "if busy (entries w d) then w else erased d None (clones x) (entries w d) w"
  have free: "dictionary_free_all_resources d False w = Inr (\<not> busy (entries w d), ?w)"
    using free_all_eq [OF o, of False] by auto
  have s: "sound ?w" using erased_sound(1) [OF Cons.prems(1) x] Cons.prems(1) by simp
  have u: "untouched w ?w p" if "p \<noteq> d" for p using erased_sound(2) [OF Cons.prems(1) x that] by simp
  have same: "p \<noteq> d" "entries ?w p = entries w p" "w_dicts ?w p = w_dicts w p" if "p \<in> set ds" for p
  proof -
    show p: "p \<noteq> d" using that Cons.prems(2) by auto
    show "entries ?w p = entries w p" "w_dicts ?w p = w_dicts w p"
      using u [OF p] unfolding untouched_def by blast+
  qed
  from Cons.IH [OF s] Cons.prems(2,3) same(3) obtain w' where
    w': "cleanup_loop ds ?w = Inr (filter (\<lambda>d. busy (entries ?w d)) ds, w')" "sound w'" "cleaned ds ?w w'" by auto
  have stay: "filter (\<lambda>d. busy (entries ?w d)) ds = filter (\<lambda>d. busy (entries w d)) ds"
    using same(2) by (intro filter_cong) auto
  have "if p \<in> set (d # ds) \<and> \<not> busy (entries w p) then w_dicts w' p = None else untouched w w' p" for p
  proof (cases "p = d")
    case True
    then have "p \<notin> set ds" using Cons.prems(2) by simp
    then have "untouched ?w w' p" using w'(3) by (simp add: cleaned_def)
    then show ?thesis using True by (auto simp: untouched_def)
  next
    case False
    have "if p \<in> set ds \<and> \<not> busy (entries ?w p) then w_dicts w' p = None else untouched ?w w' p"
      using w'(3) by (simp add: cleaned_def)
    then show ?thesis using False u [OF False] same(2) [of p] untouched_trans [OF u [OF False]] by auto
  qed
  moreover have "freed p y w w'" if "p \<in> set (d # ds)" "\<not> busy (entries w p)" "w_dicts w p = Some y" for p y
  proof (cases "p = d")
    case True
    then show ?thesis
      using that x freed_later [OF erased_freed _ o, of w'] w'(3) by (simp add: cleaned_def)
  next
    case False
    then have "p \<in> set ds" using that(1) by simp
    then have "freed p y ?w w'" using w'(3) same [of p] that(2,3) unfolding cleaned_def by metis
    then show ?thesis using same(2) [OF \<open>p \<in> set ds\<close>] by (simp add: freed_def)
  qed
  moreover have "stays_gone w w'" using stays_gone_trans [of w ?w w'] erased_gone w'(3) by (simp add: cleaned_def)
  moreover have "w_waiting ?w = w_waiting w" "w_fresh ?w = w_fresh w" "w_events ?w = w_events w" by simp_all
  ultimately have "cleaned (d # ds) w w'" using w'(3) unfolding cleaned_def by metis
  then show ?case using free w'(1,2) stay by auto
qed

lemma waiting_simps [simp]:
  "entries (w\<lparr>w_waiting := ds\<rparr>) p = entries w p" "ok k (w\<lparr>w_waiting := ds\<rparr>) d x es = ok k w d x es"
  "bounded (w\<lparr>w_waiting := ds\<rparr>) = bounded w" "untouched w' (w\<lparr>w_waiting := ds\<rparr>) p = untouched w' w p"
  "freed d x w' (w\<lparr>w_waiting := ds\<rparr>) = freed d x w' w" "stays_gone w' (w\<lparr>w_waiting := ds\<rparr>) = stays_gone w' w"
proof -
  show e: "entries (w\<lparr>w_waiting := ds\<rparr>) p = entries w p" for p
    by (simp add: entries_def entry_at_def split: option.split)
  show b: "bounded (w\<lparr>w_waiting := ds\<rparr>) = bounded w" by (simp add: bounded_def)
  show "ok k (w\<lparr>w_waiting := ds\<rparr>) d x es = ok k w d x es" by (simp add: ok_def rep_def b)
  show "untouched w' (w\<lparr>w_waiting := ds\<rparr>) p = untouched w' w p" by (simp add: untouched_def e)
  show "freed d x w' (w\<lparr>w_waiting := ds\<rparr>) = freed d x w' w" "stays_gone w' (w\<lparr>w_waiting := ds\<rparr>) = stays_gone w' w"
    by (simp_all add: freed_def stays_gone_def)
qed

lemma sound_waiting [simp]: "sound (w\<lparr>w_waiting := ds\<rparr>) = sound w"
  by (simp add: sound_def)

text \<open>What the clean-up leaves: it frees the waiting dictionaries that can be freed.\<close>

definition after_cleanup :: "world \<Rightarrow> world \<Rightarrow> bool" where
  "after_cleanup w w' \<longleftrightarrow>
     world_ok w' \<and> w_waiting w' = filter (\<lambda>d. busy (entries w d)) (w_waiting w) \<and> w_fresh w' = w_fresh w \<and>
     (\<forall>d. if d \<in> set (w_waiting w) \<and> \<not> busy (entries w d) then w_dicts w' d = None else untouched w w' d) \<and>
     (\<forall>d x. d \<in> set (w_waiting w) \<longrightarrow> \<not> busy (entries w d) \<longrightarrow> w_dicts w d = Some x \<longrightarrow> freed d x w w')"

lemma cleanup_ok:
  assumes "world_ok w"
  shows "\<exists>w'. cleanup_destroyed_dictionaries w = Inr (length (w_waiting w'), w') \<and> after_cleanup w w'"
proof -
  have s: "sound w" and q: "waits w" using assms by (simp_all add: world_ok_iff)
  then have "distinct (w_waiting w)" "\<And>d. d \<in> set (w_waiting w) \<Longrightarrow> w_dicts w d \<noteq> None"
    unfolding waits_def by blast+
  from cleanup_loop_ok [OF s this] obtain w1 where
    w1: "cleanup_loop (w_waiting w) w = Inr (filter (\<lambda>d. busy (entries w d)) (w_waiting w), w1)" "sound w1"
      "cleaned (w_waiting w) w w1" by blast
  let ?stay = "filter (\<lambda>d. busy (entries w d)) (w_waiting w)"
  let ?w = "w1\<lparr>w_waiting := ?stay\<rparr>"
  have p: "if d \<in> set (w_waiting w) \<and> \<not> busy (entries w d) then w_dicts w1 d = None else untouched w w1 d" for d
    using w1(3) by (simp add: cleaned_def)
  have "waits ?w"
    unfolding waits_def
  proof (intro conjI allI impI ballI)
    fix d x
    assume "w_dicts ?w d = Some x"
    then have d: "w_dicts w d = Some x" "d \<in> set (w_waiting w) \<longrightarrow> busy (entries w d)"
      using p [of d] by (auto simp: untouched_def split: if_splits)
    then show "d_destroyed x \<longleftrightarrow> d \<in> set (w_waiting ?w)" using q by (auto simp: waits_def)
  next
    fix d
    assume "d \<in> set (w_waiting ?w)"
    then show "w_dicts ?w d \<noteq> None" using p [of d] q by (auto simp: untouched_def waits_def)
  qed (use q in \<open>simp add: waits_def\<close>)
  then have "after_cleanup w ?w"
    using w1(2,3) p by (simp add: after_cleanup_def world_ok_iff cleaned_def)
  then show ?thesis using w1(1) by (intro exI [of _ ?w]) (simp add: cleanup_destroyed_dictionaries_def)
qed

text \<open>
  What becomes of the dictionaries that wait when a call starts with the clean-up: those with an item in
  use go on waiting, the others are freed with all that they own.
\<close>

definition reclaimed :: "world \<Rightarrow> world \<Rightarrow> bool" where
  "reclaimed w w' \<longleftrightarrow>
     (\<forall>q y. q \<in> set (w_waiting w) \<longrightarrow> w_dicts w q = Some y \<longrightarrow>
        (if busy (entries w q) then q \<in> set (w_waiting w') \<and> untouched w w' q else freed q y w w'))"

lemma cleanup_reclaims:
  assumes "world_ok w" and "after_cleanup w w1" and "stays_gone w1 w2" and "set (w_waiting w1) \<subseteq> set (w_waiting w2)"
    and "\<And>q. q \<in> set (w_waiting w1) \<Longrightarrow> untouched w1 w2 q"
  shows "reclaimed w w2"
  unfolding reclaimed_def
proof (intro allI impI)
  fix q y
  assume q: "q \<in> set (w_waiting w)" "w_dicts w q = Some y"
  show "if busy (entries w q) then q \<in> set (w_waiting w2) \<and> untouched w w2 q else freed q y w w2"
  proof (cases "busy (entries w q)")
    case True
    then have "q \<in> set (w_waiting w1)" "untouched w w1 q" using q(1) assms(2) by (auto simp: after_cleanup_def split: if_splits)
    then show ?thesis using True assms(4,5) untouched_trans by auto
  next
    case False
    then have "freed q y w w1" "w_fresh w \<le> w_fresh w1" using q assms(2) by (simp_all add: after_cleanup_def)
    then show ?thesis using False freed_later [OF _ assms(3) world_okD(1) [OF assms(1) q(2)]] by simp
  qed
qed

section \<open>Creation\<close>

definition fresh_dictionary :: "dict_options \<Rightarrow> nat \<Rightarrow> dictionary" where
  "fresh_dictionary opts fixed_size =
     \<lparr>d_last_gc_run_us = 0, d_options = opts\<lparr>OPTION_FIXED_SIZE := fixed_size \<noteq> 0, OPTION_INDEX_JUDY := True\<rparr>,
       d_destroyed = False, d_value_aral = (if fixed_size \<noteq> 0 then Some fixed_size else None),
       d_index = Map.empty, d_index_lock = rw_spinlock_init, d_list = [], d_list_lock = rw_spinlock_init,
       d_writer_pid = 0, d_writer_depth = 0, d_hooks = None, d_master = None, d_version = 0, d_entries = 0,
       d_referenced_items = 0, d_pending_deletion_items = 0\<rparr>"

lemma fresh_dictionary_inv: "OPTION_SINGLE_THREADED opts \<Longrightarrow> inv 0 (fresh_dictionary opts n) []"
  by (auto simp: inv_def fresh_dictionary_def plain_def is_dictionary_single_threaded_def separate_def index_of_def)

lemma create_world:
  fixes n :: nat
  assumes "world_ok w" and "OPTION_SINGLE_THREADED opts"
  defines "w' \<equiv> w\<lparr>w_fresh := w_fresh w + 1, w_dicts := (w_dicts w)(w_fresh w \<mapsto> fresh_dictionary opts n)\<rparr>"
  shows "ready w' (w_fresh w) (fresh_dictionary opts n)" "bindings w' (w_fresh w) = []" "w_dicts w (w_fresh w) = None"
    "\<And>d. d \<noteq> w_fresh w \<Longrightarrow> untouched w w' d"
proof -
  let ?d = "w_fresh w" and ?x = "fresh_dictionary opts n"
  have b: "bounded w" by (rule world_ok_bounded [OF assms(1)])
  then show none: "w_dicts w ?d = None" by (auto simp: bounded_def)
  have same: "entries w' p = entries w p" if "p \<noteq> ?d" for p
    using that by (simp add: w'_def entries_def entry_at_def split: option.split)
  then show u: "untouched w w' d" if "d \<noteq> ?d" for d using that by (simp add: untouched_def w'_def)
  have e: "entries w' ?d = []" by (simp add: w'_def entries_def fresh_dictionary_def)
  then show "bindings w' ?d = []" by (simp add: bindings_def contents_def)
  have b': "bounded w'" using b by (auto simp: bounded_def w'_def less_Suc_eq)
  have new: "ok 0 w' ?d ?x []"
    using b' fresh_dictionary_inv [OF assms(2)] by (auto simp: ok_def rep_def w'_def fresh_dictionary_def)
  have old: "ok 0 w' p y (entries w p)" if "p \<noteq> ?d" "w_dicts w p = Some y" for p y
    using world_okD(1) [OF assms(1) that(2)] that b' by (auto simp: ok_def rep_def w'_def)
  have "world_ok w'"
    unfolding world_ok_def
  proof (intro conjI allI impI ballI)
    fix p y
    assume p: "w_dicts w' p = Some y"
    show "ok 0 w' p y (entries w' p)" using p new old [of p y] same [of p] e by (cases "p = ?d") (auto simp: w'_def)
    show "d_destroyed y \<longleftrightarrow> p \<in> set (w_waiting w')"
      using p assms(1) none world_okD(2) [OF assms(1), of p y]
      by (cases "p = ?d") (auto simp: w'_def fresh_dictionary_def world_ok_def)
  next
    fix p y q z
    assume "w_dicts w' p = Some y" "w_dicts w' q = Some z" "p \<noteq> q"
    then show "apart y (entries w' p) z (entries w' q)"
      using e same world_okD(3) [OF assms(1)]
      by (cases "p = ?d"; cases "q = ?d") (auto simp: w'_def apart_def ids_def sids_def)
  qed (use b' assms(1) in \<open>auto simp: world_ok_def w'_def\<close>)
  then show "ready w' ?d ?x" by (simp add: ready_def w'_def fresh_dictionary_def)
qed

text \<open>A dictionary in use survives the clean-up.\<close>

lemma cleanup_ready:
  assumes "after_cleanup w w'" and "ready w d x"
  shows "ready w' d x" "untouched w w' d"
proof -
  have "d \<notin> set (w_waiting w)" using readyD(3) [OF assms(2)] world_okD(2) [OF readyD(1,2) [OF assms(2)]] by blast
  then show u: "untouched w w' d" using assms(1) by (simp add: after_cleanup_def)
  then show "ready w' d x" using assms by (auto simp: after_cleanup_def ready_def untouched_def)
qed

lemma untouched_views:
  assumes "untouched w w' d"
  shows "bindings w' d = bindings w d" and "\<And>x. w_dicts w d = Some x \<Longrightarrow> clones x \<Longrightarrow> texts w' d = texts w d"
proof -
  show b: "bindings w' d = bindings w d" using assms by (simp add: bindings_def untouched_def)
  show "texts w' d = texts w d" if x: "w_dicts w d = Some x" "clones x" for x
  proof -
    have "bytes_at w' v = bytes_at w v" if "(n, v) \<in> set (bindings w d)" for n v
      using contents_cell [of n _ "entries w d"] that x assms
      by (cases v) (auto simp: bytes_at_def untouched_def bindings_def)
    then show ?thesis by (auto simp: texts_def b)
  qed
qed

lemma create_ok:
  assumes "world_ok w" and "OPTION_SINGLE_THREADED opts"
  shows "\<exists>d w'. dictionary_create_advanced opts n w = Inr (d, w') \<and> ready w' d (fresh_dictionary opts n) \<and>
    bindings w' d = [] \<and> (\<forall>d' x. ready w d' x \<longrightarrow> d' \<noteq> d \<and> ready w' d' x \<and> untouched w w' d') \<and> reclaimed w w'"
proof -
  from cleanup_ok [OF assms(1)] obtain w1 where
    w1: "cleanup_destroyed_dictionaries w = Inr (length (w_waiting w1), w1)" "after_cleanup w w1" by blast
  have ok1: "world_ok w1" using w1(2) by (simp add: after_cleanup_def)
  let ?w = "w1\<lparr>w_fresh := w_fresh w1 + 1, w_dicts := (w_dicts w1)(w_fresh w1 \<mapsto> fresh_dictionary opts n)\<rparr>"
  note c = create_world(1,2,4) [OF ok1 assms(2), where n = n] and none = create_world(3) [OF ok1 assms(2)]
  have "d' \<noteq> w_fresh w1 \<and> ready ?w d' x \<and> untouched w ?w d'" if "ready w d' x" for d' x
  proof -
    note r = cleanup_ready [OF w1(2) that]
    have ne: "d' \<noteq> w_fresh w1" using none readyD(2) [OF r(1)] by auto
    moreover have u: "untouched w1 ?w d'" by (rule c(3) [OF ne])
    moreover have "ready ?w d' x" using ne readyD(2,3) [OF r(1)] readyD(1) [OF c(1)] by (simp add: ready_def)
    ultimately show ?thesis using untouched_trans [OF r(2) u] by simp
  qed
  moreover have "reclaimed w ?w"
  proof (rule cleanup_reclaims [OF assms(1) w1(2)])
    have fresh: "p \<noteq> w_fresh w1" if "p < w_fresh w1" for p using that by simp
    then show "stays_gone w1 ?w" by (simp add: stays_gone_def)
    show "untouched w1 ?w q" if "q \<in> set (w_waiting w1)" for q
    proof (rule c(3))
      have "w_dicts w1 q \<noteq> None" using that ok1 by (simp add: world_ok_def)
      then show "q \<noteq> w_fresh w1" using none by auto
    qed
  qed simp
  moreover have "dictionary_create_advanced opts n w = Inr (w_fresh w1, ?w)"
    using w1(1)
    by (simp add: dictionary_create_advanced_def dictionary_create_internal_def fresh_dictionary_def
        hashtable_init_unsafe_def Let_def del: rbind_Inr_iff)
  ultimately show ?thesis using c(1,2) by (intro exI [of _ "w_fresh w1"] exI [of _ ?w]) simp
qed

section \<open>Emptying\<close>

text \<open>
  The entries that can be emptied: none waits to be freed, and no two have the same name, deleted
  ones included.  What stays are the entries in use, all of them deleted.
\<close>

definition settled :: "entry list \<Rightarrow> bool" where
  "settled es \<longleftrightarrow> (\<forall>e \<in> set es. \<not> e_pending e)"

lemma settled_simps [simp]: "settled []" "settled (e # es) \<longleftrightarrow> \<not> e_pending e \<and> settled es" "settled (es @ fs) \<longleftrightarrow> settled es \<and> settled fs"
  by (auto simp: settled_def)

lemma sweep_settled: "settled es \<Longrightarrow> sweep es = es"
  by (auto simp: settled_def sweep_def filter_id_conv)

definition flushable :: "entry list \<Rightarrow> bool" where
  "flushable es \<longleftrightarrow> settled es \<and> distinct (map e_name es)"

definition retire :: "entry \<Rightarrow> entry" where
  "retire e = (if e_live e then mark_deleted e else e)"

definition retired :: "entry list \<Rightarrow> entry list" where
  "retired es = map retire (filter e_held es)"

lemma retired_simps [simp]:
  "retired [] = []" "retired (e # es) = (if e_held e then [retire e] else []) @ retired es"
  by (simp_all add: retired_def)

lemma contents_retired: "contents (retired es) = []"
  by (induction es) (auto simp: retire_def)

lemma rest_after_mid: "distinct (as @ i # bs) \<Longrightarrow> rest_after (as @ i # bs) i = bs"
  by (induction as) (auto simp: rest_after_def)

text \<open>A live entry is deleted wherever it stands.\<close>

lemma flush_live:
  assumes "ok k w d x (as @ e # bs)" and "settled (as @ e # bs)" and "e_live e"
  defines "cs \<equiv> (if e_held e then [retire e] else [])"
  shows "\<exists>w' x'. dict_item_del d (e_name e) (Some (length (e_name e))) w = Inr (True, w') \<and>
    ok k w' d x' (as @ cs @ bs) \<and> evolve d w x (as @ e # bs) w' x' (as @ cs @ bs) \<and> settled (as @ cs @ bs) \<and>
    (\<not> e_held e \<longrightarrow> w_items w' (e_id e) = None)"
proof -
  have key: "key_of (e_name e) (Some (length (e_name e))) = Inr (e_name e)" by simp
  show ?thesis
  proof (cases "e_held e")
    case True
    then have "cs = [mark_deleted e]" "settled [mark_deleted e]" using assms(3) by (simp_all add: cs_def retire_def e_pending_def e_held_def)
    then show ?thesis using del_held [OF assms(1,3) True key] True assms(2) by simp
  next
    case False
    then show ?thesis using del_free [OF assms(1,3) False key] sweep_settled [of "as @ bs"] assms(2) by (simp add: cs_def)
  qed
qed

lemma flush_step:
  assumes "ok k w d x (as @ e # bs)" and "flushable (as @ e # bs)"
  defines "cs \<equiv> (if e_held e then [retire e] else [])"
  shows "\<exists>w' x'. dict_item_del d (e_name e) (Some (length (e_name e))) w = Inr (e_live e, w') \<and>
    ok k w' d x' (as @ cs @ bs) \<and> evolve d w x (as @ e # bs) w' x' (as @ cs @ bs) \<and> flushable (as @ cs @ bs)"
proof -
  have s: "settled (as @ e # bs)" and n: "distinct (map e_name (as @ cs @ bs))"
    using assms(2) by (auto simp: flushable_def cs_def retire_def)
  show ?thesis
  proof (cases "e_live e")
    case False
    then have held: "e_held e"
      using s inv_counters(4) [OF okD(2) [OF assms(1)], of e] by (auto simp: e_pending_def e_held_def)
    have "e_name e \<notin> set (names (as @ e # bs))" using assms(2) False by (auto simp: flushable_def names_def image_iff)
    from del_absent [OF assms(1) this, of "Some (length (e_name e))"] show ?thesis
      using False held assms(1,2) by (intro exI [of _ w] exI [of _ x]) (simp add: cs_def retire_def)
  next
    case True
    then show ?thesis using flush_live [OF assms(1) s True] n by (auto simp: flushable_def cs_def)
  qed
qed

lemma flush_loop_ok:
  assumes "ok k w d x (as @ bs)" and "flushable (as @ bs)" and "length bs \<le> fuel"
  shows "\<exists>w' x'. flush_loop fuel d (head_of (map e_id bs)) w = Inr w' \<and>
    ok k w' d x' (as @ retired bs) \<and> evolve d w x (as @ bs) w' x' (as @ retired bs) \<and> flushable (as @ retired bs)"
  using assms
proof (induction bs arbitrary: w x as fuel)
  case Nil
  then show ?case by (auto simp: head_of_def)
next
  case (Cons e bs)
  let ?cs = "if e_held e then [retire e] else []"
  obtain n where n: "fuel = Suc n" "length bs \<le> n" using Cons.prems(3) by (cases fuel) auto
  note k = okD [OF Cons.prems(1)]
  have "distinct (map e_id as @ e_id e # map e_id bs)" using k(6) by (simp add: separate_def)
  then have "item_next w d (e_id e) = Inr (head_of (map e_id bs))"
    using rest_after_mid k(1,4) by (simp add: item_next_def heap_defs rep_def)
  moreover have "item_get_name w (e_id e) = Inr (e_name e)"
    using ok_entry(1) [OF Cons.prems(1), of e] by (simp add: item_get_name_def heap_defs)
  moreover from flush_step [OF Cons.prems(1,2)] obtain w1 x1 where
    s: "dict_item_del d (e_name e) (Some (length (e_name e))) w = Inr (e_live e, w1)"
      "ok k w1 d x1 ((as @ ?cs) @ bs)" "evolve d w x (as @ e # bs) w1 x1 ((as @ ?cs) @ bs)" "flushable ((as @ ?cs) @ bs)"
    by (metis append.assoc)
  moreover from Cons.IH [OF s(2,4) n(2)] obtain w' x' where
    t: "flush_loop n d (head_of (map e_id bs)) w1 = Inr w'" "ok k w' d x' ((as @ ?cs) @ retired bs)"
      "evolve d w1 x1 ((as @ ?cs) @ bs) w' x' ((as @ ?cs) @ retired bs)" "flushable ((as @ ?cs) @ retired bs)" by blast
  ultimately have "flush_loop fuel d (head_of (map e_id (e # bs))) w = Inr w'"
    using n(1) by (simp add: head_of_def del: rbind_Inr_iff)
  then show ?case using t(2,4) evolve_trans [OF s(3) t(3)] by (intro exI [of _ w'] exI [of _ x']) simp
qed

lemma flush_ok:
  assumes "ok k w d x es" and "flushable es"
  shows "\<exists>w' x'. dictionary_flush (Some d) w = Inr w' \<and> ok k w' d x' (retired es) \<and> evolve d w x es w' x' (retired es)"
proof -
  note k = okD [OF assms(1)]
  from flush_loop_ok [of k w d x "[]" es "length es"] assms obtain w1 x1 where
    f: "flush_loop (length es) d (head_of (map e_id es)) w = Inr w1" "ok k w1 d x1 (retired es)"
      "evolve d w x es w1 x1 (retired es)" "flushable (retired es)" by auto
  have "sweep (retired es) = retired es" using f(4) by (simp add: flushable_def sweep_settled)
  with gc_ok [OF f(2)] obtain w' x' where
    g: "garbage_collect_pending_deletes d w1 = Inr w'" "ok k w' d x' (retired es)"
      "evolve d w1 x1 (retired es) w' x' (retired es)" by metis
  have "dictionary_flush (Some d) w = Inr w'"
    using k(1,4,5) f(1) g(1) okD(4,5) [OF f(2)] by (simp add: heap_defs rep_def del: rbind_Inr_iff)
  then show ?thesis using g(2) evolve_trans [OF f(3) g(3)] by blast
qed

text \<open>
  The loop over the items before a place.  It deletes by name, so that at a deleted item it deletes the
  item that has the name now; when that one comes next, the loop goes on with a freed item.
\<close>

lemma flush_loop_next:
  assumes "ok k w d x (as @ e # bs)" and "dict_item_del d (e_name e) (Some (length (e_name e))) w = Inr (b, w')"
  shows "flush_loop (Suc fuel) d (Some (e_id e)) w = flush_loop fuel d (head_of (map e_id bs)) w'"
proof -
  note k = okD [OF assms(1)]
  have "distinct (map e_id as @ e_id e # map e_id bs)" using k(6) by (simp add: separate_def)
  then have "item_next w d (e_id e) = Inr (head_of (map e_id bs))"
    using rest_after_mid k(1,4) by (simp add: item_next_def heap_defs rep_def)
  moreover have "item_get_name w (e_id e) = Inr (e_name e)"
    using ok_entry(1) [OF assms(1), of e] by (simp add: item_get_name_def heap_defs)
  ultimately show ?thesis using assms(2) by (simp del: rbind_Inr_iff)
qed

lemma flush_loop_before:
  assumes "ok k w d x (as @ bs @ cs)" and "settled (as @ bs @ cs)" and "\<forall>e \<in> set bs. e_live e"
  shows "\<exists>w' x'. flush_loop (length bs + fuel) d (head_of (map e_id (bs @ cs))) w = flush_loop fuel d (head_of (map e_id cs)) w' \<and>
    ok k w' d x' (as @ retired bs @ cs) \<and> settled (as @ retired bs @ cs)"
  using assms
proof (induction bs arbitrary: w x as)
  case Nil
  then show ?case by auto
next
  case (Cons e bs)
  let ?es = "if e_held e then [retire e] else []"
  have o: "ok k w d x (as @ e # (bs @ cs))" "settled (as @ e # (bs @ cs))" "e_live e" using Cons.prems by simp_all
  from flush_live [OF o] obtain w1 x1 where
    s: "dict_item_del d (e_name e) (Some (length (e_name e))) w = Inr (True, w1)" "ok k w1 d x1 ((as @ ?es) @ bs @ cs)"
      "settled ((as @ ?es) @ bs @ cs)" by (metis append.assoc)
  from Cons.IH [OF s(2,3)] Cons.prems(3) obtain w' x' where
    r: "flush_loop (length bs + fuel) d (head_of (map e_id (bs @ cs))) w1 = flush_loop fuel d (head_of (map e_id cs)) w'"
      "ok k w' d x' ((as @ ?es) @ retired bs @ cs)" "settled ((as @ ?es) @ retired bs @ cs)" by auto
  have "flush_loop (length (e # bs) + fuel) d (head_of (map e_id ((e # bs) @ cs))) w = flush_loop fuel d (head_of (map e_id cs)) w'"
    using flush_loop_next [OF o(1) s(1), of "length bs + fuel"] r(1) by (simp add: head_of_def)
  then show ?case using r(2,3) by (intro exI [of _ w'] exI [of _ x']) simp
qed

lemma flush_same_name:
  assumes "ok k w d x (as @ [e, n])" and "settled (as @ [e, n])" and "\<forall>f \<in> set as. e_live f"
    and "e_live n" and "\<not> e_held n" and "e_name n = e_name e"
  shows "dictionary_flush (Some d) w = Inl UseAfterFree"
proof -
  note k = okD [OF assms(1)]
  have o: "ok k w d x ([] @ as @ [e, n])" "settled ([] @ as @ [e, n])" using assms(1,2) by simp_all
  from flush_loop_before [OF o assms(3), of 2] obtain w1 x1 where
    b: "flush_loop (length as + 2) d (head_of (map e_id (as @ [e, n]))) w = flush_loop 2 d (Some (e_id e)) w1"
      "ok k w1 d x1 ((retired as @ [e]) @ n # [])" "settled ((retired as @ [e]) @ n # [])" by (auto simp: head_of_def)
  from flush_live [OF b(2,3) assms(4)] assms(5,6) obtain w2 where
    l: "dict_item_del d (e_name e) (Some (length (e_name e))) w1 = Inr (True, w2)" "w_items w2 (e_id n) = None" by auto
  have "ok k w1 d x1 (retired as @ e # [n])" using b(2) by simp
  from flush_loop_next [OF this l(1), of 1]
  have "flush_loop 2 d (Some (e_id e)) w1 = flush_loop 1 d (Some (e_id n)) w2" by (simp add: head_of_def numeral_2_eq_2)
  also have "\<dots> = Inl UseAfterFree" using l(2) by (simp add: item_next_def heap_defs)
  finally have "flush_loop (length (d_list x)) d (head_of (d_list x)) w = Inl UseAfterFree" using b(1) k(1) by (simp add: rep_def)
  then show ?thesis using k(4,5) by (simp add: heap_defs del: rbind_Inr_iff)
qed

section \<open>Destruction\<close>

lemma queue_world:
  assumes "ready w d x"
  defines "w' \<equiv> w\<lparr>w_dicts := (w_dicts w)(d \<mapsto> x\<lparr>d_destroyed := True\<rparr>), w_waiting := d # w_waiting w\<rparr>"
  shows "dictionary_queue_for_destruction d w = Inr w'" "world_ok w'" "\<And>p. p \<noteq> d \<Longrightarrow> untouched w w' p"
    "entries w' d = entries w d" "plain (x\<lparr>d_destroyed := True\<rparr>)"
proof -
  note r = readyD [OF assms(1)]
  let ?x = "x\<lparr>d_destroyed := True\<rparr>"
  have new: "d \<notin> set (w_waiting w)" using r(3) world_okD(2) [OF r(1,2)] by simp
  show "dictionary_queue_for_destruction d w = Inr w'"
    using r(2,3) by (simp add: dictionary_queue_for_destruction_def heap_defs w'_def)
  show p: "plain ?x" using okD(5) [OF r(4)] by (simp add: plain_def is_dictionary_single_threaded_def)
  have same: "entries w' p = entries w p" for p
    using r(2) by (auto simp: w'_def entries_def entry_at_def split: option.split)
  then show "entries w' d = entries w d" by simp
  show u: "untouched w w' p" if "p \<noteq> d" for p using that same by (simp add: untouched_def w'_def)
  have b: "bounded w'" using world_ok_bounded [OF r(1)] r(2) by (auto simp: bounded_def w'_def)
  have "inv 0 ?x (entries w d)" using okD(2) [OF r(4)] p by (auto simp: inv_def)
  then have self: "ok 0 w' d ?x (entries w d)"
    using r(4) b by (auto simp: ok_def rep_def w'_def)
  have other: "ok 0 w' q y (entries w q)" if "q \<noteq> d" "w_dicts w q = Some y" for q y
    using world_okD(1) [OF r(1) that(2)] that b by (auto simp: ok_def rep_def w'_def)
  have a: "apart ?x es y fs = apart x es y fs" "apart y fs ?x es = apart y fs x es" for es y fs
    by (simp_all add: apart_def)
  show "world_ok w'"
    unfolding world_ok_def
  proof (intro conjI allI impI ballI)
    fix p y
    assume p: "w_dicts w' p = Some y"
    show "ok 0 w' p y (entries w' p)" using p self other [of p y] same by (cases "p = d") (auto simp: w'_def)
    show "d_destroyed y \<longleftrightarrow> p \<in> set (w_waiting w')"
      using p world_okD(2) [OF r(1), of p y] by (cases "p = d") (auto simp: w'_def)
  next
    fix p y q z
    assume "w_dicts w' p = Some y" "w_dicts w' q = Some z" "p \<noteq> q"
    then show "apart y (entries w' p) z (entries w' q)"
      using r(2) a same world_okD(3) [OF r(1)]
      by (cases "p = d"; cases "q = d") (auto simp: w'_def)
  qed (use b r(1,2) new in \<open>auto simp: world_ok_def w'_def\<close>)
qed

text \<open>
  Destroying a dictionary: it is freed with all that it owns if no item is in use; otherwise it is
  emptied and waits.
\<close>

definition destroyed :: "did \<Rightarrow> dictionary \<Rightarrow> world \<Rightarrow> world \<Rightarrow> bool" where
  "destroyed d x w w' \<longleftrightarrow>
     (if busy (entries w d)
      then d \<in> set (w_waiting w') \<and> w_dicts w' d \<noteq> None \<and> bindings w' d = [] \<and> entries w' d = retired (entries w d)
      else freed d x w w')"

lemma destroy_idle:
  assumes "ready w d x" and "\<not> busy (entries w d)"
  defines "w' \<equiv> erased d None (clones x) (entries w d) w"
  shows "dictionary_free_all_resources d True w = Inr (True, w')" "world_ok w'" "destroyed d x w w'"
    "\<And>p. p \<noteq> d \<Longrightarrow> untouched w w' p"
proof -
  note r = readyD [OF assms(1)]
  have s: "sound w" using r(1) by (simp add: world_ok_iff)
  show "dictionary_free_all_resources d True w = Inr (True, w')" using free_all_eq [OF r(4), of True] by (simp add: w'_def)
  show "\<And>p. p \<noteq> d \<Longrightarrow> untouched w w' p" using erased_sound(2) [OF s r(2)] by (simp add: w'_def)
  have "d \<notin> set (w_waiting w)" using r(3) world_okD(2) [OF r(1,2)] by simp
  then have "waits w'" using r(1) by (auto simp: world_ok_iff waits_def w'_def)
  then show "world_ok w'" using erased_sound(1) [OF s r(2)] by (simp add: world_ok_iff w'_def)
  show "destroyed d x w w'"
    using assms(2) erased_freed by (simp add: destroyed_def w'_def)
qed

lemma destroy_busy:
  assumes "ready w d x" and "busy (entries w d)" and "flushable (entries w d)"
  shows "\<exists>w1 w'. dictionary_flush (Some d) w = Inr w1 \<and> dictionary_queue_for_destruction d w1 = Inr w' \<and>
    world_ok w' \<and> destroyed d x w w' \<and> (\<forall>p. p \<noteq> d \<longrightarrow> untouched w w' p) \<and>
    (\<exists>y. w_dicts w' d = Some y \<and> plain y) \<and> stays_gone w w' \<and> w_waiting w' = d # w_waiting w"
proof -
  note r = readyD [OF assms(1)]
  from flush_ok [OF r(4) assms(3)] obtain w1 x1 where
    f: "dictionary_flush (Some d) w = Inr w1" "ok 0 w1 d x1 (retired (entries w d))"
      "evolve d w x (entries w d) w1 x1 (retired (entries w d))" by blast
  note s = ready_step [OF assms(1) f(2,3)]
  note q = queue_world [OF s(1)]
  let ?w = "w1\<lparr>w_dicts := (w_dicts w1)(d \<mapsto> x1\<lparr>d_destroyed := True\<rparr>), w_waiting := d # w_waiting w1\<rparr>"
  have e: "entries ?w d = retired (entries w d)" using q(4) rep_entries [OF okD(1) [OF f(2)]] by simp
  then have "bindings ?w d = []" using contents_retired by (simp add: bindings_def)
  then have "destroyed d x w ?w" using assms(2) e by (simp add: destroyed_def)
  moreover have "stays_gone w1 ?w" using okD(4) [OF f(2)] by (auto simp: stays_gone_def)
  then have "stays_gone w ?w" using stays_gone_trans [OF evolve_gone [OF r(4) f(3)]] by blast
  moreover have "w_waiting w1 = w_waiting w" using f(3) by (simp add: evolve_def frame_def)
  moreover have "untouched w ?w p" if "p \<noteq> d" for p using untouched_trans [OF s(4) [OF that] q(3) [OF that]] .
  ultimately show ?thesis using f(1) q(1,2,5) by (intro exI [of _ w1] exI [of _ ?w]) simp
qed

lemma destroy_ok:
  assumes "ready w d x" and "busy (entries w d) \<longrightarrow> flushable (entries w d)"
  shows "\<exists>w'. dictionary_destroy (Some d) w = Inr w' \<and> world_ok w' \<and> destroyed d x w w' \<and>
    (\<forall>d' y. d' \<noteq> d \<longrightarrow> ready w d' y \<longrightarrow> ready w' d' y \<and> untouched w w' d') \<and>
    (\<forall>d'. w_dicts w d' = None \<longrightarrow> w_dicts w' d' = None) \<and> reclaimed w w'"
proof -
  from cleanup_ok [OF readyD(1) [OF assms(1)]] obtain w1 where
    w1: "cleanup_destroyed_dictionaries w = Inr (length (w_waiting w1), w1)" "after_cleanup w w1" by blast
  note c = cleanup_ready [OF w1(2) assms(1)]
  have e: "entries w1 d = entries w d" using c(2) by (simp add: untouched_def)
  note r = readyD [OF c(1)]
  have p: "plain x" by (rule okD(5) [OF r(4)])
  have refs: "dictionary_referenced_items w1 (Some d) = Inr (count e_held (entries w d))"
    using r(2) inv_counters(1) [OF okD(2) [OF r(4)]] count_nonneg [of e_held "entries w d"] e
    by (auto simp: heap_defs not_less)
  have others: "ready w' d' y \<and> untouched w w' d'"
    if "world_ok w'" "\<And>q. q \<noteq> d \<Longrightarrow> untouched w1 w' q" "d' \<noteq> d" "ready w d' y" for w' d' y
  proof -
    note k = cleanup_ready [OF w1(2) that(4)]
    have u: "untouched w1 w' d'" by (rule that(2) [OF that(3)])
    then have "w_dicts w' d' = w_dicts w1 d'" by (simp add: untouched_def)
    then show ?thesis using untouched_trans [OF k(2) u] readyD(2,3) [OF k(1)] that(1) by (simp add: ready_def)
  qed
  have gone: "w_dicts w' q = None" if "\<And>q. q \<noteq> d \<Longrightarrow> untouched w1 w' q" "w_dicts w q = None" for w' q
  proof -
    have "q \<noteq> d" using that(2) readyD(2) [OF assms(1)] by auto
    then have "w_dicts w' q = w_dicts w1 q" using that(1) by (simp add: untouched_def)
    moreover have "w_dicts w1 q = None \<or> untouched w w1 q" using w1(2) by (auto simp: after_cleanup_def split: if_splits)
    ultimately show ?thesis using that(2) by (auto simp: untouched_def)
  qed
  have dd: "destroyed d x w1 w' \<Longrightarrow> destroyed d x w w'" for w' using e by (auto simp: destroyed_def freed_def split: if_splits)
  have "d \<notin> set (w_waiting w1)" using r(3) world_okD(2) [OF r(1,2)] by simp
  have rec: "reclaimed w w'" if "stays_gone w1 w'" "set (w_waiting w1) \<subseteq> set (w_waiting w')" "\<And>q. q \<noteq> d \<Longrightarrow> untouched w1 w' q" for w'
  proof (rule cleanup_reclaims [OF readyD(1) [OF assms(1)] w1(2) that(1)])
    show "untouched w1 w' q" if "q \<in> set (w_waiting w1)" for q
      using that \<open>d \<notin> set (w_waiting w1)\<close> by (intro \<open>\<And>q. q \<noteq> d \<Longrightarrow> untouched w1 w' q\<close>) auto
  qed (use that in auto)
  note lock = locks_plain [OF r(2) p]
  show ?thesis
  proof (cases "busy (entries w d)")
    case True
    then have "busy (entries w1 d)" "flushable (entries w1 d)" using assms(2) e by simp_all
    from destroy_busy [OF c(1) this] obtain w2 w' y where
      d: "dictionary_flush (Some d) w1 = Inr w2" "dictionary_queue_for_destruction d w2 = Inr w'" "world_ok w'"
        "destroyed d x w1 w'" "\<forall>p. p \<noteq> d \<longrightarrow> untouched w1 w' p" "w_dicts w' d = Some y" "plain y"
        "stays_gone w1 w'" "w_waiting w' = d # w_waiting w1" by blast
    have "dictionary_destroy (Some d) w = Inr w'"
      using w1(1) refs True busy_count [of "entries w d"] d(1,2) lock locks_plain [OF d(6,7)]
      by (simp del: rbind_Inr_iff dictionary_flush.simps dictionary_referenced_items.simps)
    moreover have "untouched w1 w' q" if "q \<noteq> d" for q using d(5) that by simp
    note others [OF d(3) this] gone [OF this] rec [OF d(8) _ this]
    ultimately show ?thesis using d(3,9) dd [OF d(4)] by (intro exI [of _ w']) auto
  next
    case False
    note d = destroy_idle [OF c(1), unfolded e, OF False]
    let ?w = "erased d None (clones x) (entries w d) w1"
    have "dictionary_destroy (Some d) w = Inr ?w"
      using w1(1) refs False busy_count [of "entries w d"] d(1) lock
      by (simp del: rbind_Inr_iff dictionary_referenced_items.simps)
    then show ?thesis
      using d(2) dd [OF d(3)] others [OF d(2,4)] gone [OF d(4)] rec [OF erased_gone _ d(4)] by (intro exI [of _ ?w]) simp
  qed
qed

end
