(* ===== verification/Dictionary_Walk.thy ===== *)
theory Dictionary_Walk
  imports Dictionary_Life
begin

text \<open>
  Traversing a dictionary: the loop between \<^verbatim>\<open>dfe_start_rw\<close> and \<^verbatim>\<open>dfe_done\<close> visits the live items in
  their order.  The item it stands on is held, so that the body may delete it.
\<close>

section \<open>Positions\<close>

definition at_entry :: "dictionary_foreach \<Rightarrow> did \<Rightarrow> lock_mode \<Rightarrow> entry \<Rightarrow> bool" where
  "at_entry dfe d mode e \<longleftrightarrow>
     fe_dict dfe = Some d \<and> fe_rw dfe = mode \<and> fe_item dfe = Some (e_id e) \<and> fe_name dfe = Some (e_name e) \<and>
     fe_value dfe = e_value e"

definition at_end :: "dictionary_foreach \<Rightarrow> did \<Rightarrow> lock_mode \<Rightarrow> bool" where
  "at_end dfe d mode \<longleftrightarrow> fe_dict dfe = Some d \<and> fe_rw dfe = mode \<and> fe_item dfe = None \<and> fe_value dfe = Null"

lemma at_entry_refs [simp]: "at_entry dfe d mode (add_refs n e) = at_entry dfe d mode e"
  by (simp add: at_entry_def)

text \<open>Deleted items are skipped.\<close>

lemma skip_none:
  assumes "ok k w d x es" and "set fs \<subseteq> set es" and "\<forall>e \<in> set fs. \<not> e_live e"
  shows "skip_deleted d (map e_id fs @ is) w = skip_deleted d is w"
  using assms(2,3)
proof (induction fs)
  case (Cons e fs)
  have "item_check_and_acquire_advanced d (e_id e) False w = Inr (RC_ITEM_MARKED_FOR_DELETION, w)"
    using not_acquired_step [OF okD(1,2) [OF assms(1)]] Cons.prems by simp
  then show ?case using Cons by (simp add: item_check_and_acquire_def del: rbind_Inr_iff)
qed simp

lemma skip_to:
  assumes "ok k w d x (as @ cs @ e # bs)" and "\<forall>c \<in> set cs. \<not> e_live c" and "e_live e"
  shows "\<exists>w' x'. skip_deleted d (map e_id (cs @ e # bs)) w = Inr (Some (e_id e), w') \<and>
    ok k w' d x' (as @ cs @ add_refs 1 e # bs) \<and> evolve d w x (as @ cs @ e # bs) w' x' (as @ cs @ add_refs 1 e # bs)"
proof -
  from acquire_ok [of k w d x "as @ cs" e bs False] assms(1,3) obtain w' x' where
    "item_check_and_acquire_advanced d (e_id e) False w = Inr (RC_ITEM_OK, w')"
    "ok k w' d x' (as @ cs @ add_refs 1 e # bs)" "evolve d w x (as @ cs @ e # bs) w' x' (as @ cs @ add_refs 1 e # bs)"
    by auto
  then show ?thesis
    using skip_none [OF assms(1), of cs "map e_id (e # bs)"] assms(2)
    by (auto simp: item_check_and_acquire_def)
qed

lemma position:
  assumes "ok k w d x es" and "e \<in> set es" and "fe_dict dfe = Some d" and "fe_rw dfe = mode"
  shows "\<exists>dfe'. dfe_at (Some (e_id e)) dfe w = Inr dfe' \<and> at_entry dfe' d mode e \<and> fe_locked dfe' = fe_locked dfe"
  using ok_entry(1,2) [OF assms(1,2)] assms(3,4)
  by (auto simp: dfe_at_def item_get_name_def item_value_def heap_defs at_entry_def)

lemma position_end:
  assumes "fe_dict dfe = Some d" and "fe_rw dfe = mode"
  shows "\<exists>dfe'. dfe_at None dfe w = Inr dfe' \<and> at_end dfe' d mode"
  using assms by (auto simp: dfe_at_def at_end_def)

text \<open>Either the rest has no live entry, or it has a first one.\<close>

lemma first_live:
  obtains "\<forall>e \<in> set es. \<not> e_live e"
  | cs e bs where "es = cs @ e # bs" "\<forall>c \<in> set cs. \<not> e_live c" "e_live e"
  using split_list_first_prop [of es e_live] by blast

lemma contents_dead: "\<forall>e \<in> set es. \<not> e_live e \<Longrightarrow> contents es = []"
  by (auto simp: contents_def filter_empty_conv)

section \<open>Steps\<close>

lemma start_end:
  assumes "ok k w d x es" and "\<not> d_destroyed x" and "\<forall>e \<in> set es. \<not> e_live e"
  shows "\<exists>dfe. dictionary_foreach_start_rw (dfe_init (Some d) mode) w = Inr (dfe, w) \<and> at_end dfe d mode"
proof -
  note k = okD [OF assms(1)]
  have "skip_deleted d (d_list x) w = Inr (None, w)"
    using skip_none [OF assms(1) subset_refl assms(3), of "[]"] k(1) by (simp add: rep_def)
  then show ?thesis
    using k(4,5) assms(2)
    by (simp add: dictionary_foreach_start_rw_def dfe_init_def heap_defs dfe_at_def at_end_def del: rbind_Inr_iff)
qed

lemma start_at:
  assumes "ok k w d x (cs @ e # bs)" and "\<not> d_destroyed x" and "\<forall>c \<in> set cs. \<not> e_live c" and "e_live e"
  shows "\<exists>dfe w' x'. dictionary_foreach_start_rw (dfe_init (Some d) mode) w = Inr (dfe, w') \<and> at_entry dfe d mode e \<and>
    ok k w' d x' (cs @ add_refs 1 e # bs) \<and> evolve d w x (cs @ e # bs) w' x' (cs @ add_refs 1 e # bs)"
proof -
  note k = okD [OF assms(1)]
  from skip_to [of k w d x "[]" cs e bs] assms(1,3,4) obtain w' x' where
    s: "skip_deleted d (map e_id (cs @ e # bs)) w = Inr (Some (e_id e), w')" "ok k w' d x' (cs @ add_refs 1 e # bs)"
      "evolve d w x (cs @ e # bs) w' x' (cs @ add_refs 1 e # bs)" by auto
  let ?dfe = "dfe_init (Some d) mode\<lparr>fe_counter := 0, fe_locked := True\<rparr>"
  from position [OF s(2), of "add_refs 1 e" ?dfe mode] obtain dfe where
    p: "dfe_at (Some (e_id e)) ?dfe w' = Inr dfe" "at_entry dfe d mode e" by (auto simp: dfe_init_def)
  have "d_list x = map e_id (cs @ e # bs)" using k(1) by (simp add: rep_def)
  then have "\<exists>dfe'. dictionary_foreach_start_rw (dfe_init (Some d) mode) w = Inr (dfe', w') \<and> at_entry dfe' d mode e"
    using k(4,5) okD(4,5) [OF s(2)] s(1) p assms(2)
    by (cases "mode = LOCK_REENTRANT")
      (simp_all add: dictionary_foreach_start_rw_def dfe_init_def heap_defs at_entry_def del: rbind_Inr_iff)
  then show ?thesis using s(2,3) by blast
qed

lemma leave_step:
  assumes "ok k w d x (as @ e # bs)" and "e_held e" and "mode \<noteq> LOCK_WRITE \<or> e_live e"
  shows "\<exists>w' x'. dict_item_release_and_check_if_it_is_deleted d (e_id e) mode w = Inr w' \<and>
    ok k w' d x' (as @ add_refs (- 1) e # bs) \<and> evolve d w x (as @ e # bs) w' x' (as @ add_refs (- 1) e # bs)"
proof -
  from release_ok [OF assms(1,2)] obtain w' x' where
    r: "item_release d (e_id e) w = Inr w'" "ok k w' d x' (as @ add_refs (- 1) e # bs)"
      "evolve d w x (as @ e # bs) w' x' (as @ add_refs (- 1) e # bs)" by blast
  then have "dict_item_release_and_check_if_it_is_deleted d (e_id e) mode w = Inr w'"
    using assms(3) ok_entry(1) [OF assms(1), of e]
    by (auto simp: dict_item_release_and_check_if_it_is_deleted_def heap_defs)
  then show ?thesis using r(2,3) by blast
qed

definition at_place :: "dictionary_foreach \<Rightarrow> did \<Rightarrow> lock_mode \<Rightarrow> iid \<Rightarrow> bool" where
  "at_place dfe d mode i \<longleftrightarrow> fe_dict dfe = Some d \<and> fe_rw dfe = mode \<and> fe_item dfe = Some i"

text \<open>What \<open>dictionary_foreach_next\<close> does, given the item it finds.\<close>

lemma next_eq:
  assumes "ok k w d x (as @ e # bs)" and "\<not> d_destroyed x" and "at_place dfe d mode (e_id e)"
    and "skip_deleted d (map e_id bs) w = Inr (item, w1)"
    and "dict_item_release_and_check_if_it_is_deleted d (e_id e) mode w1 = Inr w2"
    and "w_dicts w2 d = Some x2" "plain x2"
    and "\<And>g. fe_dict g = Some d \<Longrightarrow> fe_rw g = mode \<Longrightarrow> \<exists>g'. dfe_at item g w2 = Inr g' \<and> P g' \<and> fe_rw g' = mode"
    and "\<And>g c. P g \<Longrightarrow> P (g\<lparr>fe_counter := c\<rparr>)" "\<And>g l. P g \<Longrightarrow> P (g\<lparr>fe_locked := l\<rparr>)"
  shows "\<exists>dfe'. dictionary_foreach_next dfe w = Inr (dfe', w2) \<and> P dfe'"
proof -
  note k = okD [OF assms(1)]
  have a: "fe_dict dfe = Some d" "fe_rw dfe = mode" "fe_item dfe = Some (e_id e)" using assms(3) by (auto simp: at_place_def)
  have "distinct (map e_id as @ e_id e # map e_id bs)" using k(6) by (simp add: separate_def)
  then have rest: "rest_after (d_list x) (e_id e) = map e_id bs" using rest_after_mid k(1) by (simp add: rep_def)
  have it: "w_items w (e_id e) = Some (e_item e)" using ok_entry(1) [OF assms(1), of e] by simp
  let ?locked = "mode = LOCK_REENTRANT \<or> \<not> fe_locked dfe"
  define g where "g = (if ?locked then dfe\<lparr>fe_locked := True\<rparr> else dfe)"
  have "fe_dict g = Some d" "fe_rw g = mode" using a by (simp_all add: g_def)
  from assms(8) [OF this] obtain g' where g': "dfe_at item g w2 = Inr g'" "P g'" "fe_rw g' = mode" by blast
  let ?g = "if item = None then g' else g'\<lparr>fe_counter := fe_counter g' + 1\<rparr>"
  have "P ?g" using assms(9) g'(2) by simp
  moreover have "dictionary_foreach_next dfe w =
      Inr (if mode = LOCK_REENTRANT then ?g\<lparr>fe_locked := False\<rparr> else ?g, w2)"
    using a k(4,5) assms(2,4-7) rest it g'(1,3)
    by (cases ?locked; cases item)
      (simp_all add: dictionary_foreach_next_def heap_defs g_def Let_def del: rbind_Inr_iff)
  ultimately show ?thesis using assms(10) by simp
qed

lemma next_end:
  assumes "ok k w d x (as @ e # bs)" and "\<not> d_destroyed x" and "at_place dfe d mode (e_id e)" and "e_held e"
    and "mode \<noteq> LOCK_WRITE \<or> e_live e" and "\<forall>b \<in> set bs. \<not> e_live b"
  shows "\<exists>dfe' w' x'. dictionary_foreach_next dfe w = Inr (dfe', w') \<and> at_end dfe' d mode \<and>
    ok k w' d x' (as @ add_refs (- 1) e # bs) \<and> evolve d w x (as @ e # bs) w' x' (as @ add_refs (- 1) e # bs)"
proof -
  have s: "skip_deleted d (map e_id bs) w = Inr (None, w)"
    using skip_none [OF assms(1) _ assms(6), of "[]"] by auto
  from leave_step [OF assms(1,4,5)] obtain w' x' where
    r: "dict_item_release_and_check_if_it_is_deleted d (e_id e) mode w = Inr w'"
      "ok k w' d x' (as @ add_refs (- 1) e # bs)" "evolve d w x (as @ e # bs) w' x' (as @ add_refs (- 1) e # bs)" by blast
  have "\<exists>dfe'. dictionary_foreach_next dfe w = Inr (dfe', w') \<and> at_end dfe' d mode"
    using position_end [of _ d mode w']
    by (intro next_eq [OF assms(1-3) s r(1) okD(4,5) [OF r(2)]]) (auto simp: at_end_def dfe_at_def)
  then show ?thesis using r(2,3) by blast
qed

lemma next_at:
  assumes "ok k w d x (as @ e # cs @ f # bs)" and "\<not> d_destroyed x" and "at_place dfe d mode (e_id e)" and "e_held e"
    and "mode \<noteq> LOCK_WRITE \<or> e_live e" and "\<forall>c \<in> set cs. \<not> e_live c" and "e_live f"
  shows "\<exists>dfe' w' x'. dictionary_foreach_next dfe w = Inr (dfe', w') \<and> at_entry dfe' d mode f \<and>
    ok k w' d x' (as @ add_refs (- 1) e # cs @ add_refs 1 f # bs) \<and>
    evolve d w x (as @ e # cs @ f # bs) w' x' (as @ add_refs (- 1) e # cs @ add_refs 1 f # bs)"
proof -
  have "as @ e # cs @ f # bs = (as @ [e]) @ cs @ f # bs" by simp
  from skip_to [of k w d x "as @ [e]" cs f bs] assms(1,6,7) obtain w1 x1 where
    s: "skip_deleted d (map e_id (cs @ f # bs)) w = Inr (Some (e_id f), w1)" "ok k w1 d x1 (as @ e # cs @ add_refs 1 f # bs)"
      "evolve d w x (as @ e # cs @ f # bs) w1 x1 (as @ e # cs @ add_refs 1 f # bs)" by auto
  from leave_step [OF s(2) assms(4,5)] obtain w' x' where
    r: "dict_item_release_and_check_if_it_is_deleted d (e_id e) mode w1 = Inr w'"
      "ok k w' d x' (as @ add_refs (- 1) e # cs @ add_refs 1 f # bs)"
      "evolve d w1 x1 (as @ e # cs @ add_refs 1 f # bs) w' x' (as @ add_refs (- 1) e # cs @ add_refs 1 f # bs)" by blast
  have "\<exists>g'. dfe_at (Some (e_id f)) g w' = Inr g' \<and> at_entry g' d mode f \<and> fe_rw g' = mode"
    if "fe_dict g = Some d" "fe_rw g = mode" for g
    using position [OF r(2), of "add_refs 1 f" g mode] that by (auto simp: at_entry_def)
  then have "\<exists>dfe'. dictionary_foreach_next dfe w = Inr (dfe', w') \<and> at_entry dfe' d mode f"
    by (intro next_eq [OF assms(1-3) s(1) r(1) okD(4,5) [OF r(2)]]) (auto simp: at_entry_def)
  then show ?thesis using r(2) evolve_trans [OF s(3) r(3)] by blast
qed

lemma done_end:
  assumes "at_end dfe d mode" and "w_dicts w d = Some x" "plain x"
  shows "\<exists>dfe'. dictionary_foreach_done dfe w = Inr (dfe', w)"
  using assms by (auto simp: dictionary_foreach_done_def at_end_def)

section \<open>The loop\<close>

text \<open>
  The body of a loop over \<open>d\<close>: it computes \<open>f\<close> from the name and the value it is called with, or
  fails as \<open>f\<close> does.  It deletes the item it stands on if \<open>doomed\<close> says so, and leaves the other
  entries of \<open>d\<close> as they are.  \<open>every\<close> are the bindings at the start, and \<open>J\<close> is what holds of the
  world and the state of the loop once some of them were visited.
\<close>

definition spare :: "(string \<times> vptr \<Rightarrow> bool) \<Rightarrow> entry \<Rightarrow> entry" where
  "spare doomed e = (if e_live e \<and> doomed (e_name e, e_value e) then mark_deleted e else e)"

lemma spare_simps [simp]: "e_id (spare doomed e) = e_id e" "e_held (spare doomed e) = e_held e"
  by (simp_all add: spare_def e_held_def)

lemma spare_refs: "spare doomed (add_refs n e) = add_refs n (spare doomed e)"
  by (simp add: spare_def mark_deleted_def add_refs_def)

lemma spare_dead: "\<forall>e \<in> set es. \<not> e_live e \<Longrightarrow> map (spare doomed) es = es"
  by (auto simp: spare_def intro!: map_idI)

lemma spare_none: "map (spare (\<lambda>_. False)) es = es"
  by (auto simp: spare_def intro!: map_idI)

lemma contents_spare: "contents (map (spare doomed) es) = filter (\<lambda>b. \<not> doomed b) (contents es)"
  by (induction es) (auto simp: spare_def)

locale visitor =
  fixes d :: did and mode :: lock_mode
    and body :: "dictionary_foreach \<Rightarrow> world \<times> 's \<Rightarrow> (world \<times> 's) res"
    and f :: "string \<times> vptr \<Rightarrow> 's \<Rightarrow> 's res"
    and doomed :: "string \<times> vptr \<Rightarrow> bool"
    and every :: "(string \<times> vptr) list"
    and J :: "(string \<times> vptr) list \<Rightarrow> world \<Rightarrow> 's \<Rightarrow> bool"
  assumes doomed_mode: "doomed b \<Longrightarrow> mode \<noteq> LOCK_WRITE"
    and J_evolve: "J passed w s \<Longrightarrow> ok 0 w d x es \<Longrightarrow> ok 0 w' d x' es' \<Longrightarrow> evolve d w x es w' x' es' \<Longrightarrow>
      contents es' = contents es \<Longrightarrow> J passed w' s"
    and body_fails: "J passed w s \<Longrightarrow> ok 0 w d x (as @ e # bs) \<Longrightarrow> e_live e \<Longrightarrow> e_held e \<Longrightarrow> at_entry dfe d mode e \<Longrightarrow>
      every = passed @ (e_name e, e_value e) # contents bs \<Longrightarrow>
      f (e_name e, e_value e) s = Inl err \<Longrightarrow> body dfe (w, s) = Inl err"
    and body_returns: "J passed w s \<Longrightarrow> ok 0 w d x (as @ e # bs) \<Longrightarrow> e_live e \<Longrightarrow> e_held e \<Longrightarrow> at_entry dfe d mode e \<Longrightarrow>
      every = passed @ (e_name e, e_value e) # contents bs \<Longrightarrow>
      f (e_name e, e_value e) s = Inr s' \<Longrightarrow>
      \<exists>w' x'. body dfe (w, s) = Inr (w', s') \<and> ok 0 w' d x' (as @ spare doomed e # bs) \<and>
        d_destroyed x' = d_destroyed x \<and> J (passed @ [(e_name e, e_value e)]) w' s'"
begin

text \<open>What the loop leaves when it starts at an entry.\<close>

definition completes :: "('x \<times> world \<times> 's) res \<Rightarrow> 's res \<Rightarrow> (string \<times> vptr) list \<Rightarrow> entry list \<Rightarrow> ('x \<Rightarrow> bool) \<Rightarrow> bool" where
  "completes result sres bs es P \<longleftrightarrow>
     (case sres of
        Inl err \<Rightarrow> result = Inl err
      | Inr s' \<Rightarrow> \<exists>g w' x'. result = Inr (g, w', s') \<and> P g \<and> ok 0 w' d x' es \<and> \<not> d_destroyed x' \<and> J bs w' s')"

lemma loop_completes:
  assumes "J passed w s" and "ok 0 w d x (as @ add_refs 1 e # bs)" and "\<not> d_destroyed x" and "at_entry dfe d mode e" and "e_live e"
    and "length (contents bs) < fuel" and "e_refs e \<ge> 0" and "every = passed @ contents (e # bs)"
  shows "completes (dfe_loop fuel body dfe (w, s)) (rfold f (contents (e # bs)) s) (passed @ contents (e # bs))
    (as @ map (spare doomed) (e # bs)) (\<lambda>g. at_end g d mode)"
  using assms
proof (induction fuel arbitrary: passed w x as e bs dfe s)
  case (Suc n)
  let ?e = "add_refs 1 e" and ?b = "(e_name e, e_value e)"
  have i: "fe_item dfe = Some (e_id e)" and place: "at_place dfe d mode (e_id (spare doomed ?e))"
    using Suc.prems(4) by (simp_all add: at_entry_def at_place_def)
  have held: "e_held ?e" using Suc.prems(7) by (simp add: e_held_def)
  have ahead: "every = passed @ (e_name ?e, e_value ?e) # contents bs" using Suc.prems(5,8) by simp
  show ?case
  proof (cases "f ?b s")
    case (Inl err)
    then show ?thesis
      using body_fails [OF Suc.prems(1,2) _ held _ ahead, of dfe err] Suc.prems(4,5) i by (simp add: completes_def)
  next
    case (Inr s1)
    from body_returns [OF Suc.prems(1,2) _ held _ ahead, of dfe s1] Inr Suc.prems(3,4,5) obtain w1 x1 where
      b: "body dfe (w, s) = Inr (w1, s1)" "ok 0 w1 d x1 (as @ spare doomed ?e # bs)" "\<not> d_destroyed x1" "J (passed @ [?b]) w1 s1"
      by auto
    have eq: "dfe_loop (Suc n) body dfe (w, s) = rbind (dictionary_foreach_next dfe w1) (\<lambda>(dfe, w). dfe_loop n body dfe (w, s1))"
      using b(1) i by (simp del: rbind_Inr_iff)
    have md: "mode \<noteq> LOCK_WRITE \<or> e_live (spare doomed ?e)" using doomed_mode [of ?b] Suc.prems(5) by (auto simp: spare_def)
    have h: "e_held (spare doomed ?e)" using held by simp
    have bk: "add_refs (- 1) (spare doomed ?e) = spare doomed e" by (simp add: spare_refs)
    show ?thesis
    proof (cases rule: first_live [of bs])
      case 1
      from next_end [OF b(2,3) place h md 1] bk obtain dfe' w' x' where
        t: "dictionary_foreach_next dfe w1 = Inr (dfe', w')" "at_end dfe' d mode" "ok 0 w' d x' (as @ spare doomed e # bs)"
          "evolve d w1 x1 (as @ spare doomed ?e # bs) w' x' (as @ spare doomed e # bs)" by auto
      have "dfe_loop n body dfe' (w', s1) = Inr (dfe', w', s1)" using t(2) by (cases n) (simp_all add: at_end_def)
      moreover have "\<not> d_destroyed x'" using b(3) t(4) by (simp add: evolve_def kept_def)
      moreover have "J (passed @ [?b]) w' s1" using J_evolve [OF b(4,2) t(3,4)] by (simp add: spare_refs)
      ultimately show ?thesis
        using eq t(1,2,3) Inr Suc.prems(5) contents_dead [OF 1] spare_dead [OF 1]
        by (auto simp: completes_def simp del: dfe_loop.simps)
    next
      case (2 cs g gs)
      from next_at [of 0 w1 d x1 as "spare doomed ?e" cs g gs dfe mode] b(2,3) place h md 2 bk obtain dfe' w' x' where
        t: "dictionary_foreach_next dfe w1 = Inr (dfe', w')" "at_entry dfe' d mode g"
          "ok 0 w' d x' ((as @ spare doomed e # cs) @ add_refs 1 g # gs)"
          "evolve d w1 x1 (as @ spare doomed ?e # bs) w' x' ((as @ spare doomed e # cs) @ add_refs 1 g # gs)" by auto
      have "\<not> d_destroyed x'" using b(3) t(4) by (simp add: evolve_def kept_def)
      moreover have "length (contents gs) < n" using Suc.prems(6) 2 by simp
      moreover have "e_refs g \<ge> 0" using inv_counters(4) [OF okD(2) [OF b(2)], of g] 2(1) by simp
      moreover have "J (passed @ [?b]) w' s1" using J_evolve [OF b(4,2) t(3,4)] 2 by (simp add: spare_refs)
      moreover have "every = (passed @ [?b]) @ contents (g # gs)"
        using Suc.prems(5,8) 2 contents_dead [OF 2(2)] by simp
      ultimately have "completes (dfe_loop n body dfe' (w', s1)) (rfold f (contents (g # gs)) s1)
          ((passed @ [?b]) @ contents (g # gs)) ((as @ spare doomed e # cs) @ map (spare doomed) (g # gs)) (\<lambda>g. at_end g d mode)"
        using Suc.IH [OF _ t(3) _ t(2) 2(3)] by blast
      moreover have "contents (e # bs) = ?b # contents (g # gs)"
        using 2 Suc.prems(5) contents_dead [OF 2(2)] by simp
      moreover have "as @ map (spare doomed) (e # bs) = (as @ spare doomed e # cs) @ map (spare doomed) (g # gs)"
        using 2(1) spare_dead [OF 2(2)] by simp
      ultimately show ?thesis
        using eq t(1) Inr by (simp del: dfe_loop.simps contents_simps)
    qed
  qed
qed simp

theorem foreach_completes:
  assumes "J [] w s" and "ok 0 w d x es" and "\<not> d_destroyed x" and "length (contents es) \<le> fuel" and "every = contents es"
  shows "case rfold f (contents es) s of
      Inl err \<Rightarrow> dfe_foreach fuel (Some d) mode body (w, s) = Inl err
    | Inr s' \<Rightarrow> \<exists>w' x'. dfe_foreach fuel (Some d) mode body (w, s) = Inr (w', s') \<and>
        ok 0 w' d x' (map (spare doomed) es) \<and> \<not> d_destroyed x' \<and> J (contents es) w' s'"
proof (cases rule: first_live [of es])
  case 1
  from start_end [OF assms(2,3) 1] obtain dfe where
    st: "dictionary_foreach_start_rw (dfe_init (Some d) mode) w = Inr (dfe, w)" "at_end dfe d mode" by blast
  moreover obtain dfe' where "dictionary_foreach_done dfe w = Inr (dfe', w)"
    using done_end [OF st(2) okD(4,5) [OF assms(2)]] by blast
  moreover have "dfe_loop fuel body dfe (w, s) = Inr (dfe, w, s)" using st(2) by (cases fuel) (simp_all add: at_end_def)
  ultimately show ?thesis
    using assms(1-3) contents_dead [OF 1] spare_dead [OF 1] by (auto simp: dfe_foreach_def simp del: dfe_loop.simps)
next
  case (2 cs e bs)
  from start_at [of 0 w d x cs e bs mode] assms(2,3) 2 obtain dfe w1 x1 where
    st: "dictionary_foreach_start_rw (dfe_init (Some d) mode) w = Inr (dfe, w1)" "at_entry dfe d mode e"
      "ok 0 w1 d x1 (cs @ add_refs 1 e # bs)" "evolve d w x es w1 x1 (cs @ add_refs 1 e # bs)" by auto
  have nd: "\<not> d_destroyed x1" using st(4) assms(3) by (simp add: evolve_def kept_def)
  have c: "contents (e # bs) = contents es" using 2 contents_dead [OF 2(2)] by simp
  have es: "cs @ map (spare doomed) (e # bs) = map (spare doomed) es" using 2(1) spare_dead [OF 2(2)] by simp
  have J1: "J [] w1 s" using J_evolve [OF assms(1,2) st(3,4)] 2(1) by simp
  have "length (contents bs) < fuel" using assms(4) 2 by simp
  moreover have "e_refs e \<ge> 0" using inv_counters(4) [OF okD(2) [OF assms(2)], of e] 2(1) by simp
  note loop_completes [OF J1 st(3) nd st(2) 2(3) _ this, of fuel]
  ultimately
  have l: "completes (dfe_loop fuel body dfe (w1, s)) (rfold f (contents es) s) (contents es) (map (spare doomed) es) (\<lambda>g. at_end g d mode)"
    using c es assms(5) by simp
  show ?thesis
  proof (cases "rfold f (contents es) s")
    case (Inl err)
    then show ?thesis using l st(1) by (simp add: completes_def dfe_foreach_def del: dfe_loop.simps)
  next
    case (Inr s')
    then obtain g w' x' where
      l': "dfe_loop fuel body dfe (w1, s) = Inr (g, w', s')" "at_end g d mode" "ok 0 w' d x' (map (spare doomed) es)"
        "\<not> d_destroyed x'" "J (contents es) w' s'"
      using l by (auto simp: completes_def)
    moreover obtain g' where "dictionary_foreach_done g w' = Inr (g', w')"
      using done_end [OF l'(2) okD(4,5) [OF l'(3)]] by blast
    ultimately show ?thesis using Inr st(1) by (auto simp: dfe_foreach_def simp del: dfe_loop.simps)
  qed
qed

end

end
