(* ===== verification/Dictionary_Laws.thy ===== *)
theory Dictionary_Laws
  imports Dictionary_Walk
begin

text \<open>
  What a client of dictionaries relies on: the laws of a store of named values, satisfied by the
  dictionaries that link their values and by those that clone them; and the properties of the
  public operations.
\<close>

section \<open>Stores of named values\<close>

datatype 'v command = Put string 'v | Del string

fun exec :: "(string \<Rightarrow> 'v \<Rightarrow> 's \<Rightarrow> 's res) \<Rightarrow> (string \<Rightarrow> 's \<Rightarrow> 's res) \<Rightarrow> 'v command \<Rightarrow> 's \<Rightarrow> 's res" where
  "exec put del (Put n v) s = put n v s"
| "exec put del (Del n) s = del n s"

fun act :: "bool \<Rightarrow> 'v command \<Rightarrow> (string \<times> 'v) list \<Rightarrow> (string \<times> 'v) list" where
  "act front (Put n v) c = put_binding front n v c"
| "act front (Del n) c = remove_name n c"

fun valid :: "('v \<Rightarrow> bool) \<Rightarrow> 'v command \<Rightarrow> bool" where
  "valid storable (Put n v) = (n \<noteq> [] \<and> storable v)"
| "valid storable (Del n) = (n \<noteq> [])"

locale key_value =
  fixes good :: "'s \<Rightarrow> bool" and view :: "'s \<Rightarrow> (string \<times> 'v) list" and elsewhere :: "'s \<Rightarrow> 's \<Rightarrow> bool"
    and front :: bool and storable :: "'v \<Rightarrow> bool" and null :: 'v
    and put :: "string \<Rightarrow> 'v \<Rightarrow> 's \<Rightarrow> 's res" and get :: "string \<Rightarrow> 's \<Rightarrow> 'v res" and del :: "string \<Rightarrow> 's \<Rightarrow> 's res"
  assumes elsewhere_refl: "elsewhere s s"
    and elsewhere_trans: "elsewhere s t \<Longrightarrow> elsewhere t u \<Longrightarrow> elsewhere s u"
    and put_law: "good s \<Longrightarrow> n \<noteq> [] \<Longrightarrow> storable v \<Longrightarrow>
      \<exists>s'. put n v s = Inr s' \<and> good s' \<and> view s' = put_binding front n v (view s) \<and> elsewhere s s'"
    and get_law: "good s \<Longrightarrow> n \<noteq> [] \<Longrightarrow> get n s = Inr (case map_of (view s) n of None \<Rightarrow> null | Some v \<Rightarrow> v)"
    and del_law: "good s \<Longrightarrow> n \<noteq> [] \<Longrightarrow>
      \<exists>s'. del n s = Inr s' \<and> good s' \<and> view s' = remove_name n (view s) \<and> elsewhere s s'"
begin

lemma exec_law:
  assumes "good s" and "valid storable c"
  shows "\<exists>s'. exec put del c s = Inr s' \<and> good s' \<and> view s' = act front c (view s) \<and> elsewhere s s'"
  using assms put_law del_law by (cases c) simp_all

lemma history:
  assumes "good s" and "\<forall>c \<in> set cs. valid storable c"
  shows "\<exists>s'. rfold (exec put del) cs s = Inr s' \<and> good s' \<and> view s' = fold (act front) cs (view s) \<and> elsewhere s s'"
  using assms
proof (induction cs arbitrary: s)
  case Nil
  then show ?case by (simp add: elsewhere_refl)
next
  case (Cons c cs)
  from exec_law [of s c] Cons.prems obtain s1 where
    s1: "exec put del c s = Inr s1" "good s1" "view s1 = act front c (view s)" "elsewhere s s1" by auto
  from Cons.IH [OF s1(2)] Cons.prems(2) obtain s' where
    "rfold (exec put del) cs s1 = Inr s'" "good s'" "view s' = fold (act front) cs (view s1)" "elsewhere s1 s'" by auto
  then show ?case using s1 elsewhere_trans by auto
qed

text \<open>What is found is what was put last, if it was not deleted since.\<close>

lemma get_after_put:
  assumes "good s" and "n \<noteq> []" and "m \<noteq> []" and "storable v"
  shows "\<exists>s'. put n v s = Inr s' \<and> get m s' = (if m = n then Inr v else get m s)"
proof -
  from put_law [OF assms(1,2,4)] obtain s' where
    "put n v s = Inr s'" "good s'" "view s' = put_binding front n v (view s)" by blast
  then show ?thesis using get_law [of _ m] assms(1,3) by (simp add: map_of_put_binding)
qed

lemma get_after_del:
  assumes "good s" and "n \<noteq> []" and "m \<noteq> []"
  shows "\<exists>s'. del n s = Inr s' \<and> get m s' = (if m = n then Inr null else get m s)"
proof -
  from del_law [OF assms(1,2)] obtain s' where
    "del n s = Inr s'" "good s'" "view s' = remove_name n (view s)" by blast
  then show ?thesis using get_law [of _ m] assms(1,3) by (simp add: map_of_remove_name)
qed

end

section \<open>Dictionaries are such stores\<close>

definition elsewhere_same :: "did \<Rightarrow> world \<Rightarrow> world \<Rightarrow> bool" where
  "elsewhere_same d w w' \<longleftrightarrow> (\<forall>d'. d' \<noteq> d \<longrightarrow> untouched w w' d')"

lemma elsewhere_same_refl: "elsewhere_same d w w"
  by (simp add: elsewhere_same_def)

lemma elsewhere_same_trans: "elsewhere_same d w w1 \<Longrightarrow> elsewhere_same d w1 w2 \<Longrightarrow> elsewhere_same d w w2"
  unfolding elsewhere_same_def using untouched_trans by blast

definition overwriting :: "bool \<Rightarrow> bool \<Rightarrow> did \<Rightarrow> world \<Rightarrow> bool" where
  "overwriting links front d w \<longleftrightarrow>
     (\<exists>x. ready w d x \<and> clones x = (\<not> links) \<and> \<not> keeps_values x \<and> OPTION_ADD_IN_FRONT (d_options x) = front \<and>
        d_value_aral x = None)"

definition set_link :: "did \<Rightarrow> string \<Rightarrow> vptr \<Rightarrow> world \<Rightarrow> world res" where
  "set_link d n v w = rbind (dictionary_set d (Some n) (SPtr v) 0 w) (\<lambda>(_, w). Inr w)"

definition set_text :: "did \<Rightarrow> string \<Rightarrow> string option \<Rightarrow> world \<Rightarrow> world res" where
  "set_text d n t w =
     (case t of
        None \<Rightarrow> rbind (dictionary_set d (Some n) (SPtr Null) 0 w) (\<lambda>(_, w). Inr w)
      | Some b \<Rightarrow> rbind (dictionary_set d (Some n) (SBytes b) (length b) w) (\<lambda>(_, w). Inr w))"

definition get_link :: "did \<Rightarrow> string \<Rightarrow> world \<Rightarrow> vptr res" where
  "get_link d n w = rbind (dictionary_get d (Some n) w) (\<lambda>(v, w). Inr v)"

definition get_text :: "did \<Rightarrow> string \<Rightarrow> world \<Rightarrow> string option res" where
  "get_text d n w = rbind (dictionary_get d (Some n) w) (\<lambda>(v, w). Inr (bytes_at w v))"

definition remove :: "did \<Rightarrow> string \<Rightarrow> world \<Rightarrow> world res" where
  "remove d n w = rbind (dictionary_del d (Some n) w) (\<lambda>(_, w). Inr w)"

lemma keptD: "kept x x' \<Longrightarrow> d_options x' = d_options x" "kept x x' \<Longrightarrow> d_value_aral x' = d_value_aral x"
  by (simp_all add: kept_def)

lemma remove_law:
  assumes "overwriting links front d w" and "n \<noteq> []"
  shows "\<exists>w'. remove d n w = Inr w' \<and> overwriting links front d w' \<and> bindings w' d = remove_name n (bindings w d) \<and>
    (\<not> links \<longrightarrow> texts w' d = remove_name n (texts w d)) \<and> elsewhere_same d w w' \<and>
    (busy (entries w' d) \<longrightarrow> busy (entries w d))"
proof -
  from assms(1) obtain x where x: "ready w d x" "clones x = (\<not> links)" "\<not> keeps_values x"
    "OPTION_ADD_IN_FRONT (d_options x) = front" "d_value_aral x = None" by (auto simp: overwriting_def)
  from world_del [OF x(1) assms(2)] obtain w' x' where
    d: "dictionary_del d (Some n) w = Inr (n \<in> fst ` set (bindings w d), w')" "ready w' d x'" "kept x x'"
      "bindings w' d = remove_name n (bindings w d)" "clones x \<longrightarrow> texts w' d = remove_name n (texts w d)"
      "busy (entries w' d) \<longrightarrow> busy (entries w d)" "\<forall>d'. d' \<noteq> d \<longrightarrow> untouched w w' d'" by blast
  have "overwriting links front d w'" using d(2) x(2-5) keptD [OF d(3)] by (auto simp: overwriting_def)
  then show ?thesis using d x(2) by (auto simp: remove_def elsewhere_same_def)
qed

lemma set_law:
  assumes "overwriting links front d w" and "n \<noteq> []" and "\<And>x. ready w d x \<Longrightarrow> d_value_aral x = None \<Longrightarrow> clones x = (\<not> links) \<Longrightarrow> placed x w src len blk"
  shows "\<exists>v w'. dictionary_set d (Some n) src len w = Inr (v, w') \<and> overwriting links front d w' \<and>
    bindings w' d = put_binding front n v (bindings w d) \<and> (links \<longrightarrow> src = SPtr v) \<and>
    (\<not> links \<longrightarrow> texts w' d = put_binding front n blk (texts w d)) \<and> elsewhere_same d w w' \<and>
    (busy (entries w' d) \<longrightarrow> busy (entries w d))"
proof -
  from assms(1) obtain x where x: "ready w d x" "clones x = (\<not> links)" "\<not> keeps_values x"
    "OPTION_ADD_IN_FRONT (d_options x) = front" "d_value_aral x = None" by (auto simp: overwriting_def)
  from world_set [OF x(1) assms(2) assms(3) [OF x(1,5,2)]] obtain v w' x' where
    d: "dictionary_set d (Some n) src len w = Inr (v, w')" "ready w' d x'" "kept x x'"
      "set_value x (map_of (bindings w d) n) src blk v w'"
      "bindings w' d = put_binding (OPTION_ADD_IN_FRONT (d_options x)) n v (bindings w d)"
      "clones x \<longrightarrow> texts w' d = put_binding (OPTION_ADD_IN_FRONT (d_options x)) n (bytes_at w' v) (texts w d)"
      "busy (entries w' d) \<longrightarrow> busy (entries w d)" "\<forall>d'. d' \<noteq> d \<longrightarrow> untouched w w' d'" by blast
  have "overwriting links front d w'" using d(2) x(2-5) keptD [OF d(3)] by (auto simp: overwriting_def)
  then show ?thesis using d x by (auto simp: elsewhere_same_def set_value_def)
qed

lemma placed_bytes: "clones x \<Longrightarrow> d_value_aral x = None \<Longrightarrow> b \<noteq> [] \<Longrightarrow> placed x w (SBytes b) (length b) (Some b)"
  "clones x \<Longrightarrow> placed x w src 0 None" "\<not> clones x \<Longrightarrow> placed x w (SPtr v) len None"
  by (simp_all add: placed_def)

interpretation link_store: key_value "overwriting True front d" "\<lambda>w. bindings w d" "elsewhere_same d" front "\<lambda>v. True" Null
  "set_link d" "get_link d" "remove d" for d front
proof
  show "\<exists>s'. set_link d n v s = Inr s' \<and> overwriting True front d s' \<and>
      bindings s' d = put_binding front n v (bindings s d) \<and> elsewhere_same d s s'"
    if "overwriting True front d s" "n \<noteq> []" for s n v
    using set_law [OF that, of "SPtr v" 0 None] placed_bytes(3) by (auto simp: set_link_def)
  show "\<exists>s'. remove d n s = Inr s' \<and> overwriting True front d s' \<and> bindings s' d = remove_name n (bindings s d) \<and>
      elsewhere_same d s s'" if "overwriting True front d s" "n \<noteq> []" for s n
    using remove_law [OF that] by blast
  show "get_link d n s = Inr (case map_of (bindings s d) n of None \<Rightarrow> Null | Some v \<Rightarrow> v)"
    if "overwriting True front d s" "n \<noteq> []" for s n
    using that world_get [of s d _ n] by (auto simp: overwriting_def get_link_def)
qed (auto intro: elsewhere_same_refl elsewhere_same_trans)

lemma map_of_texts: "map_of (texts w d) n = map_option (bytes_at w) (map_of (bindings w d) n)"
  by (simp add: texts_def map_of_map)

interpretation text_store: key_value "overwriting False front d" "\<lambda>w. texts w d" "elsewhere_same d" front "\<lambda>t. t \<noteq> Some []" None
  "set_text d" "get_text d" "remove d" for d front
proof
  show "\<exists>s'. set_text d n t s = Inr s' \<and> overwriting False front d s' \<and>
      texts s' d = put_binding front n t (texts s d) \<and> elsewhere_same d s s'"
    if "overwriting False front d s" "n \<noteq> []" "t \<noteq> Some []" for s n t
  proof (cases t)
    case None
    then show ?thesis using set_law [OF that(1,2), of "SPtr Null" 0 None] placed_bytes(2) by (auto simp: set_text_def)
  next
    case (Some b)
    then show ?thesis
      using set_law [OF that(1,2), of "SBytes b" "length b" "Some b"] placed_bytes(1) that(3) by (auto simp: set_text_def)
  qed
  show "\<exists>s'. remove d n s = Inr s' \<and> overwriting False front d s' \<and> texts s' d = remove_name n (texts s d) \<and>
      elsewhere_same d s s'" if "overwriting False front d s" "n \<noteq> []" for s n
    using remove_law [OF that] by blast
  show "get_text d n s = Inr (case map_of (texts s d) n of None \<Rightarrow> None | Some t \<Rightarrow> t)"
    if "overwriting False front d s" "n \<noteq> []" for s n
    using that world_get [of s d _ n]
    by (auto simp: overwriting_def get_text_def map_of_texts bytes_at_def split: option.split)
qed (auto intro: elsewhere_same_refl elsewhere_same_trans)

end
