(* ===== verification/Dictionary_Theorems.thy ===== *)
theory Dictionary_Theorems
  imports Dictionary_Laws
begin

text \<open>
  The properties of dictionaries: creating and destroying them, setting, getting and deleting their
  items, traversing and emptying them, and items that are in use while they are deleted.
\<close>

section \<open>Sample worlds\<close>

definition empty_world :: world where
  "empty_world =
     \<lparr>w_dicts = (\<lambda>_. None), w_items = (\<lambda>_. None), w_shareds = (\<lambda>_. None), w_hooks = (\<lambda>_. None), w_mem = (\<lambda>_. None),
       w_fresh = 0, w_clock = (\<lambda>_. 0), w_reads = 0, w_tid = 1, w_waiting = [], w_events = []\<rparr>"

definition linking_options :: dict_options where
  "linking_options =
     \<lparr>OPTION_SINGLE_THREADED = True, OPTION_VALUE_LINK_DONT_CLONE = True, OPTION_NAME_LINK_DONT_CLONE = False,
       OPTION_DONT_OVERWRITE_VALUE = False, OPTION_ADD_IN_FRONT = False, OPTION_FIXED_SIZE = False, OPTION_INDEX_JUDY = False\<rparr>"

definition cloning_options :: dict_options where
  "cloning_options = linking_options\<lparr>OPTION_VALUE_LINK_DONT_CLONE := False\<rparr>"

text \<open>The definitions that evaluate a sequence of calls.\<close>

lemmas run_defs = heap_defs hooks_at_def set_hooks_def now_realtime_usec_def run_event_def
  is_view_dictionary_def is_master_dictionary_def is_dictionary_single_threaded_def KEY_LEN_MAX_def VALUE_LEN_MAX_def
  rest_after_def head_of_def item_next_def list_head_def
  DICTIONARY_ENTRIES_PLUS1_def DICTIONARY_ENTRIES_MINUS1_def DICTIONARY_VALUE_RESETS_PLUS1_def
  DICTIONARY_REFERENCED_ITEMS_PLUS1_def DICTIONARY_REFERENCED_ITEMS_MINUS1_def DICTIONARY_PENDING_DELETES_PLUS1_def
  DICTIONARY_PENDING_DELETES_MINUS1_def DICTIONARY_PENDING_DELETES_GET_def
  ll_recursive_lock_def ll_recursive_unlock_def dictionary_index_lock_rdlock_def dictionary_index_rdlock_unlock_def
  dictionary_index_lock_wrlock_def dictionary_index_wrlock_unlock_def
  hooks_of_def item_value_def dictionary_execute_insert_callback_def dictionary_execute_conflict_callback_def
  dictionary_execute_react_callback_def dictionary_execute_delete_callback_def
  key_of_def hashtable_init_unsafe_def hashtable_insert_handle_to_item_unsafe_def hashtable_set_item_unsafe_def
  hashtable_delete_unsafe_def hashtable_get_unsafe_def
  item_release_def dict_item_set_deleted_def item_check_and_acquire_advanced_def item_check_and_acquire_def
  item_is_not_referenced_and_can_be_removed_advanced_def item_is_not_referenced_and_can_be_removed_def
  item_shared_release_and_check_if_it_can_be_freed_def item_set_name_def item_get_name_def dict_item_create_def
  dict_item_value_mallocz_def dict_item_value_create_def store_value_def dict_item_create_with_hooks_def
  dict_item_reset_value_with_hooks_def dict_item_free_with_hooks_def unlink_item_def garbage_collect_pending_deletes_def
  item_linked_list_add_def item_linked_list_remove_def dict_item_shared_set_deleted_def dict_item_free_or_mark_deleted_def
  dict_item_release_and_check_if_it_is_deleted_def dict_item_del_def dict_item_reset_found_def
  dict_item_add_or_reset_value_and_acquire_def dict_item_find_and_acquire_def cleanup_destroyed_dictionaries_def
  dictionary_create_internal_def dictionary_create_advanced_def dictionary_create_def
  api_is_name_good_def dictionary_set_and_acquire_item_advanced_def dictionary_set_advanced_def dictionary_set_def
  dictionary_get_and_acquire_item_advanced_def dictionary_get_advanced_def dictionary_get_def
  dictionary_del_advanced_def dictionary_del_def Let_def

definition sample_world :: world where
  "sample_world = (empty_world\<lparr>w_fresh := 1, w_dicts := [0 \<mapsto> fresh_dictionary linking_options 0]\<rparr>)"

definition sample_texts :: world where
  "sample_texts = (empty_world\<lparr>w_fresh := 1, w_dicts := [0 \<mapsto> fresh_dictionary cloning_options 0]\<rparr>)"

lemma empty_world_ok: "world_ok empty_world"
  by (simp add: world_ok_def empty_world_def bounded_def)

lemma sample_ready:
  "ready sample_world 0 (fresh_dictionary linking_options 0)" "bindings sample_world 0 = []"
  "ready sample_texts 0 (fresh_dictionary cloning_options 0)" "bindings sample_texts 0 = []"
proof -
  have "w_fresh empty_world = 0" "w_dicts empty_world = Map.empty" by (simp_all add: empty_world_def)
  then show "ready sample_world 0 (fresh_dictionary linking_options 0)" "bindings sample_world 0 = []"
    "ready sample_texts 0 (fresh_dictionary cloning_options 0)" "bindings sample_texts 0 = []"
    using create_world(1,2) [OF empty_world_ok, of linking_options 0] create_world(1,2) [OF empty_world_ok, of cloning_options 0]
    by (simp_all add: sample_world_def sample_texts_def linking_options_def cloning_options_def)
qed

lemma sample_overwriting: "overwriting True False 0 sample_world" "overwriting False False 0 sample_texts"
  using sample_ready
  by (auto simp: overwriting_def fresh_dictionary_def linking_options_def cloning_options_def)

lemma sample_item:
  obtains w x where "dictionary_set 0 (Some ''ups'') (SPtr (Addr 7)) 0 sample_world = Inr (Addr 7, w)" "ready w 0 x"
    "bindings w 0 = [(''ups'', Addr 7)]" "\<not> clones x"
proof -
  let ?x = "fresh_dictionary linking_options 0"
  have c: "\<not> clones ?x" "\<not> keeps_values ?x" by (simp_all add: fresh_dictionary_def linking_options_def)
  have "placed ?x sample_world (SPtr (Addr 7)) 0 None" using placed_bytes(3) [OF c(1)] .
  from world_set [OF sample_ready(1) _ this, of "''ups''"] show ?thesis
    using that c by (auto simp: sample_ready(2) put_binding_def set_value_def kept_def split: if_splits)
qed

text \<open>The block of an entry that stays in the list is not written.\<close>

lemma survives_bytes:
  assumes "ok k w d x (as @ e # bs)" and "ok k' w' d x' (as @ e' # bs)" and "evolve d w x (as @ e # bs) w' x' (as @ e' # bs)"
    and "clones x" and "e_value e' = e_value e"
  shows "bytes_at w' (e_value e) = bytes_at w (e_value e)"
proof (cases "e_value e")
  case (Mem m)
  have c: "clones x'" using assms(3,4) by (simp add: evolve_def kept_def)
  have "cell (clones x) e = [m]" "cell (clones x') e' = [m]" using Mem assms(4,5) c by (simp_all add: cell_def)
  then have "m < w_fresh w" "w_mem w' m \<noteq> None"
    using ok_bounds(3) [OF assms(1), of m] okD(1) [OF assms(2)] by (simp_all add: rep_def)
  moreover from this have "w_mem w' m = w_mem w m \<or> w_mem w' m = None" using assms(3) by (simp add: evolve_def frame_def)
  ultimately show ?thesis using Mem by (auto simp: bytes_at_def)
qed (simp_all add: bytes_at_def)

section \<open>Properties\<close>

text \<open>
  C28 (creating a dictionary)  In a well-formed world, \<open>dictionary_create\<close> for a dictionary that one
  thread uses returns a new dictionary that holds nothing.  The dictionaries in use before are
  still in use, with the same contents.  Every dictionary that was waiting to be destroyed has been
  freed, with its items and its cloned values, if no item of it was in use; otherwise it still waits,
  untouched.
\<close>

theorem dictionary_create_spec:
  assumes "world_ok w" and "OPTION_SINGLE_THREADED opts"
  shows "\<exists>d w'. dictionary_create opts w = Inr (d, w') \<and> ready w' d (fresh_dictionary opts 0) \<and> bindings w' d = [] \<and>
    (\<forall>d' x. ready w d' x \<longrightarrow> d' \<noteq> d \<and> ready w' d' x \<and> untouched w w' d') \<and> reclaimed w w'"
  using create_ok [OF assms, of 0] by (simp add: dictionary_create_def)

theorem dictionary_create_spec_witness:
  "\<exists>d w'. dictionary_create linking_options empty_world = Inr (d, w') \<and> ready w' d (fresh_dictionary linking_options 0) \<and>
    bindings w' d = []"
proof -
  have "OPTION_SINGLE_THREADED linking_options" by (simp add: linking_options_def)
  from dictionary_create_spec [OF empty_world_ok this] show ?thesis by blast
qed

text \<open>
  C21 (setting a value)  \<open>dictionary_set\<close> replaces the value of a name where it is, or adds the name
  at the end, or at the front if the dictionary asks for that.  It returns the pointer that is now
  in the dictionary: the caller's pointer if values are linked; a block with the caller's bytes if
  they are cloned (no block if there are none); the old value if values are not overwritten and the
  name was there.  The bytes of the other cloned values stay what they were, all counters and the
  index stay consistent, no reference to an item is left behind, and no other dictionary is touched.
\<close>

theorem dictionary_set_spec:
  assumes "ready w d x" and "name \<noteq> []" and "placed x w src len blk"
  shows "\<exists>v w' x'. dictionary_set d (Some name) src len w = Inr (v, w') \<and> ready w' d x' \<and> kept x x' \<and>
    set_value x (map_of (bindings w d) name) src blk v w' \<and>
    bindings w' d = put_binding (OPTION_ADD_IN_FRONT (d_options x)) name v (bindings w d) \<and>
    (clones x \<longrightarrow> texts w' d = put_binding (OPTION_ADD_IN_FRONT (d_options x)) name (bytes_at w' v) (texts w d)) \<and>
    (busy (entries w' d) \<longrightarrow> busy (entries w d)) \<and> (\<forall>d'. d' \<noteq> d \<longrightarrow> untouched w w' d')"
  using world_set [OF assms] .

theorem dictionary_set_spec_witness:
  "\<exists>v w' x'. dictionary_set 0 (Some ''ups'') (SBytes ''ups'') 3 sample_texts = Inr (v, w') \<and> ready w' 0 x' \<and>
    bindings w' 0 = [(''ups'', v)]"
proof -
  have "placed (fresh_dictionary cloning_options 0) sample_texts (SBytes ''ups'') 3 (Some ''ups'')"
    by (simp add: placed_def fresh_dictionary_def cloning_options_def)
  from dictionary_set_spec [OF sample_ready(3) _ this, of "''ups''"] obtain v w' x' where
    "dictionary_set 0 (Some ''ups'') (SBytes ''ups'') 3 sample_texts = Inr (v, w')" "ready w' 0 x'"
    "bindings w' 0 = put_binding (OPTION_ADD_IN_FRONT (d_options (fresh_dictionary cloning_options 0))) ''ups'' v []"
    unfolding sample_ready(4) by blast
  then show ?thesis by (intro exI [of _ v] exI [of _ w'] exI [of _ x']) (simp add: put_binding_def)
qed

text \<open>
  C22 (deleting a value)  \<open>dictionary_del\<close> says whether the name was in the dictionary and removes it;
  the other bindings keep their order and, if values are cloned, their bytes; no other dictionary is
  touched.  An item that is in use stays in memory, see below.
\<close>

theorem dictionary_del_spec:
  assumes "ready w d x" and "name \<noteq> []"
  shows "\<exists>w' x'. dictionary_del d (Some name) w = Inr (name \<in> fst ` set (bindings w d), w') \<and> ready w' d x' \<and> kept x x' \<and>
    bindings w' d = remove_name name (bindings w d) \<and> (clones x \<longrightarrow> texts w' d = remove_name name (texts w d)) \<and>
    (busy (entries w' d) \<longrightarrow> busy (entries w d)) \<and> (\<forall>d'. d' \<noteq> d \<longrightarrow> untouched w w' d')"
  using world_del [OF assms] .

theorem dictionary_del_spec_witness:
  "\<exists>w w' x'. dictionary_set 0 (Some ''ups'') (SPtr (Addr 7)) 0 sample_world = Inr (Addr 7, w) \<and>
    dictionary_del 0 (Some ''ups'') w = Inr (True, w') \<and> ready w' 0 x' \<and> bindings w' 0 = []"
proof (rule sample_item)
  fix w x
  assume "dictionary_set 0 (Some ''ups'') (SPtr (Addr 7)) 0 sample_world = Inr (Addr 7, w)" "ready w 0 x"
    "bindings w 0 = [(''ups'', Addr 7)]" "\<not> clones x"
  then show ?thesis using dictionary_del_spec [of w 0 x "''ups''"] by auto
qed

text \<open>
  C23 (histories of a dictionary that links its values)  On a dictionary that one thread uses, that
  links its values and overwrites them (no \<open>DICT_OPTION_DONT_OVERWRITE_VALUE\<close>) and whose values have
  no fixed size, any sequence of settings and deletions, all with non-empty names, acts on the
  contents as it would on an association list: a name that is there gets its new value where it is,
  a new name goes to the end, or to the front if the dictionary asks for that
  (\<open>DICT_OPTION_ADD_IN_FRONT\<close>).  A lookup then finds the pointer that was set last, and null for a
  name that is not there.  No other dictionary is touched.
\<close>

theorem link_history_refines:
  assumes "overwriting True front d w" and "\<forall>c \<in> set cs. valid (\<lambda>_. True) c" and "n \<noteq> []"
  shows "\<exists>w'. rfold (exec (set_link d) (remove d)) cs w = Inr w' \<and> overwriting True front d w' \<and>
    bindings w' d = fold (act front) cs (bindings w d) \<and> elsewhere_same d w w' \<and>
    get_link d n w' = Inr (case map_of (fold (act front) cs (bindings w d)) n of None \<Rightarrow> Null | Some v \<Rightarrow> v)"
proof -
  from link_store.history [OF assms(1,2)] obtain w' where
    "rfold (exec (set_link d) (remove d)) cs w = Inr w'" "overwriting True front d w'"
    "bindings w' d = fold (act front) cs (bindings w d)" "elsewhere_same d w w'" by blast
  then show ?thesis using link_store.get_law [of front d w' n] assms(3) by auto
qed

theorem link_history_refines_witness:
  "\<exists>w'. rfold (exec (set_link 0) (remove 0)) [Put ''a'' (Addr 1), Put ''b'' (Addr 2), Del ''a'', Put ''b'' (Addr 3)] sample_world = Inr w' \<and>
    bindings w' 0 = [(''b'', Addr 3)] \<and> get_link 0 ''b'' w' = Inr (Addr 3)"
  using link_history_refines [OF sample_overwriting(1),
      of "[Put ''a'' (Addr 1), Put ''b'' (Addr 2), Del ''a'', Put ''b'' (Addr 3)]" "''b''"]
  by (auto simp: sample_ready(2) put_binding_def remove_name_def)

text \<open>
  C24 (histories of a dictionary that clones its values)  On a dictionary that one thread uses, that
  clones its values and overwrites them (no \<open>DICT_OPTION_DONT_OVERWRITE_VALUE\<close>) and whose values have
  no fixed size, any sequence of settings and deletions, all with non-empty names, acts on the bytes
  of the values as it would on an association list: a name that is there gets its new bytes where it
  is, a new name goes to the end, or to the front if the dictionary asks for that
  (\<open>DICT_OPTION_ADD_IN_FRONT\<close>).  What is set is a text of at least one byte, or nothing, which leaves
  a null value.  A lookup leads to a block with the bytes that were set last, and to null for a name
  that is not there.  No other dictionary is touched.
\<close>

theorem text_history_refines:
  assumes "overwriting False front d w" and "\<forall>c \<in> set cs. valid (\<lambda>t. t \<noteq> Some []) c" and "n \<noteq> []"
  shows "\<exists>w'. rfold (exec (set_text d) (remove d)) cs w = Inr w' \<and> overwriting False front d w' \<and>
    texts w' d = fold (act front) cs (texts w d) \<and> elsewhere_same d w w' \<and>
    get_text d n w' = Inr (case map_of (fold (act front) cs (texts w d)) n of None \<Rightarrow> None | Some t \<Rightarrow> t)"
proof -
  from text_store.history [OF assms(1,2)] obtain w' where
    "rfold (exec (set_text d) (remove d)) cs w = Inr w'" "overwriting False front d w'"
    "texts w' d = fold (act front) cs (texts w d)" "elsewhere_same d w w'" by blast
  then show ?thesis using text_store.get_law [of front d w' n] assms(3) by auto
qed

theorem text_history_refines_witness:
  "\<exists>w'. rfold (exec (set_text 0) (remove 0)) [Put ''a'' (Some ''x''), Put ''b'' None, Put ''a'' (Some ''y'')] sample_texts = Inr w' \<and>
    texts w' 0 = [(''a'', Some ''y''), (''b'', None)] \<and> get_text 0 ''a'' w' = Inr (Some ''y'')"
  using text_history_refines [OF sample_overwriting(2),
      of "[Put ''a'' (Some ''x''), Put ''b'' None, Put ''a'' (Some ''y'')]" "''a''"]
  by (auto simp: sample_ready(4) texts_def put_binding_def)

text \<open>
  A body that computes with the name and the value it stands on.
\<close>

definition reading :: "(string \<times> vptr \<Rightarrow> 's \<Rightarrow> 's res) \<Rightarrow> dictionary_foreach \<Rightarrow> world \<times> 's \<Rightarrow> (world \<times> 's) res" where
  "reading f dfe ws =
     (case ws of (w, s) \<Rightarrow> rbind (f (the (fe_name dfe), fe_value dfe) s) (\<lambda>s. Inr (w, s)))"

definition walked :: "did \<Rightarrow> world \<Rightarrow> world \<Rightarrow> bool" where
  "walked d w w' \<longleftrightarrow> (world_ok w \<longrightarrow> world_ok w' \<and> elsewhere_same d w w')"

lemma walked_step:
  assumes "walked d w0 w" and "ok 0 w d x es" and "ok 0 w' d x' es'" and "evolve d w x es w' x' es'"
  shows "walked d w0 w'"
proof -
  have "entries w d = es" "w_dicts w d = Some x" using rep_entries [OF okD(1) [OF assms(2)]] okD(4) [OF assms(2)] by simp_all
  then have "world_ok w \<longrightarrow> world_ok w' \<and> elsewhere_same d w w'"
    using world_ok_step [of w d x w' x' es'] assms(3,4) by (auto simp: elsewhere_same_def)
  then show ?thesis using assms(1) elsewhere_same_trans by (auto simp: walked_def)
qed

interpretation reader: visitor d mode "reading f" f "\<lambda>_. False" every "\<lambda>_ w' _. walked d w w'" for d mode f every w
  by unfold_locales (auto simp: reading_def at_entry_def spare_def intro: walked_step)

text \<open>
  C25 (traversing a dictionary)  The loop between \<open>dfe_start\<close> and \<open>dfe_done\<close>, in any of the three
  modes, with a body that only reads the name and the value of the item, ends after as many rounds as
  the dictionary has bindings.  It visits each of them once, in
  their order, with its name and its value; when the body fails at one, so does the loop.
  Afterwards the entries of the dictionary, reference counts included, are what they were, and no
  other dictionary is touched.
\<close>

theorem dictionary_foreach_visits:
  assumes "ready w d x" and "length (bindings w d) \<le> fuel"
  shows "case rfold f (bindings w d) s of
      Inl err \<Rightarrow> dfe_foreach fuel (Some d) mode (reading f) (w, s) = Inl err
    | Inr s' \<Rightarrow> \<exists>w' x'. dfe_foreach fuel (Some d) mode (reading f) (w, s) = Inr (w', s') \<and> ready w' d x' \<and>
        entries w' d = entries w d \<and> elsewhere_same d w w'"
proof -
  have walked: "walked d w w" by (simp add: walked_def elsewhere_same_refl)
  note r = reader.foreach_completes [OF walked readyD(4,3) [OF assms(1)] assms(2) [unfolded bindings_def] refl,
      where f = f and s = s and mode = mode, unfolded spare_none]
  show ?thesis
  proof (cases "rfold f (bindings w d) s")
    case (Inl err)
    then show ?thesis using r by (simp add: bindings_def)
  next
    case (Inr s')
    then obtain w' x' where
      w': "dfe_foreach fuel (Some d) mode (reading f) (w, s) = Inr (w', s')" "ok 0 w' d x' (entries w d)"
        "\<not> d_destroyed x'" "walked d w w'"
      using r by (auto simp: bindings_def)
    have "entries w' d = entries w d" by (rule rep_entries [OF okD(1) [OF w'(2)]])
    moreover have "ready w' d x'" "elsewhere_same d w w'"
      using w'(3,4) readyD(1) [OF assms(1)] okD(4) [OF w'(2)] by (simp_all add: ready_def walked_def)
    ultimately show ?thesis using Inr w'(1) by auto
  qed
qed

theorem dictionary_foreach_visits_witness:
  "\<exists>w w'. dictionary_set 0 (Some ''ups'') (SPtr (Addr 7)) 0 sample_world = Inr (Addr 7, w) \<and>
    dfe_foreach 1 (Some 0) LOCK_READ (reading (\<lambda>b s. Inr (s @ [b]))) (w, []) = Inr (w', [(''ups'', Addr 7)])"
proof (rule sample_item)
  fix w x
  assume "dictionary_set 0 (Some ''ups'') (SPtr (Addr 7)) 0 sample_world = Inr (Addr 7, w)" "ready w 0 x"
    "bindings w 0 = [(''ups'', Addr 7)]" "\<not> clones x"
  then show ?thesis
    using dictionary_foreach_visits [of w 0 x 1, where f = "\<lambda>b s. Inr (s @ [b])" and s = "[]" and mode = LOCK_READ] by auto
qed

text \<open>
  C29 (emptying a dictionary)  \<open>dictionary_flush\<close> empties a dictionary in which no deleted item waits
  to be freed and no two items, deleted ones included, have the same name; it ends after as many
  rounds as there are items.  The items in use stay in memory, marked as deleted.
\<close>

theorem dictionary_flush_spec:
  assumes "ready w d x" and "flushable (entries w d)"
  shows "\<exists>w' x'. dictionary_flush (Some d) w = Inr w' \<and> ready w' d x' \<and> bindings w' d = [] \<and>
    entries w' d = retired (entries w d) \<and> elsewhere_same d w w'"
proof -
  note r = readyD [OF assms(1)]
  from flush_ok [OF r(4) assms(2)] obtain w' x' where
    f: "dictionary_flush (Some d) w = Inr w'" "ok 0 w' d x' (retired (entries w d))"
      "evolve d w x (entries w d) w' x' (retired (entries w d))" by blast
  have "entries w' d = retired (entries w d)" by (rule rep_entries [OF okD(1) [OF f(2)]])
  then show ?thesis
    using f(1) ready_step [OF assms(1) f(2,3)] contents_retired by (auto simp: elsewhere_same_def)
qed

definition succeeds :: "('a \<Rightarrow> bool) \<Rightarrow> 'a res \<Rightarrow> bool" where
  "succeeds P r \<longleftrightarrow> (case r of Inl _ \<Rightarrow> False | Inr x \<Rightarrow> P x)"

lemma sample_idle:
  "succeeds (\<lambda>(_, w). flushable (entries w 0) \<and> \<not> busy (entries w 0) \<and> (\<forall>e \<in> set (entries w 0). e_live e) \<and>
     (case w_dicts w 0 of None \<Rightarrow> False | Some x \<Rightarrow> \<not> OPTION_ADD_IN_FRONT (d_options x))) (dictionary_set 0 (Some ''ups'') (SPtr (Addr 7)) 0 sample_world)"
  by (simp add: run_defs sample_world_def empty_world_def linking_options_def fresh_dictionary_def succeeds_def
      entries_def entry_at_def flushable_def settled_def busy_def e_pending_def e_held_def)

theorem dictionary_flush_spec_witness:
  "\<exists>w w' x'. dictionary_set 0 (Some ''ups'') (SPtr (Addr 7)) 0 sample_world = Inr (Addr 7, w) \<and> bindings w 0 \<noteq> [] \<and>
    dictionary_flush (Some 0) w = Inr w' \<and> ready w' 0 x' \<and> bindings w' 0 = []"
proof (rule sample_item)
  fix w x
  assume s: "dictionary_set 0 (Some ''ups'') (SPtr (Addr 7)) 0 sample_world = Inr (Addr 7, w)" "ready w 0 x"
    "bindings w 0 = [(''ups'', Addr 7)]" "\<not> clones x"
  then have "flushable (entries w 0)" using sample_idle by (simp add: succeeds_def)
  then show ?thesis using dictionary_flush_spec [OF s(2)] s by fastforce
qed

lemma delete_acquired:
  assumes "ok 0 w d x (as @ e # bs)" and "e_live e" and "\<not> d_destroyed x"
  defines "e' \<equiv> mark_deleted (add_refs 1 e)"
  shows "\<exists>w1 w2 x2. dictionary_get_and_acquire_item_advanced d (Some (e_name e)) None w = Inr (Some (e_id e), w1) \<and>
    dictionary_del d (Some (e_name e)) w1 = Inr (True, w2) \<and> ok 0 w2 d x2 (as @ e' # bs) \<and>
    evolve d w x (as @ e # bs) w2 x2 (as @ e' # bs) \<and> e_held e'"
proof -
  have ne: "e_name e \<noteq> []" "e_refs e \<ge> 0" using ok_entry(3) [OF assms(1), of e] by (auto simp: entry_ok_def)
  from get_and_acquire_ok [OF assms(1-3)] obtain w1 x1 where
    a: "dictionary_get_and_acquire_item_advanced d (Some (e_name e)) None w = Inr (Some (e_id e), w1)"
      "ok 0 w1 d x1 (as @ add_refs 1 e # bs)" "evolve d w x (as @ e # bs) w1 x1 (as @ add_refs 1 e # bs)" by auto
  have nd: "\<not> d_destroyed x1" using a(3) assms(3) by (simp add: evolve_def kept_def)
  have held: "e_held (add_refs 1 e)" using ne(2) by (simp add: e_held_def)
  from del_held [OF a(2) _ held, of None] assms(2) obtain w2 x2 where
    b: "dict_item_del d (e_name e) None w1 = Inr (True, w2)" "ok 0 w2 d x2 (as @ e' # bs)"
      "evolve d w1 x1 (as @ add_refs 1 e # bs) w2 x2 (as @ e' # bs)" by (auto simp: e'_def)
  have "dictionary_del d (Some (e_name e)) w1 = Inr (True, w2)"
    using b(1) ne(1) nd okD(4) [OF a(2)] by (simp add: dictionary_del_def dictionary_del_advanced_def api_is_name_good_def heap_defs)
  moreover have "e_held e'" using held by (simp add: e_held_def e'_def)
  ultimately show ?thesis using a(1) b(2) evolve_trans [OF a(3) b(3)] by blast
qed

lemma live_snoc:
  assumes "\<forall>e \<in> set es. e_live e" and "contents es = bs @ [(name, v)]"
  obtains as e where "es = as @ [e]" "e_name e = name" "e_live e" "\<forall>f \<in> set as. e_live f"
proof -
  have m: "contents es = map (\<lambda>e. (e_name e, e_value e)) es" using assms(1) by (simp add: contents_def)
  then have "es \<noteq> []" using assms(2) by auto
  then obtain as e where "es = as @ [e]" by (cases es rule: rev_cases) auto
  then show ?thesis using that m assms by auto
qed

text \<open>
  C30 (emptying can use freed memory)  The condition of the previous property is needed: a dictionary
  can hold two items of one name, and then \<open>dictionary_flush\<close> fails.  Take any dictionary in use by
  one thread that adds new names at the end and has no deleted items.  Acquire its last item, delete
  it, and set its name again, to any value that the dictionary can take: all three calls succeed.
  \<open>dictionary_flush\<close> then deletes by name; standing on the old item it frees the new one, and it
  follows the pointer to the freed item that it had read before.
\<close>

theorem dictionary_flush_use_after_free:
  assumes "ready w d x" and "\<not> OPTION_ADD_IN_FRONT (d_options x)" and "\<forall>e \<in> set (entries w d). e_live e"
    and "bindings w d = bs @ [(name, v)]" and "\<forall>w. placed x w src len blk"
  shows "\<exists>i w1 w2 v' w3.
    dictionary_get_and_acquire_item_advanced d (Some name) None w = Inr (Some i, w1) \<and>
    dictionary_del d (Some name) w1 = Inr (True, w2) \<and>
    dictionary_set d (Some name) src len w2 = Inr (v', w3) \<and> dictionary_flush (Some d) w3 = Inl UseAfterFree"
proof -
  note r = readyD [OF assms(1)]
  obtain as e where e: "entries w d = as @ [e]" "e_name e = name" "e_live e" "\<forall>f \<in> set as. e_live f"
    using live_snoc [OF assms(3) assms(4) [unfolded bindings_def]] by metis
  let ?e = "mark_deleted (add_refs 1 e)"
  have o: "ok 0 w d x (as @ e # [])" using r(4) e(1) by simp
  from delete_acquired [OF o e(3) r(3)] obtain w1 w2 x2 where
    a: "dictionary_get_and_acquire_item_advanced d (Some name) None w = Inr (Some (e_id e), w1)"
      "dictionary_del d (Some name) w1 = Inr (True, w2)" "ok 0 w2 d x2 (as @ [?e])"
      "evolve d w x (as @ [e]) w2 x2 (as @ [?e])" "e_held ?e" unfolding e(2) by blast
  have k: "kept x x2" using a(4) by (simp add: evolve_def)
  have set: "settled (as @ [?e])" using e(4) a(5) by (auto simp: settled_def e_pending_def e_held_def)
  have nm: "name \<notin> set (names (as @ [?e]))" "name \<noteq> []"
    using okD(2) [OF o] e ok_entry(3) [OF o, of e] by (auto simp: inv_def names_def entry_ok_def)
  have "placed x2 w2 src len blk" using assms(5) placed_cong [of w2 w2 x2 x] k by (simp add: kept_def)
  from set_added [OF a(3) nm(2) _ nm(1) this] r(3) k obtain v' w3 x3 n where
    n: "dictionary_set d (Some name) src len w2 = Inr (v', w3)" "ok 0 w3 d x3 (sweep (front_of x2 (as @ [?e])) @ n # sweep (back_of x2 (as @ [?e])))"
      "e_name n = name" "e_live n" "e_refs n = 0" by (auto simp: kept_def)
  have "front_of x2 (as @ [?e]) = as @ [?e]" "back_of x2 (as @ [?e]) = []"
    using assms(2) k by (simp_all add: front_of_def back_of_def kept_def)
  moreover have "sweep (as @ [?e]) = as @ [?e]" "sweep [] = []" by (rule sweep_settled [OF set], simp)
  ultimately have "ok 0 w3 d x3 ((as @ [?e]) @ n # [])" using n(2) by metis
  then have o3: "ok 0 w3 d x3 (as @ [?e, n])" by simp
  have "\<not> e_held n" "\<not> e_pending n" using n(4,5) by (simp_all add: e_held_def e_pending_def)
  with flush_same_name [OF o3 _ e(4) n(4)] set n(3) e(2) have "dictionary_flush (Some d) w3 = Inl UseAfterFree" by simp
  then show ?thesis using a(1,2) n(1) by blast
qed

theorem dictionary_flush_use_after_free_witness:
  "\<exists>w i w1 w2 v w3. dictionary_set 0 (Some ''ups'') (SPtr (Addr 7)) 0 sample_world = Inr (Addr 7, w) \<and>
    dictionary_get_and_acquire_item_advanced 0 (Some ''ups'') None w = Inr (Some i, w1) \<and>
    dictionary_del 0 (Some ''ups'') w1 = Inr (True, w2) \<and>
    dictionary_set 0 (Some ''ups'') (SPtr (Addr 8)) 0 w2 = Inr (v, w3) \<and> dictionary_flush (Some 0) w3 = Inl UseAfterFree"
proof (rule sample_item)
  fix w x
  assume s: "dictionary_set 0 (Some ''ups'') (SPtr (Addr 7)) 0 sample_world = Inr (Addr 7, w)" "ready w 0 x"
    "bindings w 0 = [(''ups'', Addr 7)]" "\<not> clones x"
  have "w_dicts w 0 = Some x" by (rule readyD(2) [OF s(2)])
  then have "\<not> OPTION_ADD_IN_FRONT (d_options x)" "\<forall>e \<in> set (entries w 0). e_live e"
    using sample_idle s(1) by (simp_all add: succeeds_def)
  moreover have "\<forall>w. placed x w (SPtr (Addr 8)) 0 None" using placed_bytes(3) [OF s(4)] by blast
  ultimately show ?thesis
    using dictionary_flush_use_after_free [OF s(2), of "[]" "''ups''" "Addr 7" "SPtr (Addr 8)" 0 None] s(1,3) by auto
qed

text \<open>
  C27 (destroying a dictionary)  \<open>dictionary_destroy\<close> frees a dictionary, its items and its cloned
  values if no item of it is in use.  If one is, and the dictionary can be emptied (no deleted item
  waits to be freed and no two items, deleted ones included, have the same name; without that,
  emptying can use freed memory), then all its bindings are gone, the items in use stay in memory, marked as
  deleted, and the dictionary is on the list of those that wait to be destroyed.  A dictionary that
  was on that list before the call is freed by it, with its items and its cloned values, if no item
  of it is in use, and goes on waiting, untouched, otherwise.  The other dictionaries in use are not
  touched.
\<close>

theorem dictionary_destroy_spec:
  assumes "ready w d x" and "busy (entries w d) \<longrightarrow> flushable (entries w d)"
  shows "\<exists>w'. dictionary_destroy (Some d) w = Inr w' \<and> world_ok w' \<and> destroyed d x w w' \<and>
    (\<forall>d' y. d' \<noteq> d \<longrightarrow> ready w d' y \<longrightarrow> ready w' d' y \<and> untouched w w' d') \<and> reclaimed w w'"
  using destroy_ok [OF assms] by blast

theorem dictionary_destroy_spec_witness:
  "\<exists>w w'. dictionary_set 0 (Some ''ups'') (SPtr (Addr 7)) 0 sample_world = Inr (Addr 7, w) \<and>
    dictionary_destroy (Some 0) w = Inr w' \<and> world_ok w' \<and> w_dicts w' 0 = None"
proof (rule sample_item)
  fix w x
  assume s: "dictionary_set 0 (Some ''ups'') (SPtr (Addr 7)) 0 sample_world = Inr (Addr 7, w)" "ready w 0 x"
    "bindings w 0 = [(''ups'', Addr 7)]" "\<not> clones x"
  then have "\<not> busy (entries w 0)" using sample_idle by (simp add: succeeds_def)
  moreover from this dictionary_destroy_spec [OF s(2)] obtain w' where
    "dictionary_destroy (Some 0) w = Inr w'" "world_ok w'" "destroyed 0 x w w'" by blast
  moreover from calculation have "w_dicts w' 0 = None" by (simp add: destroyed_def freed_def)
  ultimately show ?thesis using s(1) by blast
qed

lemma release_collect:
  assumes "ok 0 w d x (as @ e # bs)" and "e_held e"
  shows "\<exists>w1 w2 x2 es. item_release d (e_id e) w = Inr w1 \<and> garbage_collect_pending_deletes d w1 = Inr w2 \<and>
    ok 0 w2 d x2 es \<and> evolve d w x (as @ e # bs) w2 x2 es \<and> (\<forall>e \<in> set es. \<not> e_pending e)"
proof -
  from release_ok [OF assms] obtain w1 x1 where
    r: "item_release d (e_id e) w = Inr w1" "ok 0 w1 d x1 (as @ add_refs (- 1) e # bs)"
      "evolve d w x (as @ e # bs) w1 x1 (as @ add_refs (- 1) e # bs)" by blast
  let ?es = "sweep (as @ add_refs (- 1) e # bs)"
  from gc_ok [OF r(2)] obtain w2 x2 where
    g: "garbage_collect_pending_deletes d w1 = Inr w2" "ok 0 w2 d x2 ?es"
      "evolve d w1 x1 (as @ add_refs (- 1) e # bs) w2 x2 ?es" by blast
  have "\<forall>e \<in> set ?es. \<not> e_pending e" unfolding sweep_def set_filter by blast
  then show ?thesis using r(1) g(1,2) evolve_trans [OF r(3) g(3)] by blast
qed

text \<open>
  C26 (items in use survive deletion)  An item that a caller has acquired can be deleted by name:
  the name is gone from the dictionary at once, but the item still has its value, and a cloned
  value its bytes, until the caller releases it.  After the release the garbage collector leaves no
  deleted item without references in the dictionary.
\<close>

theorem acquired_item_survives:
  assumes "ready w d x" and "map_of (bindings w d) name = Some v"
  shows "\<exists>i w1 w2 w3 w4 x4.
    dictionary_get_and_acquire_item_advanced d (Some name) None w = Inr (Some i, w1) \<and>
    dictionary_del d (Some name) w1 = Inr (True, w2) \<and> bindings w2 d = remove_name name (bindings w d) \<and>
    dictionary_acquired_item_value w2 (Some i) = Inr v \<and> (clones x \<longrightarrow> bytes_at w2 v = bytes_at w v) \<and>
    dictionary_acquired_item_release d (Some i) w2 = Inr w3 \<and> dictionary_garbage_collect (Some d) w3 = Inr w4 \<and>
    ready w4 d x4 \<and> (\<forall>e \<in> set (entries w4 d). \<not> e_pending e) \<and> elsewhere_same d w w4"
proof -
  note r = readyD [OF assms(1)]
  have "name \<in> fst ` set (bindings w d)" using map_of_SomeD [OF assms(2)] by (rule rev_image_eqI) simp
  then have "name \<in> set (names (entries w d))" using r(6) by simp
  then obtain as e bs where e: "entries w d = as @ e # bs" "e_live e" "e_name e = name" using names_split by metis
  note o = r(4) [unfolded e(1)]
  have dn: "distinct (names (as @ e # bs))" using okD(2) [OF o] by (simp add: inv_def)
  have v: "e_value e = v" using contents_lookup [OF dn e(2)] assms(2) e by (simp add: bindings_def)
  let ?e = "mark_deleted (add_refs 1 e)"
  from delete_acquired [OF o e(2) r(3)] e(3) obtain w1 w2 x2 where
    a: "dictionary_get_and_acquire_item_advanced d (Some name) None w = Inr (Some (e_id e), w1)"
      "dictionary_del d (Some name) w1 = Inr (True, w2)" "ok 0 w2 d x2 (as @ ?e # bs)"
      "evolve d w x (as @ e # bs) w2 x2 (as @ ?e # bs)" "e_held ?e" by blast
  from release_collect [OF a(3,5)] obtain w3 w4 x4 es where
    g: "item_release d (e_id e) w2 = Inr w3" "garbage_collect_pending_deletes d w3 = Inr w4" "ok 0 w4 d x4 es"
      "evolve d w2 x2 (as @ ?e # bs) w4 x4 es" "\<forall>e \<in> set es. \<not> e_pending e" by auto
  have bind: "bindings w2 d = remove_name name (bindings w d)"
    using ready_step(2) [OF assms(1) a(3)] a(4) e remove_name_mid [OF dn e(2)] contents_marked [of as "add_refs 1 e" bs]
    by (simp add: bindings_def)
  have val: "dictionary_acquired_item_value w2 (Some (e_id e)) = Inr v"
    using ok_entry(1,2) [OF a(3), of ?e] v by (simp add: dictionary_acquired_item_value_def item_value_def heap_defs)
  have bytes: "bytes_at w2 v = bytes_at w v" if "clones x" using survives_bytes [OF o a(3,4) that] v by simp
  note s = ready_step [OF assms(1) g(3)] evolve_trans [OF a(4) g(4), folded e(1)]
  then show ?thesis
    using a(1,2) bind val bytes g(1,2,5) rep_entries [OF okD(1) [OF g(3)]]
    by (intro exI [of _ "e_id e"] exI [of _ w1] exI [of _ w2] exI [of _ w3] exI [of _ w4] exI [of _ x4])
      (simp add: dictionary_acquired_item_release_def elsewhere_same_def)
qed

theorem acquired_item_survives_witness:
  "\<exists>w i w1 w2. dictionary_set 0 (Some ''ups'') (SPtr (Addr 7)) 0 sample_world = Inr (Addr 7, w) \<and>
    dictionary_get_and_acquire_item_advanced 0 (Some ''ups'') None w = Inr (Some i, w1) \<and>
    dictionary_del 0 (Some ''ups'') w1 = Inr (True, w2) \<and> bindings w2 0 = [] \<and>
    dictionary_acquired_item_value w2 (Some i) = Inr (Addr 7)"
proof (rule sample_item)
  fix w x
  assume s: "dictionary_set 0 (Some ''ups'') (SPtr (Addr 7)) 0 sample_world = Inr (Addr 7, w)" "ready w 0 x"
    "bindings w 0 = [(''ups'', Addr 7)]" "\<not> clones x"
  then have "map_of (bindings w 0) ''ups'' = Some (Addr 7)" "remove_name ''ups'' (bindings w 0) = []" by simp_all
  with acquired_item_survives [OF s(2), of "''ups''" "Addr 7"] show ?thesis using s(1) by metis
qed

end
