(* ===== verification/Upsd_Registry.thy ===== *)
theory Upsd_Registry
  imports Upsd_Plugin Dictionary_Theorems
begin

text \<open>
  The dictionaries of the plugin as an abstract registry: the devices with their charts, and the flags
  of those that were seen.  The lemmas say how the registration of a device acts on it.
\<close>

section \<open>Views of dictionaries\<close>

text \<open>A dictionary of links that nobody holds, and its contents.\<close>

definition link_view :: "did \<Rightarrow> (string \<times> vptr) list \<Rightarrow> world \<Rightarrow> bool" where
  "link_view d c w \<longleftrightarrow> overwriting True False d w \<and> \<not> busy (entries w d) \<and> bindings w d = c"

text \<open>The dictionary of names: every block holds the clean form of the name and its terminator.\<close>

definition clean_text :: "string \<Rightarrow> string" where
  "clean_text n = clean_name n @ [NUL]"

definition names_view :: "did \<Rightarrow> string list \<Rightarrow> world \<Rightarrow> bool" where
  "names_view d ns w \<longleftrightarrow> overwriting False False d w \<and> texts w d = map (\<lambda>n. (n, Some (clean_text n))) ns"

lemma overwriting_mono: "overwriting links front d w \<Longrightarrow> world_ok w' \<Longrightarrow> untouched w w' d \<Longrightarrow> overwriting links front d w'"
  by (auto simp: overwriting_def ready_def untouched_def)

lemma overwriting_world: "overwriting links front d w \<Longrightarrow> world_ok w"
  by (auto simp: overwriting_def ready_def)

lemma link_view_mono: "link_view d c w \<Longrightarrow> world_ok w' \<Longrightarrow> untouched w w' d \<Longrightarrow> link_view d c w'"
  using overwriting_mono [of True False d w w'] untouched_views(1) [of w w' d] by (simp add: link_view_def untouched_def)

lemma names_view_mono:
  assumes "names_view d ns w" and "world_ok w'" and "untouched w w' d"
  shows "names_view d ns w'" "bindings w' d = bindings w d"
proof -
  have "texts w' d = texts w d"
    using assms(1) untouched_views(2) [OF assms(3)] by (auto simp: names_view_def overwriting_def ready_def)
  then show "names_view d ns w'" using assms overwriting_mono [OF _ assms(2,3)] by (auto simp: names_view_def)
  show "bindings w' d = bindings w d" by (rule untouched_views(1) [OF assms(3)])
qed

lemma view_world: "link_view d c w \<Longrightarrow> world_ok w" "names_view d ns w \<Longrightarrow> world_ok w"
  by (auto simp: link_view_def names_view_def intro: overwriting_world)

lemma link_set:
  assumes "link_view d c w" and "n \<noteq> []"
  shows "\<exists>w'. dictionary_set d (Some n) (SPtr v) 0 w = Inr (v, w') \<and> link_view d (put_binding False n v c) w' \<and> elsewhere_same d w w'"
proof -
  have o: "overwriting True False d w" and "\<not> busy (entries w d)" "bindings w d = c" using assms(1) by (simp_all add: link_view_def)
  moreover from set_law [OF o assms(2), of "SPtr v" 0 None] placed_bytes(3) obtain w' where
    "dictionary_set d (Some n) (SPtr v) 0 w = Inr (v, w')" "overwriting True False d w'"
    "bindings w' d = put_binding False n v (bindings w d)" "elsewhere_same d w w'" "busy (entries w' d) \<longrightarrow> busy (entries w d)"
    by auto
  ultimately show ?thesis by (auto simp: link_view_def)
qed

lemma link_get:
  assumes "link_view d c w" and "n \<noteq> []"
  shows "dictionary_get d (Some n) w = Inr (case map_of c n of None \<Rightarrow> Null | Some v \<Rightarrow> v, w)"
  using assms world_get [of w d _ n] by (auto simp: link_view_def overwriting_def)

lemma link_del:
  assumes "link_view d c w" and "n \<noteq> []"
  shows "\<exists>b w'. dictionary_del d (Some n) w = Inr (b, w') \<and> link_view d (remove_name n c) w' \<and> elsewhere_same d w w'"
proof -
  have o: "overwriting True False d w" and "\<not> busy (entries w d)" "bindings w d = c" using assms(1) by (simp_all add: link_view_def)
  moreover from remove_law [OF o assms(2)] obtain w' where
    "remove d n w = Inr w'" "overwriting True False d w'" "bindings w' d = remove_name n (bindings w d)"
    "elsewhere_same d w w'" "busy (entries w' d) \<longrightarrow> busy (entries w d)" by blast
  ultimately show ?thesis by (auto simp: link_view_def remove_def)
qed

lemma names_bindings:
  assumes "names_view d ns w"
  shows "map fst (bindings w d) = ns" "distinct ns" "\<And>n v. (n, v) \<in> set (bindings w d) \<Longrightarrow> bytes_at w v = Some (clean_text n)"
proof -
  have t: "texts w d = map (\<lambda>n. (n, Some (clean_text n))) ns" using assms by (simp add: names_view_def)
  have "map fst (texts w d) = ns" unfolding t by (simp add: comp_def)
  moreover have "map fst (texts w d) = map fst (bindings w d)" unfolding texts_def by (rule fst_map_values(2))
  ultimately show b: "map fst (bindings w d) = ns" by simp
  show "distinct ns" using assms b readyD(5) by (fastforce simp: names_view_def overwriting_def)
  show "bytes_at w v = Some (clean_text n)" if "(n, v) \<in> set (bindings w d)" for n v
  proof -
    have "(n, bytes_at w v) \<in> set (texts w d)" using that by (force simp: texts_def)
    then show ?thesis unfolding t by auto
  qed
qed

lemma cstr_clean:
  assumes "bytes_at w v = Some (clean_text n)" and "cstring n"
  shows "cstr_at w v = Inr (clean_name n)"
proof -
  obtain m where v: "v = Mem m" "w_mem w m = Some (clean_text n)" using assms(1) by (cases v) (auto simp: bytes_at_def)
  have "NUL \<notin> set (clean_name n)" using assms(2) by (auto simp: clean_name_def cstring_def)
  then have "takeWhile (\<lambda>c. c \<noteq> NUL) (clean_text n) = clean_name n"
    by (auto simp: clean_text_def takeWhile_append takeWhile_eq_all_conv)
  then show ?thesis using v by (simp add: cstr_at_def find_def clean_text_def)
qed

lemma names_get:
  assumes "names_view d ns w" and "n \<noteq> []"
  shows "if n \<in> set ns then \<exists>v. dictionary_get d (Some n) w = Inr (v, w) \<and> v \<noteq> Null \<and> (n, v) \<in> set (bindings w d)
    else dictionary_get d (Some n) w = Inr (Null, w)"
proof -
  have g: "dictionary_get d (Some n) w = Inr (case map_of (bindings w d) n of None \<Rightarrow> Null | Some v \<Rightarrow> v, w)"
    using assms world_get [of w d _ n] by (auto simp: names_view_def overwriting_def)
  have iff: "n \<in> set ns \<longleftrightarrow> map_of (bindings w d) n \<noteq> None"
    unfolding names_bindings(1) [OF assms(1), symmetric] by (simp add: map_of_eq_None_iff)
  show ?thesis
  proof (cases "map_of (bindings w d) n")
    case (Some v)
    then have "(n, v) \<in> set (bindings w d)" by (rule map_of_SomeD)
    moreover from names_bindings(3) [OF assms(1) this] have "v \<noteq> Null" by (auto simp: bytes_at_def)
    ultimately show ?thesis using g iff Some by auto
  qed (use g iff in auto)
qed

section \<open>Writing a block\<close>

lemma cells_inj:
  assumes "distinct (cells True es)" and "(n, Mem m) \<in> set (contents es)" and "(n', Mem m) \<in> set (contents es)"
  shows "n = n'"
  using assms
proof (induction es)
  case (Cons e es)
  have "cells True (e # es) = cell True e @ cells True es" by (simp add: cells_def)
  moreover have "m \<in> set (cells True es)" if "(k, Mem m) \<in> set (contents es)" for k using contents_cell that by blast
  moreover have "m \<in> set (cell True e)" if "e_value e = Mem m" using that by (simp add: cell_def)
  ultimately show ?case using Cons by (auto split: if_splits)
qed simp

lemma write_block:
  fixes b :: string
  assumes "overwriting False False d w" and "(n, Mem m) \<in> set (bindings w d)"
  defines "w' \<equiv> w\<lparr>w_mem := (w_mem w)(m \<mapsto> b)\<rparr>"
  shows "overwriting False False d w'" "bindings w' d = bindings w d"
    "texts w' d = map (\<lambda>(k, t). (k, if k = n then Some b else t)) (texts w d)" "elsewhere_same d w w'"
proof -
  obtain x where x: "ready w d x" "clones x" "\<not> keeps_values x" "\<not> OPTION_ADD_IN_FRONT (d_options x)" "d_value_aral x = None"
    using assms(1) by (auto simp: overwriting_def)
  note r = readyD [OF x(1)]
  have mc: "m \<in> set (cells True (entries w d))" using assms(2) contents_cell by (simp add: bindings_def)
  have mem: "w_mem w m \<noteq> None" using okD(1) [OF r(4)] x(2) mc by (simp add: rep_def)
  have e: "entries w' p = entries w p" for p by (simp add: w'_def entries_def entry_at_def split: option.split)
  then show bd: "bindings w' d = bindings w d" by (simp add: bindings_def)
  have "bounded w'" using world_ok_bounded [OF r(1)] mem by (auto simp: bounded_def w'_def)
  moreover have "ok 0 w' p y (entries w p)" if "w_dicts w p = Some y" for p y
    using world_okD(1) [OF r(1) that] \<open>bounded w'\<close> by (auto simp: ok_def rep_def w'_def)
  ultimately have ok: "world_ok w'" using r(1) e by (auto simp: world_ok_def w'_def)
  then show "overwriting False False d w'" using x by (auto simp: overwriting_def ready_def w'_def)
  have "m \<notin> set (cells (clones y) (entries w p))" if "w_dicts w p = Some y" "p \<noteq> d" for p y
    using world_okD(3) [OF r(1,2) that(1)] that(2) mc x(2) by (auto simp: apart_def)
  then show "elsewhere_same d w w'" using e by (auto simp: elsewhere_same_def untouched_def w'_def)
  have "distinct (cells True (entries w d))" using okD(6) [OF r(4)] x(2) by (simp add: separate_def)
  note inj = cells_inj [OF this]
  have "bytes_at w' v = (if k = n then Some b else bytes_at w v)" if "(k, v) \<in> set (bindings w d)" for k v
  proof (cases "k = n")
    case True
    have "distinct (map fst (bindings w d))" by (rule r(5))
    then have "v = Mem m" using eq_key_imp_eq_value [of "bindings w d" n v "Mem m"] that assms(2) True by simp
    then show ?thesis using True by (simp add: bytes_at_def w'_def)
  next
    case False
    then have "v \<noteq> Mem m" using inj assms(2) that by (auto simp: bindings_def)
    then show ?thesis using False by (auto simp: bytes_at_def w'_def split: vptr.split)
  qed
  then show "texts w' d = map (\<lambda>(k, t). (k, if k = n then Some b else t)) (texts w d)"
    by (auto simp: texts_def bd)
qed

section \<open>Printing\<close>

text \<open>What a step of the plugin leaves of its own state: the number of queries and the text may grow.\<close>

definition prints :: "plugin \<Rightarrow> string \<Rightarrow> plugin \<Rightarrow> bool" where
  "prints p t p' \<longleftrightarrow> (\<exists>k. p' = p\<lparr>p_calls := k, p_out := p_out p @ t\<rparr>)"

lemma prints_refl: "prints p [] p"
  by (auto simp: prints_def intro: exI [of _ "p_calls p"])

lemma prints_trans: "prints p t p' \<Longrightarrow> prints p' t' p'' \<Longrightarrow> prints p (t @ t') p''"
  by (auto simp: prints_def)

lemma prints_printf: "prints p t p' \<Longrightarrow> prints p (t @ t') (printf t' p')"
  by (auto simp: prints_def printf_def)

lemma prints_same:
  assumes "prints p t p'"
  shows "nd_ups_vars p' = nd_ups_vars p" "nd_ups_seen p' = nd_ups_seen p" "nd_ups_name p' = nd_ups_name p"
    "netdata_update_every p' = netdata_update_every p" "p_out p' = p_out p @ t"
  using assms by (auto simp: prints_def)

text \<open>\<open>ans u v\<close> is what the server answers for a variable while its answers do not change.\<close>

lemma nut_get_var_stable: "\<exists>p'. nut_get_var (\<lambda>_. ans) u v p = (ans u v, p') \<and> prints p [] p'"
  by (auto simp: nut_get_var_def prints_def)

definition labels_text :: "(string \<Rightarrow> string \<Rightarrow> string option) \<Rightarrow> string \<Rightarrow> (string \<Rightarrow> string \<Rightarrow> string) \<Rightarrow> string" where
  "labels_text ans u line =
     concat (map (\<lambda>(var, label). case ans u var of None \<Rightarrow> [] | Some v \<Rightarrow> line label v) label_variables)"

lemma print_labels_stable: "prints p (labels_text ans u line) (print_labels (\<lambda>_. ans) u line p)"
proof -
  have one: "prints p (case ans u var of None \<Rightarrow> [] | Some v \<Rightarrow> line label v) (print_label (\<lambda>_. ans) u line (var, label) p)"
    for p var label
    by (auto simp: print_label_def nut_get_var_def prints_def printf_def split: option.split)
  have "prints p (concat (map (\<lambda>(var, label). case ans u var of None \<Rightarrow> [] | Some v \<Rightarrow> line label v) ls))
      (fold (print_label (\<lambda>_. ans) u line) ls p)" for ls p
  proof (induction ls arbitrary: p)
    case (Cons l ls)
    obtain var label where l: "l = (var, label)" by (cases l)
    show ?case using prints_trans [OF one [of p label var] Cons.IH] l by simp
  qed (simp add: prints_refl)
  then show ?thesis by (simp add: labels_text_def print_labels_def)
qed

section \<open>Charts\<close>

definition supported :: "(string \<Rightarrow> string \<Rightarrow> string option) \<Rightarrow> string \<Rightarrow> nd_chart \<Rightarrow> bool" where
  "supported ans u chart \<longleftrightarrow>
     ans u (nut_variable chart) \<noteq> None \<or>
     nut_variable chart = ''ups.realpower'' \<and> ans u ''ups.load'' \<noteq> None \<and> ans u ''ups.realpower.nominal'' \<noteq> None"

lemma chart_supported_stable:
  "\<exists>p'. chart_supported (\<lambda>_. ans) u chart p = (supported ans u chart, p') \<and> prints p [] p'"
  by (auto simp: chart_supported_def supported_def nut_get_var_def prints_def split: option.split)

definition chart_text :: "(string \<Rightarrow> string \<Rightarrow> string option) \<Rightarrow> string \<Rightarrow> nat \<Rightarrow> nd_chart \<Rightarrow> string" where
  "chart_text ans u update_every chart =
     chart_line (clean_name u) chart update_every @ labels_text ans u clabel_line @ clabel_commit u @ dimension_line chart"

lemma register_chart_stable:
  assumes "cstr_at w v = Inr (clean_name u)" and "link_view d c w" and "nut_variable chart \<noteq> []"
  shows "\<exists>w' p'. register_chart (\<lambda>_. ans) u v d (i, chart) (w, p) = Inr (w', p') \<and>
    prints p (if supported ans u chart then chart_text ans u (unat (netdata_update_every p)) chart else []) p' \<and>
    link_view d (if supported ans u chart then put_binding False (nut_variable chart) (Addr i) c else c) w' \<and>
    elsewhere_same d w w'"
proof -
  obtain p1 where p1: "chart_supported (\<lambda>_. ans) u chart p = (supported ans u chart, p1)" "prints p [] p1"
    using chart_supported_stable by blast
  show ?thesis
  proof (cases "supported ans u chart")
    case True
    let ?every = "unat (netdata_update_every p)"
    let ?p2 = "printf (chart_line (clean_name u) chart ?every) p1"
    let ?p3 = "print_labels (\<lambda>_. ans) u clabel_line ?p2"
    let ?p' = "printf (dimension_line chart) (printf (clabel_commit u) ?p3)"
    from link_set [OF assms(2,3), of "Addr i"] obtain w' where
      w': "dictionary_set d (Some (nut_variable chart)) (SPtr (Addr i)) 0 w = Inr (Addr i, w')"
        "link_view d (put_binding False (nut_variable chart) (Addr i) c) w'" "elsewhere_same d w w'" by blast
    have "netdata_update_every p1 = netdata_update_every p" using prints_same(4) [OF p1(2)] .
    then have "register_chart (\<lambda>_. ans) u v d (i, chart) (w, p) = Inr (w', ?p')"
      using p1(1) True assms(1) w'(1) by (simp add: register_chart_def Let_def)
    moreover have "prints p (chart_text ans u ?every chart) ?p'"
      using prints_printf [OF prints_printf [OF prints_trans [OF prints_printf [OF p1(2)] print_labels_stable]]]
      by (simp add: chart_text_def)
    ultimately show ?thesis using True w'(2,3) by auto
  next
    case False
    then show ?thesis using p1 assms(2) elsewhere_same_refl by (auto simp: register_chart_def)
  qed
qed

definition chart_bindings :: "nat list \<Rightarrow> (string \<times> vptr) list" where
  "chart_bindings is = map (\<lambda>i. (nut_variable (nd_charts ! i), Addr i)) is"

lemma nd_charts_keys: "distinct (map nut_variable nd_charts)" "[] \<notin> nut_variable ` set nd_charts" "length nd_charts = 19"
  by (simp_all add: nd_charts_def mk_chart_def)

lemma chart_key_inj: "i < length nd_charts \<Longrightarrow> j < length nd_charts \<Longrightarrow>
    nut_variable (nd_charts ! i) = nut_variable (nd_charts ! j) \<longleftrightarrow> i = j"
  using nth_eq_iff_index_eq [OF nd_charts_keys(1), of i j] by simp

text \<open>The charts that are shown, and the loop over the table, from some place on.\<close>

definition charts_from :: "(string \<Rightarrow> string \<Rightarrow> string option) \<Rightarrow> string \<Rightarrow> nat \<Rightarrow> nat list" where
  "charts_from ans u k = filter (\<lambda>i. supported ans u (nd_charts ! i)) [k..<length nd_charts]"

lemma charts_from_step:
  assumes "k < length nd_charts"
  shows "charts_from ans u k = (if supported ans u (nd_charts ! k) then [k] else []) @ charts_from ans u (Suc k)"
  by (simp add: charts_from_def upt_conv_Cons [OF assms])

lemma register_charts_stable:
  assumes "names_view nd ns w" and "(u, v) \<in> set (bindings w nd)" and "cstring u" and "nd \<noteq> d"
    and "link_view d (chart_bindings js) w" and "\<forall>j \<in> set js. j < k" and "k \<le> length nd_charts"
  shows "\<exists>w' p'. rfold (register_chart (\<lambda>_. ans) u v d) (enumerate k (drop k nd_charts)) (w, p) = Inr (w', p') \<and>
    prints p (concat (map (\<lambda>i. chart_text ans u (unat (netdata_update_every p)) (nd_charts ! i)) (charts_from ans u k))) p' \<and>
    link_view d (chart_bindings (js @ charts_from ans u k)) w' \<and> elsewhere_same d w w'"
  using assms
proof (induction "length nd_charts - k" arbitrary: k js w p)
  case 0
  then show ?case using elsewhere_same_refl prints_refl by (simp add: charts_from_def)
next
  case (Suc m)
  then have k: "k < length nd_charts" by simp
  let ?chart = "nd_charts ! k" and ?every = "unat (netdata_update_every p)"
  let ?s = "supported ans u ?chart"
  have "nut_variable ?chart \<noteq> []" using nd_charts_keys(2) nth_mem [OF k] by (metis imageI)
  moreover have "cstr_at w v = Inr (clean_name u)"
    by (rule cstr_clean [OF names_bindings(3) [OF Suc.prems(1,2)] Suc.prems(3)])
  ultimately obtain w1 p1 where
    one: "register_chart (\<lambda>_. ans) u v d (k, ?chart) (w, p) = Inr (w1, p1)"
      "prints p (if ?s then chart_text ans u ?every ?chart else []) p1"
      "link_view d (if ?s then put_binding False (nut_variable ?chart) (Addr k) (chart_bindings js) else chart_bindings js) w1"
      "elsewhere_same d w w1"
    using register_chart_stable [OF _ Suc.prems(5), of v u ?chart ans k p] by blast
  have "nut_variable ?chart \<notin> fst ` set (chart_bindings js)"
    using chart_key_inj k Suc.prems(6) by (force simp: chart_bindings_def)
  then have v1: "link_view d (chart_bindings (if ?s then js @ [k] else js)) w1"
    using one(3) by (simp add: put_binding_def chart_bindings_def split: if_splits)
  have u1: "untouched w w1 nd" using one(4) Suc.prems(4) by (simp add: elsewhere_same_def)
  note n1 = names_view_mono [OF Suc.prems(1) view_world(1) [OF v1] u1]
  let ?js = "if ?s then js @ [k] else js"
  have "\<forall>j \<in> set ?js. j < Suc k" "m = length nd_charts - Suc k" "Suc k \<le> length nd_charts" "(u, v) \<in> set (bindings w1 nd)"
    using Suc.hyps(2) Suc.prems(2,6) k n1(2) by auto
  from Suc.hyps(1) [OF this(2) n1(1) this(4) Suc.prems(3,4) v1 this(1,3), of p1] obtain w' p' where
    rest: "rfold (register_chart (\<lambda>_. ans) u v d) (enumerate (Suc k) (drop (Suc k) nd_charts)) (w1, p1) = Inr (w', p')"
      "prints p1 (concat (map (\<lambda>i. chart_text ans u (unat (netdata_update_every p1)) (nd_charts ! i)) (charts_from ans u (Suc k)))) p'"
      "link_view d (chart_bindings (?js @ charts_from ans u (Suc k))) w'" "elsewhere_same d w1 w'" by blast
  have "enumerate k (drop k nd_charts) = (k, ?chart) # enumerate (Suc k) (drop (Suc k) nd_charts)"
    using k by (simp flip: Cons_nth_drop_Suc)
  then have "rfold (register_chart (\<lambda>_. ans) u v d) (enumerate k (drop k nd_charts)) (w, p) = Inr (w', p')"
    using one(1) rest(1) by (simp del: rbind_Inr_iff)
  moreover have "?js @ charts_from ans u (Suc k) = js @ charts_from ans u k" by (simp add: charts_from_step [OF k])
  moreover have "prints p (concat (map (\<lambda>i. chart_text ans u ?every (nd_charts ! i)) (charts_from ans u k))) p'"
    using prints_trans [OF one(2) rest(2)] prints_same(4) [OF one(2)] by (simp add: charts_from_step [OF k] split: if_splits)
  ultimately show ?case using rest(3) elsewhere_same_trans [OF one(4) rest(4)] by auto
qed

section \<open>Registering a device\<close>

lemma write_block_entries: "entries (w\<lparr>w_mem := m\<rparr>) d = entries w d"
  by (simp add: entries_def entry_at_def split: option.split)

lemma names_add:
  assumes "names_view d ns w" and "u \<notin> set ns" and "u \<noteq> []" and "cstring u"
  shows "\<exists>v w1 w2. dictionary_set d (Some u) (SBytes (u @ [NUL])) (length u + 1) w = Inr (v, w1) \<and>
    clean_name_at v w1 = Inr w2 \<and> names_view d (ns @ [u]) w2 \<and> (u, v) \<in> set (bindings w2 d) \<and> elsewhere_same d w w2 \<and>
    (busy (entries w2 d) \<longrightarrow> busy (entries w d))"
proof -
  have o: "overwriting False False d w" and t: "texts w d = map (\<lambda>n. (n, Some (clean_text n))) ns"
    using assms(1) by (simp_all add: names_view_def)
  have "placed x w (SBytes (u @ [NUL])) (length u + 1) (Some (u @ [NUL]))" if "d_value_aral x = None" "clones x" for x
    using placed_bytes(1) [OF that(2,1), of "u @ [NUL]" w] by simp
  with set_law [OF o assms(3), of "SBytes (u @ [NUL])" "length u + 1" "Some (u @ [NUL])"] obtain v w1 where
    s: "dictionary_set d (Some u) (SBytes (u @ [NUL])) (length u + 1) w = Inr (v, w1)" "overwriting False False d w1"
      "bindings w1 d = put_binding False u v (bindings w d)"
      "texts w1 d = put_binding False u (Some (u @ [NUL])) (texts w d)" "elsewhere_same d w w1"
      "busy (entries w1 d) \<longrightarrow> busy (entries w d)" by auto
  have new: "u \<notin> fst ` set (bindings w d)" "u \<notin> fst ` set (texts w d)"
    using names_bindings(1) [OF assms(1)] assms(2) t by (force, force)
  have b1: "bindings w1 d = bindings w d @ [(u, v)]" "texts w1 d = texts w d @ [(u, Some (u @ [NUL]))]"
    using s(3,4) new by (simp_all add: put_binding_def)
  then have "bytes_at w1 v = Some (u @ [NUL])" by (simp add: texts_def)
  then obtain m where m: "v = Mem m" "w_mem w1 m = Some (u @ [NUL])" by (cases v) (auto simp: bytes_at_def)
  let ?w2 = "w1\<lparr>w_mem := (w_mem w1)(m \<mapsto> clean_text u)\<rparr>"
  have "takeWhile (\<lambda>c. c \<noteq> NUL) (u @ [NUL]) = u"
    using assms(4) by (auto simp: cstring_def takeWhile_append takeWhile_eq_all_conv)
  then have "clean_name_at v w1 = Inr ?w2"
    using m by (simp add: clean_name_at_def cstr_at_def find_def clean_text_def)
  moreover have "(u, Mem m) \<in> set (bindings w1 d)" using b1 m by simp
  note wb = write_block [OF s(2) this, of "clean_text u"]
  moreover have "texts ?w2 d = map (\<lambda>n. (n, Some (clean_text n))) (ns @ [u])"
    using wb(3) b1(2) t assms(2) by auto
  moreover have "(u, v) \<in> set (bindings ?w2 d)" using wb(2) b1(1) by simp
  ultimately show ?thesis
    using s(1,6) elsewhere_same_trans [OF s(5) wb(4)]
    by (intro exI [of _ v] exI [of _ w1] exI [of _ ?w2]) (simp add: names_view_def write_block_entries)
qed

record device =
  dv_name :: string
  dv_vars :: did
  dv_charts :: "nat list"

definition devices_view :: "plugin \<Rightarrow> device list \<Rightarrow> world \<Rightarrow> bool" where
  "devices_view p reg w \<longleftrightarrow>
     link_view (nd_ups_vars p) (map (\<lambda>v. (dv_name v, Addr (dv_vars v))) reg) w \<and>
     (\<forall>v \<in> set reg. link_view (dv_vars v) (chart_bindings (dv_charts v)) w \<and> (\<forall>i \<in> set (dv_charts v). i < length nd_charts)) \<and>
     distinct (nd_ups_vars p # nd_ups_seen p # nd_ups_name p # map dv_vars reg)"

text \<open>The dictionaries of the plugin hold the devices \<open>reg\<close> and the flags \<open>sn\<close>.\<close>

definition represents :: "world \<Rightarrow> plugin \<Rightarrow> device list \<Rightarrow> (string \<times> vptr) list \<Rightarrow> bool" where
  "represents w p reg sn \<longleftrightarrow>
     devices_view p reg w \<and> link_view (nd_ups_seen p) sn w \<and> names_view (nd_ups_name p) (map dv_name reg) w \<and>
     \<not> busy (entries w (nd_ups_name p)) \<and> (\<forall>v \<in> set reg. dv_name v \<noteq> [] \<and> cstring (dv_name v))"

lemma devices_apart:
  assumes "devices_view p reg w"
  shows "nd_ups_vars p \<noteq> nd_ups_seen p" "nd_ups_vars p \<noteq> nd_ups_name p" "nd_ups_seen p \<noteq> nd_ups_name p"
    "\<And>v. v \<in> set reg \<Longrightarrow> dv_vars v \<noteq> nd_ups_vars p \<and> dv_vars v \<noteq> nd_ups_seen p \<and> dv_vars v \<noteq> nd_ups_name p"
  using assms by (auto simp: devices_view_def image_iff)

lemma devices_view_mono:
  assumes "devices_view p reg w" and "world_ok w'" and "untouched w w' (nd_ups_vars p)"
    and "\<And>v. v \<in> set reg \<Longrightarrow> untouched w w' (dv_vars v)"
  shows "devices_view p reg w'"
  using assms link_view_mono [OF _ assms(2)] by (auto simp: devices_view_def)

lemma devices_view_prints: "prints p t p' \<Longrightarrow> devices_view p' reg w = devices_view p reg w"
  by (auto simp: devices_view_def prints_def)

lemma represents_prints: "prints p t p' \<Longrightarrow> represents w p' reg sn = represents w p reg sn"
  by (auto simp: represents_def devices_view_def prints_def)

definition registration_text :: "(string \<Rightarrow> string \<Rightarrow> string option) \<Rightarrow> string \<Rightarrow> nat \<Rightarrow> string" where
  "registration_text ans u update_every =
     chart_status_line (clean_name u) update_every @ labels_text ans u clabel_status_line @ clabel_commit_status u
     @ concat (map (\<lambda>(dmn, _). dimension_status_line dmn) status_dimensions)
     @ concat (map (\<lambda>i. chart_text ans u update_every (nd_charts ! i)) (charts_from ans u 0))"

text \<open>What the creation of a dictionary leaves of the registry.\<close>

lemma create_represents:
  assumes "devices_view p reg w" and "link_view (nd_ups_seen p) sn w" and "names_view (nd_ups_name p) ns w" and "OPTION_SINGLE_THREADED opts"
    and "OPTION_VALUE_LINK_DONT_CLONE opts" and "\<not> OPTION_DONT_OVERWRITE_VALUE opts" and "\<not> OPTION_ADD_IN_FRONT opts"
  shows "\<exists>d w'. dictionary_create opts w = Inr (d, w') \<and> link_view d [] w' \<and> devices_view p reg w' \<and>
    link_view (nd_ups_seen p) sn w' \<and> names_view (nd_ups_name p) ns w' \<and> untouched w w' (nd_ups_name p) \<and>
    d \<notin> {nd_ups_vars p, nd_ups_seen p, nd_ups_name p} \<union> dv_vars ` set reg"
proof -
  from create_ok [OF view_world(1) [OF assms(2)] assms(4), of 0] obtain d w' where
    c: "dictionary_create opts w = Inr (d, w')" "ready w' d (fresh_dictionary opts 0)" "bindings w' d = []"
      "\<And>d' x. ready w d' x \<Longrightarrow> d' \<noteq> d \<and> ready w' d' x \<and> untouched w w' d'"
    by (auto simp: dictionary_create_def)
  have link: "untouched w w' d' \<and> d' \<noteq> d" if "overwriting l f d' w" for l f d'
    using that c(4) by (auto simp: overwriting_def)
  have w': "world_ok w'" by (rule readyD(1) [OF c(2)])
  have "overwriting True False d w'"
    unfolding overwriting_def
    by (intro exI [of _ "fresh_dictionary opts 0"]) (use c(2) assms(5-7) in \<open>simp add: fresh_dictionary_def\<close>)
  moreover have "entries w' d = []" using readyD(2) [OF c(2)] by (simp add: entries_def fresh_dictionary_def)
  ultimately have new: "link_view d [] w'" using c(3) by (simp add: link_view_def busy_def)
  have vars: "untouched w w' (nd_ups_vars p)" "nd_ups_vars p \<noteq> d"
    and kids: "\<And>v. v \<in> set reg \<Longrightarrow> untouched w w' (dv_vars v) \<and> dv_vars v \<noteq> d"
    and seen: "untouched w w' (nd_ups_seen p)" "nd_ups_seen p \<noteq> d"
    and nm: "untouched w w' (nd_ups_name p)" "nd_ups_name p \<noteq> d"
    using assms(1-3) link by (auto simp: devices_view_def link_view_def names_view_def)
  moreover have "devices_view p reg w'" using devices_view_mono [OF assms(1) w' vars(1)] kids by blast
  ultimately show ?thesis
    using c(1) new link_view_mono [OF assms(2) w' seen(1)] names_view_mono(1) [OF assms(3) w' nm(1)]
    by (intro exI [of _ d] exI [of _ w']) auto
qed

text \<open>The registry after the dictionary of a new device has been filled and entered.\<close>

lemma enter_device:
  assumes "devices_view p reg w" and "link_view (nd_ups_seen p) sn w" and "names_view (nd_ups_name p) (map dv_name reg @ [u]) w"
    and "link_view d (chart_bindings is) w" and "\<forall>i \<in> set is. i < length nd_charts" and "u \<noteq> []"
    and "d \<notin> {nd_ups_vars p, nd_ups_seen p, nd_ups_name p} \<union> dv_vars ` set reg"
  defines "v \<equiv> \<lparr>dv_name = u, dv_vars = d, dv_charts = is\<rparr>"
  shows "\<exists>w'. dictionary_set (nd_ups_vars p) (Some u) (SPtr (Addr d)) 0 w = Inr (Addr d, w') \<and> devices_view p (reg @ [v]) w' \<and>
    link_view (nd_ups_seen p) sn w' \<and> names_view (nd_ups_name p) (map dv_name (reg @ [v])) w' \<and> untouched w w' (nd_ups_name p)"
proof -
  let ?c = "map (\<lambda>v. (dv_name v, Addr (dv_vars v))) reg"
  have vars: "link_view (nd_ups_vars p) ?c w" and kids: "\<forall>v \<in> set reg. link_view (dv_vars v) (chart_bindings (dv_charts v)) w"
    using assms(1) by (simp_all add: devices_view_def)
  from link_set [OF vars assms(6), of "Addr d"] obtain w' where
    s: "dictionary_set (nd_ups_vars p) (Some u) (SPtr (Addr d)) 0 w = Inr (Addr d, w')"
      "link_view (nd_ups_vars p) (put_binding False u (Addr d) ?c) w'" "elsewhere_same (nd_ups_vars p) w w'" by blast
  have w': "world_ok w'" by (rule view_world(1) [OF s(2)])
  have other: "untouched w w' q" if "q \<noteq> nd_ups_vars p" for q using s(3) that by (simp add: elsewhere_same_def)
  have "u \<notin> set (map dv_name reg)" using names_bindings(2) [OF assms(3)] by simp
  then have "link_view (nd_ups_vars p) (map (\<lambda>v. (dv_name v, Addr (dv_vars v))) (reg @ [v])) w'"
    using s(2) by (auto simp: put_binding_def v_def image_iff split: if_splits)
  moreover have "link_view (dv_vars k) (chart_bindings (dv_charts k)) w'" if "k \<in> set (reg @ [v])" for k
  proof (cases "k = v")
    case True
    then show ?thesis using link_view_mono [OF assms(4) w' other] assms(7) by (simp add: v_def)
  next
    case False
    then have k: "k \<in> set reg" using that by simp
    then show ?thesis using link_view_mono [OF _ w' other] kids devices_apart(4) [OF assms(1) k] by blast
  qed
  ultimately have "devices_view p (reg @ [v]) w'"
    using assms(1,5,7) by (auto simp: devices_view_def v_def)
  moreover note devices_apart(1,2) [OF assms(1)]
  ultimately show ?thesis
    using s(1) link_view_mono [OF assms(2) w' other] names_view_mono(1) [OF assms(3) w' other] other
    by (intro exI [of _ w']) (simp add: v_def)
qed

lemma register_ups_stable:
  assumes "represents w p reg sn" and "u \<noteq> []" and "cstring u" and "u \<notin> dv_name ` set reg"
  shows "\<exists>w' p' d. register_ups (\<lambda>_. ans) u (w, p) = Inr (w', p') \<and>
    prints p (registration_text ans u (unat (netdata_update_every p))) p' \<and>
    represents w' p' (reg @ [\<lparr>dv_name = u, dv_vars = d, dv_charts = charts_from ans u 0\<rparr>]) sn"
proof -
  let ?nd = "nd_ups_name p" and ?every = "unat (netdata_update_every p)"
  have r: "devices_view p reg w" "link_view (nd_ups_seen p) sn w" "names_view ?nd (map dv_name reg) w" "\<not> busy (entries w ?nd)"
    using assms(1) by (simp_all add: represents_def)
  have "u \<notin> set (map dv_name reg)" using assms(4) by simp
  from names_add [OF r(3) this assms(2,3)] obtain v w0 w1 where
    a: "dictionary_set ?nd (Some u) (SBytes (u @ [NUL])) (length u + 1) w = Inr (v, w0)" "clean_name_at v w0 = Inr w1"
      "names_view ?nd (map dv_name reg @ [u]) w1" "(u, v) \<in> set (bindings w1 ?nd)" "elsewhere_same ?nd w w1"
      "busy (entries w1 ?nd) \<longrightarrow> busy (entries w ?nd)" by blast
  have c1: "cstr_at w1 v = Inr (clean_name u)" by (rule cstr_clean [OF names_bindings(3) [OF a(3,4)] assms(3)])
  have w1: "world_ok w1" by (rule view_world(2) [OF a(3)])
  have u1: "untouched w w1 q" if "q \<noteq> ?nd" for q using a(5) that by (simp add: elsewhere_same_def)
  have "devices_view p reg w1" using devices_apart [OF r(1)] by (intro devices_view_mono [OF r(1) w1] u1) auto
  moreover have "link_view (nd_ups_seen p) sn w1" using devices_apart(3) [OF r(1)] by (intro link_view_mono [OF r(2) w1] u1) auto
  ultimately obtain d w2 where
    c: "dictionary_create ups_vars_options w1 = Inr (d, w2)" "link_view d [] w2" "devices_view p reg w2"
      "link_view (nd_ups_seen p) sn w2" "names_view ?nd (map dv_name reg @ [u]) w2" "untouched w1 w2 ?nd"
      "d \<notin> {nd_ups_vars p, nd_ups_seen p, ?nd} \<union> dv_vars ` set reg"
    using create_represents [OF _ _ a(3), of reg sn ups_vars_options] by (auto simp: ups_vars_options_def)
  let ?p1 = "printf (chart_status_line (clean_name u) ?every) p"
  let ?p2 = "print_labels (\<lambda>_. ans) u clabel_status_line ?p1"
  let ?p3 = "printf (clabel_commit_status u) ?p2"
  let ?p4 = "printf (concat (map (\<lambda>(dmn, _). dimension_status_line dmn) status_dimensions)) ?p3"
  have p4: "prints p (chart_status_line (clean_name u) ?every @ labels_text ans u clabel_status_line @ clabel_commit_status u
      @ concat (map (\<lambda>(dmn, _). dimension_status_line dmn) status_dimensions)) ?p4"
    using prints_printf [OF prints_printf [OF prints_trans [OF prints_printf [OF prints_refl] print_labels_stable]]] by simp
  have b2: "(u, v) \<in> set (bindings w2 ?nd)" using a(4) untouched_views(1) [OF c(6)] by simp
  have nd: "?nd \<noteq> d" using c(7) by auto
  have "link_view d (chart_bindings []) w2" using c(2) by (simp add: chart_bindings_def)
  from register_charts_stable [OF c(5) b2 assms(3) nd this, of 0 ans ?p4] obtain w3 p3 where
    l: "rfold (register_chart (\<lambda>_. ans) u v d) (enumerate 0 nd_charts) (w2, ?p4) = Inr (w3, p3)"
      "prints ?p4 (concat (map (\<lambda>i. chart_text ans u (unat (netdata_update_every ?p4)) (nd_charts ! i)) (charts_from ans u 0))) p3"
      "link_view d (chart_bindings (charts_from ans u 0)) w3" "elsewhere_same d w2 w3" by auto
  note pp = prints_trans [OF p4 l(2)]
  have out: "prints p (registration_text ans u ?every) p3"
    using pp prints_same(4) [OF p4] by (simp add: registration_text_def)
  note p3 = prints_same(1-4) [OF out]
  have w3: "world_ok w3" by (rule view_world(1) [OF l(3)])
  have u3: "untouched w2 w3 q" if "q \<noteq> d" for q using l(4) that by (simp add: elsewhere_same_def)
  have "devices_view p reg w3" using c(7) by (intro devices_view_mono [OF c(3) w3] u3) auto
  moreover have "link_view (nd_ups_seen p) sn w3" using c(7) by (intro link_view_mono [OF c(4) w3] u3) auto
  moreover have "names_view ?nd (map dv_name reg @ [u]) w3" using nd by (intro names_view_mono(1) [OF c(5) w3] u3) auto
  moreover have "\<forall>i \<in> set (charts_from ans u 0). i < length nd_charts" by (simp add: charts_from_def)
  ultimately obtain w4 where
    e: "dictionary_set (nd_ups_vars p) (Some u) (SPtr (Addr d)) 0 w3 = Inr (Addr d, w4)"
      "devices_view p (reg @ [\<lparr>dv_name = u, dv_vars = d, dv_charts = charts_from ans u 0\<rparr>]) w4"
      "link_view (nd_ups_seen p) sn w4"
      "names_view ?nd (map dv_name (reg @ [\<lparr>dv_name = u, dv_vars = d, dv_charts = charts_from ans u 0\<rparr>])) w4"
      "untouched w3 w4 ?nd"
    using enter_device [OF _ _ _ l(3) _ assms(2) c(7), of sn] by blast
  have "entries w4 ?nd = entries w1 ?nd" using e(5) u3 [OF nd] c(6) by (simp add: untouched_def)
  then have "\<not> busy (entries w4 ?nd)" using a(6) r(4) by simp
  then have "represents w4 p (reg @ [\<lparr>dv_name = u, dv_vars = d, dv_charts = charts_from ans u 0\<rparr>]) sn"
    using e(2-4) assms by (auto simp: represents_def)
  moreover have "register_ups (\<lambda>_. ans) u (w, p) = Inr (w4, p3)"
    using a(1,2) c1 c(1) l(1) e(1) p3 by (simp add: register_ups_def Let_def del: rbind_Inr_iff)
  ultimately show ?thesis using out represents_prints [OF out] by auto
qed

end
