(* ===== verification/Upsd_Collect.thy ===== *)
theory Upsd_Collect
  imports Upsd_Registry
begin

text \<open>
  Collecting the metrics of a device, and of all devices of a listing: what is printed, which errors
  occur, and how the registry changes.
\<close>

section \<open>The text of one collection\<close>

text \<open>Two texts one after the other; the first error decides.\<close>

definition tjoin :: "string res \<Rightarrow> string res \<Rightarrow> string res" where
  "tjoin t t' = rbind t (\<lambda>a. rbind t' (\<lambda>b. Inr (a @ b)))"

lemma tjoin_simps [simp]: "tjoin (Inl e) t = Inl e" "tjoin (Inr a) (Inl e) = Inl e" "tjoin (Inr a) (Inr b) = Inr (a @ b)"
  by (simp_all add: tjoin_def)

lemma tjoin_empty [simp]: "tjoin (Inr []) t = t" "tjoin t (Inr []) = t"
  by (cases t; simp add: tjoin_def)+

definition metric_text :: "string \<Rightarrow> string \<Rightarrow> string \<Rightarrow> usec \<Rightarrow> int \<Rightarrow> string" where
  "metric_text u cid dmn dt val = send_BEGIN (clean_name u) cid (unat dt) @ send_SET dmn val @ send_END"

definition status_text :: "(string \<Rightarrow> string \<Rightarrow> string option) \<Rightarrow> string \<Rightarrow> usec \<Rightarrow> string res" where
  "status_text ans u dt =
     rbind (parse_ups_status (ans u ''ups.status'')) (\<lambda>status. Inr (status_lines (clean_name u) status (unat dt)))"

definition realpower_reading :: "(string \<Rightarrow> string \<Rightarrow> string option) \<Rightarrow> string \<Rightarrow> int option res" where
  "realpower_reading ans u =
     (case ans u ''ups.realpower'' of
        Some r \<Rightarrow> rbind (scaled_reading r) (\<lambda>k. Inr (Some k))
      | None \<Rightarrow>
          case (ans u ''ups.load'', ans u ''ups.realpower.nominal'') of
            (Some load, Some nominal) \<Rightarrow> rbind (load_usage_reading load nominal) (\<lambda>k. Inr (Some k))
          | _ \<Rightarrow> Inr None)"

definition realpower_text :: "(string \<Rightarrow> string \<Rightarrow> string option) \<Rightarrow> string \<Rightarrow> usec \<Rightarrow> string res" where
  "realpower_text ans u dt =
     rbind (realpower_reading ans u) (\<lambda>r.
       Inr (case r of None \<Rightarrow> [] | Some k \<Rightarrow> metric_text u ''load_usage'' ''load_usage'' dt k))"

definition reading_text :: "(string \<Rightarrow> string \<Rightarrow> string option) \<Rightarrow> string \<Rightarrow> usec \<Rightarrow> nd_chart \<Rightarrow> string res" where
  "reading_text ans u dt chart =
     (case ans u (nut_variable chart) of
        None \<Rightarrow> Inl NullDeref
      | Some r \<Rightarrow> rbind (scaled_reading r) (\<lambda>k. Inr (metric_text u (chart_id chart) (chart_dimension chart) dt k)))"

fun readings_text :: "(string \<Rightarrow> string \<Rightarrow> string option) \<Rightarrow> string \<Rightarrow> usec \<Rightarrow> nat list \<Rightarrow> string res" where
  "readings_text ans u dt [] = Inr []"
| "readings_text ans u dt (i # is) = tjoin (reading_text ans u dt (nd_charts ! i)) (readings_text ans u dt is)"

definition ups_text :: "(string \<Rightarrow> string \<Rightarrow> string option) \<Rightarrow> string \<Rightarrow> usec \<Rightarrow> nat list \<Rightarrow> string res" where
  "ups_text ans u dt is = tjoin (status_text ans u dt) (tjoin (realpower_text ans u dt) (readings_text ans u dt is))"

section \<open>Steps that print\<close>

text \<open>A step fails as the text says, or prints it and leaves a world with a property.\<close>

definition follows :: "plugin \<Rightarrow> plugin_state res \<Rightarrow> string res \<Rightarrow> (world \<Rightarrow> bool) \<Rightarrow> bool" where
  "follows p result t P \<longleftrightarrow>
     (case t of
        Inl err \<Rightarrow> result = Inl err
      | Inr out \<Rightarrow> \<exists>w' p'. result = Inr (w', p') \<and> prints p out p' \<and> P w')"

lemma follows_bind:
  assumes "follows p r t P" and "\<And>w' p' out. t = Inr out \<Longrightarrow> P w' \<Longrightarrow> prints p out p' \<Longrightarrow> follows p' (k (w', p')) t' Q"
  shows "follows p (rbind r k) (tjoin t t') Q"
proof (cases t)
  case (Inl err)
  then show ?thesis using assms(1) by (simp add: follows_def)
next
  case (Inr out)
  then obtain w' p' where r: "r = Inr (w', p')" "prints p out p'" "P w'" using assms(1) by (auto simp: follows_def)
  have "follows p' (k (w', p')) t' Q" by (rule assms(2) [OF Inr r(3,2)])
  then show ?thesis
    using r(1) Inr prints_trans [OF r(2)] by (cases t') (auto simp: follows_def)
qed

lemma follows_weaken: "follows p r t P \<Longrightarrow> (\<And>w. P w \<Longrightarrow> Q w) \<Longrightarrow> follows p r t Q"
  by (cases t) (auto simp: follows_def)

lemma follows_after: "prints p a p' \<Longrightarrow> follows p' r t Q \<Longrightarrow> follows p r (tjoin (Inr a) t) Q"
  using prints_trans [of p a p'] by (cases t) (auto simp: follows_def)

lemma send_metric_follows:
  assumes "cstr_at w v = Inr (clean_name u)" and "prints p [] p'"
  shows "follows p (rbind r (\<lambda>val. send_metric v cid dmn dt val (w, p'))) (rbind r (\<lambda>k. Inr (metric_text u cid dmn dt k))) (\<lambda>w'. w' = w)"
  using assms prints_printf [OF assms(2)] by (cases r) (auto simp: follows_def send_metric_def metric_text_def)

lemma status_follows:
  assumes "cstr_at w v = Inr (clean_name u)"
  shows "follows p (send_metric_ups_status (\<lambda>_. ans) u v dt (w, p)) (status_text ans u dt) (\<lambda>w'. w' = w)"
proof -
  obtain p1 where p1: "nut_get_var (\<lambda>_. ans) u ''ups.status'' p = (ans u ''ups.status'', p1)" "prints p [] p1"
    using nut_get_var_stable by blast
  show ?thesis
    using p1 assms prints_printf [OF p1(2)]
    by (cases "parse_ups_status (ans u ''ups.status'')")
      (auto simp: follows_def send_metric_ups_status_def status_text_def simp del: rbind_Inr_iff)
qed

lemma realpower_follows:
  assumes "cstr_at w v = Inr (clean_name u)"
  shows "follows p (send_metric_ups_realpower (\<lambda>_. ans) u v dt (w, p)) (realpower_text ans u dt) (\<lambda>w'. w' = w)"
proof -
  obtain p1 where p1: "nut_get_var (\<lambda>_. ans) u ''ups.realpower'' p = (ans u ''ups.realpower'', p1)" "prints p [] p1"
    using nut_get_var_stable by blast
  obtain p2 where p2: "nut_get_var (\<lambda>_. ans) u ''ups.load'' p1 = (ans u ''ups.load'', p2)" "prints p [] p2"
    using nut_get_var_stable [of ans u "''ups.load''" p1] prints_trans [OF p1(2)] by fastforce
  obtain p3 where p3: "nut_get_var (\<lambda>_. ans) u ''ups.realpower.nominal'' p2 = (ans u ''ups.realpower.nominal'', p3)" "prints p [] p3"
    using nut_get_var_stable [of ans u "''ups.realpower.nominal''" p2] prints_trans [OF p2(2)] by fastforce
  show ?thesis
  proof (cases "ans u ''ups.realpower''")
    case (Some x)
    then show ?thesis
      using send_metric_follows [OF assms p1(2), of "scaled_reading x" "''load_usage''" "''load_usage''" dt] p1(1)
      by (simp add: send_metric_ups_realpower_def realpower_text_def realpower_reading_def rbind_assoc)
  next
    case None
    note n = None
    show ?thesis
    proof (cases "ans u ''ups.load''")
      case (Some load)
      show ?thesis
      proof (cases "ans u ''ups.realpower.nominal''")
        case (Some nominal)
        then show ?thesis
          using send_metric_follows [OF assms p3(2), of "load_usage_reading load nominal" "''load_usage''" "''load_usage''" dt]
            n \<open>ans u ''ups.load'' = Some load\<close> p1(1) p2(1) p3(1)
          by (simp add: send_metric_ups_realpower_def realpower_text_def realpower_reading_def rbind_assoc)
      next
        case None
        then show ?thesis
          using n \<open>ans u ''ups.load'' = Some load\<close> p1(1) p2(1) p3
          by (simp add: send_metric_ups_realpower_def realpower_text_def realpower_reading_def follows_def)
      qed
    next
      case None
      then show ?thesis
        using n p1(1) p2 by (simp add: send_metric_ups_realpower_def realpower_text_def realpower_reading_def follows_def)
    qed
  qed
qed

text \<open>One round of the loop over the charts, on the state of the plugin alone.\<close>

definition chart_step :: "(string \<Rightarrow> string \<Rightarrow> string option) \<Rightarrow> string \<Rightarrow> usec \<Rightarrow> string \<times> vptr \<Rightarrow> plugin \<Rightarrow> plugin res" where
  "chart_step ans u dt b p =
     rbind (chart_at (snd b)) (\<lambda>chart.
       case nut_get_var (\<lambda>_. ans) u (nut_variable chart) p of
         (None, p) \<Rightarrow> Inl NullDeref
       | (Some r, p) \<Rightarrow>
           rbind (scaled_reading r) (\<lambda>k. Inr (printf (metric_text u (chart_id chart) (chart_dimension chart) dt k) p)))"

lemma send_chart_step:
  assumes "cstr_at w v = Inr (clean_name u)" and "fe_value dfe = snd b"
  shows "send_chart (\<lambda>_. ans) u v dt dfe (w, p) = rbind (chart_step ans u dt b p) (\<lambda>p'. Inr (w, p'))"
  using assms
  by (auto simp: send_chart_def chart_step_def send_metric_def metric_text_def rbind_assoc nut_get_var_def
      split: option.split intro!: rbind_cong simp del: rbind_Inr_iff)

lemma chart_steps:
  assumes "\<forall>i \<in> set is. i < length nd_charts"
  shows "case readings_text ans u dt is of
      Inl err \<Rightarrow> rfold (chart_step ans u dt) (chart_bindings is) p = Inl err
    | Inr out \<Rightarrow> \<exists>p'. rfold (chart_step ans u dt) (chart_bindings is) p = Inr p' \<and> prints p out p'"
  using assms
proof (induction "is" arbitrary: p)
  case Nil
  then show ?case by (simp add: chart_bindings_def prints_refl)
next
  case (Cons i "is")
  let ?chart = "nd_charts ! i" and ?b = "(nut_variable (nd_charts ! i), Addr i)"
  have b: "chart_bindings (i # is) = ?b # chart_bindings is" by (simp add: chart_bindings_def)
  have c: "chart_at (Addr i) = Inr ?chart" using Cons.prems by (simp add: chart_at_def)
  obtain p1 where p1: "nut_get_var (\<lambda>_. ans) u (nut_variable ?chart) p = (ans u (nut_variable ?chart), p1)" "prints p [] p1"
    using nut_get_var_stable by blast
  show ?case
  proof (cases "reading_text ans u dt ?chart")
    case (Inl err)
    then have "chart_step ans u dt ?b p = Inl err"
      using c p1(1)
      by (cases "ans u (nut_variable ?chart)"; cases "scaled_reading (the (ans u (nut_variable ?chart)))")
        (simp_all add: chart_step_def reading_text_def del: rbind_Inr_iff)
    then show ?thesis using Inl b by simp
  next
    case (Inr out)
    then obtain k r where k: "ans u (nut_variable ?chart) = Some r" "scaled_reading r = Inr k"
      "out = metric_text u (chart_id ?chart) (chart_dimension ?chart) dt k"
      by (auto simp: reading_text_def split: option.splits)
    then have s: "chart_step ans u dt ?b p = Inr (printf out p1)" using c p1(1) by (simp add: chart_step_def)
    have "prints p out (printf out p1)" using prints_printf [OF p1(2), of out] by simp
    from prints_trans [OF this] show ?thesis
      using Cons.IH [of "printf out p1"] Cons.prems s b Inr
      by (cases "readings_text ans u dt is") auto
  qed
qed

section \<open>The loop over the charts of a device\<close>

text \<open>What holds while the dictionary \<open>d\<close> of a device is traversed.\<close>

definition sending :: "did \<Rightarrow> did \<Rightarrow> string list \<Rightarrow> string \<Rightarrow> vptr \<Rightarrow> world \<Rightarrow> world \<Rightarrow> bool" where
  "sending d nd ns u v w0 w \<longleftrightarrow>
     names_view nd ns w \<and> (u, v) \<in> set (bindings w nd) \<and> cstring u \<and> nd \<noteq> d \<and> overwriting True False d w \<and> elsewhere_same d w0 w"

lemma sending_cstr: "sending d nd ns u v w0 w \<Longrightarrow> cstr_at w v = Inr (clean_name u)"
  using cstr_clean [OF names_bindings(3)] by (auto simp: sending_def)

lemma sending_step:
  assumes "sending d nd ns u v w0 w" and "ok 0 w d x es" and "ok 0 w' d x' es'" and "evolve d w x es w' x' es'"
  shows "sending d nd ns u v w0 w'"
proof -
  have s: "names_view nd ns w" "(u, v) \<in> set (bindings w nd)" "cstring u" "nd \<noteq> d" "overwriting True False d w" "elsewhere_same d w0 w"
    using assms(1) by (simp_all add: sending_def)
  have x: "w_dicts w d = Some x" "entries w d = es" using okD(4) [OF assms(2)] rep_entries [OF okD(1) [OF assms(2)]] by simp_all
  have k: "kept x x'" using assms(4) by (simp add: evolve_def)
  note st = world_ok_step [OF view_world(2) [OF s(1)] x(1) assms(3)] assms(4) [folded x(2)]
  have el: "elsewhere_same d w w'" using st(3) [OF st(4)] by (simp add: elsewhere_same_def)
  have w': "world_ok w'" by (rule st(1) [OF st(4)])
  have "overwriting True False d w'"
    using s(5) x(1) okD(4) [OF assms(3)] k w' by (auto simp: overwriting_def ready_def kept_def)
  moreover have "untouched w w' nd" using el s(4) by (simp add: elsewhere_same_def)
  note names_view_mono [OF s(1) w' this]
  ultimately show ?thesis using s(2-4) elsewhere_same_trans [OF s(6) el] by (simp add: sending_def)
qed

interpretation sender: visitor d LOCK_READ "send_chart (\<lambda>_. ans) u v dt" "chart_step ans u dt" "\<lambda>_. False" every
  "\<lambda>_ w _. sending d nd ns u v w0 w" for d ans u v dt every nd ns w0
proof
  fix passed w s x as e bs dfe err
  assume a: "sending d nd ns u v w0 w" "at_entry dfe d LOCK_READ e" "chart_step ans u dt (e_name e, e_value e) s = Inl err"
  have "fe_value dfe = snd (e_name e, e_value e)" using a(2) by (simp add: at_entry_def)
  from send_chart_step [OF sending_cstr [OF a(1)] this] a(3) show "send_chart (\<lambda>_. ans) u v dt dfe (w, s) = Inl err" by simp
next
  fix passed w s x as e bs dfe s'
  assume a: "sending d nd ns u v w0 w" "ok 0 w d x (as @ e # bs)" "at_entry dfe d LOCK_READ e"
    "chart_step ans u dt (e_name e, e_value e) s = Inr s'"
  have "fe_value dfe = snd (e_name e, e_value e)" using a(3) by (simp add: at_entry_def)
  from send_chart_step [OF sending_cstr [OF a(1)] this] a
  show "\<exists>w' x'. send_chart (\<lambda>_. ans) u v dt dfe (w, s) = Inr (w', s') \<and> ok 0 w' d x' (as @ spare (\<lambda>_. False) e # bs) \<and>
      d_destroyed x' = d_destroyed x \<and> sending d nd ns u v w0 w'"
    by (intro exI [of _ w] exI [of _ x]) (simp add: spare_def del: rbind_Inr_iff)
qed (auto intro: sending_step)

lemma rounds_enough:
  assumes "ready w d x"
  shows "length (bindings w d) \<le> rounds w (Some d)"
proof -
  have "length (entries w d) = rounds w (Some d)" using readyD(2) [OF assms] by (simp add: rounds_def entries_def)
  then show ?thesis by (metis bindings_def contents_def length_filter_le length_map)
qed

lemma send_charts_follows:
  assumes "names_view nd ns w" and "(u, v) \<in> set (bindings w nd)" and "cstring u" and "nd \<noteq> d"
    and "link_view d (chart_bindings is) w" and "\<forall>i \<in> set is. i < length nd_charts"
  shows "follows p (dfe_foreach (rounds w (Some d)) (Some d) LOCK_READ (send_chart (\<lambda>_. ans) u v dt) (w, p))
    (readings_text ans u dt is) (\<lambda>w'. link_view d (chart_bindings is) w' \<and> elsewhere_same d w w')"
proof -
  have l: "overwriting True False d w" "\<not> busy (entries w d)" "bindings w d = chart_bindings is"
    using assms(5) by (simp_all add: link_view_def)
  then obtain x where x: "ready w d x" by (auto simp: overwriting_def)
  note r = readyD [OF x]
  have j: "sending d nd ns u v w w" using assms l(1) elsewhere_same_refl by (simp add: sending_def)
  have c: "contents (entries w d) = chart_bindings is" using l(3) by (simp add: bindings_def)
  have fuel: "length (contents (entries w d)) \<le> rounds w (Some d)" using rounds_enough [OF x] by (simp add: bindings_def)
  note f = sender.foreach_completes [OF j r(4,3) fuel refl, where ans = ans and dt = dt and s = p, unfolded spare_none c]
  note t = chart_steps [OF assms(6), of ans u dt p]
  show ?thesis
  proof (cases "readings_text ans u dt is")
    case (Inl err)
    then show ?thesis using f t by (simp add: follows_def)
  next
    case (Inr out)
    then obtain p' where p': "rfold (chart_step ans u dt) (chart_bindings is) p = Inr p'" "prints p out p'" using t by auto
    then obtain w' x' where
      w': "dfe_foreach (rounds w (Some d)) (Some d) LOCK_READ (send_chart (\<lambda>_. ans) u v dt) (w, p) = Inr (w', p')"
        "ok 0 w' d x' (entries w d)" "sending d nd ns u v w w'" using f by auto
    have "entries w' d = entries w d" by (rule rep_entries [OF okD(1) [OF w'(2)]])
    then have "link_view d (chart_bindings is) w'" using w'(3) l by (simp add: link_view_def sending_def bindings_def)
    then show ?thesis using w'(1,3) p'(2) Inr by (simp add: follows_def sending_def)
  qed
qed

section \<open>Collecting one device\<close>

text \<open>What follows once the clean name is known.\<close>

definition collect_rest :: "nut \<Rightarrow> usec \<Rightarrow> string \<Rightarrow> vptr \<Rightarrow> plugin_state \<Rightarrow> plugin_state res" where
  "collect_rest nut dt u v s =
     rbind (set_seen u True s) (\<lambda>s.
     rbind (send_metric_ups_status nut u v dt s) (\<lambda>s.
     rbind (send_metric_ups_realpower nut u v dt s) (\<lambda>(w, p).
     rbind (dictionary_get (nd_ups_vars p) (Some u) w) (\<lambda>(v', w).
     rbind (dict_of v') (\<lambda>ups_vars.
       dfe_foreach (rounds w ups_vars) ups_vars LOCK_READ (send_chart nut u v dt) (w, p))))))"

lemma devices_lookup:
  assumes "distinct (map dv_name reg)" and "k \<in> set reg"
  shows "map_of (map (\<lambda>v. (dv_name v, f v)) reg) (dv_name k) = Some (f k)"
  using assms by (intro map_of_is_SomeI) (auto simp: comp_def)

lemma represents_names: "represents w p reg sn \<Longrightarrow> distinct (map dv_name reg)"
  using names_bindings(2) by (auto simp: represents_def)

text \<open>A step on the dictionary of flags, or on the dictionary of a device, keeps the rest of the registry.\<close>

lemma represents_seen:
  assumes "represents w p reg sn" and "link_view (nd_ups_seen p) sn' w'" and "elsewhere_same (nd_ups_seen p) w w'"
  shows "represents w' p reg sn'" "untouched w w' (nd_ups_name p)"
proof -
  have r: "devices_view p reg w" "names_view (nd_ups_name p) (map dv_name reg) w" "\<not> busy (entries w (nd_ups_name p))"
    using assms(1) by (simp_all add: represents_def)
  have o: "untouched w w' q" if "q \<noteq> nd_ups_seen p" for q using assms(3) that by (simp add: elsewhere_same_def)
  have w': "world_ok w'" by (rule view_world(1) [OF assms(2)])
  note a = devices_apart [OF r(1)]
  have "devices_view p reg w'" using a by (intro devices_view_mono [OF r(1) w'] o) auto
  moreover show u: "untouched w w' (nd_ups_name p)" using a(3) by (intro o) simp
  ultimately show "represents w' p reg sn'"
    using assms(1,2) r(3) names_view_mono(1) [OF r(2) w' u] by (simp add: represents_def untouched_def)
qed

lemma represents_device:
  assumes "represents w p reg sn" and "k \<in> set reg" and "link_view (dv_vars k) (chart_bindings (dv_charts k)) w'"
    and "elsewhere_same (dv_vars k) w w'"
  shows "represents w' p reg sn"
proof -
  have r: "devices_view p reg w" "link_view (nd_ups_seen p) sn w" "names_view (nd_ups_name p) (map dv_name reg) w"
    "\<not> busy (entries w (nd_ups_name p))"
    using assms(1) by (simp_all add: represents_def)
  have o: "untouched w w' q" if "q \<noteq> dv_vars k" for q using assms(4) that by (simp add: elsewhere_same_def)
  have w': "world_ok w'" by (rule view_world(1) [OF assms(3)])
  have a: "dv_vars k \<noteq> nd_ups_vars p" "dv_vars k \<noteq> nd_ups_seen p" "dv_vars k \<noteq> nd_ups_name p"
    using devices_apart(4) [OF r(1) assms(2)] by simp_all
  have kids: "link_view (dv_vars j) (chart_bindings (dv_charts j)) w'" if "j \<in> set reg" for j
  proof (cases "j = k")
    case False
    then have "dv_vars j \<noteq> dv_vars k"
      using r(1) that assms(2) by (auto simp: devices_view_def distinct_map dest: inj_onD)
    then show ?thesis using r(1) that link_view_mono [OF _ w' o] by (auto simp: devices_view_def)
  qed (use assms(3) in simp)
  have "untouched w w' (nd_ups_vars p)" "untouched w w' (nd_ups_seen p)" "untouched w w' (nd_ups_name p)"
    using a by (auto intro: o)
  note u = this
  have "devices_view p reg w'"
    using r(1) kids link_view_mono [OF _ w' u(1)] by (auto simp: devices_view_def)
  then show ?thesis
    using assms(1) link_view_mono [OF r(2) w' u(2)] names_view_mono(1) [OF r(3) w' u(3)] u(3) r(4)
    by (simp add: represents_def untouched_def)
qed

lemma represents_charts:
  assumes "represents w p reg sn" and "k \<in> set reg"
  shows "link_view (dv_vars k) (chart_bindings (dv_charts k)) w" "\<forall>i \<in> set (dv_charts k). i < length nd_charts"
    "dv_name k \<noteq> []" "cstring (dv_name k)" "nd_ups_name p \<noteq> dv_vars k"
    "dictionary_get (nd_ups_vars p) (Some (dv_name k)) w = Inr (Addr (dv_vars k), w)"
proof -
  have d: "devices_view p reg w" using assms(1) by (simp add: represents_def)
  then show "link_view (dv_vars k) (chart_bindings (dv_charts k)) w" "\<forall>i \<in> set (dv_charts k). i < length nd_charts"
    using assms(2) by (auto simp: devices_view_def)
  show ne: "dv_name k \<noteq> []" "cstring (dv_name k)" using assms by (auto simp: represents_def)
  show "nd_ups_name p \<noteq> dv_vars k" using devices_apart(4) [OF d assms(2)] by simp
  show "dictionary_get (nd_ups_vars p) (Some (dv_name k)) w = Inr (Addr (dv_vars k), w)"
    using link_get [OF _ ne(1), of "nd_ups_vars p" "map (\<lambda>v. (dv_name v, Addr (dv_vars v))) reg" w] d
      devices_lookup [OF represents_names [OF assms(1)] assms(2), of "\<lambda>v. Addr (dv_vars v)"]
    by (simp add: devices_view_def)
qed

lemma collect_rest_follows:
  assumes "represents w p reg sn" and "k \<in> set reg" and "(dv_name k, v) \<in> set (bindings w (nd_ups_name p))"
  shows "follows p (collect_rest (\<lambda>_. ans) dt (dv_name k) v (w, p)) (ups_text ans (dv_name k) dt (dv_charts k))
    (\<lambda>w'. represents w' p reg (put_binding False (dv_name k) (Addr 1) sn))"
proof -
  let ?u = "dv_name k" and ?sn = "put_binding False (dv_name k) (Addr 1) sn"
  note k = represents_charts [OF assms(1,2)]
  have "link_view (nd_ups_seen p) sn w" using assms(1) by (simp add: represents_def)
  from link_set [OF this k(3), of "Addr 1"] obtain w1 where
    s: "dictionary_set (nd_ups_seen p) (Some ?u) (SPtr (Addr 1)) 0 w = Inr (Addr 1, w1)" "link_view (nd_ups_seen p) ?sn w1"
      "elsewhere_same (nd_ups_seen p) w w1" by blast
  note r1 = represents_seen [OF assms(1) s(2,3)]
  have nv: "names_view (nd_ups_name p) (map dv_name reg) w1" using r1(1) by (simp add: represents_def)
  have b1: "(?u, v) \<in> set (bindings w1 (nd_ups_name p))" using assms(3) untouched_views(1) [OF r1(2)] by simp
  have c1: "cstr_at w1 v = Inr (clean_name ?u)" by (rule cstr_clean [OF names_bindings(3) [OF nv b1] k(4)])
  note k1 = represents_charts [OF r1(1) assms(2)]
  have "follows p' (dfe_foreach (rounds w1 (Some (dv_vars k))) (Some (dv_vars k)) LOCK_READ (send_chart (\<lambda>_. ans) ?u v dt) (w1, p'))
      (readings_text ans ?u dt (dv_charts k)) (\<lambda>w'. represents w' p reg ?sn)" for p'
    using represents_device [OF r1(1) assms(2)]
    by (intro follows_weaken [OF send_charts_follows [OF nv b1 k(4) k1(5,1,2), of p' ans dt]]) blast
  then have loop: "follows p' (case (w1, p') of (w, p) \<Rightarrow> rbind (dictionary_get (nd_ups_vars p) (Some ?u) w) (\<lambda>(v', w).
      rbind (dict_of v') (\<lambda>ups_vars. dfe_foreach (rounds w ups_vars) ups_vars LOCK_READ (send_chart (\<lambda>_. ans) ?u v dt) (w, p))))
      (readings_text ans ?u dt (dv_charts k)) (\<lambda>w'. represents w' p reg ?sn)" if "nd_ups_vars p' = nd_ups_vars p" for p'
    using k1(6) that by (simp add: dict_of_def del: rbind_Inr_iff)
  have "set_seen ?u True (w, p) = Inr (w1, p)" using s(1) by (simp add: set_seen_def)
  then show ?thesis
    unfolding collect_rest_def ups_text_def
    by (simp only: rbind.simps)
      (intro follows_bind [OF status_follows [OF c1]] follows_bind [OF realpower_follows];
        use c1 loop prints_same(1) in \<open>simp del: rbind_Inr_iff\<close>)
qed

text \<open>The devices and their charts, without the dictionaries that hold them.\<close>

definition catalogue :: "device list \<Rightarrow> (string \<times> nat list) list" where
  "catalogue reg = map (\<lambda>v. (dv_name v, dv_charts v)) reg"

lemma catalogue_simps [simp]: "catalogue (reg @ reg') = catalogue reg @ catalogue reg'" "catalogue [] = []"
  "catalogue (v # reg) = (dv_name v, dv_charts v) # catalogue reg" "map fst (catalogue reg) = map dv_name reg"
  by (simp_all add: catalogue_def comp_def)

text \<open>What one device of a listing leads to: the text, and the devices that are known afterwards.\<close>

definition observe ::
  "(string \<Rightarrow> string \<Rightarrow> string option) \<Rightarrow> nat \<Rightarrow> usec \<Rightarrow> string \<Rightarrow> (string \<times> nat list) list \<Rightarrow> string res \<times> (string \<times> nat list) list" where
  "observe ans update_every dt u cat =
     (case map_of cat u of
        Some is \<Rightarrow> (ups_text ans u dt is, cat)
      | None \<Rightarrow>
          (tjoin (Inr (registration_text ans u update_every)) (ups_text ans u dt (charts_from ans u 0)),
           cat @ [(u, charts_from ans u 0)]))"

definition represents_cat :: "world \<Rightarrow> plugin \<Rightarrow> (string \<times> nat list) list \<Rightarrow> (string \<times> vptr) list \<Rightarrow> bool" where
  "represents_cat w p cat sn \<longleftrightarrow> (\<exists>reg. represents w p reg sn \<and> catalogue reg = cat)"

lemma represents_cat_prints: "prints p t p' \<Longrightarrow> represents_cat w p' cat sn = represents_cat w p cat sn"
  using represents_prints [of p t p'] by (simp add: represents_cat_def)

lemma collect_ups_eq:
  "collect_ups nut dt u (w, p) =
     rbind (dictionary_get (nd_ups_name p) (Some u) w) (\<lambda>(v, w).
     rbind (if v = Null then
          rbind (register_ups nut u (w, p)) (\<lambda>(w, p).
          rbind (dictionary_get (nd_ups_name p) (Some u) w) (\<lambda>(v, w). Inr (v, w, p)))
        else Inr (v, w, p)) (\<lambda>(v, s). collect_rest nut dt u v s))"
  unfolding collect_ups_def collect_rest_def by simp

lemma names_pointer:
  assumes "represents w p reg sn" and "k \<in> set reg"
  obtains v where "dictionary_get (nd_ups_name p) (Some (dv_name k)) w = Inr (v, w)" "v \<noteq> Null"
    "(dv_name k, v) \<in> set (bindings w (nd_ups_name p))"
  using names_get [of "nd_ups_name p" "map dv_name reg" w "dv_name k"] assms that by (auto simp: represents_def)

lemma collect_ups_follows:
  assumes "represents_cat w p cat sn" and "u \<noteq> []" and "cstring u"
  shows "follows p (collect_ups (\<lambda>_. ans) dt u (w, p)) (fst (observe ans (unat (netdata_update_every p)) dt u cat))
    (\<lambda>w'. represents_cat w' p (snd (observe ans (unat (netdata_update_every p)) dt u cat)) (put_binding False u (Addr 1) sn))"
proof -
  obtain reg where reg: "represents w p reg sn" "catalogue reg = cat" using assms(1) by (auto simp: represents_cat_def)
  let ?every = "unat (netdata_update_every p)"
  show ?thesis
  proof (cases "u \<in> dv_name ` set reg")
    case True
    then obtain k where k: "k \<in> set reg" "u = dv_name k" by blast
    obtain v where v: "dictionary_get (nd_ups_name p) (Some u) w = Inr (v, w)" "v \<noteq> Null"
      "(u, v) \<in> set (bindings w (nd_ups_name p))" using names_pointer [OF reg(1) k(1)] k(2) by metis
    have "map_of cat u = Some (dv_charts k)"
      using devices_lookup [OF represents_names [OF reg(1)] k(1)] reg(2) k(2) by (auto simp: catalogue_def)
    then have "observe ans ?every dt u cat = (ups_text ans u dt (dv_charts k), cat)" by (simp add: observe_def)
    moreover have "collect_ups (\<lambda>_. ans) dt u (w, p) = collect_rest (\<lambda>_. ans) dt u v (w, p)"
      using v(1,2) by (simp add: collect_ups_eq)
    moreover have "follows p (collect_rest (\<lambda>_. ans) dt u v (w, p)) (ups_text ans u dt (dv_charts k))
        (\<lambda>w'. represents_cat w' p cat (put_binding False u (Addr 1) sn))"
      using collect_rest_follows [OF reg(1) k(1), of v ans dt] v(3) k(2) reg(2)
      by (auto intro: follows_weaken simp: represents_cat_def)
    ultimately show ?thesis by simp
  next
    case False
    from register_ups_stable [OF reg(1) assms(2,3) False, of ans] obtain w1 p1 d where
      r: "register_ups (\<lambda>_. ans) u (w, p) = Inr (w1, p1)" "prints p (registration_text ans u ?every) p1"
        "represents w1 p1 (reg @ [\<lparr>dv_name = u, dv_vars = d, dv_charts = charts_from ans u 0\<rparr>]) sn" by blast
    let ?k = "\<lparr>dv_name = u, dv_vars = d, dv_charts = charts_from ans u 0\<rparr>" and ?cat = "cat @ [(u, charts_from ans u 0)]"
    have k: "?k \<in> set (reg @ [?k])" by simp
    obtain v where v: "dictionary_get (nd_ups_name p1) (Some u) w1 = Inr (v, w1)" "(u, v) \<in> set (bindings w1 (nd_ups_name p1))"
      using names_pointer [OF r(3) k] by auto
    have "map_of cat u = None" using False reg(2) by (auto simp: map_of_eq_None_iff catalogue_def)
    then have o: "observe ans ?every dt u cat =
        (tjoin (Inr (registration_text ans u ?every)) (ups_text ans u dt (charts_from ans u 0)), ?cat)"
      by (simp add: observe_def)
    have "names_view (nd_ups_name p) (map dv_name reg) w" using reg(1) by (simp add: represents_def)
    from names_get [OF this assms(2)] False have "dictionary_get (nd_ups_name p) (Some u) w = Inr (Null, w)" by auto
    then have eq: "collect_ups (\<lambda>_. ans) dt u (w, p) = rbind (Inr (w1, p1)) (\<lambda>(w, p). collect_rest (\<lambda>_. ans) dt u v (w, p))"
      using r(1) v(1) by (simp add: collect_ups_eq)
    have "follows p1 (collect_rest (\<lambda>_. ans) dt u v (w1, p1)) (ups_text ans u dt (charts_from ans u 0))
        (\<lambda>w'. represents_cat w' p ?cat (put_binding False u (Addr 1) sn))"
    proof (rule follows_weaken)
      show "follows p1 (collect_rest (\<lambda>_. ans) dt u v (w1, p1)) (ups_text ans u dt (charts_from ans u 0))
          (\<lambda>w'. represents w' p1 (reg @ [?k]) (put_binding False u (Addr 1) sn))"
        using collect_rest_follows [OF r(3) k, of v ans dt] v(2) by simp
    qed (use reg(2) represents_prints [OF r(2)] in \<open>auto simp: represents_cat_def intro: exI [of _ "reg @ [?k]"]\<close>)
    then show ?thesis
      unfolding eq o fst_conv snd_conv using follows_after [OF r(2)] by simp
  qed
qed

section \<open>Collecting a listing\<close>

fun observe_all ::
  "(string \<Rightarrow> string \<Rightarrow> string option) \<Rightarrow> nat \<Rightarrow> usec \<Rightarrow> string list \<Rightarrow> (string \<times> nat list) list \<Rightarrow> string res \<times> (string \<times> nat list) list" where
  "observe_all ans update_every dt [] cat = (Inr [], cat)"
| "observe_all ans update_every dt (u # us) cat =
     (case observe ans update_every dt u cat of (t, cat) \<Rightarrow>
        case observe_all ans update_every dt us cat of (t', cat) \<Rightarrow> (tjoin t t', cat))"

text \<open>The answers of the server for a listing of names with descriptions.\<close>

definition listing :: "(string \<times> string) list \<Rightarrow> string list option list" where
  "listing us = map (\<lambda>(u, descr). Some [''UPS'', u, descr]) us @ [Some [''END'', ''LIST'', ''UPS'']]"

definition flag_all :: "string list \<Rightarrow> (string \<times> vptr) list \<Rightarrow> (string \<times> vptr) list" where
  "flag_all us sn = fold (\<lambda>u. put_binding False u (Addr 1)) us sn"

lemma list_loop_listing:
  "list_loop f (listing []) s = Inr (Continue, s)"
  "list_loop f (listing ((u, descr) # us)) s = rbind (f u s) (list_loop f (listing us))"
  by (simp_all add: listing_def word_at_def)

lemma collect_listing:
  assumes "represents_cat w p cat sn" and "\<forall>u \<in> fst ` set us. u \<noteq> [] \<and> cstring u"
  defines "every \<equiv> unat (netdata_update_every p)"
  shows "case fst (observe_all ans every dt (map fst us) cat) of
      Inl err \<Rightarrow> list_loop (collect_ups (\<lambda>_. ans) dt) (listing us) (w, p) = Inl err
    | Inr out \<Rightarrow> \<exists>w' p'. list_loop (collect_ups (\<lambda>_. ans) dt) (listing us) (w, p) = Inr (Continue, w', p') \<and> prints p out p' \<and>
        represents_cat w' p' (snd (observe_all ans every dt (map fst us) cat)) (flag_all (map fst us) sn)"
  using assms(1,2) unfolding every_def
proof (induction us arbitrary: w p cat sn)
  case Nil
  then show ?case by (simp add: list_loop_listing flag_all_def prints_refl)
next
  case (Cons x us)
  obtain u descr where x: "x = (u, descr)" by (cases x)
  let ?every = "unat (netdata_update_every p)"
  obtain t cat1 where o: "observe ans ?every dt u cat = (t, cat1)" by (cases "observe ans ?every dt u cat")
  obtain t' cat2 where o': "observe_all ans ?every dt (map fst us) cat1 = (t', cat2)"
    by (cases "observe_all ans ?every dt (map fst us) cat1")
  have all: "observe_all ans ?every dt (map fst (x # us)) cat = (tjoin t t', cat2)" using o o' x by simp
  have f: "follows p (collect_ups (\<lambda>_. ans) dt u (w, p)) t (\<lambda>w'. represents_cat w' p cat1 (put_binding False u (Addr 1) sn))"
    using collect_ups_follows [OF Cons.prems(1), of u ans dt] Cons.prems(2) o x by simp
  show ?case
  proof (cases t)
    case (Inl err)
    then show ?thesis using f all x by (simp add: follows_def list_loop_listing)
  next
    case (Inr out)
    then obtain w1 p1 where
      c: "collect_ups (\<lambda>_. ans) dt u (w, p) = Inr (w1, p1)" "prints p out p1" "represents_cat w1 p1 cat1 (put_binding False u (Addr 1) sn)"
      using f represents_cat_prints [of p out] by (auto simp: follows_def)
    have "netdata_update_every p1 = netdata_update_every p" by (rule prints_same(4) [OF c(2)])
    then show ?thesis
      using Cons.IH [OF c(3)] Cons.prems(2) o' all Inr x c(1) prints_trans [OF c(2)]
      by (cases t') (auto simp: list_loop_listing flag_all_def simp del: rbind_Inr_iff)
  qed
qed

text \<open>The devices that are known after a listing, and their flags.\<close>

lemma observe_names: "map fst (snd (observe ans update_every dt u cat)) = (if u \<in> fst ` set cat then map fst cat else map fst cat @ [u])"
proof (cases "map_of cat u")
  case None
  then have "u \<notin> fst ` set cat" by (simp add: map_of_eq_None_iff)
  then show ?thesis using None by (simp add: observe_def)
next
  case (Some "is")
  then have "u \<in> fst ` set cat" by (metis map_of_eq_None_iff option.distinct(1))
  then show ?thesis using Some by (simp add: observe_def)
qed

lemma observe_all_names: "fst ` set (snd (observe_all ans update_every dt us cat)) = fst ` set cat \<union> set us"
proof (induction us arbitrary: cat)
  case (Cons u us)
  obtain t cat1 where o: "observe ans update_every dt u cat = (t, cat1)" by (cases "observe ans update_every dt u cat")
  have "fst ` set cat1 = set (map fst cat1)" by simp
  also have "\<dots> = insert u (fst ` set cat)" using observe_names [of ans update_every dt u cat] o by auto
  finally show ?case using Cons.IH [of cat1] o by (simp add: case_prod_beta)
qed simp

lemma map_of_flag_all: "map_of (flag_all us sn) n = (if n \<in> set us then Some (Addr 1) else map_of sn n)"
  unfolding flag_all_def by (induction us arbitrary: sn) (auto simp: map_of_put_binding)

end
