(* ===== verification/Upsd_Removal.thy ===== *)
theory Upsd_Removal
  imports Upsd_Collect
begin

text \<open>
  Removing devices: the loop that forgets the devices that were not listed, and the shutdown.  Both go
  over the dictionary of names and delete from it by the clean form of the name they stand on.
\<close>

section \<open>Forgetting by clean name\<close>

definition flagged :: "(string \<times> vptr) list \<Rightarrow> string \<Rightarrow> bool" where
  "flagged sn n \<longleftrightarrow> (case map_of sn n of None \<Rightarrow> False | Some v \<Rightarrow> v \<noteq> Null)"

definition drop_device :: "string \<Rightarrow> device list \<Rightarrow> device list" where
  "drop_device n reg = filter (\<lambda>v. dv_name v \<noteq> n) reg"

text \<open>
  What the loop does at a name: it keeps the device with the clean name and takes its flag away, or
  deletes it.  \<open>spared\<close> decides from the flags.
\<close>

definition forget ::
  "((string \<times> vptr) list \<Rightarrow> string \<Rightarrow> bool) \<Rightarrow> string \<Rightarrow> device list \<times> (string \<times> vptr) list \<Rightarrow> device list \<times> (string \<times> vptr) list" where
  "forget spared n = (\<lambda>(reg, sn).
     let c = clean_name n in
     if spared sn c then (reg, put_binding False c Null sn) else (drop_device c reg, remove_name c sn))"

lemma clean_name_nonempty [simp]: "clean_name n = [] \<longleftrightarrow> n = []"
  by (simp add: clean_name_def)

text \<open>The registry while the dictionary of names is traversed.\<close>

definition holds :: "world \<Rightarrow> plugin \<Rightarrow> device list \<Rightarrow> (string \<times> vptr) list \<Rightarrow> bool" where
  "holds w p reg sn \<longleftrightarrow>
     devices_view p reg w \<and> link_view (nd_ups_seen p) sn w \<and> names_view (nd_ups_name p) (map dv_name reg) w \<and>
     (\<forall>v \<in> set reg. dv_name v \<noteq> [] \<and> cstring (dv_name v))"

lemma represents_holds: "represents w p reg sn \<longleftrightarrow> holds w p reg sn \<and> \<not> busy (entries w (nd_ups_name p))"
  by (auto simp: represents_def holds_def)

lemma holdsD:
  assumes "holds w p reg sn"
  shows "devices_view p reg w" "link_view (nd_ups_seen p) sn w" "names_view (nd_ups_name p) (map dv_name reg) w" "world_ok w"
    "\<And>v. v \<in> set reg \<Longrightarrow> dv_name v \<noteq> [] \<and> cstring (dv_name v)" "distinct (map dv_name reg)"
  using assms view_world(1) names_bindings(2) by (auto simp: holds_def)

text \<open>A step on the dictionary of names that keeps its contents.\<close>

lemma holds_evolve:
  assumes "holds w p reg sn" and "ok 0 w (nd_ups_name p) x es" and "ok 0 w' (nd_ups_name p) x' es'"
    and "evolve (nd_ups_name p) w x es w' x' es'" and "contents es' = contents es"
  shows "holds w' p reg sn" "elsewhere_same (nd_ups_name p) w w'"
proof -
  let ?nd = "nd_ups_name p"
  note h = holdsD [OF assms(1)]
  have x: "w_dicts w ?nd = Some x" "entries w ?nd = es" using okD(4) [OF assms(2)] rep_entries [OF okD(1) [OF assms(2)]] by simp_all
  note ev = assms(4) [folded x(2)]
  note st = world_ok_step [OF h(4) x(1) assms(3) ev]
  show el: "elsewhere_same ?nd w w'" using st(3) by (simp add: elsewhere_same_def)
  have o: "untouched w w' q" if "q \<noteq> ?nd" for q using st(3) [OF that] .
  have ow: "overwriting False False ?nd w" "texts w ?nd = map (\<lambda>n. (n, Some (clean_text n))) (map dv_name reg)"
    using h(3) by (simp_all add: names_view_def)
  have k: "kept x x'" using ev by (simp add: evolve_def)
  have "overwriting False False ?nd w'"
    using ow(1) x(1) okD(4) [OF assms(3)] k st(1) by (auto simp: overwriting_def ready_def kept_def)
  moreover have "clones x" using ow(1) x(1) by (auto simp: overwriting_def ready_def)
  then have "bytes_at w' v = bytes_at w v" if "(n, v) \<in> set (contents es)" for n v
    using evolve_bytes [OF assms(2,3,4) _ that] that assms(5) by metis
  then have "texts w' ?nd = texts w ?nd" using st(2) x(2) assms(5) by (auto simp: texts_def bindings_def)
  ultimately have "names_view ?nd (map dv_name reg) w'" using ow(2) by (simp add: names_view_def)
  moreover have "devices_view p reg w'" using devices_apart [OF h(1)] by (intro devices_view_mono [OF h(1) st(1)] o) auto
  moreover have "link_view (nd_ups_seen p) sn w'" using devices_apart(3) [OF h(1)] by (intro link_view_mono [OF h(2) st(1)] o) auto
  ultimately show "holds w' p reg sn" using h(5) by (simp add: holds_def)
qed

lemma holds_seen:
  assumes "holds w p reg sn" and "link_view (nd_ups_seen p) sn' w'" and "elsewhere_same (nd_ups_seen p) w w'"
  shows "holds w' p reg sn'" "untouched w w' (nd_ups_name p)"
proof -
  note h = holdsD [OF assms(1)]
  have o: "untouched w w' q" if "q \<noteq> nd_ups_seen p" for q using assms(3) that by (simp add: elsewhere_same_def)
  have w': "world_ok w'" by (rule view_world(1) [OF assms(2)])
  note a = devices_apart [OF h(1)]
  show u: "untouched w w' (nd_ups_name p)" using a(3) by (intro o) simp
  have "devices_view p reg w'" using a by (intro devices_view_mono [OF h(1) w'] o) auto
  then show "holds w' p reg sn'" using assms(2) names_view_mono(1) [OF h(3) w' u] h(5) by (simp add: holds_def)
qed

text \<open>A dictionary that a step does not touch is as it was.\<close>

lemma untouched_ok:
  assumes "ok 0 w d x es" and "world_ok w'" and "untouched w w' d"
  shows "ok 0 w' d x es"
proof -
  have "w_dicts w' d = Some x" "entries w' d = es"
    using assms(3) okD(4) [OF assms(1)] rep_entries [OF okD(1) [OF assms(1)]] by (simp_all add: untouched_def)
  then show ?thesis using world_okD(1) [OF assms(2), of d x] by simp
qed

section \<open>Deleting a device\<close>

lemma drop_device_absent: "n \<notin> dv_name ` set reg \<Longrightarrow> drop_device n reg = reg"
  by (auto simp: drop_device_def filter_id_conv)

lemma drop_device_names: "map dv_name (drop_device n reg) = filter (\<lambda>m. m \<noteq> n) (map dv_name reg)"
  by (simp add: drop_device_def filter_map comp_def)

lemma drop_device_vars:
  "map (\<lambda>v. (dv_name v, Addr (dv_vars v))) (drop_device n reg) = remove_name n (map (\<lambda>v. (dv_name v, Addr (dv_vars v))) reg)"
  by (simp add: drop_device_def remove_name_def filter_map comp_def)

text \<open>The dictionary of charts of the device goes first; the device is still in the dictionaries of the plugin.\<close>

lemma destroy_charts:
  assumes "holds w p reg sn" and "k \<in> set reg"
  shows "\<exists>w'. dictionary_destroy (Some (dv_vars k)) w = Inr w' \<and> world_ok w' \<and> w_dicts w' (dv_vars k) = None \<and>
    (\<forall>q. q = nd_ups_vars p \<or> q = nd_ups_seen p \<or> q = nd_ups_name p \<or> q \<in> dv_vars ` (set reg - {k}) \<longrightarrow> untouched w w' q) \<and>
    (\<forall>q. w_dicts w q = None \<longrightarrow> w_dicts w' q = None)"
proof -
  note h = holdsD [OF assms(1)]
  have "link_view (dv_vars k) (chart_bindings (dv_charts k)) w" using h(1) assms(2) by (auto simp: devices_view_def)
  then obtain x where x: "ready w (dv_vars k) x" "\<not> busy (entries w (dv_vars k))" by (auto simp: link_view_def overwriting_def)
  from destroy_ok [OF x(1)] x(2) obtain w' where
    d: "dictionary_destroy (Some (dv_vars k)) w = Inr w'" "world_ok w'" "destroyed (dv_vars k) x w w'"
      "\<forall>d' y. d' \<noteq> dv_vars k \<longrightarrow> ready w d' y \<longrightarrow> ready w' d' y \<and> untouched w w' d'"
      "\<forall>q. w_dicts w q = None \<longrightarrow> w_dicts w' q = None" by blast
  have o: "untouched w w' q" if "overwriting l f q w" "q \<noteq> dv_vars k" for l f q using that d(4) by (auto simp: overwriting_def)
  have inj: "dv_vars j \<noteq> dv_vars k" if "j \<in> set reg" "j \<noteq> k" for j
    using h(1) that assms(2) by (auto simp: devices_view_def distinct_map dest: inj_onD)
  have "untouched w w' q" if "q = nd_ups_vars p \<or> q = nd_ups_seen p \<or> q = nd_ups_name p \<or> q \<in> dv_vars ` (set reg - {k})" for q
    using that h(1-3) devices_apart(4) [OF h(1) assms(2)] inj
    by (auto intro: o simp: devices_view_def link_view_def names_view_def)
  moreover have "w_dicts w' (dv_vars k) = None" using d(3) x(2) by (simp add: destroyed_def freed_def)
  ultimately show ?thesis using d(1,2,5) by (intro exI [of _ w']) (simp del: dictionary_destroy.simps)
qed

text \<open>
  Deleting the device of the current entry.  The entry is held by the loop, so that it stays in the
  list, marked as deleted.
\<close>

lemma names_del_held:
  assumes "names_view nd ns w" and "ok 0 w nd x (as @ e # bs)" and "e_live e" and "e_held e"
  shows "\<exists>b w' x'. dictionary_del nd (Some (e_name e)) w = Inr (b, w') \<and> ok 0 w' nd x' (as @ mark_deleted e # bs) \<and>
    \<not> d_destroyed x' \<and> names_view nd (filter (\<lambda>m. m \<noteq> e_name e) ns) w' \<and> elsewhere_same nd w w'"
proof -
  let ?n = "e_name e"
  have ow: "overwriting False False nd w" and t: "texts w nd = map (\<lambda>n. (n, Some (clean_text n))) ns"
    using assms(1) by (simp_all add: names_view_def)
  have ne: "?n \<noteq> []" using ok_entry(3) [OF assms(2), of e] by (simp add: entry_ok_def)
  have nd: "\<not> d_destroyed x" using ow okD(4) [OF assms(2)] by (auto simp: overwriting_def ready_def)
  from remove_law [OF ow ne] obtain b w' where
    r: "dictionary_del nd (Some ?n) w = Inr (b, w')" "overwriting False False nd w'"
      "texts w' nd = remove_name ?n (texts w nd)" "elsewhere_same nd w w'" by (auto simp: remove_def)
  from del_held [OF assms(2-4), of None] obtain w2 x2 where
    h: "dict_item_del nd ?n None w = Inr (True, w2)" "ok 0 w2 nd x2 (as @ mark_deleted e # bs)" by auto
  have "dictionary_del nd (Some ?n) w = Inr (True, w2)"
    using h(1) ne nd okD(4) [OF assms(2)] by (simp add: dictionary_del_def dictionary_del_advanced_def api_is_name_good_def heap_defs)
  then have w2: "w2 = w'" using r(1) by simp
  have "texts w' nd = map (\<lambda>n. (n, Some (clean_text n))) (filter (\<lambda>m. m \<noteq> ?n) ns)"
    unfolding r(3) t by (simp add: remove_name_def filter_map comp_def)
  then have "names_view nd (filter (\<lambda>m. m \<noteq> ?n) ns) w'" using r(2) by (simp add: names_view_def)
  moreover have "\<not> d_destroyed x2" using r(2) okD(4) [OF h(2)] w2 by (auto simp: overwriting_def ready_def)
  ultimately show ?thesis using r(1,4) h(2) w2 by blast
qed

lemma delete_current:
  assumes "holds w p reg sn" and "ok 0 w (nd_ups_name p) x (as @ e # bs)" and "e_live e" and "e_held e"
    and "k \<in> set reg" and "dv_name k = e_name e"
  shows "\<exists>w' x'. delete_ups (e_name e) (w, p) = Inr (w', p) \<and> ok 0 w' (nd_ups_name p) x' (as @ mark_deleted e # bs) \<and>
    \<not> d_destroyed x' \<and> holds w' p (drop_device (e_name e) reg) (remove_name (e_name e) sn) \<and> w_dicts w' (dv_vars k) = None \<and>
    (\<forall>q. w_dicts w q = None \<longrightarrow> w_dicts w' q = None)"
proof -
  let ?n = "e_name e" and ?reg = "drop_device (e_name e) reg" and ?nd = "nd_ups_name p"
  let ?c = "map (\<lambda>v. (dv_name v, Addr (dv_vars v))) reg"
  note h = holdsD [OF assms(1)] and a = devices_apart [OF holdsD(1) [OF assms(1)]]
  have n: "?n \<noteq> []" using h(5) [OF assms(5)] assms(6) by simp
  have vars: "link_view (nd_ups_vars p) ?c w" using h(1) by (simp add: devices_view_def)
  have "map_of ?c ?n = Some (Addr (dv_vars k))"
    using devices_lookup [OF h(6) assms(5), of "\<lambda>v. Addr (dv_vars v)"] assms(6) by simp
  then have get: "dictionary_get (nd_ups_vars p) (Some ?n) w = Inr (Addr (dv_vars k), w)" using link_get [OF vars n] by simp
  from destroy_charts [OF assms(1,5)] obtain w1 where
    d: "dictionary_destroy (Some (dv_vars k)) w = Inr w1" "world_ok w1" "w_dicts w1 (dv_vars k) = None"
      "\<And>q. q = nd_ups_vars p \<or> q = nd_ups_seen p \<or> q = ?nd \<or> q \<in> dv_vars ` (set reg - {k}) \<Longrightarrow> untouched w w1 q"
      "\<And>q. w_dicts w q = None \<Longrightarrow> w_dicts w1 q = None" by blast
  from link_del [OF link_view_mono [OF vars d(2) d(4)] n] obtain b2 w2 where
    v: "dictionary_del (nd_ups_vars p) (Some ?n) w1 = Inr (b2, w2)" "link_view (nd_ups_vars p) (remove_name ?n ?c) w2"
      "elsewhere_same (nd_ups_vars p) w1 w2" by auto
  have w2: "world_ok w2" by (rule view_world(1) [OF v(2)])
  have o2: "untouched w w2 q" if "q = nd_ups_seen p \<or> q = ?nd \<or> q \<in> dv_vars ` (set reg - {k})" for q
    using untouched_trans [OF d(4)] v(3) that a by (auto simp: elsewhere_same_def)
  from link_del [OF link_view_mono [OF h(2) w2 o2] n] obtain b3 w3 where
    s: "dictionary_del (nd_ups_seen p) (Some ?n) w2 = Inr (b3, w3)" "link_view (nd_ups_seen p) (remove_name ?n sn) w3"
      "elsewhere_same (nd_ups_seen p) w2 w3" by auto
  have w3: "world_ok w3" by (rule view_world(1) [OF s(2)])
  have o3: "untouched w w3 q" if "q = ?nd \<or> q \<in> dv_vars ` (set reg - {k})" for q
    using untouched_trans [OF o2] s(3) that a by (auto simp: elsewhere_same_def)
  from names_del_held [OF names_view_mono(1) [OF h(3) w3 o3] untouched_ok [OF assms(2) w3 o3] assms(3,4)] obtain b4 w4 x4 where
    m: "dictionary_del ?nd (Some ?n) w3 = Inr (b4, w4)" "ok 0 w4 ?nd x4 (as @ mark_deleted e # bs)" "\<not> d_destroyed x4"
      "names_view ?nd (filter (\<lambda>m. m \<noteq> ?n) (map dv_name reg)) w4" "elsewhere_same ?nd w3 w4" by auto
  have w4: "world_ok w4" by (rule view_world(2) [OF m(4)])
  have o4: "untouched w3 w4 q" if "q \<noteq> ?nd" for q using m(5) that by (simp add: elsewhere_same_def)
  have "link_view (nd_ups_vars p) (map (\<lambda>v. (dv_name v, Addr (dv_vars v))) ?reg) w4"
    unfolding drop_device_vars
    using link_view_mono [OF link_view_mono [OF v(2) w3] w4 o4] s(3) a by (auto simp: elsewhere_same_def)
  moreover have "link_view (dv_vars j) (chart_bindings (dv_charts j)) w4" if "j \<in> set ?reg" for j
  proof -
    have j: "j \<in> set reg" "j \<noteq> k" using that assms(6) by (auto simp: drop_device_def)
    then have "link_view (dv_vars j) (chart_bindings (dv_charts j)) w3"
      using h(1) link_view_mono [OF _ w3 o3] by (auto simp: devices_view_def)
    then show ?thesis using a(4) [OF j(1)] by (intro link_view_mono [OF _ w4 o4]) auto
  qed
  moreover have "distinct (nd_ups_vars p # nd_ups_seen p # ?nd # map dv_vars ?reg)"
    using h(1) by (auto simp: devices_view_def drop_device_def distinct_map_filter)
  ultimately have "devices_view p ?reg w4" using h(1) by (auto simp: devices_view_def drop_device_def)
  moreover have "link_view (nd_ups_seen p) (remove_name ?n sn) w4" using a by (intro link_view_mono [OF s(2) w4 o4]) auto
  ultimately have "holds w4 p ?reg (remove_name ?n sn)"
    using m(4) h(5) unfolding holds_def drop_device_names by (simp add: drop_device_def)
  moreover have gone: "w_dicts w4 q = None" if "w_dicts w1 q = None" for q
  proof -
    have "nd_ups_vars p \<noteq> q" "nd_ups_seen p \<noteq> q" "?nd \<noteq> q"
      using that vars h(2,3) d(4) by (auto simp: link_view_def names_view_def overwriting_def ready_def untouched_def)
    then show ?thesis using that v(3) s(3) m(5) by (simp add: elsewhere_same_def untouched_def)
  qed
  moreover have "delete_ups ?n (w, p) = Inr (w4, p)"
    using get d(1) v(1) s(1) m(1) by (simp add: delete_ups_def dict_of_def del: dictionary_destroy.simps rbind_Inr_iff)
  ultimately show ?thesis using m(2,3) gone [OF d(3)] gone [OF d(5)] by blast
qed

lemma delete_absent:
  assumes "holds w p reg sn" and "c \<noteq> []" and "c \<notin> dv_name ` set reg"
  shows "\<exists>w'. delete_ups c (w, p) = Inr (w', p) \<and> holds w' p reg (remove_name c sn) \<and> untouched w w' (nd_ups_name p) \<and>
    (\<forall>q. w_dicts w q = None \<longrightarrow> w_dicts w' q = None)"
proof -
  let ?nd = "nd_ups_name p" and ?c = "map (\<lambda>v. (dv_name v, Addr (dv_vars v))) reg"
  note h = holdsD [OF assms(1)] and a = devices_apart [OF holdsD(1) [OF assms(1)]]
  have vars: "link_view (nd_ups_vars p) ?c w" using h(1) by (simp add: devices_view_def)
  have none: "c \<notin> fst ` set ?c" using assms(3) by auto
  then have "map_of ?c c = None" by (simp only: map_of_eq_None_iff not_False_eq_True)
  then have get: "dictionary_get (nd_ups_vars p) (Some c) w = Inr (Null, w)" using link_get [OF vars assms(2)] by simp
  from cleanup_ok [OF h(4)] obtain w1 where
    d: "cleanup_destroyed_dictionaries w = Inr (length (w_waiting w1), w1)" "after_cleanup w w1" by blast
  have w1: "world_ok w1" using d(2) by (simp add: after_cleanup_def)
  have o1: "untouched w w1 q" if "overwriting l f q w" for l f q using that cleanup_ready(2) [OF d(2)] by (auto simp: overwriting_def)
  have u1: "untouched w w1 (nd_ups_vars p)" "untouched w w1 (nd_ups_seen p)" "untouched w w1 ?nd"
    "\<And>v. v \<in> set reg \<Longrightarrow> untouched w w1 (dv_vars v)"
    using h(1-3) by (auto intro: o1 simp: devices_view_def link_view_def names_view_def)
  have "remove_name c ?c = ?c" using assms(3) by (intro remove_name_absent) (simp add: image_image)
  with link_del [OF link_view_mono [OF vars w1 u1(1)] assms(2)] obtain b2 w2 where
    v: "dictionary_del (nd_ups_vars p) (Some c) w1 = Inr (b2, w2)" "link_view (nd_ups_vars p) ?c w2" "elsewhere_same (nd_ups_vars p) w1 w2"
    by auto
  have w2: "world_ok w2" by (rule view_world(1) [OF v(2)])
  have o2: "untouched w w2 q" if "untouched w w1 q" "q \<noteq> nd_ups_vars p" for q
    using untouched_trans [OF that(1)] v(3) that(2) by (simp add: elsewhere_same_def)
  from link_del [OF link_view_mono [OF h(2) w2 o2] assms(2)] u1(2) a(1) obtain b3 w3 where
    s: "dictionary_del (nd_ups_seen p) (Some c) w2 = Inr (b3, w3)" "link_view (nd_ups_seen p) (remove_name c sn) w3"
      "elsewhere_same (nd_ups_seen p) w2 w3" by auto
  have w3: "world_ok w3" by (rule view_world(1) [OF s(2)])
  have o3: "untouched w w3 q" if "untouched w w1 q" "q \<noteq> nd_ups_vars p" "q \<noteq> nd_ups_seen p" for q
    using untouched_trans [OF o2 [OF that(1,2)]] s(3) that(3) by (simp add: elsewhere_same_def)
  have u3: "untouched w w3 ?nd" using o3 [OF u1(3)] a by simp
  note n3 = names_view_mono(1) [OF h(3) w3 u3]
  then obtain x where x: "ready w3 ?nd x" by (auto simp: names_view_def overwriting_def)
  have "c \<notin> set (names (entries w3 ?nd))" using names_bindings(1) [OF n3] readyD(6) [OF x] assms(3) by simp
  from del_absent [OF readyD(4) [OF x] this, of None] have "dictionary_del ?nd (Some c) w3 = Inr (False, w3)"
    using assms(2) readyD(2,3) [OF x]
    by (simp add: dictionary_del_def dictionary_del_advanced_def api_is_name_good_def heap_defs key_of_def)
  then have "delete_ups c (w, p) = Inr (w3, p)"
    using get d(1) v(1) s(1) by (simp add: delete_ups_def dict_of_def del: rbind_Inr_iff)
  moreover have "link_view (nd_ups_vars p) ?c w3" using link_view_mono [OF v(2) w3] s(3) a(1) by (simp add: elsewhere_same_def)
  moreover have "link_view (dv_vars k) (chart_bindings (dv_charts k)) w3" if "k \<in> set reg" for k
    using h(1) that link_view_mono [OF _ w3 o3 [OF u1(4) [OF that]]] a(4) [OF that] by (auto simp: devices_view_def)
  ultimately have "delete_ups c (w, p) = Inr (w3, p)" "holds w3 p reg (remove_name c sn)"
    using h(1,5) s(2) n3 by (simp_all add: holds_def devices_view_def)
  moreover have "w_dicts w3 q = None" if q: "w_dicts w q = None" for q
  proof -
    have "w_dicts w1 q = None" using d(2) q by (cases "q \<in> set (w_waiting w) \<and> \<not> busy (entries w q)")
        (auto simp: after_cleanup_def untouched_def split: if_splits)
    moreover have "q \<noteq> nd_ups_vars p" "q \<noteq> nd_ups_seen p"
      using q vars h(2) by (auto simp: link_view_def overwriting_def ready_def)
    ultimately show ?thesis using v(3) s(3) by (simp add: elsewhere_same_def untouched_def)
  qed
  ultimately show ?thesis using u3 by blast
qed

section \<open>The loops\<close>

text \<open>
  A loop is gentle when it only ever deletes the device it stands on: at each name, that name is
  clean, or the device with the clean name is spared or not there.
\<close>

definition gentle :: "((string \<times> vptr) list \<Rightarrow> string \<Rightarrow> bool) \<Rightarrow> device list \<Rightarrow> (string \<times> vptr) list \<Rightarrow> bool" where
  "gentle spared reg sn \<longleftrightarrow>
     (\<forall>ns n ms. map dv_name reg = ns @ n # ms \<longrightarrow>
        (case fold (forget spared) ns (reg, sn) of (reg', sn') \<Rightarrow>
           clean_name n = n \<or> spared sn' (clean_name n) \<or> clean_name n \<notin> dv_name ` set reg'))"

definition doomed_name :: "((string \<times> vptr) list \<Rightarrow> string \<Rightarrow> bool) \<Rightarrow> device list \<Rightarrow> (string \<times> vptr) list \<Rightarrow> string \<Rightarrow> bool" where
  "doomed_name spared reg sn n \<longleftrightarrow>
     (\<exists>ns ms. map dv_name reg = ns @ n # ms \<and> clean_name n = n \<and> \<not> spared (snd (fold (forget spared) ns (reg, sn))) n)"

lemma doomed_here:
  assumes "map dv_name reg = ns @ n # ms" and "distinct (map dv_name reg)"
  shows "doomed_name spared reg sn n \<longleftrightarrow> clean_name n = n \<and> \<not> spared (snd (fold (forget spared) ns (reg, sn))) n"
proof -
  have "ns' = ns" if "map dv_name reg = ns' @ n # ms'" for ns' ms'
    using that assms by (simp add: append_eq_append_conv2 append_eq_Cons_conv) (auto simp: append_eq_append_conv2 append_eq_Cons_conv Cons_eq_append_conv)
  then show ?thesis unfolding doomed_name_def using assms(1) by blast
qed

definition removing ::
  "((string \<times> vptr) list \<Rightarrow> string \<Rightarrow> bool) \<Rightarrow> plugin \<Rightarrow> device list \<Rightarrow> (string \<times> vptr) list \<Rightarrow> (string \<times> vptr) list \<Rightarrow>
   (string \<times> vptr) list \<Rightarrow> world \<Rightarrow> plugin \<Rightarrow> bool" where
  "removing spared p0 reg sn every passed w p \<longleftrightarrow>
     p = p0 \<and> map fst every = map dv_name reg \<and> distinct (map dv_name reg) \<and> gentle spared reg sn \<and>
     distinct (nd_ups_vars p # nd_ups_seen p # nd_ups_name p # map dv_vars reg) \<and>
     (\<forall>v \<in> set reg. dv_name v \<noteq> [] \<and> cstring (dv_name v)) \<and>
     (case fold (forget spared) (map fst passed) (reg, sn) of (reg', sn') \<Rightarrow>
        holds w p reg' sn' \<and> (\<forall>k \<in> set reg. k \<in> set reg' \<or> w_dicts w (dv_vars k) = None))"

lemma removing_evolve:
  assumes "removing spared p0 reg sn every passed w p" and "ok 0 w (nd_ups_name p0) x es" and "ok 0 w' (nd_ups_name p0) x' es'"
    and "evolve (nd_ups_name p0) w x es w' x' es'" and "contents es' = contents es"
  shows "removing spared p0 reg sn every passed w' p"
proof -
  obtain reg' sn' where f: "fold (forget spared) (map fst passed) (reg, sn) = (reg', sn')" by fastforce
  have p: "p = p0" and h: "holds w p reg' sn'" "\<forall>k \<in> set reg. k \<in> set reg' \<or> w_dicts w (dv_vars k) = None"
    and apart: "\<forall>k \<in> set reg. dv_vars k \<noteq> nd_ups_name p"
    using assms(1) f by (auto simp: removing_def image_iff)
  note e = holds_evolve [OF h(1) assms(2-5) [folded p]]
  have "\<forall>k \<in> set reg. k \<in> set reg' \<or> w_dicts w' (dv_vars k) = None"
    using h(2) e(2) apart by (simp add: elsewhere_same_def untouched_def)
  then show ?thesis using assms(1) f e(1) p by (simp add: removing_def)
qed

text \<open>The situation in which the body of the loop is called.\<close>

lemma removing_at:
  assumes "removing spared p0 reg sn every passed w p" and "ok 0 w (nd_ups_name p0) x (as @ e # bs)" and "e_live e"
    and "every = passed @ (e_name e, e_value e) # contents bs"
  obtains reg' sn' k where "fold (forget spared) (map fst passed) (reg, sn) = (reg', sn')" "holds w p0 reg' sn'" "p = p0"
    "k \<in> set reg'" "dv_name k = e_name e" "e_name e \<noteq> []" "cstr_at w (e_value e) = Inr (clean_name (e_name e))"
    "doomed_name spared reg sn (e_name e) \<longleftrightarrow> clean_name (e_name e) = e_name e \<and> \<not> spared sn' (e_name e)"
    "clean_name (e_name e) = e_name e \<or> spared sn' (clean_name (e_name e)) \<or> clean_name (e_name e) \<notin> dv_name ` set reg'"
    "\<not> d_destroyed x"
proof -
  let ?n = "e_name e" and ?nd = "nd_ups_name p0"
  obtain reg' sn' where f: "fold (forget spared) (map fst passed) (reg, sn) = (reg', sn')" by fastforce
  have r: "p = p0" "holds w p0 reg' sn'" "distinct (map dv_name reg)" "gentle spared reg sn"
    and ns: "map dv_name reg = map fst passed @ ?n # map fst (contents bs)"
    using assms(1,4) f by (auto simp: removing_def)
  note h = holdsD [OF r(2)]
  have b: "(?n, e_value e) \<in> set (bindings w ?nd)"
    using rep_entries [OF okD(1) [OF assms(2)]] assms(3) by (simp add: bindings_def)
  then have "?n \<in> set (map fst (bindings w ?nd))" by force
  then obtain k where k: "k \<in> set reg'" "dv_name k = ?n" unfolding names_bindings(1) [OF h(3)] by auto
  have n: "?n \<noteq> []" "cstring ?n" using h(5) [OF k(1)] k(2) by simp_all
  have "cstr_at w (e_value e) = Inr (clean_name ?n)" by (rule cstr_clean [OF names_bindings(3) [OF h(3) b] n(2)])
  moreover have "doomed_name spared reg sn ?n \<longleftrightarrow> clean_name ?n = ?n \<and> \<not> spared sn' ?n"
    using doomed_here [OF ns r(3), of spared sn] f by simp
  moreover have "clean_name ?n = ?n \<or> spared sn' (clean_name ?n) \<or> clean_name ?n \<notin> dv_name ` set reg'"
    using r(4) ns f unfolding gentle_def by fastforce
  moreover have "\<not> d_destroyed x" using h(3) okD(4) [OF assms(2)] by (auto simp: names_view_def overwriting_def ready_def)
  ultimately show ?thesis using that [OF f r(2,1) k n(1)] by blast
qed

lemma removing_next:
  assumes "removing spared p0 reg sn every passed w p" and "fold (forget spared) (map fst passed) (reg, sn) = (reg', sn')"
    and "forget spared n (reg', sn') = (reg2, sn2)" and "holds w' p0 reg2 sn2"
    and "\<And>k. k \<in> set reg' \<Longrightarrow> k \<in> set reg2 \<or> w_dicts w' (dv_vars k) = None"
    and "\<And>k. k \<in> set reg \<Longrightarrow> w_dicts w (dv_vars k) = None \<Longrightarrow> w_dicts w' (dv_vars k) = None"
  shows "removing spared p0 reg sn every (passed @ [(n, v)]) w' p0"
proof -
  have p: "p = p0" using assms(1) by (simp add: removing_def)
  have old: "k \<in> set reg' \<or> w_dicts w (dv_vars k) = None" if "k \<in> set reg" for k
    using assms(1,2) that by (auto simp: removing_def)
  have "k \<in> set reg2 \<or> w_dicts w' (dv_vars k) = None" if "k \<in> set reg" for k
    using old [OF that] assms(5) [of k] assms(6) [OF that] by (elim disjE) simp_all
  then show ?thesis using assms(1-4) p by (simp add: removing_def)
qed

text \<open>The part of the body that both loops share.\<close>

lemma delete_here:
  assumes "removing spared p0 reg sn every passed w p" and "ok 0 w (nd_ups_name p0) x (as @ e # bs)" and "e_live e" and "e_held e"
    and "every = passed @ (e_name e, e_value e) # contents bs"
    and "\<not> spared (snd (fold (forget spared) (map fst passed) (reg, sn))) (clean_name (e_name e))"
  shows "\<exists>w' x'. delete_ups (clean_name (e_name e)) (w, p) = Inr (w', p) \<and>
    ok 0 w' (nd_ups_name p0) x' (as @ spare (\<lambda>b. doomed_name spared reg sn (fst b)) e # bs) \<and> d_destroyed x' = d_destroyed x \<and>
    removing spared p0 reg sn every (passed @ [(e_name e, e_value e)]) w' p"
proof -
  let ?n = "e_name e" and ?c = "clean_name (e_name e)"
  from removing_at [OF assms(1-3,5)] obtain reg' sn' k where
    r: "fold (forget spared) (map fst passed) (reg, sn) = (reg', sn')" "holds w p0 reg' sn'" "p = p0"
      "k \<in> set reg'" "dv_name k = ?n" "?n \<noteq> []" "doomed_name spared reg sn ?n \<longleftrightarrow> ?c = ?n \<and> \<not> spared sn' ?n"
      "?c = ?n \<or> spared sn' ?c \<or> ?c \<notin> dv_name ` set reg'" "\<not> d_destroyed x" by metis
  have ns: "\<not> spared sn' ?c" using assms(6) r(1) by simp
  have fg: "forget spared ?n (reg', sn') = (drop_device ?c reg', remove_name ?c sn')" using ns by (simp add: forget_def Let_def)
  note nxt = removing_next [OF assms(1) r(1) fg]
  show ?thesis
  proof (cases "?c = ?n")
    case True
    from delete_current [OF r(2) assms(2-4) r(4,5)] obtain w' x' where
      d: "delete_ups ?n (w, p0) = Inr (w', p0)" "ok 0 w' (nd_ups_name p0) x' (as @ mark_deleted e # bs)" "\<not> d_destroyed x'"
        "holds w' p0 (drop_device ?n reg') (remove_name ?n sn')" "w_dicts w' (dv_vars k) = None"
        "\<And>q. w_dicts w q = None \<Longrightarrow> w_dicts w' q = None" by blast
    have "j \<in> set (drop_device ?c reg') \<or> w_dicts w' (dv_vars j) = None" if "j \<in> set reg'" for j
    proof (cases "dv_name j = ?n")
      case eq: True
      then have "j = k" using holdsD(6) [OF r(2)] that r(4,5) by (metis distinct_map inj_onD)
      then show ?thesis using d(5) by simp
    qed (use that True in \<open>simp add: drop_device_def\<close>)
    with nxt [of w' "e_value e"] d(4,6) have "removing spared p0 reg sn every (passed @ [(?n, e_value e)]) w' p0" using True by simp
    moreover have "spare (\<lambda>b. doomed_name spared reg sn (fst b)) e = mark_deleted e" using r(7) True ns assms(3) by (simp add: spare_def)
    ultimately show ?thesis using d(1-3) r(3,9) True by auto
  next
    case False
    then have c: "?c \<notin> dv_name ` set reg'" "?c \<noteq> []" using r(6,8) ns by auto
    from delete_absent [OF r(2) c(2,1)] obtain w' where
      d: "delete_ups ?c (w, p0) = Inr (w', p0)" "holds w' p0 reg' (remove_name ?c sn')" "untouched w w' (nd_ups_name p0)"
        "\<And>q. w_dicts w q = None \<Longrightarrow> w_dicts w' q = None" by blast
    have "removing spared p0 reg sn every (passed @ [(?n, e_value e)]) w' p0"
      using nxt [of w' "e_value e"] d(2,4) drop_device_absent [OF c(1)] by simp
    moreover have "spare (\<lambda>b. doomed_name spared reg sn (fst b)) e = e" using r(7) False by (simp add: spare_def)
    ultimately show ?thesis using d(1) untouched_ok [OF assms(2) holdsD(4) [OF d(2)] d(3)] r(3) by auto
  qed
qed

interpretation remover: visitor "nd_ups_name p0" LOCK_READ check_seen "\<lambda>_ p. Inr p" "\<lambda>b. doomed_name flagged reg sn (fst b)" every
  "removing flagged p0 reg sn every" for p0 reg sn every
proof
  fix passed w s x as e bs dfe s'
  assume a: "removing flagged p0 reg sn every passed w s" "ok 0 w (nd_ups_name p0) x (as @ e # bs)" "e_live e" "e_held e"
    "at_entry dfe (nd_ups_name p0) LOCK_READ e" "every = passed @ (e_name e, e_value e) # contents bs" "Inr s = Inr s'"
  let ?n = "e_name e" and ?c = "clean_name (e_name e)"
  from removing_at [OF a(1-3,6)] obtain reg' sn' k where
    r: "fold (forget flagged) (map fst passed) (reg, sn) = (reg', sn')" "holds w p0 reg' sn'" "s = p0"
      "?n \<noteq> []" "cstr_at w (e_value e) = Inr ?c" "doomed_name flagged reg sn ?n \<longleftrightarrow> ?c = ?n \<and> \<not> flagged sn' ?n" by metis
  have c: "?c \<noteq> []" using r(4) by simp
  have seen: "link_view (nd_ups_seen p0) sn' w" by (rule holdsD(2) [OF r(2)])
  have "was_seen ?c (w, s) = Inr (flagged sn' ?c, w, s)"
    using link_get [OF seen c] r(3) by (auto simp: was_seen_def flagged_def split: option.splits)
  then have body: "check_seen dfe (w, s) = (if flagged sn' ?c then set_seen ?c False (w, s) else delete_ups ?c (w, s))"
    using r(5) a(5) by (simp add: check_seen_def at_entry_def)
  show "\<exists>w' x'. check_seen dfe (w, s) = Inr (w', s') \<and>
      ok 0 w' (nd_ups_name p0) x' (as @ spare (\<lambda>b. doomed_name flagged reg sn (fst b)) e # bs) \<and> d_destroyed x' = d_destroyed x \<and>
      removing flagged p0 reg sn every (passed @ [(?n, e_value e)]) w' s'"
  proof (cases "flagged sn' ?c")
    case True
    from link_set [OF seen c, of Null] obtain w' where
      w': "dictionary_set (nd_ups_seen p0) (Some ?c) (SPtr Null) 0 w = Inr (Null, w')"
        "link_view (nd_ups_seen p0) (put_binding False ?c Null sn') w'" "elsewhere_same (nd_ups_seen p0) w w'" by blast
    note h = holds_seen [OF r(2) w'(2,3)]
    have "\<forall>k \<in> set reg. dv_vars k \<noteq> nd_ups_seen p0" using a(1) r(3) by (auto simp: removing_def image_iff)
    then have "removing flagged p0 reg sn every (passed @ [(?n, e_value e)]) w' p0"
      using w'(3) True h(1) by (intro removing_next [OF a(1) r(1)]) (auto simp: forget_def Let_def elsewhere_same_def untouched_def)
    moreover have "spare (\<lambda>b. doomed_name flagged reg sn (fst b)) e = e" using r(6) True by (auto simp: spare_def)
    ultimately show ?thesis
      using body True w'(1) r(3) a(7) untouched_ok [OF a(2) holdsD(4) [OF h(1)] h(2)] by (auto simp: set_seen_def)
  next
    case False
    then show ?thesis using delete_here [OF a(1-4,6)] r(1) body a(7) by auto
  qed
qed (auto intro: removing_evolve)

interpretation discarder: visitor "nd_ups_name p0" LOCK_READ delete_each "\<lambda>_ p. Inr p" "\<lambda>b. doomed_name (\<lambda>_ _. False) reg sn (fst b)" every
  "removing (\<lambda>_ _. False) p0 reg sn every" for p0 reg sn every
proof
  fix passed w s x as e bs dfe s'
  assume a: "removing (\<lambda>_ _. False) p0 reg sn every passed w s" "ok 0 w (nd_ups_name p0) x (as @ e # bs)" "e_live e" "e_held e"
    "at_entry dfe (nd_ups_name p0) LOCK_READ e" "every = passed @ (e_name e, e_value e) # contents bs" "Inr s = Inr s'"
  from removing_at [OF a(1-3,6)] have "cstr_at w (e_value e) = Inr (clean_name (e_name e))" by metis
  then have "delete_each dfe (w, s) = delete_ups (clean_name (e_name e)) (w, s)" using a(5) by (simp add: delete_each_def at_entry_def)
  then show "\<exists>w' x'. delete_each dfe (w, s) = Inr (w', s') \<and>
      ok 0 w' (nd_ups_name p0) x' (as @ spare (\<lambda>b. doomed_name (\<lambda>_ _. False) reg sn (fst b)) e # bs) \<and>
      d_destroyed x' = d_destroyed x \<and> removing (\<lambda>_ _. False) p0 reg sn every (passed @ [(e_name e, e_value e)]) w' s'"
    using delete_here [OF a(1-4,6)] a(7) by auto
qed (auto intro: removing_evolve)

section \<open>What the loops leave\<close>

text \<open>The names, the references and the contents when a loop over the names begins and when it has ended.\<close>

lemma removing_start:
  assumes "represents w p reg sn" and "gentle spared reg sn"
  obtains x where "removing spared p reg sn (bindings w (nd_ups_name p)) [] w p" "ok 0 w (nd_ups_name p) x (entries w (nd_ups_name p))"
    "\<not> d_destroyed x" "length (contents (entries w (nd_ups_name p))) \<le> rounds w (Some (nd_ups_name p))"
proof -
  have h: "holds w p reg sn" using assms(1) by (simp add: represents_holds)
  note hd = holdsD [OF h]
  obtain x where x: "ready w (nd_ups_name p) x" using hd(3) by (auto simp: names_view_def overwriting_def)
  have "map fst (bindings w (nd_ups_name p)) = map dv_name reg" by (rule names_bindings(1) [OF hd(3)])
  moreover have "distinct (nd_ups_vars p # nd_ups_seen p # nd_ups_name p # map dv_vars reg)" using hd(1) by (simp add: devices_view_def)
  ultimately have "removing spared p reg sn (bindings w (nd_ups_name p)) [] w p"
    using h hd(5,6) assms(2) by (simp add: removing_def)
  then show ?thesis using that readyD(4,3) [OF x] rounds_enough [OF x] by (simp add: bindings_def)
qed

lemma busy_spare: "busy (map (spare doomed) es) = busy es"
  by (simp add: busy_def)

lemma removing_end:
  assumes "removing spared p reg sn (bindings w (nd_ups_name p)) (bindings w (nd_ups_name p)) w' p'"
    and "ok 0 w' (nd_ups_name p) x' (map (spare doomed) (entries w (nd_ups_name p)))" and "represents w p reg sn"
  shows "p' = p" "represents w' p (fst (fold (forget spared) (map dv_name reg) (reg, sn))) (snd (fold (forget spared) (map dv_name reg) (reg, sn)))"
    "\<And>k. k \<in> set reg \<Longrightarrow> k \<notin> set (fst (fold (forget spared) (map dv_name reg) (reg, sn))) \<Longrightarrow> w_dicts w' (dv_vars k) = None"
proof -
  have n: "map fst (bindings w (nd_ups_name p)) = map dv_name reg" using assms(1) by (simp add: removing_def)
  have "entries w' (nd_ups_name p) = map (spare doomed) (entries w (nd_ups_name p))" by (rule rep_entries [OF okD(1) [OF assms(2)]])
  then have "\<not> busy (entries w' (nd_ups_name p))" using assms(3) busy_spare by (simp add: represents_holds)
  then show "p' = p" "represents w' p (fst (fold (forget spared) (map dv_name reg) (reg, sn))) (snd (fold (forget spared) (map dv_name reg) (reg, sn)))"
    "\<And>k. k \<in> set reg \<Longrightarrow> k \<notin> set (fst (fold (forget spared) (map dv_name reg) (reg, sn))) \<Longrightarrow> w_dicts w' (dv_vars k) = None"
    using assms(1) unfolding removing_def n by (auto simp: represents_holds split: prod.splits)
qed

lemma rfold_same: "rfold (\<lambda>_. Inr) xs s = Inr s"
  by (induction xs) simp_all

lemma delete_unseen_ok:
  assumes "represents w p reg sn" and "gentle flagged reg sn"
  shows "\<exists>w'. delete_unseen (w, p) = Inr (w', p) \<and>
    represents w' p (fst (fold (forget flagged) (map dv_name reg) (reg, sn))) (snd (fold (forget flagged) (map dv_name reg) (reg, sn))) \<and>
    (\<forall>k \<in> set reg. k \<notin> set (fst (fold (forget flagged) (map dv_name reg) (reg, sn))) \<longrightarrow> w_dicts w' (dv_vars k) = None)"
proof -
  obtain x where
    st: "removing flagged p reg sn (bindings w (nd_ups_name p)) [] w p" "ok 0 w (nd_ups_name p) x (entries w (nd_ups_name p))"
      "\<not> d_destroyed x" "length (contents (entries w (nd_ups_name p))) \<le> rounds w (Some (nd_ups_name p))"
    by (rule removing_start [OF assms])
  from remover.foreach_completes [OF st bindings_def, unfolded rfold_same sum.case, folded bindings_def] obtain w' p' x' where
    w': "delete_unseen (w, p) = Inr (w', p')"
      "ok 0 w' (nd_ups_name p) x' (map (spare (\<lambda>b. doomed_name flagged reg sn (fst b))) (entries w (nd_ups_name p)))"
      "removing flagged p reg sn (bindings w (nd_ups_name p)) (bindings w (nd_ups_name p)) w' p'"
    by (auto simp only: delete_unseen_def prod.case)
  note e = removing_end [OF w'(3,2) assms(1)]
  show ?thesis using w'(1) e by (intro exI [of _ w']) simp
qed

lemma delete_all_ok:
  assumes "represents w p reg sn" and "gentle (\<lambda>_ _. False) reg sn"
  shows "\<exists>w'. dfe_foreach (rounds w (Some (nd_ups_name p))) (Some (nd_ups_name p)) LOCK_READ delete_each (w, p) = Inr (w', p) \<and>
    represents w' p (fst (fold (forget (\<lambda>_ _. False)) (map dv_name reg) (reg, sn))) (snd (fold (forget (\<lambda>_ _. False)) (map dv_name reg) (reg, sn))) \<and>
    (\<forall>k \<in> set reg. k \<notin> set (fst (fold (forget (\<lambda>_ _. False)) (map dv_name reg) (reg, sn))) \<longrightarrow> w_dicts w' (dv_vars k) = None)"
proof -
  obtain x where
    st: "removing (\<lambda>_ _. False) p reg sn (bindings w (nd_ups_name p)) [] w p" "ok 0 w (nd_ups_name p) x (entries w (nd_ups_name p))"
      "\<not> d_destroyed x" "length (contents (entries w (nd_ups_name p))) \<le> rounds w (Some (nd_ups_name p))"
    by (rule removing_start [OF assms])
  from discarder.foreach_completes [OF st bindings_def, unfolded rfold_same sum.case, folded bindings_def] obtain w' p' x' where
    w': "dfe_foreach (rounds w (Some (nd_ups_name p))) (Some (nd_ups_name p)) LOCK_READ delete_each (w, p) = Inr (w', p')"
      "ok 0 w' (nd_ups_name p) x' (map (spare (\<lambda>b. doomed_name (\<lambda>_ _. False) reg sn (fst b))) (entries w (nd_ups_name p)))"
      "removing (\<lambda>_ _. False) p reg sn (bindings w (nd_ups_name p)) (bindings w (nd_ups_name p)) w' p'"
    by (auto simp only: prod.case)
  note e = removing_end [OF w'(3,2) assms(1)]
  show ?thesis using w'(1) e by (intro exI [of _ w']) simp
qed

section \<open>Clean names\<close>

lemma clean_name_idem [simp]: "clean_name (clean_name n) = clean_name n"
  by (simp add: clean_name_def)

definition all_clean :: "string list \<Rightarrow> bool" where
  "all_clean ns \<longleftrightarrow> (\<forall>n \<in> set ns. clean_name n = n)"

lemma all_clean_gentle:
  assumes "all_clean (map dv_name reg)"
  shows "gentle spared reg sn"
proof -
  have "clean_name n = n" if "map dv_name reg = ns @ n # ms" for ns n ms
    using assms unfolding all_clean_def that by simp
  then show ?thesis unfolding gentle_def by (simp add: case_prod_beta)
qed

lemma forget_clean:
  assumes "distinct ns" and "all_clean ns"
  shows "fst (fold (forget flagged) ns (reg, sn)) = filter (\<lambda>v. dv_name v \<in> set ns \<longrightarrow> flagged sn (dv_name v)) reg \<and>
    map_of (snd (fold (forget flagged) ns (reg, sn))) n = (if n \<in> set ns then (if flagged sn n then Some Null else None) else map_of sn n)"
  using assms
proof (induction ns arbitrary: reg sn)
  case (Cons m ns)
  have c: "clean_name m = m" "distinct ns" "all_clean ns" "m \<notin> set ns" using Cons.prems by (auto simp: all_clean_def)
  obtain reg1 sn1 where f: "forget flagged m (reg, sn) = (reg1, sn1)" by fastforce
  have reg1: "reg1 = (if flagged sn m then reg else drop_device m reg)"
    and sn1: "map_of sn1 = (map_of sn)(m := if flagged sn m then Some Null else None)"
    using f c(1) by (auto simp: forget_def Let_def map_of_put_binding map_of_remove_name split: if_splits)
  have fl: "flagged sn1 k = (k \<noteq> m \<and> flagged sn k)" for k using sn1 by (auto simp: flagged_def)
  have "filter (\<lambda>v. dv_name v \<in> set ns \<longrightarrow> flagged sn1 (dv_name v)) reg1 =
      filter (\<lambda>v. dv_name v \<in> set (m # ns) \<longrightarrow> flagged sn (dv_name v)) reg"
    unfolding reg1 drop_device_def using c(4) fl by (auto simp: filter_filter intro!: filter_cong)
  then show ?case using Cons.IH [OF c(2,3), of reg1 sn1] f sn1 fl c(4) by auto
qed simp

lemma discard_clean:
  assumes "all_clean ns"
  shows "fst (fold (forget (\<lambda>_ _. False)) ns (reg, sn)) = filter (\<lambda>v. dv_name v \<notin> set ns) reg"
  using assms
proof (induction ns arbitrary: reg sn)
  case (Cons m ns)
  then show ?case
    by (auto simp: all_clean_def forget_def Let_def drop_device_def filter_filter intro: filter_cong)
qed simp

end
