(* ===== verification/Upsd_Theorems.thy ===== *)
theory Upsd_Theorems
  imports Upsd_Removal
begin

text \<open>
  The properties of the plugin as a whole: what a registration prints and records, what a listing
  leads to, that a round of the main loop keeps exactly the devices that are listed, that the
  shutdown frees everything, and the cases in which the code fails.
\<close>

section \<open>The start\<close>

lemma create_link:
  assumes "world_ok w" and "OPTION_SINGLE_THREADED opts" and "\<not> OPTION_DONT_OVERWRITE_VALUE opts" and "\<not> OPTION_ADD_IN_FRONT opts"
  shows "\<exists>d w'. dictionary_create opts w = Inr (d, w') \<and> overwriting (OPTION_VALUE_LINK_DONT_CLONE opts) False d w' \<and>
    entries w' d = [] \<and> (\<forall>d' x. ready w d' x \<longrightarrow> d' \<noteq> d \<and> untouched w w' d')"
proof -
  from create_ok [OF assms(1,2), of 0] obtain d w' where
    c: "dictionary_create opts w = Inr (d, w')" "ready w' d (fresh_dictionary opts 0)"
      "\<forall>d' x. ready w d' x \<longrightarrow> d' \<noteq> d \<and> ready w' d' x \<and> untouched w w' d'" by (auto simp: dictionary_create_def)
  have "overwriting (OPTION_VALUE_LINK_DONT_CLONE opts) False d w'"
    unfolding overwriting_def
    by (intro exI [of _ "fresh_dictionary opts 0"]) (use c(2) assms(3,4) in \<open>simp add: fresh_dictionary_def\<close>)
  moreover have "entries w' d = []" using readyD(2) [OF c(2)] by (simp add: entries_def fresh_dictionary_def)
  ultimately show ?thesis using c(1,3) by blast
qed

lemma create_plugin_ok:
  assumes "world_ok w"
  shows "\<exists>w' p. create_plugin update_every w = Inr (w', p) \<and> represents w' p [] [] \<and> p_out p = [] \<and> netdata_update_every p = update_every"
proof -
  have l: "OPTION_SINGLE_THREADED linked_options" "\<not> OPTION_DONT_OVERWRITE_VALUE linked_options"
    "\<not> OPTION_ADD_IN_FRONT linked_options" "OPTION_VALUE_LINK_DONT_CLONE linked_options"
    and n: "OPTION_SINGLE_THREADED name_options" "\<not> OPTION_DONT_OVERWRITE_VALUE name_options"
    "\<not> OPTION_ADD_IN_FRONT name_options" "\<not> OPTION_VALUE_LINK_DONT_CLONE name_options"
    by (simp_all add: linked_options_def name_options_def ups_vars_options_def)
  from create_link [OF assms l(1-3)] l(4) obtain v w1 where
    v: "dictionary_create linked_options w = Inr (v, w1)" "overwriting True False v w1" "entries w1 v = []" by auto
  from create_link [OF overwriting_world [OF v(2)] l(1-3)] l(4) obtain s w2 where
    s: "dictionary_create linked_options w1 = Inr (s, w2)" "overwriting True False s w2" "entries w2 s = []"
      "\<forall>d' x. ready w1 d' x \<longrightarrow> d' \<noteq> s \<and> untouched w1 w2 d'" by auto
  from create_link [OF overwriting_world [OF s(2)] n(1-3)] n(4) obtain m w3 where
    m: "dictionary_create name_options w2 = Inr (m, w3)" "overwriting False False m w3" "entries w3 m = []"
      "\<forall>d' x. ready w2 d' x \<longrightarrow> d' \<noteq> m \<and> untouched w2 w3 d'" by auto
  have u2: "untouched w1 w2 v" "v \<noteq> s" using s(4) v(2) by (auto simp: overwriting_def)
  have v2: "overwriting True False v w2" using overwriting_mono [OF v(2) overwriting_world [OF s(2)] u2(1)] .
  have u3: "untouched w2 w3 v" "v \<noteq> m" "untouched w2 w3 s" "s \<noteq> m" using m(4) v2 s(2) by (auto simp: overwriting_def)
  note w3 = overwriting_world [OF m(2)]
  have e: "entries w3 v = []" "entries w3 s = []" using v(3) s(3) u2(1) u3(1,3) by (simp_all add: untouched_def)
  let ?p = "\<lparr>nd_ups_vars = v, nd_ups_seen = s, nd_ups_name = m, netdata_update_every = update_every, p_calls = 0, p_out = []\<rparr>"
  have "represents w3 ?p [] []"
    using overwriting_mono [OF v2 w3 u3(1)] overwriting_mono [OF s(2) w3 u3(3)] m(2,3) e u2(2) u3(2,4)
    by (simp add: represents_def devices_view_def link_view_def names_view_def busy_def bindings_def texts_def)
  moreover have "create_plugin update_every w = Inr (w3, ?p)" using v(1) s(1) m(1) by (simp add: create_plugin_def)
  ultimately show ?thesis by (intro exI [of _ w3] exI [of _ ?p]) simp
qed

lemma sample_plugin:
  obtains w p where "create_plugin 1 empty_world = Inr (w, p)" "represents w p [] []" "p_out p = []" "netdata_update_every p = 1"
  using create_plugin_ok [OF empty_world_ok, of 1] that by blast

text \<open>A server that knows nothing but the status of its devices.\<close>

definition quiet :: "string \<Rightarrow> string \<Rightarrow> string option" where
  "quiet u v = (if v = ''ups.status'' then Some ''OL'' else None)"

lemma quiet_charts: "charts_from quiet u 0 = []"
proof -
  have "\<not> supported quiet u (nd_charts ! i)" if "i < length nd_charts" for i
  proof -
    have "\<forall>c \<in> set nd_charts. nut_variable c \<noteq> ''ups.status''" by (simp add: nd_charts_def mk_chart_def)
    then show ?thesis using nth_mem [OF that] by (simp add: supported_def quiet_def)
  qed
  then show ?thesis by (auto simp: charts_from_def filter_empty_conv)
qed

lemma quiet_text: "ups_text quiet u dt [] = Inr (status_lines (clean_name u) (zero_status\<lparr>OL := True\<rparr>) (unat dt))"
proof -
  have "parse_ups_status (Some ''OL'') = Inr (zero_status\<lparr>OL := True\<rparr>)"
    by (simp add: parse_ups_status_def status_loop.simps [of _ "a # b" for a b] status_loop.simps [of _ "[]"]
        status_switch_def skip_def advance_def)
  then show ?thesis by (simp add: ups_text_def status_text_def realpower_text_def realpower_reading_def quiet_def)
qed

section \<open>Registering and collecting\<close>

text \<open>
  C7 (registering a device)  \<open>register_ups\<close> on a device that is not known prints its status chart, the
  labels that the server knows, and one chart for each variable of the table that it has a value for,
  all under the clean form of the name.  The chart of \<open>ups.realpower\<close> is printed also without a value
  for it, when there are values for \<open>ups.load\<close> and \<open>ups.realpower.nominal\<close>.  The dictionaries then hold
  this device, with exactly these charts in the order of the table, after the devices they held
  before; the flags are not touched.  The answers of the server do not change during the call.
\<close>

theorem register_ups_spec:
  assumes "represents w p reg sn" and "u \<noteq> []" and "cstring u" and "u \<notin> dv_name ` set reg"
  shows "\<exists>w' p' d. register_ups (\<lambda>_. ans) u (w, p) = Inr (w', p') \<and>
    p_out p' = p_out p @ registration_text ans u (unat (netdata_update_every p)) \<and>
    represents w' p' (reg @ [\<lparr>dv_name = u, dv_vars = d, dv_charts = charts_from ans u 0\<rparr>]) sn"
  using register_ups_stable [OF assms, of ans] prints_same(5) by blast

theorem register_ups_spec_witness:
  "\<exists>w p w' p' d. create_plugin 1 empty_world = Inr (w, p) \<and> register_ups (\<lambda>_. quiet) ''my.ups'' (w, p) = Inr (w', p') \<and>
    p_out p' = registration_text quiet ''my.ups'' 1 \<and>
    represents w' p' [\<lparr>dv_name = ''my.ups'', dv_vars = d, dv_charts = []\<rparr>] []"
proof (rule sample_plugin)
  fix w p
  assume c: "create_plugin 1 empty_world = Inr (w, p)" "represents w p [] []" "p_out p = []" "netdata_update_every p = 1"
  have u: "''my.ups'' \<noteq> []" "cstring ''my.ups''" "''my.ups'' \<notin> dv_name ` set []" by (simp_all add: cstring_def)
  from register_ups_spec [OF c(2) u, of quiet] show ?thesis using c(1,3,4) by (simp add: quiet_charts)
qed

text \<open>
  C3 (collecting a listing)  Going through a listing refines an abstract step on the catalogue of
  devices and their charts: each device that is not in the catalogue is registered and added at its
  end; for each device its status, its power and its charts are printed in this order; and each is
  flagged as seen.  An error of the abstract step, which is the first error of the texts in that
  order, is the error of the code.
\<close>

theorem collect_listing_refines:
  assumes "represents_cat w p cat sn" and "\<forall>u \<in> fst ` set us. u \<noteq> [] \<and> cstring u"
  shows "case observe_all ans (unat (netdata_update_every p)) dt (map fst us) cat of
      (Inl err, _) \<Rightarrow> list_loop (collect_ups (\<lambda>_. ans) dt) (listing us) (w, p) = Inl err
    | (Inr out, cat') \<Rightarrow> \<exists>w' p'. list_loop (collect_ups (\<lambda>_. ans) dt) (listing us) (w, p) = Inr (Continue, w', p') \<and>
        p_out p' = p_out p @ out \<and> represents_cat w' p' cat' (flag_all (map fst us) sn)"
proof -
  obtain t cat' where o: "observe_all ans (unat (netdata_update_every p)) dt (map fst us) cat = (t, cat')" by fastforce
  show ?thesis
    using collect_listing [OF assms, of ans dt] prints_same(5) unfolding o by (cases t) (simp, fastforce)
qed

theorem collect_listing_refines_witness:
  "\<exists>w p w' p'. create_plugin 1 empty_world = Inr (w, p) \<and>
    list_loop (collect_ups (\<lambda>_. quiet) 0) (listing [(''a'', ''first''), (''b'', ''second'')]) (w, p) = Inr (Continue, w', p') \<and>
    represents_cat w' p' [(''a'', []), (''b'', [])] [(''a'', Addr 1), (''b'', Addr 1)]"
proof (rule sample_plugin)
  fix w p
  assume c: "create_plugin 1 empty_world = Inr (w, p)" "represents w p [] []" "p_out p = []" "netdata_update_every p = 1"
  have r: "represents_cat w p [] []" using c(2) by (auto simp: represents_cat_def intro: exI [of _ "[]"])
  have u: "\<forall>u \<in> fst ` set [(''a'', ''first''), (''b'', ''second'')]. u \<noteq> [] \<and> cstring u" by (simp add: cstring_def)
  from collect_listing_refines [OF r u, of quiet 0] show ?thesis
    using c(1) by (simp add: observe_def quiet_charts quiet_text flag_all_def put_binding_def) blast
qed

section \<open>A round of the main loop\<close>

lemma flagged_flag_all: "\<forall>n. \<not> flagged sn n \<Longrightarrow> flagged (flag_all us sn) n \<longleftrightarrow> n \<in> set us"
  by (auto simp: flagged_def map_of_flag_all split: option.splits)

lemma filter_names: "fst ` set (filter (\<lambda>(n, _). P n) cat) = {n \<in> fst ` set cat. P n}"
  by force

lemma catalogue_filter: "catalogue (filter (\<lambda>v. P (dv_name v)) reg) = filter (\<lambda>(n, _). P n) (catalogue reg)"
  by (simp add: catalogue_def filter_map comp_def)

text \<open>Removing the devices that are not flagged, when all names are clean and flags are only set for known names.\<close>

lemma delete_unseen_clean:
  assumes "represents_cat w p cat sn" and "all_clean (map fst cat)" and "\<forall>n. flagged sn n \<longrightarrow> n \<in> fst ` set cat"
  shows "\<exists>w' sn'. delete_unseen (w, p) = Inr (w', p) \<and> represents_cat w' p (filter (\<lambda>(n, _). flagged sn n) cat) sn' \<and>
    (\<forall>n. \<not> flagged sn' n) \<and> (fst ` set sn \<subseteq> fst ` set cat \<longrightarrow> fst ` set sn' \<subseteq> fst ` set (filter (\<lambda>(n, _). flagged sn n) cat))"
proof -
  obtain reg where reg: "represents w p reg sn" "catalogue reg = cat" using assms(1) by (auto simp: represents_cat_def)
  have names: "map dv_name reg = map fst cat" using reg(2) catalogue_simps(4) [of reg] by simp
  have ac: "all_clean (map dv_name reg)" using assms(2) names by simp
  note f = forget_clean [OF represents_names [OF reg(1)] ac, of reg sn]
  let ?sn = "snd (fold (forget flagged) (map dv_name reg) (reg, sn))"
  from delete_unseen_ok [OF reg(1) all_clean_gentle [OF ac]] obtain w' where
    w': "delete_unseen (w, p) = Inr (w', p)" "represents w' p (fst (fold (forget flagged) (map dv_name reg) (reg, sn))) ?sn" by blast
  have "fst (fold (forget flagged) (map dv_name reg) (reg, sn)) = filter (\<lambda>v. flagged sn (dv_name v)) reg"
    using f by (auto intro: filter_cong)
  then have "represents_cat w' p (filter (\<lambda>(n, _). flagged sn n) cat) ?sn"
    using w'(2) reg(2) catalogue_filter [of "flagged sn" reg] unfolding represents_cat_def by metis
  moreover have "\<not> flagged ?sn n" for n
  proof (cases "n \<in> set (map dv_name reg)")
    case True
    then show ?thesis using f [of n] by (simp add: flagged_def)
  next
    case False
    then have "\<not> flagged sn n" using assms(3) arg_cong [OF names, of set] by auto
    then show ?thesis using f [of n] False by (simp add: flagged_def)
  qed
  moreover have "fst ` set ?sn \<subseteq> fst ` set (filter (\<lambda>(n, _). flagged sn n) cat)" if "fst ` set sn \<subseteq> fst ` set cat"
  proof
    fix n
    assume "n \<in> fst ` set ?sn"
    then have bound: "map_of ?sn n \<noteq> None" by (simp add: map_of_eq_None_iff)
    have "n \<notin> fst ` set cat \<Longrightarrow> map_of sn n = None" using that by (auto simp: map_of_eq_None_iff)
    moreover have "n \<in> set (map dv_name reg) \<longleftrightarrow> n \<in> fst ` set cat" unfolding names by simp
    ultimately have "n \<in> fst ` set cat \<and> flagged sn n" using f [of n] bound by (metis (no_types))
    then show "n \<in> fst ` set (filter (\<lambda>(n, _). flagged sn n) cat)" unfolding filter_names by simp
  qed
  ultimately show ?thesis using w'(1) by (intro exI conjI allI impI)
qed

text \<open>A round that meets no obstacle.\<close>

definition smooth :: "round_env \<Rightarrow> int \<Rightarrow> bool" where
  "smooth r started_t \<longleftrightarrow>
     \<not> r_exit r \<and> r_list_start r \<and> \<not> r_broken_pipe r \<and> \<not> r_exit_later r \<and> r_seconds r - started_t \<le> 14400"

text \<open>The devices of a catalogue that are listed.\<close>

definition kept :: "string list \<Rightarrow> (string \<times> nat list) list \<Rightarrow> (string \<times> nat list) list" where
  "kept us cat = filter (\<lambda>(n, _). n \<in> set us) cat"

definition interval :: "usec \<Rightarrow> usec \<Rightarrow> usec" where
  "interval before woke = (if before = 0 then 0 else woke - before)"

lemma main_round_ok:
  assumes "represents_cat w p cat sn" and "\<forall>n. \<not> flagged sn n" and "all_clean (map fst cat)"
    and "\<forall>u \<in> fst ` set us. u \<noteq> [] \<and> cstring u \<and> clean_name u = u"
    and "smooth r started_t" and "r_rows r = listing us" and "hb_step hb \<noteq> 0" and "resolution \<noteq> 0"
    and "observe_all ans (unat (netdata_update_every p)) (interval (hb_realtime hb) (r_woke r)) (map fst us) cat = (Inr out, cat1)"
  shows "\<exists>vs' w' p' sn'. main_round (\<lambda>_. ans) resolution started_t r (hb, vs, w, p) =
      Inr (Continue, hb\<lparr>hb_realtime := r_woke r\<rparr>, vs', w', p') \<and>
    prints p out p' \<and> represents_cat w' p' (kept (map fst us) cat1) sn' \<and> (\<forall>n. \<not> flagged sn' n) \<and>
    all_clean (map fst (kept (map fst us) cat1)) \<and> fst ` set (kept (map fst us) cat1) = fst ` set us"
proof -
  define dt where "dt = interval (hb_realtime hb) (r_woke r)"
  obtain vs' where hb: "heartbeat_next resolution (r_now r) (r_woke r) hb vs = Inr (dt, hb\<lparr>hb_realtime := r_woke r\<rparr>, vs')"
    using assms(7,8) by (simp add: heartbeat_next_def Let_def dt_def interval_def)
  have o: "observe_all ans (unat (netdata_update_every p)) dt (map fst us) cat = (Inr out, cat1)"
    using assms(9) unfolding dt_def .
  have us: "\<forall>u \<in> fst ` set us. u \<noteq> [] \<and> cstring u" using assms(4) by blast
  from collect_listing [OF assms(1) us, of ans dt] o obtain w1 p1 where
    l: "list_loop (collect_ups (\<lambda>_. ans) dt) (listing us) (w, p) = Inr (Continue, w1, p1)" "prints p out p1"
      "represents_cat w1 p1 cat1 (flag_all (map fst us) sn)" by auto
  have fl: "flagged (flag_all (map fst us) sn) n \<longleftrightarrow> n \<in> fst ` set us" for n using flagged_flag_all [OF assms(2)] by simp
  have names: "fst ` set cat1 = fst ` set cat \<union> fst ` set us"
    using observe_all_names [of ans "unat (netdata_update_every p)" dt "map fst us" cat] o by simp
  have clean: "\<forall>n \<in> fst ` set us. clean_name n = n" using assms(4) by blast
  then have ac: "all_clean (map fst cat1)" using assms(3) by (simp add: all_clean_def names ball_Un)
  have known: "\<forall>n. flagged (flag_all (map fst us) sn) n \<longrightarrow> n \<in> fst ` set cat1" using fl names by blast
  have cat: "filter (\<lambda>(n, _). flagged (flag_all (map fst us) sn) n) cat1 = kept (map fst us) cat1"
    unfolding kept_def fl by simp
  from delete_unseen_clean [OF l(3) ac known] obtain w' sn' where
    d: "delete_unseen (w1, p1) = Inr (w', p1)" "represents_cat w' p1 (kept (map fst us) cat1) sn'" "\<forall>n. \<not> flagged sn' n"
    unfolding cat by blast
  have f: "fst ` set (kept (map fst us) cat1) = fst ` set us" unfolding kept_def filter_names names set_map by blast
  then have a: "all_clean (map fst (kept (map fst us) cat1))" using clean by (simp only: all_clean_def set_map)
  have "main_round (\<lambda>_. ans) resolution started_t r (hb, vs, w, p) = Inr (Continue, hb\<lparr>hb_realtime := r_woke r\<rparr>, vs', w', p1)"
    using hb l(1) d(1) assms(5,6) by (simp add: main_round_def smooth_def del: rbind_Inr_iff)
  then show ?thesis by (intro exI conjI, assumption) (use l(2) d(2,3) a f in simp_all)
qed

text \<open>
  C2 (devices come and go with the listing)  A round of the main loop that is not cut short ends, and
  the devices that are registered afterwards are exactly those that were listed: each one that was
  not known has been registered, and each one that is no longer listed has been forgotten within
  this round.  No flag is set at the end, so that the next round starts as this one did.  This needs
  names that are their own clean form, and readings that can be converted.
\<close>

theorem main_round_follows_listing:
  assumes "represents_cat w p cat sn" and "\<forall>n. \<not> flagged sn n" and "all_clean (map fst cat)"
    and "\<forall>u \<in> fst ` set us. u \<noteq> [] \<and> cstring u \<and> clean_name u = u"
    and "smooth r started_t" and "r_rows r = listing us" and "hb_step hb \<noteq> 0" and "resolution \<noteq> 0"
    and "fst (observe_all ans (unat (netdata_update_every p)) (interval (hb_realtime hb) (r_woke r)) (map fst us) cat) = Inr out"
  shows "\<exists>hb' vs' w' p' cat' sn'. main_round (\<lambda>_. ans) resolution started_t r (hb, vs, w, p) = Inr (Continue, hb', vs', w', p') \<and>
    p_out p' = p_out p @ out \<and> represents_cat w' p' cat' sn' \<and> (\<forall>n. \<not> flagged sn' n) \<and> all_clean (map fst cat') \<and>
    fst ` set cat' = fst ` set us"
proof -
  let ?o = "observe_all ans (unat (netdata_update_every p)) (interval (hb_realtime hb) (r_woke r)) (map fst us) cat"
  have o: "?o = (Inr out, snd ?o)" using assms(9) by (metis prod.collapse)
  from main_round_ok [OF assms(1-8) o, of vs] show ?thesis
    by (elim exE conjE) (intro exI conjI, assumption, rule prints_same(5), assumption+)
qed

theorem main_round_follows_listing_witness:
  "\<exists>w p hb' vs' w' p' cat' sn'. create_plugin 1 empty_world = Inr (w, p) \<and>
    main_round (\<lambda>_. quiet) 1000 0
      \<lparr>r_now = 1000000, r_woke = 2152507, r_exit = False, r_list_start = True, r_rows = listing [(''a'', ''first'')],
        r_broken_pipe = False, r_exit_later = False, r_seconds = 2\<rparr>
      (\<lparr>hb_step = 1000000, hb_realtime = 0, hb_randomness = 152507, hb_statistics_id = 0, hb_hash = 7\<rparr>, [], w, p) =
      Inr (Continue, hb', vs', w', p') \<and> represents_cat w' p' cat' sn' \<and> fst ` set cat' = {''a''}"
proof (rule sample_plugin)
  fix w p
  assume c: "create_plugin 1 empty_world = Inr (w, p)" "represents w p [] []" "p_out p = []" "netdata_update_every p = 1"
  let ?r = "\<lparr>r_now = 1000000, r_woke = 2152507, r_exit = False, r_list_start = True, r_rows = listing [(''a'', ''first'')],
    r_broken_pipe = False, r_exit_later = False, r_seconds = 2\<rparr> :: round_env"
  let ?hb = "\<lparr>hb_step = 1000000, hb_realtime = 0, hb_randomness = 152507, hb_statistics_id = 0, hb_hash = 7\<rparr> :: heartbeat"
  have 1: "represents_cat w p [] []" using c(2) by (auto simp: represents_cat_def intro: exI [of _ "[]"])
  have 2: "\<forall>n. \<not> flagged [] n" "all_clean (map fst ([] :: (string \<times> nat list) list))" by (simp_all add: flagged_def all_clean_def)
  have 3: "\<forall>u \<in> fst ` set [(''a'', ''first'')]. u \<noteq> [] \<and> cstring u \<and> clean_name u = u" by (simp add: cstring_def clean_name_def)
  have 4: "smooth ?r 0" "r_rows ?r = listing [(''a'', ''first'')]" "hb_step ?hb \<noteq> 0" "(1000 :: usec) \<noteq> 0" by (simp_all add: smooth_def)
  have 5: "fst (observe_all quiet (unat (netdata_update_every p)) (interval (hb_realtime ?hb) (r_woke ?r))
      (map fst [(''a'', ''first'')]) []) =
      Inr (registration_text quiet ''a'' 1 @ status_lines (clean_name ''a'') (zero_status\<lparr>OL := True\<rparr>) 0)"
    using c(4) by (simp add: interval_def observe_def quiet_charts quiet_text)
  from main_round_follows_listing [OF 1 2 3 4 5, of "[]"] show ?thesis
    by (elim exE conjE) (rule exI [of _ w], rule exI [of _ p], intro exI conjI, rule c(1), assumption, assumption, simp only: list.set image_insert image_empty fst_conv)
qed

section \<open>Where the code fails\<close>

text \<open>
  C39 (power computed from the load)  The registration shows the chart of the power when it can be
  computed from the load and the nominal power, although the server has no value for it.  The loop
  over the charts then reads that missing value: the first collection from such a device follows a
  null pointer.
\<close>

theorem realpower_fallback_crashes:
  assumes "represents_cat w p cat sn" and "u \<noteq> []" and "cstring u" and "u \<notin> fst ` set cat"
    and "ans u ''ups.realpower'' = None" and "ans u ''ups.load'' = Some load" and "ans u ''ups.realpower.nominal'' = Some nominal"
    and "parse_ups_status (ans u ''ups.status'') = Inr status" and "scaled_reading load = Inr k" and "load_usage_reading load nominal = Inr k'"
  shows "collect_ups (\<lambda>_. ans) dt u (w, p) = Inl NullDeref"
proof -
  have v: "nut_variable (nd_charts ! 0) = ''ups.load''" "nut_variable (nd_charts ! 1) = ''ups.realpower''"
    by (simp_all add: nd_charts_def mk_chart_def)
  have "charts_from ans u 0 = 0 # 1 # charts_from ans u 2"
    using assms(5-7) v nd_charts_keys(3) charts_from_step [of 0 ans u] charts_from_step [of 1 ans u]
    by (simp add: supported_def numeral_2_eq_2)
  then have "ups_text ans u dt (charts_from ans u 0) = Inl NullDeref"
    using assms(5-10) v by (simp add: ups_text_def status_text_def realpower_text_def realpower_reading_def reading_text_def)
  moreover have "map_of cat u = None" using assms(4) by (simp add: map_of_eq_None_iff)
  ultimately show ?thesis using collect_ups_follows [OF assms(1-3), of ans dt] by (simp add: observe_def follows_def)
qed

text \<open>A server that knows the load and the nominal power, but not the power.\<close>

definition loaded :: "string \<Rightarrow> string \<Rightarrow> string option" where
  "loaded u v =
     (if v = ''ups.status'' then Some ''OL'' else if v = ''ups.load'' then Some ''100''
      else if v = ''ups.realpower.nominal'' then Some ''300'' else None)"

lemma sample_readings: "scaled_reading ''100'' = Inr 10000" "load_usage_reading ''100'' ''300'' = Inr 30000"
proof -
  have wf: "wf_dec ''100'' []" "wf_dec ''300'' []" by (simp_all add: wf_dec_def isdigit_def code_def)
  have vals: "dec_value ''100'' = 100" "dec_value ''300'' = 300" "dec_value [] = 0"
    by (simp_all add: dec_value_def digit_val_def code_def)
  have shown: "dec_text False ''100'' [] = ''100''" "dec_text False ''300'' [] = ''300''" by (simp_all add: dec_text_def)
  have int: "ndd_of_rat 1 = Fin 1" "ndd_of_rat 10000 = Fin 10000" "ndd_of_rat 30000 = Fin 30000"
    using ndd_of_rat_int [of 1] ndd_of_rat_int [of 10000] ndd_of_rat_int [of 30000] by simp_all
  have read: "fst (str2ndd ''100'') = Fin 100" "fst (str2ndd ''300'') = Fin 300"
    using str2ndd_dec [OF wf(1), of "[]" False] str2ndd_dec [OF wf(2), of "[]" False] vals shown
    by (simp_all add: number_ends_def decimal_sum_int)
  have trunc: "ndd_to_int64 (Fin 10000) = Inr 10000" "ndd_to_int64 (Fin 30000) = Inr 30000"
    using ndd_to_int64_small [of 10000] ndd_to_int64_small [of 30000] rat_trunc_of_int [of 10000] rat_trunc_of_int [of 30000] by simp_all
  have hundred: "ndd_of_nat 100 = Fin 100" using ndd_of_nat_small [of 100] by simp
  show "scaled_reading ''100'' = Inr 10000" using read int trunc by (simp add: scaled_reading_def ndd_precision)
  show "load_usage_reading ''100'' ''300'' = Inr 30000" using read int trunc hundred by (simp add: load_usage_reading_def ndd_precision)
qed

theorem realpower_fallback_crashes_witness:
  "\<exists>w p. create_plugin 1 empty_world = Inr (w, p) \<and> collect_ups (\<lambda>_. loaded) 0 ''ups'' (w, p) = Inl NullDeref"
proof (rule sample_plugin)
  fix w p
  assume c: "create_plugin 1 empty_world = Inr (w, p)" "represents w p [] []" "p_out p = []" "netdata_update_every p = 1"
  have 1: "represents_cat w p [] []" using c(2) by (auto simp: represents_cat_def intro: exI [of _ "[]"])
  have 2: "loaded ''ups'' ''ups.realpower'' = None" "loaded ''ups'' ''ups.load'' = Some ''100''"
    "loaded ''ups'' ''ups.realpower.nominal'' = Some ''300''" by (simp_all add: loaded_def)
  have 3: "parse_ups_status (loaded ''ups'' ''ups.status'') = Inr (zero_status\<lparr>OL := True\<rparr>)"
    by (simp add: loaded_def parse_ups_status_def status_loop.simps [of _ "a # b" for a b] status_loop.simps [of _ "[]"]
        status_switch_def skip_def advance_def)
  have 4: "''ups'' \<noteq> []" "cstring ''ups''" "''ups'' \<notin> fst ` set ([] :: (string \<times> nat list) list)" by (simp_all add: cstring_def)
  from realpower_fallback_crashes [where ans = loaded, OF 1 4 2 3 sample_readings, of 0] c(1) show ?thesis by blast
qed

text \<open>A stretch of the registry with clean names.\<close>

lemma forget_stretch:
  assumes "distinct (map dv_name (xs @ r @ ys))" and "all_clean (map dv_name r)"
  obtains sn' where "fold (forget flagged) (map dv_name r) (xs @ r @ ys, sn) = (xs @ filter (\<lambda>v. flagged sn (dv_name v)) r @ ys, sn')"
    "\<And>n. flagged sn' n \<longleftrightarrow> n \<notin> dv_name ` set r \<and> flagged sn n"
proof -
  let ?f = "fold (forget flagged) (map dv_name r) (xs @ r @ ys, sn)"
  have d: "distinct (map dv_name r)" using assms(1) by simp
  note f = forget_clean [OF d assms(2), of "xs @ r @ ys" sn]
  have "dv_name v \<notin> dv_name ` set r" if "v \<in> set xs \<union> set ys" for v using assms(1) that by (auto simp: image_iff)
  then have "filter (\<lambda>v. dv_name v \<in> dv_name ` set r \<longrightarrow> flagged sn (dv_name v)) xs = xs"
    "filter (\<lambda>v. dv_name v \<in> dv_name ` set r \<longrightarrow> flagged sn (dv_name v)) ys = ys" by (auto simp: filter_id_conv)
  moreover have "filter (\<lambda>v. dv_name v \<in> dv_name ` set r \<longrightarrow> flagged sn (dv_name v)) r = filter (\<lambda>v. flagged sn (dv_name v)) r"
    by (auto intro: filter_cong)
  ultimately have "fst ?f = xs @ filter (\<lambda>v. flagged sn (dv_name v)) r @ ys" using f by simp
  then have "?f = (xs @ filter (\<lambda>v. flagged sn (dv_name v)) r @ ys, snd ?f)" by (metis prod.collapse)
  moreover have "flagged (snd ?f) n \<longleftrightarrow> n \<notin> dv_name ` set r \<and> flagged sn n" for n using f [of n] by (auto simp: flagged_def)
  ultimately show thesis by (rule that)
qed

text \<open>The loop over a registry in which the name of \<open>b\<close> is the clean form of the name of \<open>a\<close>.\<close>

lemma forget_collided:
  assumes "dv_name b \<notin> dv_name ` set xs" and "clean_name (dv_name b) = dv_name b" and "\<not> flagged sn (dv_name b)"
  shows "forget flagged (dv_name b) (xs @ b # ys, sn) = (xs @ drop_device (dv_name b) ys, remove_name (dv_name b) sn)"
    and "flagged (remove_name (dv_name b) sn) n \<longleftrightarrow> n \<noteq> dv_name b \<and> flagged sn n"
proof -
  have "drop_device (dv_name b) (xs @ b # ys) = drop_device (dv_name b) xs @ drop_device (dv_name b) ys" by (simp add: drop_device_def)
  then show "forget flagged (dv_name b) (xs @ b # ys, sn) = (xs @ drop_device (dv_name b) ys, remove_name (dv_name b) sn)"
    using drop_device_absent [OF assms(1)] assms(2,3) by (simp add: forget_def Let_def)
  show "flagged (remove_name (dv_name b) sn) n \<longleftrightarrow> n \<noteq> dv_name b \<and> flagged sn n" by (simp add: flagged_def map_of_remove_name)
qed

lemma gentle_collision:
  assumes "distinct (map dv_name (r1 @ a # rs))" and "all_clean (map dv_name (r1 @ rs))"
    and "flagged (snd (fold (forget flagged) (map dv_name r1) (r1 @ a # rs, sn))) (clean_name (dv_name a))"
  shows "gentle flagged (r1 @ a # rs) sn"
  unfolding gentle_def
proof (intro allI impI)
  fix ns n ms
  assume m: "map dv_name (r1 @ a # rs) = ns @ n # ms"
  show "case fold (forget flagged) ns (r1 @ a # rs, sn) of (reg', sn') \<Rightarrow>
      clean_name n = n \<or> flagged sn' (clean_name n) \<or> clean_name n \<notin> dv_name ` set reg'"
  proof (cases "n = dv_name a")
    case True
    then have "ns @ dv_name a # ms = map dv_name r1 @ dv_name a # map dv_name rs" using m by simp
    moreover have "dv_name a \<notin> set (map dv_name r1)" "dv_name a \<notin> set (map dv_name rs)" using assms(1) by simp_all
    ultimately have "ns = map dv_name r1" by (metis append_Cons_eq_iff)
    then show ?thesis using True assms(3) by (simp add: case_prod_beta)
  next
    case False
    have "n \<in> set (map dv_name (r1 @ a # rs))" unfolding m by simp
    then have "clean_name n = n" using False assms(2) by (auto simp: all_clean_def)
    then show ?thesis by (simp split: prod.split)
  qed
qed

lemma forget_collision:
  assumes "distinct (map dv_name (r1 @ a # r2 @ b # r3))" and "dv_name b = clean_name (dv_name a)"
    and "all_clean (map dv_name (r1 @ r2 @ r3))" and "flagged sn (dv_name b)"
  defines "reg \<equiv> r1 @ a # r2 @ b # r3" and "fl \<equiv> \<lambda>v. flagged sn (dv_name v)"
  shows "fst (fold (forget flagged) (map dv_name reg) (reg, sn)) = filter fl r1 @ a # filter fl r2 @ filter fl r3"
    and "gentle flagged reg sn"
proof -
  let ?n = "map dv_name" and ?c = "dv_name b" and ?x = "filter fl r1"
  have clean: "all_clean (?n r1)" "all_clean (?n r2)" "all_clean (?n r3)" "clean_name ?c = ?c"
    using assms(2,3) by (simp_all add: all_clean_def ball_Un)
  have apart: "?c \<notin> dv_name ` set r1" "?c \<notin> dv_name ` set r2" "?c \<notin> dv_name ` set r3" "?c \<noteq> dv_name a"
    "\<And>v. v \<in> set r2 \<Longrightarrow> dv_name v \<notin> dv_name ` set r1" "\<And>v. v \<in> set r3 \<Longrightarrow> dv_name v \<notin> dv_name ` set r1 \<and> dv_name v \<notin> dv_name ` set r2"
    using assms(1) by auto
  have kept: "distinct (?n (filter P r1 @ a # filter Q r2 @ ys))" if "distinct (?n (r1 @ a # r2 @ ys))" for P Q ys
    using that by (simp add: distinct_map_filter) blast
  have "distinct (?n ([] @ r1 @ a # r2 @ b # r3))" using assms(1) by simp
  from forget_stretch [OF this clean(1), of sn] obtain sn1 where
    1: "fold (forget flagged) (?n r1) (reg, sn) = (?x @ a # r2 @ b # r3, sn1)"
      "\<And>n. flagged sn1 n \<longleftrightarrow> n \<notin> dv_name ` set r1 \<and> flagged sn n" unfolding reg_def fl_def append_Nil by metis
  have c1: "flagged sn1 ?c" using 1(2) apart(1) assms(4) by simp
  have "all_clean (?n (r1 @ r2 @ b # r3))" using clean by (simp add: all_clean_def ball_Un)
  then show "gentle flagged reg sn" using gentle_collision [of r1 a "r2 @ b # r3" sn] assms(1,2) 1(1) c1 unfolding reg_def by simp
  let ?sn2 = "put_binding False ?c Null sn1"
  have 2: "forget flagged (dv_name a) (?x @ a # r2 @ b # r3, sn1) = (?x @ a # r2 @ b # r3, ?sn2)"
    using c1 assms(2) by (simp add: forget_def Let_def)
  have unset: "flagged ?sn2 n \<longleftrightarrow> n \<noteq> ?c \<and> flagged sn1 n" for n by (simp add: flagged_def map_of_put_binding)
  have "distinct (?n ((?x @ [a]) @ r2 @ b # r3))" using kept [of "b # r3" fl "\<lambda>_. True"] assms(1) by simp
  from forget_stretch [OF this clean(2), of ?sn2] obtain sn3 where
    3: "fold (forget flagged) (?n r2) (?x @ a # r2 @ b # r3, ?sn2) = (?x @ a # filter (\<lambda>v. flagged ?sn2 (dv_name v)) r2 @ b # r3, sn3)"
      "\<And>n. flagged sn3 n \<longleftrightarrow> n \<notin> dv_name ` set r2 \<and> flagged ?sn2 n" by (metis append.assoc append_Cons append_Nil)
  have r2: "filter (\<lambda>v. flagged ?sn2 (dv_name v)) r2 = filter fl r2"
    unfolding unset 1(2) fl_def using apart(2,5) by (intro filter_cong) (auto simp: image_iff)
  let ?y = "?x @ a # filter fl r2" and ?sn4 = "remove_name ?c sn3"
  have "?c \<notin> dv_name ` set ?y" using apart(1,2,4) by auto
  moreover have "\<not> flagged sn3 ?c" using 3(2) unset by simp
  ultimately have 4: "forget flagged ?c (?y @ b # r3, sn3) = (?y @ r3, ?sn4)" "\<And>n. flagged ?sn4 n \<longleftrightarrow> n \<noteq> ?c \<and> flagged sn3 n"
    using forget_collided [of b ?y sn3, OF _ clean(4)] drop_device_absent [OF apart(3)] by simp_all
  have "distinct (?n (?y @ r3 @ []))" using kept [of r3 fl fl] assms(1) by simp
  from forget_stretch [OF this clean(3), of ?sn4] obtain sn5 where
    5: "fold (forget flagged) (?n r3) (?y @ r3, ?sn4) = (?y @ filter (\<lambda>v. flagged ?sn4 (dv_name v)) r3, sn5)"
    unfolding append_Nil2 by metis
  have r3: "filter (\<lambda>v. flagged ?sn4 (dv_name v)) r3 = filter fl r3"
    unfolding 4(2) 3(2) unset 1(2) fl_def using apart(3,6) by (intro filter_cong) (auto simp: image_iff)
  have "fold (forget flagged) (?n reg) (reg, sn) =
      fold (forget flagged) (?n r3) (forget flagged ?c (fold (forget flagged) (?n r2) (forget flagged (dv_name a) (fold (forget flagged) (?n r1) (reg, sn)))))"
    by (simp add: reg_def)
  also have "\<dots> = (?y @ filter fl r3, sn5)" unfolding 1(1) 2 3(1) r2 using 4(1) 5 r3 by simp
  finally show "fst (fold (forget flagged) (?n reg) (reg, sn)) = filter fl r1 @ a # filter fl r2 @ filter fl r3" by simp
qed

text \<open>
  C40 (two names with one clean form)  The loop that forgets devices uses the clean form of a name as
  the key.  Let one device be registered before another one whose name is the clean form of its own,
  and let the names of all others be their own clean forms.  If the second one is flagged as listed
  in this round, its flag is taken away when the loop stands on the first one, and it is deleted,
  with its dictionary of charts, although it was listed; the first one stays, whether it was listed
  or not.  Of the others those that were listed stay, in their order.
\<close>

theorem clean_names_collide:
  assumes "represents w p (r1 @ a # r2 @ b # r3) sn" and "dv_name b = clean_name (dv_name a)"
    and "all_clean (map dv_name (r1 @ r2 @ r3))" and "flagged sn (dv_name b)"
  shows "\<exists>w' sn'. delete_unseen (w, p) = Inr (w', p) \<and> w_dicts w' (dv_vars b) = None \<and>
    represents w' p (filter (\<lambda>v. flagged sn (dv_name v)) r1 @ a # filter (\<lambda>v. flagged sn (dv_name v)) (r2 @ r3)) sn'"
proof -
  let ?reg = "r1 @ a # r2 @ b # r3"
  note d = represents_names [OF assms(1)]
  note f = forget_collision [OF d assms(2-4)]
  from delete_unseen_ok [OF assms(1) f(2)] obtain w' where
    w': "delete_unseen (w, p) = Inr (w', p)"
      "represents w' p (filter (\<lambda>v. flagged sn (dv_name v)) r1 @ a # filter (\<lambda>v. flagged sn (dv_name v)) (r2 @ r3))
         (snd (fold (forget flagged) (map dv_name ?reg) (?reg, sn)))"
      "\<forall>k \<in> set ?reg. k \<notin> set (filter (\<lambda>v. flagged sn (dv_name v)) r1 @ a # filter (\<lambda>v. flagged sn (dv_name v)) (r2 @ r3)) \<longrightarrow>
         w_dicts w' (dv_vars k) = None"
    unfolding f(1) filter_append by (elim exE conjE) blast
  have "b \<notin> set (r1 @ a # r2 @ r3)" using d by auto
  then show ?thesis using w' by (intro exI conjI) auto
qed

theorem clean_names_collide_witness:
  "\<exists>w p s a b w' sn'. create_plugin 1 empty_world = Inr (w, p) \<and>
    list_loop (collect_ups (\<lambda>_. quiet) 0) (listing [(''a.b'', []), (''a_b'', [])]) (w, p) = Inr (Continue, s) \<and>
    represents (fst s) (snd s) [a, b] [(''a.b'', Addr 1), (''a_b'', Addr 1)] \<and> dv_name b = ''a_b'' \<and>
    delete_unseen s = Inr (w', snd s) \<and> represents w' (snd s) [a] sn'"
proof (rule sample_plugin)
  fix w p
  assume c: "create_plugin 1 empty_world = Inr (w, p)" "represents w p [] []" "p_out p = []" "netdata_update_every p = 1"
  have r: "represents_cat w p [] []" using c(2) by (auto simp: represents_cat_def intro: exI [of _ "[]"])
  have u: "\<forall>u \<in> fst ` set [(''a.b'', []), (''a_b'', [])]. u \<noteq> [] \<and> cstring u" by (simp add: cstring_def)
  let ?sn = "[(''a.b'', Addr 1), (''a_b'', Addr 1)]"
  from collect_listing [OF r u, of quiet 0] obtain w1 p1 where
    l: "list_loop (collect_ups (\<lambda>_. quiet) 0) (listing [(''a.b'', []), (''a_b'', [])]) (w, p) = Inr (Continue, w1, p1)"
      "represents_cat w1 p1 [(''a.b'', []), (''a_b'', [])] ?sn"
    by (auto simp: observe_def quiet_charts quiet_text flag_all_def put_binding_def)
  then obtain reg where reg: "represents w1 p1 reg ?sn" "catalogue reg = [(''a.b'', []), (''a_b'', [])]"
    by (auto simp: represents_cat_def)
  then obtain a b where ab: "reg = [a, b]" "dv_name a = ''a.b''" "dv_name b = ''a_b''"
    by (auto simp: catalogue_def map_eq_Cons_conv)
  have "dv_name b = clean_name (dv_name a)" "flagged ?sn (dv_name b)" using ab by (simp_all add: clean_name_def flagged_def)
  moreover have "represents w1 p1 ([] @ a # [] @ b # []) ?sn" "all_clean (map dv_name ([] @ [] @ []))" using reg(1) ab(1) by (simp_all add: all_clean_def)
  ultimately obtain w' sn' where d: "delete_unseen (w1, p1) = Inr (w', p1)" "represents w' p1 [a] sn'"
    using clean_names_collide [of w1 p1 "[]" a "[]" b "[]" ?sn] by auto
  show ?thesis
    using c(1) l(1) reg(1) ab d
    by (intro exI [of _ w] exI [of _ p] exI [of _ "(w1, p1)"] exI [of _ a] exI [of _ b] exI [of _ w'] exI [of _ sn']) simp
qed

section \<open>The shutdown\<close>

lemma destroy_view:
  assumes "overwriting l f d w" and "\<not> busy (entries w d)"
  shows "\<exists>w'. dictionary_destroy (Some d) w = Inr w' \<and> world_ok w' \<and> w_dicts w' d = None \<and>
    (\<forall>l f d'. d' \<noteq> d \<longrightarrow> overwriting l f d' w \<longrightarrow> untouched w w' d') \<and> (\<forall>q. w_dicts w q = None \<longrightarrow> w_dicts w' q = None)"
proof -
  obtain x where x: "ready w d x" using assms(1) by (auto simp: overwriting_def)
  from destroy_ok [OF x] assms(2) obtain w' where
    d: "dictionary_destroy (Some d) w = Inr w'" "world_ok w'" "destroyed d x w w'"
      "\<forall>d' y. d' \<noteq> d \<longrightarrow> ready w d' y \<longrightarrow> ready w' d' y \<and> untouched w w' d'" "\<forall>q. w_dicts w q = None \<longrightarrow> w_dicts w' q = None" by blast
  have "w_dicts w' d = None" using d(3) assms(2) by (simp add: destroyed_def freed_def)
  moreover have "\<forall>l f d'. d' \<noteq> d \<longrightarrow> overwriting l f d' w \<longrightarrow> untouched w w' d'" using d(4) by (auto simp: overwriting_def)
  ultimately show ?thesis using d(1,2,5) by blast
qed

lemma shut_down_ok:
  assumes "represents w p reg sn" and "all_clean (map dv_name reg)"
  shows "\<exists>w'. shut_down (w, p) = Inr (w', p) \<and> world_ok w' \<and>
    (\<forall>d \<in> {nd_ups_vars p, nd_ups_seen p, nd_ups_name p} \<union> dv_vars ` set reg. w_dicts w' d = None)"
proof -
  let ?v = "nd_ups_vars p" and ?s = "nd_ups_seen p" and ?n = "nd_ups_name p"
  have none: "fst (fold (forget (\<lambda>_ _. False)) (map dv_name reg) (reg, sn)) = []"
    unfolding discard_clean [OF assms(2)] by (simp add: filter_empty_conv)
  from delete_all_ok [OF assms(1) all_clean_gentle [OF assms(2)]] obtain w1 sn1 where
    l: "dfe_foreach (rounds w (Some ?n)) (Some ?n) LOCK_READ delete_each (w, p) = Inr (w1, p)" "represents w1 p [] sn1"
      "\<forall>k \<in> set reg. w_dicts w1 (dv_vars k) = None"
    unfolding none by auto
  have r: "overwriting True False ?v w1" "\<not> busy (entries w1 ?v)" "overwriting True False ?s w1" "\<not> busy (entries w1 ?s)"
    "overwriting False False ?n w1" "\<not> busy (entries w1 ?n)" "?v \<noteq> ?s" "?v \<noteq> ?n" "?s \<noteq> ?n"
    using l(2) by (simp_all add: represents_def devices_view_def link_view_def names_view_def)
  from destroy_view [OF r(1,2)] obtain w2 where
    a: "dictionary_destroy (Some ?v) w1 = Inr w2" "world_ok w2" "w_dicts w2 ?v = None"
      "\<And>l f d'. d' \<noteq> ?v \<Longrightarrow> overwriting l f d' w1 \<Longrightarrow> untouched w1 w2 d'" "\<And>q. w_dicts w1 q = None \<Longrightarrow> w_dicts w2 q = None" by blast
  have us: "untouched w1 w2 ?s" "untouched w1 w2 ?n"
    using a(4) [OF r(7) [symmetric] r(3)] a(4) [OF r(8) [symmetric] r(5)] .
  note o2 = overwriting_mono [OF r(3) a(2) us(1)] overwriting_mono [OF r(5) a(2) us(2)]
  have b2: "\<not> busy (entries w2 ?s)" "\<not> busy (entries w2 ?n)" using us r(4,6) by (simp_all add: untouched_def)
  from destroy_view [OF o2(1) b2(1)] obtain w3 where
    b: "dictionary_destroy (Some ?s) w2 = Inr w3" "world_ok w3" "w_dicts w3 ?s = None"
      "\<And>l f d'. d' \<noteq> ?s \<Longrightarrow> overwriting l f d' w2 \<Longrightarrow> untouched w2 w3 d'" "\<And>q. w_dicts w2 q = None \<Longrightarrow> w_dicts w3 q = None" by blast
  have u3: "untouched w2 w3 ?n" using b(4) [OF r(9) [symmetric] o2(2)] .
  have "\<not> busy (entries w3 ?n)" using u3 b2(2) by (simp add: untouched_def)
  from destroy_view [OF overwriting_mono [OF o2(2) b(2) u3] this] obtain w4 where
    c: "dictionary_destroy (Some ?n) w3 = Inr w4" "world_ok w4" "w_dicts w4 ?n = None" "\<And>q. w_dicts w3 q = None \<Longrightarrow> w_dicts w4 q = None"
    by blast
  have "shut_down (w, p) = Inr (w4, p)"
    using l(1) a(1) b(1) c(1) by (simp add: shut_down_def del: dictionary_destroy.simps rbind_Inr_iff)
  moreover have "\<forall>d \<in> {?v, ?s, ?n} \<union> dv_vars ` set reg. w_dicts w4 d = None" using l(3) a(3,5) b(3,5) c(3,4) by simp
  ultimately show ?thesis using c(2) by blast
qed

text \<open>
  C9 (the shutdown frees everything)  From any state that represents devices whose names are their own
  clean forms, the shutdown ends without an error.  None of the dictionaries of the plugin exists
  afterwards: not the three it starts with, and not the dictionary of charts of any device.
\<close>

theorem shut_down_frees_all:
  assumes "represents w p reg sn" and "all_clean (map dv_name reg)"
  shows "\<exists>w'. shut_down (w, p) = Inr (w', p) \<and> world_ok w' \<and>
    (\<forall>d \<in> {nd_ups_vars p, nd_ups_seen p, nd_ups_name p} \<union> dv_vars ` set reg. w_dicts w' d = None)"
  using shut_down_ok [OF assms] .

theorem shut_down_frees_all_witness:
  "\<exists>w p w1 p1 d w'. create_plugin 1 empty_world = Inr (w, p) \<and> register_ups (\<lambda>_. quiet) ''ups'' (w, p) = Inr (w1, p1) \<and>
    represents w1 p1 [\<lparr>dv_name = ''ups'', dv_vars = d, dv_charts = []\<rparr>] [] \<and>
    shut_down (w1, p1) = Inr (w', p1) \<and> w_dicts w' (nd_ups_name p1) = None \<and> w_dicts w' d = None"
proof (rule sample_plugin)
  fix w p
  assume c: "create_plugin 1 empty_world = Inr (w, p)" "represents w p [] []"
  have u: "''ups'' \<noteq> []" "cstring ''ups''" "''ups'' \<notin> dv_name ` set []" by (simp_all add: cstring_def)
  from register_ups_stable [OF c(2) u, of quiet] obtain w1 p1 d where
    r: "register_ups (\<lambda>_. quiet) ''ups'' (w, p) = Inr (w1, p1)" "represents w1 p1 [\<lparr>dv_name = ''ups'', dv_vars = d, dv_charts = []\<rparr>] []"
    by (auto simp: quiet_charts)
  have "all_clean (map dv_name [\<lparr>dv_name = ''ups'', dv_vars = d, dv_charts = []\<rparr>])" by (simp add: all_clean_def clean_name_def)
  from shut_down_frees_all [OF r(2) this] obtain w' where
    "shut_down (w1, p1) = Inr (w', p1)" "w_dicts w' (nd_ups_name p1) = None" "w_dicts w' d = None" by auto
  then show ?thesis using c(1) r by blast
qed

section \<open>States of the plugin\<close>

text \<open>
  The states that the plugin goes through once its dictionaries are made: devices are registered
  during the first listing, each of them once, and then collected and removed, in any order.  The
  names of devices are their own clean forms.  The answers of the server may change from one device
  to the next, but not while one device is registered or collected.
\<close>

inductive plugin_reachable :: "plugin_state \<Rightarrow> bool" where
  started: "world_ok w \<Longrightarrow> create_plugin update_every w = Inr s \<Longrightarrow> plugin_reachable s"
| registered: "plugin_reachable s \<Longrightarrow> u \<noteq> [] \<Longrightarrow> cstring u \<Longrightarrow> clean_name u = u \<Longrightarrow>
    u \<notin> fst ` set (bindings (fst s) (nd_ups_name (snd s))) \<Longrightarrow> register_ups (\<lambda>_. ans) u s = Inr s' \<Longrightarrow> plugin_reachable s'"
| collected: "plugin_reachable s \<Longrightarrow> u \<noteq> [] \<Longrightarrow> cstring u \<Longrightarrow> clean_name u = u \<Longrightarrow>
    collect_ups (\<lambda>_. ans) dt u s = Inr s' \<Longrightarrow> plugin_reachable s'"
| removed: "plugin_reachable s \<Longrightarrow> delete_unseen s = Inr s' \<Longrightarrow> plugin_reachable s'"

lemma observe_clean: "all_clean (map fst cat) \<Longrightarrow> clean_name u = u \<Longrightarrow> all_clean (map fst (snd (observe ans update_every dt u cat)))"
  unfolding observe_names by (auto simp: all_clean_def)

lemma flags_known:
  assumes "fst ` set sn \<subseteq> fst ` set cat"
  shows "fst ` set (put_binding False u v sn) \<subseteq> fst ` set (snd (observe ans update_every dt u cat))"
proof -
  have "set (map fst (snd (observe ans update_every dt u cat))) = insert u (fst ` set cat)" unfolding observe_names by auto
  then have "fst ` set (snd (observe ans update_every dt u cat)) = insert u (fst ` set cat)" unfolding set_map .
  moreover have "dom (map_of (put_binding False u v sn)) = insert u (dom (map_of sn))" by (auto simp: map_of_put_binding)
  then have "fst ` set (put_binding False u v sn) = insert u (fst ` set sn)" unfolding dom_map_of_conv_image_fst .
  ultimately show ?thesis using insert_mono [OF assms] by simp
qed

lemma flagged_bound: "flagged sn n \<Longrightarrow> n \<in> fst ` set sn"
  unfolding dom_map_of_conv_image_fst [symmetric] by (auto simp: flagged_def split: option.splits)

definition consistent :: "plugin_state \<Rightarrow> (string \<times> nat list) list \<Rightarrow> (string \<times> vptr) list \<Rightarrow> bool" where
  "consistent s cat sn \<longleftrightarrow> represents_cat (fst s) (snd s) cat sn \<and> all_clean (map fst cat) \<and> fst ` set sn \<subseteq> fst ` set cat"

lemma consistentD:
  assumes "consistent s cat sn"
  shows "represents_cat (fst s) (snd s) cat sn" "all_clean (map fst cat)" "fst ` set sn \<subseteq> fst ` set cat"
    "\<forall>n. flagged sn n \<longrightarrow> n \<in> fst ` set cat"
proof -
  show c: "represents_cat (fst s) (snd s) cat sn" "all_clean (map fst cat)" "fst ` set sn \<subseteq> fst ` set cat"
    using assms by (simp_all add: consistent_def)
  show "\<forall>n. flagged sn n \<longrightarrow> n \<in> fst ` set cat" using c(3) flagged_bound by blast
qed

lemma represents_bindings:
  assumes "represents w p reg sn"
  shows "map fst (bindings w (nd_ups_name p)) = map dv_name reg" "map fst (bindings w (nd_ups_vars p)) = map dv_name reg"
    "bindings w (nd_ups_seen p) = sn"
proof -
  have "names_view (nd_ups_name p) (map dv_name reg) w" using assms by (simp add: represents_def)
  then show "map fst (bindings w (nd_ups_name p)) = map dv_name reg" by (rule names_bindings(1))
  show "map fst (bindings w (nd_ups_vars p)) = map dv_name reg" "bindings w (nd_ups_seen p) = sn"
    using assms by (simp_all add: represents_def devices_view_def link_view_def comp_def)
qed

lemma registered_consistent:
  assumes "consistent s cat sn" and "u \<noteq> []" "cstring u" "clean_name u = u"
    and "u \<notin> fst ` set (bindings (fst s) (nd_ups_name (snd s)))" and "register_ups (\<lambda>_. ans) u s = Inr s'"
  shows "\<exists>cat' sn'. consistent s' cat' sn'"
proof -
  note c = consistentD [OF assms(1)]
  obtain w p where s: "s = (w, p)" by (cases s)
  obtain reg where reg: "represents w p reg sn" "catalogue reg = cat" using c(1) s by (auto simp: represents_cat_def)
  have "set (map fst (bindings w (nd_ups_name p))) = set (map dv_name reg)" using represents_bindings(1) [OF reg(1)] by simp
  then have "u \<notin> dv_name ` set reg" using assms(5) unfolding s fst_conv snd_conv set_map by simp
  from register_ups_stable [OF reg(1) assms(2,3) this, of ans] obtain w' p' d where
    w': "register_ups (\<lambda>_. ans) u (w, p) = Inr (w', p')"
      "represents w' p' (reg @ [\<lparr>dv_name = u, dv_vars = d, dv_charts = charts_from ans u 0\<rparr>]) sn" by (elim exE conjE)
  have "s' = (w', p')" using w'(1) assms(6) s by simp
  then have r: "represents (fst s') (snd s') (reg @ [\<lparr>dv_name = u, dv_vars = d, dv_charts = charts_from ans u 0\<rparr>]) sn" using w'(2) by simp
  have "represents_cat (fst s') (snd s') (cat @ [(u, charts_from ans u 0)]) sn"
    unfolding represents_cat_def by (rule exI, rule conjI, rule r) (simp add: reg(2))
  then have "consistent s' (cat @ [(u, charts_from ans u 0)]) sn" using c(2,3) assms(4) by (auto simp: consistent_def all_clean_def)
  then show ?thesis by (intro exI)
qed

lemma collected_consistent:
  assumes "consistent s cat sn" and "u \<noteq> []" "cstring u" "clean_name u = u" and "collect_ups (\<lambda>_. ans) dt u s = Inr s'"
  shows "\<exists>cat' sn'. consistent s' cat' sn'"
proof -
  note c = consistentD [OF assms(1)]
  let ?o = "observe ans (unat (netdata_update_every (snd s))) dt u cat" and ?sn = "put_binding False u (Addr 1) sn"
  have f: "follows (snd s) (Inr s') (fst ?o) (\<lambda>w'. represents_cat w' (snd s) (snd ?o) ?sn)"
    using collect_ups_follows [OF c(1) assms(2,3), of ans dt] assms(5) by simp
  then obtain out where out: "prints (snd s) out (snd s')" "represents_cat (fst s') (snd s) (snd ?o) ?sn"
    by (cases "fst ?o") (auto simp only: follows_def sum.case sum.distinct sum.inject fst_conv snd_conv)
  have "consistent s' (snd ?o) ?sn"
    unfolding consistent_def using represents_cat_prints [OF out(1)] out(2) observe_clean [OF c(2) assms(4)] flags_known [OF c(3)] by blast
  then show ?thesis by (intro exI)
qed

lemma removed_consistent:
  assumes "consistent s cat sn" and "delete_unseen s = Inr s'"
  shows "\<exists>cat' sn'. consistent s' cat' sn'"
proof -
  note c = consistentD [OF assms(1)]
  let ?cat = "filter (\<lambda>(n, _). flagged sn n) cat"
  from delete_unseen_clean [OF c(1,2,4)] obtain w' sn' where
    w': "delete_unseen (fst s, snd s) = Inr (w', snd s)" "represents_cat w' (snd s) ?cat sn'"
      "fst ` set sn \<subseteq> fst ` set cat \<longrightarrow> fst ` set sn' \<subseteq> fst ` set ?cat" by (elim exE conjE)
  have "s' = (w', snd s)" using w'(1) assms(2) by simp
  then have d: "represents_cat (fst s') (snd s') ?cat sn'" "fst ` set sn' \<subseteq> fst ` set ?cat" using w'(2,3) c(3) by simp_all
  have "all_clean (map fst ?cat)" using c(2) unfolding all_clean_def set_map filter_names by blast
  then have "consistent s' ?cat sn'" using d by (simp add: consistent_def)
  then show ?thesis by (intro exI)
qed

lemma reachable_consistent:
  assumes "plugin_reachable s"
  shows "\<exists>cat sn. consistent s cat sn"
  using assms
proof induction
  case (started w update_every s)
  from create_plugin_ok [OF started(1), of update_every] started(2) have "represents (fst s) (snd s) [] []" by auto
  then have "represents_cat (fst s) (snd s) [] []" by (auto simp: represents_cat_def intro: exI [of _ "[]"])
  then show ?case by (intro exI [of _ "[]"]) (simp add: consistent_def all_clean_def flagged_def)
next
  case (registered s u ans s')
  from registered(7) obtain cat sn where c: "consistent s cat sn" by (elim exE)
  from registered_consistent [OF c registered(2-6)] show ?case .
next
  case (collected s u ans dt s')
  from collected(6) obtain cat sn where c: "consistent s cat sn" by (elim exE)
  from collected_consistent [OF c collected(2-5)] show ?case .
next
  case (removed s s')
  from removed(3) obtain cat sn where c: "consistent s cat sn" by (elim exE)
  from removed_consistent [OF c removed(2)] show ?case .
qed

text \<open>
  C8 (the dictionaries stay consistent)  Every state that the plugin reaches, while the names of devices
  are their own clean forms, is well formed.  The dictionary of names and the dictionary of devices
  hold the same devices in the same order; the dictionary of flags holds only names of these, not
  necessarily all.  Each device has a dictionary of its own whose entries are charts of the table,
  every clean name is stored with its terminator, and no reference is left behind.  From each such
  state the removal of unseen devices and the shutdown succeed.  The answers of the server may change
  from one device to the next, but not while one device is handled, and the first listing names no
  device twice.
\<close>

theorem plugin_stays_consistent:
  assumes "plugin_reachable (w, p)"
  shows "\<exists>reg sn. represents w p reg sn \<and> all_clean (map dv_name reg) \<and> (\<forall>n. flagged sn n \<longrightarrow> n \<in> dv_name ` set reg) \<and>
    map fst (bindings w (nd_ups_name p)) = map dv_name reg \<and> map fst (bindings w (nd_ups_vars p)) = map dv_name reg \<and>
    fst ` set (bindings w (nd_ups_seen p)) \<subseteq> dv_name ` set reg \<and>
    (\<exists>s'. delete_unseen (w, p) = Inr s') \<and> (\<exists>s'. shut_down (w, p) = Inr s')"
proof -
  from reachable_consistent [OF assms] obtain cat sn where con: "consistent (w, p) cat sn" by (elim exE)
  note c = consistentD [OF con, simplified fst_conv snd_conv]
  from c(1) obtain reg where reg: "represents w p reg sn" "catalogue reg = cat" by (auto simp: represents_cat_def)
  have names: "map fst cat = map dv_name reg" using catalogue_simps(4) [of reg] reg(2) by simp
  have same: "fst ` set cat = dv_name ` set reg" using arg_cong [OF names, of set] by simp
  have known: "\<forall>n. flagged sn n \<longrightarrow> n \<in> dv_name ` set reg" using c(4) unfolding same by simp
  have held: "map fst (bindings w (nd_ups_name p)) = map dv_name reg" "map fst (bindings w (nd_ups_vars p)) = map dv_name reg"
    "bindings w (nd_ups_seen p) = sn" using represents_bindings [OF reg(1)] .
  have flags: "fst ` set (bindings w (nd_ups_seen p)) \<subseteq> dv_name ` set reg" using c(3) unfolding same held(3) .
  have ac: "all_clean (map dv_name reg)" using c(2) names by simp
  from delete_unseen_clean [OF c(1,2,4)] have gone: "\<exists>s'. delete_unseen (w, p) = Inr s'" by (elim exE conjE) (rule exI)
  from shut_down_ok [OF reg(1) ac] have down: "\<exists>s'. shut_down (w, p) = Inr s'" by (elim exE conjE) (rule exI)
  show ?thesis by (intro exI [of _ reg] exI [of _ sn] conjI reg(1) ac known held(1,2) flags gone down)
qed

theorem plugin_stays_consistent_witness:
  "\<exists>w p s w' p' reg sn. create_plugin 1 empty_world = Inr (w, p) \<and> register_ups (\<lambda>_. quiet) ''a'' (w, p) = Inr s \<and>
    collect_ups (\<lambda>_. quiet) 0 ''b'' s = Inr (w', p') \<and> represents w' p' reg sn \<and>
    map fst (bindings w' (nd_ups_vars p')) = [''a'', ''b''] \<and> map fst (bindings w' (nd_ups_seen p')) = [''b''] \<and>
    map fst (bindings w' (nd_ups_name p')) = [''a'', ''b'']"
proof (rule sample_plugin)
  fix w p
  assume c: "create_plugin 1 empty_world = Inr (w, p)" "represents w p [] []" "p_out p = []" "netdata_update_every p = 1"
  have u: "''a'' \<noteq> []" "cstring ''a''" "clean_name ''a'' = ''a''" "''b'' \<noteq> []" "cstring ''b''" "clean_name ''b'' = ''b''"
    by (simp_all add: cstring_def clean_name_def)
  from register_ups_stable [OF c(2) u(1,2), of quiet] obtain w1 p1 d where
    r: "register_ups (\<lambda>_. quiet) ''a'' (w, p) = Inr (w1, p1)" "represents w1 p1 [\<lparr>dv_name = ''a'', dv_vars = d, dv_charts = []\<rparr>] []"
    by (auto simp: quiet_charts)
  have "represents_cat w1 p1 [(''a'', [])] []" using r(2) by (auto simp: represents_cat_def intro!: exI)
  from collect_ups_follows [OF this u(4,5), of quiet 0] obtain w' p' out where
    l: "collect_ups (\<lambda>_. quiet) 0 ''b'' (w1, p1) = Inr (w', p')" "prints p1 out p'"
      "represents_cat w' p1 [(''a'', []), (''b'', [])] [(''b'', Addr 1)]"
    by (auto simp: follows_def observe_def quiet_charts quiet_text tjoin_def put_binding_def)
  have "bindings w (nd_ups_name p) = []" using c(2) represents_bindings(1) by fastforce
  then have "plugin_reachable (w1, p1)"
    using plugin_reachable.registered [OF plugin_reachable.started [OF empty_world_ok c(1)] u(1-3) _ r(1)] by simp
  then have "plugin_reachable (w', p')" by (rule plugin_reachable.collected [OF _ u(4-6) l(1)])
  from plugin_stays_consistent [OF this] obtain reg sn where
    s: "represents w' p' reg sn" "map fst (bindings w' (nd_ups_name p')) = map dv_name reg"
      "map fst (bindings w' (nd_ups_vars p')) = map dv_name reg" by (elim exE conjE)
  have "represents_cat w' p' [(''a'', []), (''b'', [])] [(''b'', Addr 1)]" using l(3) represents_cat_prints [OF l(2)] by simp
  then obtain reg' where reg': "represents w' p' reg' [(''b'', Addr 1)]" "catalogue reg' = [(''a'', []), (''b'', [])]"
    by (auto simp: represents_cat_def)
  note b = represents_bindings [OF reg'(1)]
  have n: "map dv_name reg' = [''a'', ''b'']" using catalogue_simps(4) [of reg'] reg'(2) by simp
  have "map fst (bindings w' (nd_ups_vars p')) = [''a'', ''b'']" "map fst (bindings w' (nd_ups_name p')) = [''a'', ''b'']"
    "map fst (bindings w' (nd_ups_seen p')) = [''b'']" using b(2,3) n s(2,3) by simp_all
  then show ?thesis using c(1) r(1) l(1) s(1) by (intro exI conjI)
qed

end
