(* ===== verification/Upsd_Run.thy ===== *)
theory Upsd_Run
  imports Upsd_Theorems
begin

text \<open>
  Whole runs of the plugin: from the command line over the first listing and any number of rounds of
  the main loop to the exit status.  The text on standard output is given by functions on the
  listings, the times of the beats and the answers of the server, without dictionaries.
\<close>

section \<open>The text of a run\<close>

definition listed_ok :: "(string \<times> string) list \<Rightarrow> bool" where
  "listed_ok us \<longleftrightarrow> (\<forall>u \<in> fst ` set us. u \<noteq> [] \<and> cstring u \<and> clean_name u = u)"

definition first_text :: "(string \<Rightarrow> string \<Rightarrow> string option) \<Rightarrow> nat \<Rightarrow> string list \<Rightarrow> string" where
  "first_text ans update_every us = concat (map (\<lambda>u. registration_text ans u update_every) us)"

definition first_catalogue :: "(string \<Rightarrow> string \<Rightarrow> string option) \<Rightarrow> string list \<Rightarrow> (string \<times> nat list) list" where
  "first_catalogue ans us = map (\<lambda>u. (u, charts_from ans u 0)) us"

text \<open>
  The rounds, each with the answers of the server, the time of its beat and the names that are
  listed, and a last one that collects nothing when the plugin is asked to exit before.
\<close>

type_synonym answers = "string \<Rightarrow> string \<Rightarrow> string option"

fun rounds_text ::
  "nat \<Rightarrow> usec \<Rightarrow> (answers \<times> usec \<times> string list) list \<Rightarrow> answers \<times> usec \<times> string list option \<Rightarrow> (string \<times> nat list) list \<Rightarrow> string res" where
  "rounds_text update_every before [] (ans, woke, final) cat =
     (case final of
        None \<Rightarrow> Inr []
      | Some us \<Rightarrow> fst (observe_all ans update_every (interval before woke) us cat))"
| "rounds_text update_every before ((ans, woke, us) # rs) final cat =
     (case observe_all ans update_every (interval before woke) us cat of
        (t, cat1) \<Rightarrow> tjoin t (rounds_text update_every woke rs final (kept us cat1)))"

text \<open>A round of a run: the answers of the server, what else it meets, and the devices of its listing.\<close>

type_synonym run_round = "answers \<times> round_env \<times> (string \<times> string) list"

definition smooth_round :: "int \<Rightarrow> run_round \<Rightarrow> bool" where
  "smooth_round started_t = (\<lambda>(_, r, us). smooth r started_t \<and> r_rows r = listing us \<and> listed_ok us)"

text \<open>The last round: the exit is asked for before or after the collection, or four hours have passed.\<close>

definition last_round :: "int \<Rightarrow> run_round \<Rightarrow> bool" where
  "last_round started_t = (\<lambda>(_, r, us).
     r_exit r \<or>
     r_list_start r \<and> \<not> r_broken_pipe r \<and> (r_exit_later r \<or> r_seconds r - started_t > 14400) \<and>
     r_rows r = listing us \<and> listed_ok us)"

definition met :: "run_round \<Rightarrow> nut \<times> round_env" where
  "met = (\<lambda>(ans, r, _). (\<lambda>_. ans, r))"

definition beat_of :: "run_round \<Rightarrow> answers \<times> usec \<times> string list" where
  "beat_of = (\<lambda>(ans, r, us). (ans, r_woke r, map fst us))"

definition last_beat :: "run_round \<Rightarrow> answers \<times> usec \<times> string list option" where
  "last_beat = (\<lambda>(ans, r, us). (ans, r_woke r, if r_exit r then None else Some (map fst us)))"

section \<open>The first listing\<close>

lemma register_listing:
  assumes "represents_cat w p cat sn" and "\<forall>u \<in> fst ` set us. u \<noteq> [] \<and> cstring u"
    and "distinct (map fst us)" and "fst ` set us \<inter> fst ` set cat = {}"
  shows "\<exists>w' p'. list_loop (register_ups (\<lambda>_. ans)) (listing us) (w, p) = Inr (Continue, w', p') \<and>
    prints p (first_text ans (unat (netdata_update_every p)) (map fst us)) p' \<and>
    represents_cat w' p' (cat @ first_catalogue ans (map fst us)) sn"
  using assms
proof (induction us arbitrary: w p cat)
  case Nil
  then show ?case by (simp add: list_loop_listing prints_refl first_text_def first_catalogue_def)
next
  case (Cons x us)
  obtain u descr where x: "x = (u, descr)" by (cases x)
  obtain reg where reg: "represents w p reg sn" "catalogue reg = cat" using Cons.prems(1) by (auto simp: represents_cat_def)
  have "fst ` set cat = dv_name ` set reg" using arg_cong [OF catalogue_simps(4) [of reg], of set] reg(2) by simp
  then have u: "u \<noteq> []" "cstring u" "u \<notin> dv_name ` set reg" using Cons.prems(2,4) x by auto
  from register_ups_stable [OF reg(1) u, of ans] obtain w1 p1 d where
    r: "register_ups (\<lambda>_. ans) u (w, p) = Inr (w1, p1)" "prints p (registration_text ans u (unat (netdata_update_every p))) p1"
      "represents w1 p1 (reg @ [\<lparr>dv_name = u, dv_vars = d, dv_charts = charts_from ans u 0\<rparr>]) sn" by blast
  let ?cat = "cat @ [(u, charts_from ans u 0)]"
  have c: "represents_cat w1 p1 ?cat sn" unfolding represents_cat_def by (rule exI, rule conjI, rule r(3)) (simp add: reg(2))
  have "\<forall>u \<in> fst ` set us. u \<noteq> [] \<and> cstring u" "distinct (map fst us)" "fst ` set us \<inter> fst ` set ?cat = {}"
    using Cons.prems(2-4) x by auto
  from Cons.IH [OF c this] obtain w' p' where
    l: "list_loop (register_ups (\<lambda>_. ans)) (listing us) (w1, p1) = Inr (Continue, w', p')"
      "prints p1 (first_text ans (unat (netdata_update_every p1)) (map fst us)) p'"
      "represents_cat w' p' (?cat @ first_catalogue ans (map fst us)) sn" by blast
  have "list_loop (register_ups (\<lambda>_. ans)) (listing (x # us)) (w, p) = Inr (Continue, w', p')"
    using r(1) l(1) x by (simp add: list_loop_listing)
  moreover have "prints p (first_text ans (unat (netdata_update_every p)) (map fst (x # us))) p'"
    using prints_trans [OF r(2) l(2)] prints_same(4) [OF r(2)] x by (simp add: first_text_def)
  moreover have "represents_cat w' p' (cat @ first_catalogue ans (map fst (x # us))) sn"
    using l(3) x by (simp add: first_catalogue_def)
  ultimately show ?case by (intro exI conjI)
qed

section \<open>The main loop\<close>

text \<open>An error of the collection ends the round.\<close>

lemma main_round_fails:
  assumes "represents_cat w p cat sn" and "\<forall>u \<in> fst ` set us. u \<noteq> [] \<and> cstring u"
    and "\<not> r_exit r" and "r_list_start r" and "r_rows r = listing us" and "hb_step hb \<noteq> 0" and "resolution \<noteq> 0"
    and "fst (observe_all ans (unat (netdata_update_every p)) (interval (hb_realtime hb) (r_woke r)) (map fst us) cat) = Inl err"
  shows "main_round (\<lambda>_. ans) resolution started_t r (hb, vs, w, p) = Inl err"
proof -
  let ?dt = "interval (hb_realtime hb) (r_woke r)"
  obtain hb' vs' where hb: "heartbeat_next resolution (r_now r) (r_woke r) hb vs = Inr (?dt, hb', vs')"
    using assms(6,7) by (simp add: heartbeat_next_def Let_def interval_def)
  have "list_loop (collect_ups (\<lambda>_. ans) ?dt) (listing us) (w, p) = Inl err"
    using collect_listing [OF assms(1,2), of ans ?dt] assms(8) by simp
  then show ?thesis using hb assms(3-5) by (simp add: main_round_def del: rbind_Inr_iff)
qed

lemma last_round_ok:
  assumes "represents_cat w p cat sn" and "all_clean (map fst cat)" and "last_round started_t (ans, r, us)"
    and "hb_step hb \<noteq> 0" and "resolution \<noteq> 0"
  shows "case rounds_text (unat (netdata_update_every p)) (hb_realtime hb) [] (last_beat (ans, r, us)) cat of
      Inl err \<Rightarrow> main_round (\<lambda>_. ans) resolution started_t r (hb, vs, w, p) = Inl err
    | Inr out \<Rightarrow> \<exists>hb' vs' w' p' cat' sn'. main_round (\<lambda>_. ans) resolution started_t r (hb, vs, w, p) = Inr (Break, hb', vs', w', p') \<and>
        prints p out p' \<and> represents_cat w' p' cat' sn' \<and> all_clean (map fst cat')"
proof -
  let ?dt = "interval (hb_realtime hb) (r_woke r)"
  obtain hb' vs' where hb: "heartbeat_next resolution (r_now r) (r_woke r) hb vs = Inr (?dt, hb', vs')"
    using assms(4,5) by (simp add: heartbeat_next_def Let_def interval_def)
  show ?thesis
  proof (cases "r_exit r")
    case True
    then have "main_round (\<lambda>_. ans) resolution started_t r (hb, vs, w, p) = Inr (Break, hb', vs', w, p)"
      using hb by (simp add: main_round_def del: rbind_Inr_iff)
    moreover have "rounds_text (unat (netdata_update_every p)) (hb_realtime hb) [] (last_beat (ans, r, us)) cat = Inr []"
      using True by (simp add: last_beat_def)
    ultimately show ?thesis unfolding sum.case using assms(1,2) prints_refl [of p] by (simp only: sum.case) (intro exI conjI, rule refl)
  next
    case False
    let ?o = "observe_all ans (unat (netdata_update_every p)) ?dt (map fst us) cat"
    have r: "r_list_start r" "\<not> r_broken_pipe r" "r_exit_later r \<or> r_seconds r - started_t > 14400" "r_rows r = listing us"
      and ok: "listed_ok us"
      and t: "rounds_text (unat (netdata_update_every p)) (hb_realtime hb) [] (last_beat (ans, r, us)) cat = fst ?o"
      using assms(3) False by (simp_all add: last_round_def last_beat_def)
    have us: "\<forall>u \<in> fst ` set us. u \<noteq> [] \<and> cstring u" using ok by (auto simp: listed_ok_def)
    show ?thesis
    proof (cases "fst ?o")
      case (Inl err)
      from main_round_fails [OF assms(1) us False r(1,4) assms(4,5) this] show ?thesis unfolding t Inl by simp
    next
      case (Inr out)
      from collect_listing [OF assms(1) us, of ans ?dt, unfolded Inr sum.case] obtain w1 p1 where
        l: "list_loop (collect_ups (\<lambda>_. ans) ?dt) (listing us) (w, p) = Inr (Continue, w1, p1)" "prints p out p1"
          "represents_cat w1 p1 (snd ?o) (flag_all (map fst us) sn)" by (elim exE conjE)
      have "main_round (\<lambda>_. ans) resolution started_t r (hb, vs, w, p) = Inr (Break, hb', vs', w1, p1)"
        using hb l(1) r False by (auto simp: main_round_def simp del: rbind_Inr_iff)
      moreover have "all_clean (map fst (snd ?o))"
        using assms(2) ok by (simp add: all_clean_def listed_ok_def observe_all_names ball_Un)
      ultimately show ?thesis unfolding t Inr sum.case using l(2,3) by (intro exI conjI)
    qed
  qed
qed

lemma main_loop_last:
  assumes "represents_cat w p cat sn" and "all_clean (map fst cat)" and "last_round started_t final" and "hb_step hb \<noteq> 0" and "resolution \<noteq> 0"
  shows "case rounds_text (unat (netdata_update_every p)) (hb_realtime hb) [] (last_beat final) cat of
      Inl err \<Rightarrow> main_loop resolution started_t [met final] (hb, vs, w, p) = Inl err
    | Inr out \<Rightarrow> \<exists>w' p'. main_loop resolution started_t [met final] (hb, vs, w, p) = Inr (NETDATA_PLUGIN_EXIT_AND_RESTART, w', p') \<and>
        prints p out p' \<and> world_ok w'"
proof -
  obtain ans r us where f: "final = (ans, r, us)" by (cases final)
  let ?t = "rounds_text (unat (netdata_update_every p)) (hb_realtime hb) [] (last_beat (ans, r, us)) cat"
  note l = last_round_ok [OF assms(1,2) assms(3) [unfolded f] assms(4,5), of vs]
  show ?thesis
  proof (cases ?t)
    case (Inl err)
    then show ?thesis using l unfolding f by (simp add: met_def)
  next
    case (Inr out)
    from l [unfolded Inr sum.case] obtain hb' vs' w' p' cat' sn' where
      m: "main_round (\<lambda>_. ans) resolution started_t r (hb, vs, w, p) = Inr (Break, hb', vs', w', p')" "prints p out p'"
        "represents_cat w' p' cat' sn'" "all_clean (map fst cat')" by (elim exE conjE)
    from m(3) obtain reg where reg: "represents w' p' reg sn'" "catalogue reg = cat'" by (auto simp: represents_cat_def)
    have ac: "all_clean (map dv_name reg)" using m(4) reg(2) catalogue_simps(4) [of reg] by simp
    from shut_down_ok [OF reg(1) ac] obtain w2 where d: "shut_down (w', p') = Inr (w2, p')" "world_ok w2" by (elim exE conjE)
    have "main_loop resolution started_t [met final] (hb, vs, w, p) = Inr (NETDATA_PLUGIN_EXIT_AND_RESTART, w2, p')"
      using m(1) d(1) f by (simp add: met_def del: rbind_Inr_iff)
    then show ?thesis unfolding f Inr sum.case using m(2) d(2) by (intro exI conjI)
  qed
qed

lemma main_loop_run:
  assumes "represents_cat w p cat sn" and "\<forall>n. \<not> flagged sn n" and "all_clean (map fst cat)"
    and "\<forall>x \<in> set rs. smooth_round started_t x" and "last_round started_t final" and "hb_step hb \<noteq> 0" and "resolution \<noteq> 0"
  shows "case rounds_text (unat (netdata_update_every p)) (hb_realtime hb) (map beat_of rs) (last_beat final) cat of
      Inl err \<Rightarrow> main_loop resolution started_t (map met rs @ [met final]) (hb, vs, w, p) = Inl err
    | Inr out \<Rightarrow> \<exists>w' p'. main_loop resolution started_t (map met rs @ [met final]) (hb, vs, w, p) =
        Inr (NETDATA_PLUGIN_EXIT_AND_RESTART, w', p') \<and> prints p out p' \<and> world_ok w'"
  using assms
proof (induction rs arbitrary: w p cat sn hb vs)
  case Nil
  from main_loop_last [OF Nil.prems(1,3,5-7), of vs] show ?case unfolding list.map append_Nil .
next
  case (Cons x rs)
  obtain ans r us where x: "x = (ans, r, us)" by (cases x)
  let ?every = "unat (netdata_update_every p)" and ?dt = "interval (hb_realtime hb) (r_woke r)"
  have r: "smooth r started_t" "r_rows r = listing us" "\<forall>u \<in> fst ` set us. u \<noteq> [] \<and> cstring u \<and> clean_name u = u"
    using Cons.prems(4) x by (simp_all add: smooth_round_def listed_ok_def)
  have us: "\<forall>u \<in> fst ` set us. u \<noteq> [] \<and> cstring u" using r(3) by blast
  obtain t cat1 where o: "observe_all ans ?every ?dt (map fst us) cat = (t, cat1)"
    by (cases "observe_all ans ?every ?dt (map fst us) cat")
  let ?rest = "rounds_text ?every (r_woke r) (map beat_of rs) (last_beat final) (kept (map fst us) cat1)"
  have t: "rounds_text ?every (hb_realtime hb) (map beat_of (x # rs)) (last_beat final) cat = tjoin t ?rest"
    using x o by (simp add: beat_of_def)
  show ?case
  proof (cases t)
    case (Inl err)
    have e: "\<not> r_exit r" "r_list_start r" using r(1) by (simp_all add: smooth_def)
    have "fst (observe_all ans ?every ?dt (map fst us) cat) = Inl err" unfolding o Inl by (rule fst_conv)
    from main_round_fails [OF Cons.prems(1) us e r(2) Cons.prems(6,7) this, of started_t vs] show ?thesis unfolding t Inl by (simp add: tjoin_def x met_def)
  next
    case (Inr out1)
    from main_round_ok [OF Cons.prems(1-3) r(3,1,2) Cons.prems(6,7) o [unfolded Inr], of vs] obtain vs' w1 p1 sn1 where
      m: "main_round (\<lambda>_. ans) resolution started_t r (hb, vs, w, p) = Inr (Continue, hb\<lparr>hb_realtime := r_woke r\<rparr>, vs', w1, p1)"
        "prints p out1 p1" "represents_cat w1 p1 (kept (map fst us) cat1) sn1" "\<forall>n. \<not> flagged sn1 n"
        "all_clean (map fst (kept (map fst us) cat1))" by (elim exE conjE)
    let ?hb = "hb\<lparr>hb_realtime := r_woke r\<rparr>"
    have rest: "\<forall>x \<in> set rs. smooth_round started_t x" "hb_step ?hb \<noteq> 0" using Cons.prems(4,6) by simp_all
    have loop: "main_loop resolution started_t (map met (x # rs) @ [met final]) (hb, vs, w, p) =
        main_loop resolution started_t (map met rs @ [met final]) (?hb, vs', w1, p1)"
      using m(1) by (simp add: x met_def del: rbind_Inr_iff)
    note ih = Cons.IH [OF m(3-5) rest(1) Cons.prems(5) rest(2) Cons.prems(7), of vs', unfolded prints_same(4) [OF m(2)]]
    have before: "hb_realtime ?hb = r_woke r" by simp
    show ?thesis
    proof (cases ?rest)
      case (Inl err)
      then show ?thesis using ih unfolding t \<open>t = Inr out1\<close> loop before by (simp add: tjoin_def)
    next
      case (Inr out2)
      then obtain w' p' where
        l: "main_loop resolution started_t (map met rs @ [met final]) (?hb, vs', w1, p1) = Inr (NETDATA_PLUGIN_EXIT_AND_RESTART, w', p')"
          "prints p1 out2 p'" "world_ok w'" using ih unfolding before by auto
      have "tjoin t ?rest = Inr (out1 @ out2)" using Inr \<open>t = Inr out1\<close> by (simp add: tjoin_def)
      moreover have "prints p (out1 @ out2) p'" by (rule prints_trans [OF m(2) l(2)])
      ultimately show ?thesis unfolding t loop l(1) using l(3) by (simp only: sum.case) (intro exI conjI, rule refl)
    qed
  qed
qed

section \<open>The program\<close>

lemma heartbeat_init_ok:
  assumes "hz \<noteq> 0" and "hz \<le> 1000000"
  obtains hb n vs' where "heartbeat_init hz hash tid step (k, vs) = Inr (hb, n, vs')" "hb_step hb \<noteq> 0" "hb_realtime hb = 0"
proof -
  have "unat (USEC_PER_SEC div hz) = 1000000 div unat hz" by (simp add: USEC_PER_SEC_def unat_div)
  moreover have "unat hz \<noteq> 0" "unat hz \<le> 1000000" using assms by (simp_all add: unat_eq_0 word_le_nat_alt)
  ultimately have "unat (USEC_PER_SEC div hz) \<noteq> 0" by (simp add: div_eq_0_iff)
  then have "USEC_PER_SEC div hz \<noteq> 0" by (metis unat_0)
  then have "\<exists>q. heartbeat_randomness hz h = Inr q" for h
    using assms(1) by (simp add: heartbeat_randomness_def Let_def USEC_PER_MS_def)
  then obtain q where "heartbeat_randomness hz (hash (if step = 0 then USEC_PER_SEC else step) k) = Inr q" by blast
  then show thesis using that by (simp add: heartbeat_init_def Let_def USEC_PER_SEC_def)
qed

text \<open>
  C1 (a run of the program)  Started with a valid interval and a server that can be reached, the program
  runs through any number of rounds until it is asked to exit or four hours have passed, and ends with
  the status that makes netdata start it again.  It has printed the registration of the devices of the
  first listing, then what each round prints for its own listing; the time in a line is the one since
  the beat before, and devices are registered when they are listed for the first time, or again.  If a
  status or a reading cannot be processed, the first such error is the error of the run.  Assumed are:
  listings without failures; names that are their own clean forms, and distinct in the first listing;
  a pipe that is not broken; a clock resolution that is not 0 and 1 to 1000000 ticks per second; and
  answers of the server that do not change within a listing, though from one to the next.
\<close>

theorem main_runs:
  assumes "world_ok w" and "parse_command_line ver args = Run update_every"
    and "su_init e" "su_connect1 e" "su_connect2 e" "su_list_start e" and "su_hz e \<noteq> 0" "su_hz e \<le> 1000000" "su_resolution e \<noteq> 0"
    and "su_rows e = listing us" "listed_ok us" "distinct (map fst us)"
    and "\<forall>x \<in> set rs. smooth_round (su_started e) x" and "last_round (su_started e) final"
  shows "case rounds_text (unat update_every) 0 (map beat_of rs) (last_beat final) (first_catalogue ans (map fst us)) of
      Inl err \<Rightarrow> main ver args (\<lambda>_. ans) e (map met rs @ [met final]) w = Inl err
    | Inr out \<Rightarrow> \<exists>w'. main ver args (\<lambda>_. ans) e (map met rs @ [met final]) w =
        Inr (NETDATA_PLUGIN_EXIT_AND_RESTART, first_text ans (unat update_every) (map fst us) @ out, w') \<and> world_ok w'"
proof -
  from create_plugin_ok [OF assms(1), of update_every] obtain w0 p0 where
    c: "create_plugin update_every w = Inr (w0, p0)" "represents w0 p0 [] []" "p_out p0 = []" "netdata_update_every p0 = update_every"
    by (elim exE conjE)
  have r0: "represents_cat w0 p0 [] []" using c(2) by (auto simp: represents_cat_def intro: exI [of _ "[]"])
  have us: "\<forall>u \<in> fst ` set us. u \<noteq> [] \<and> cstring u" "fst ` set us \<inter> fst ` set ([] :: (string \<times> nat list) list) = {}"
    and clean: "all_clean (map fst (first_catalogue ans (map fst us)))"
    using assms(11) by (auto simp: listed_ok_def all_clean_def first_catalogue_def)
  from register_listing [OF r0 us(1) assms(12) us(2), of ans] obtain w1 p1 where
    l: "list_loop (register_ups (\<lambda>_. ans)) (listing us) (w0, p0) = Inr (Continue, w1, p1)"
      "prints p0 (first_text ans (unat update_every) (map fst us)) p1" "represents_cat w1 p1 (first_catalogue ans (map fst us)) []"
    unfolding c(4) append_Nil by (elim exE conjE)
  obtain hb n vs where
    hb: "heartbeat_init (su_hz e) (su_hash e) (su_tid e) (update_every * USEC_PER_SEC) (0, su_statistics e) = Inr (hb, n, vs)"
      "hb_step hb \<noteq> 0" "hb_realtime hb = 0" by (rule heartbeat_init_ok [OF assms(7,8)])
  let ?loop = "main_loop (su_resolution e) (su_started e) (map met rs @ [met final]) (hb, vs, w1, p1)"
  have m: "main ver args (\<lambda>_. ans) e (map met rs @ [met final]) w = rbind ?loop (\<lambda>(rc, w, p). Inr (rc, p_out p, w))"
    using assms(2-6,10) c(1) l(1) hb(1) by (simp add: main_def del: rbind_Inr_iff main_loop.simps)
  have nf: "\<forall>n. \<not> flagged [] n" by (simp add: flagged_def)
  have every: "netdata_update_every p1 = update_every" using c(4) prints_same(4) [OF l(2)] by simp
  note run = main_loop_run [OF l(3) nf clean assms(13,14) hb(2) assms(9), of vs, unfolded hb(3) every]
  show ?thesis
  proof (cases "rounds_text (unat update_every) 0 (map beat_of rs) (last_beat final) (first_catalogue ans (map fst us))")
    case (Inl err)
    then show ?thesis using run unfolding m by simp
  next
    case (Inr out)
    from run [unfolded Inr sum.case] obtain w2 p2 where
      o: "?loop = Inr (NETDATA_PLUGIN_EXIT_AND_RESTART, w2, p2)" "prints p1 out p2" "world_ok w2" by (elim exE conjE)
    have "p_out p2 = first_text ans (unat update_every) (map fst us) @ out"
      using prints_same(5) [OF o(2)] prints_same(5) [OF l(2)] c(3) by simp
    then show ?thesis using o(1,3) unfolding Inr sum.case m by (intro exI [of _ w2]) simp
  qed
qed

definition sample_start :: start_env where
  "sample_start =
     \<lparr>su_init = True, su_connect1 = True, su_connect2 = True, su_list_start = True, su_rows = listing [(''a'', ''first'')],
       su_started = 0, su_resolution = 1000, su_hz = 100, su_hash = (\<lambda>_ _. 7), su_tid = 1,
       su_statistics = replicate 20 \<lparr>st_tid = 0, st_sequence = 0, st_dt = 0, st_randomness = 0\<rparr>\<rparr>"

definition sample_round :: "usec \<Rightarrow> bool \<Rightarrow> round_env" where
  "sample_round woke leave =
     \<lparr>r_now = woke - 1000, r_woke = woke, r_exit = leave, r_list_start = True, r_rows = listing [(''b'', ''second'')],
       r_broken_pipe = False, r_exit_later = False, r_seconds = 2\<rparr>"

text \<open>The same server when the power has failed.\<close>

definition alarmed :: "string \<Rightarrow> string \<Rightarrow> string option" where
  "alarmed u v = (if v = ''ups.status'' then Some ''OB'' else None)"

lemma alarmed_text: "ups_text alarmed u dt [] = Inr (status_lines (clean_name u) (zero_status\<lparr>OB := True\<rparr>) (unat dt))"
proof -
  have "parse_ups_status (Some ''OB'') = Inr (zero_status\<lparr>OB := True\<rparr>)"
    by (simp add: parse_ups_status_def status_loop.simps [of _ "a # b" for a b] status_loop.simps [of _ "[]"]
        status_switch_def skip_def advance_def)
  then show ?thesis by (simp add: ups_text_def status_text_def realpower_text_def realpower_reading_def alarmed_def)
qed

theorem main_runs_witness:
  "\<exists>w'. main [] [] (\<lambda>_. quiet) sample_start
      [(\<lambda>_. quiet, sample_round 1150000 False), (\<lambda>_. alarmed, sample_round 2150000 False), (\<lambda>_. quiet, sample_round 3150000 True)] empty_world =
     Inr (0, registration_text quiet ''a'' 1 @ registration_text quiet ''b'' 1 @
       status_lines ''b'' (zero_status\<lparr>OL := True\<rparr>) 0 @ status_lines ''b'' (zero_status\<lparr>OB := True\<rparr>) 1000000, w')"
proof -
  let ?us = "[(''a'', ''first'')]" and ?final = "(quiet, sample_round 3150000 True, [] :: (string \<times> string) list)"
    and ?rs = "[(quiet, sample_round 1150000 False, [(''b'', ''second'')]), (alarmed, sample_round 2150000 False, [(''b'', ''second'')])]"
  have 1: "parse_command_line [] [] = Run 1" by (simp add: parse_command_line_def)
  have 2: "su_init sample_start" "su_connect1 sample_start" "su_connect2 sample_start" "su_list_start sample_start"
    "su_hz sample_start \<noteq> 0" "su_hz sample_start \<le> 1000000" "su_resolution sample_start \<noteq> 0" "su_rows sample_start = listing ?us"
    by (simp_all add: sample_start_def)
  have 3: "listed_ok ?us" "distinct (map fst ?us)" by (simp_all add: listed_ok_def cstring_def clean_name_def)
  have 4: "\<forall>x \<in> set ?rs. smooth_round (su_started sample_start) x" "last_round (su_started sample_start) ?final"
    by (simp_all add: smooth_round_def smooth_def last_round_def sample_round_def sample_start_def listed_ok_def cstring_def clean_name_def)
  have b: "clean_name ''b'' = ''b''" by (simp add: clean_name_def)
  have 5: "rounds_text (unat (1 :: u64)) 0 (map beat_of ?rs) (last_beat ?final) (first_catalogue quiet (map fst ?us)) =
      Inr (registration_text quiet ''b'' 1 @ status_lines ''b'' (zero_status\<lparr>OL := True\<rparr>) 0 @ status_lines ''b'' (zero_status\<lparr>OB := True\<rparr>) 1000000)"
    by (simp add: beat_of_def last_beat_def sample_round_def first_catalogue_def observe_def quiet_charts quiet_text alarmed_text kept_def
        interval_def b tjoin_def)
  from main_runs [OF empty_world_ok 1 2 3 4, of quiet, unfolded 5 sum.case] show ?thesis
    by (elim exE conjE) (rule exI, simp add: met_def first_text_def NETDATA_PLUGIN_EXIT_AND_RESTART_def)
qed

end
