(* ===== verification/Spec2Isabelle.thy ===== *)
theory Spec2Isabelle
  imports Inlined_Hash Storage_Number Linked_List Simple_Pattern Circular_Buffer Avl_Index Upsd_Run
begin

text \<open>
  Verification of \<^verbatim>\<open>upsd.plugin\<close>, an external plugin of netdata that reports the uninterruptible power
  supplies known to a NUT server, together with the parts of netdata's C library that it runs on.

  \<^bold>\<open>The program.\<close>  \<^verbatim>\<open>src/upsd_plugin.c\<close> connects to a NUT server through \<^verbatim>\<open>libupsclient\<close>, registers
  every device of a first listing, and then repeats: wait for the heartbeat, list the devices, register
  those that are new, print the metrics of each, and forget the devices that were not listed.  After
  four hours, or when it is told to leave, it frees its dictionaries and exits with a status that tells
  the daemon whether to start it again.  What it prints on standard output are lines of netdata's plugin
  protocol, which the daemon splits into words and reads as numbers.  The library is
  \<^verbatim>\<open>src/netdata-2.6.0/src/libnetdata\<close>; the names of files below are relative to it.

  The plugin keeps three dictionaries: from a device to its clean name, to the flag that says whether it
  was seen, and to another dictionary with the charts it has.  These dictionaries carry most of its
  state, and rest on the linked lists, the reference counter and the reader/writer spinlock.

  \<^bold>\<open>How code becomes definitions.\<close>  A function that can fail returns \<open>c_error + 'a\<close>; every null
  dereference, access out of bounds, use after free, fatal exit, impossible conversion or lock that
  blocks for ever is a value of \<open>c_error\<close>, so that a theorem that some call is \<open>Inr\<close> says that none of
  these happens.  Structures are records, enumerations are datatypes, integers are words where their
  width can be seen and numbers elsewhere (sizes of arrays in memory, reference counts and numbers of
  items, which stay far below their bounds), and memory is a map from addresses to objects wherever the
  code shares or frees objects.  The definitions that model code can be evaluated.

  \<^bold>\<open>Theories.\<close>

  \<^item> \<^verbatim>\<open>C_Prelude\<close>: errors and sequencing (\<open>rbind\<close>, \<open>rfold\<close>), C strings, \<^verbatim>\<open>ctype.h\<close>, decimal printing.
  \<^item> \<^verbatim>\<open>Netdata_Double\<close>: the arithmetic of \<^verbatim>\<open>NETDATA_DOUBLE\<close> in binary64 with rounding.  \<^verbatim>\<open>Number_Codec\<close>:
    the integer printers of \<^verbatim>\<open>buffer/buffer.h\<close>; the locale \<open>digit_codec\<close> is the contract of a digit
    alphabet, with the hexadecimal and the base 64 alphabets as instances.  \<^verbatim>\<open>Inlined_Numbers\<close>,
    \<^verbatim>\<open>Inlined_Strings\<close>, \<^verbatim>\<open>Inlined_Hash\<close>: the functions of \<^verbatim>\<open>inlined.h\<close>.  Shown are the value that
    each reader gives to any string, the round trips between printers and readers, the accuracy of
    decimal fractions, what the copying functions leave in an array and that they stay inside it, and
    that the mixing functions are permutations.
  \<^item> \<^verbatim>\<open>Storage_Number\<close>: \<^verbatim>\<open>storage_number/\<close>, the 32 bits in which the daemon keeps a value: packing, unpacking
    and the flags.  Shown is how far an unpacked number can be from the one that was packed, with every
    rounding of the loops counted, that the flags are kept, and a number whose loss exceeds the accepted one.
  \<^item> \<^verbatim>\<open>Line_Splitter\<close>: \<^verbatim>\<open>line_splitter/\<close>, the daemon's side of the protocol.  The splitter finds the words
    of every line of bare and quoted words, and inverts \<^verbatim>\<open>line_splitter_reconstruct_line\<close>.
  \<^item> \<^verbatim>\<open>Linked_List\<close>: the macros of \<^verbatim>\<open>linked_lists/linked_lists.h\<close> on nodes in memory, each refined to the
    operation on lists; the locale \<open>list_builder\<close> has appending and prepending as instances.
  \<^item> \<^verbatim>\<open>Refcount\<close> and \<^verbatim>\<open>Rw_Spinlock\<close>: \<^verbatim>\<open>atomics/refcount.h\<close> and \<^verbatim>\<open>locks/rw-spinlock.c\<close>, once as a single
    thread sees them, and once as step relations that interleave the atomic steps of any number of
    threads.  Mutual exclusion is shown by rule induction on the reachable states.
  \<^item> \<^verbatim>\<open>Clocks\<close>: \<^verbatim>\<open>clocks/clocks.c\<close>, the heartbeat and the sleep, with the answers of the operating
    system as arguments.
  \<^item> \<^verbatim>\<open>Dictionary\<close>: the model of \<^verbatim>\<open>dictionary/\<close>, in the order of its files: reference counts, locks,
    index, items, creation and destruction, the public operations and the traversals.  The state is a
    record \<open>world\<close> with every object the code allocates.  \<^verbatim>\<open>Dictionary_Rep\<close> has the invariant \<open>inv\<close> of one
    dictionary and its list of entries, \<^verbatim>\<open>Dictionary_Ops\<close>, \<^verbatim>\<open>Dictionary_Set\<close>, \<^verbatim>\<open>Dictionary_Walk\<close> and
    \<^verbatim>\<open>Dictionary_Life\<close> what each operation does to it, \<^verbatim>\<open>Dictionary_World\<close> worlds with several
    dictionaries that share nothing.  \<^verbatim>\<open>Dictionary_Laws\<close> has the contract of a store of named values
    (locale \<open>key_value\<close>, instances for dictionaries that link and that clone their values), and
    \<^verbatim>\<open>Dictionary_Walk\<close> that of a loop over the items (locale \<open>visitor\<close>, with one instance for reading and
    three for the loops of the plugin).  \<^verbatim>\<open>Dictionary_Theorems\<close> has the properties.
  \<^item> \<^verbatim>\<open>Simple_Pattern\<close>: \<^verbatim>\<open>simple_pattern/\<close>.  The matcher, which goes from left to right through a chain of
    nodes, decides the language of the pattern, which is defined by recursion on its text alone.
  \<^item> \<^verbatim>\<open>Circular_Buffer\<close>: \<^verbatim>\<open>circular_buffer/\<close> on arrays of bytes that may be uninitialised.  The locale
    \<open>byte_queue\<close> is the contract of a queue, and the ring its instance.
  \<^item> \<^verbatim>\<open>Avl_Tree\<close>: \<^verbatim>\<open>avl/\<close> on elements in memory.  \<^verbatim>\<open>Avl_Memory\<close> relates memory to trees of the library type
    and to contexts, \<^verbatim>\<open>Avl_Insert\<close> and \<^verbatim>\<open>Avl_Remove\<close> follow the code down and up, and \<^verbatim>\<open>Avl_Index\<close> has the
    contract of an index (locale \<open>element_index\<close>), its instance and the properties.
  \<^item> \<^verbatim>\<open>Upsd_Status\<close>, \<^verbatim>\<open>Upsd_Protocol\<close>, \<^verbatim>\<open>Upsd_Plugin\<close>: the plugin.  The first has the parser of
    \<^verbatim>\<open>ups.status\<close>; the second the command line, the table of charts, the lines that are printed and the
    conversion of readings; the third the state, \<^verbatim>\<open>register_ups\<close>, the collection, the removal, the main
    loop and \<^verbatim>\<open>main\<close>.  \<^verbatim>\<open>Upsd_Registry\<close> reads the dictionaries as a list of devices with their charts and
    flags (\<open>represents\<close>, \<open>represents_cat\<close>); \<^verbatim>\<open>Upsd_Collect\<close> and \<^verbatim>\<open>Upsd_Removal\<close> describe the operations on
    that list; \<^verbatim>\<open>Upsd_Theorems\<close> has the properties of rounds, and \<^verbatim>\<open>Upsd_Run\<close> that of whole runs.

  \<^bold>\<open>What is shown of the whole.\<close>  A run with any number of rounds, whose listings are complete and have
  clean names, ends with the status that asks for a restart, and prints exactly a text that is given
  by functions on the listings, the times and the answers, without dictionaries; if that text is an
  error, because of a status or a reading that cannot be processed, so is the run.  A round keeps exactly
  the devices that were listed.  Every reachable state is consistent, and the shutdown frees
  everything.  A dictionary that is destroyed while its items are in use is freed by the first creation
  or destruction after their release.  What is printed is read back by the daemon's splitter and number readers.  Beside these
  stand the cases in which the code fails: statuses on which the parser leaves its string, a device
  with a power reading that must be computed, two devices with the same clean name, a flush of a
  dictionary with two items of one name, a sleep that ends early, and a counter that grants its deletion twice.

  \<^bold>\<open>Assumptions of the theorems.\<close>  \<^verbatim>\<open>libupsclient\<close> is not part of the sources: \<open>nut\<close> gives its answer to
  each query, and a listing is the sequence of its rows.  The program takes
  one \<open>nut\<close> for the first listing and one for each round.  The theorems about them take a server whose
  answers within one listing depend on the device and the variable only (\<open>\<lambda>_. ans\<close>), but can be others
  in the next one, and devices whose names are their own clean form; without the latter the loops that
  remove devices do fail, which is one of the properties.  A \<^verbatim>\<open>compar\<close> function of a tree is an argument that orders the elements by a key.

  \<^bold>\<open>Bounds.\<close>  Recursion that is not structural has a termination proof.  A loop along pointers gets a
  number of rounds, and \<open>Unfinished\<close> is an error, so that every theorem with \<open>Inr\<close> shows that the number
  is enough.  Loops over a dictionary get as many rounds as it has items (\<open>rounds\<close>), the loop that grows
  a ring as many as bytes can be added (\<open>grow_rounds\<close>), and a loop in a tree more than its height, which
  is at most 91 for fewer than \<open>2 ^ 45\<close> elements, more than fit the address space.  The main loop gets
  the list of what its rounds meet.

  \<^bold>\<open>Not modelled.\<close>  The dictionaries are those of one thread, which is how the plugin uses them;
  interleavings are modelled for the counter and the lock underneath.  Counters of statistics, log
  messages and the freeing of memory that nothing else can see are left out.  Of \<^verbatim>\<open>clocks.c\<close>, the choice
  of clocks at the start and the readers of the uptime only ask the operating system.  Of the buffer,
  only the integer printers are modelled: the plugin prints with \<^verbatim>\<open>printf\<close>.  Threads, sockets, processes,
  logging and the readers of the operating system are calls of the system.  The other parts of the
  library are not reached from the plugin, and the daemon, its database and the other collectors are
  programs of their own.
\<close>

end
